(* ===== verification/Prelude.thy ===== *)
theory Prelude
  imports Main "HOL-Library.Multiset" "HOL-Library.Monad_Syntax"
begin

text \<open>
  Shared vocabulary of the development: DIMACS literals, clauses and formulas over
  integer variables and their semantics; the three clauses of an AND gate; the C++
  standard containers the sources use (\<^verbatim>\<open>std::set\<close> with a comparator, \<^verbatim>\<open>std::sort\<close> and
  \<^verbatim>\<open>std::stable_sort\<close>, \<^verbatim>\<open>std::includes\<close>), each as an executable list function; and the
  interface of a comparator (locale \<open>comparator\<close>), from which the laws of the ordered
  containers follow once for all comparators of the program.
\<close>

named_theorems sat_simps \<open>truth of literals, clauses and formulas\<close>
named_theorems cont_simps \<open>contents of the standard containers\<close>

section \<open>Literals, clauses and formulas\<close>

type_synonym lit = int
type_synonym clause = "int list"
type_synonym cnf = "int list list"
type_synonym assignment = "int \<Rightarrow> bool"

definition lit_val :: "assignment \<Rightarrow> lit \<Rightarrow> bool" where
  "lit_val \<alpha> l = (if l < 0 then \<not> \<alpha> (- l) else \<alpha> l)"

definition sat_clause :: "assignment \<Rightarrow> clause \<Rightarrow> bool" where
  "sat_clause \<alpha> c = list_ex (lit_val \<alpha>) c"

definition sat_cnf :: "assignment \<Rightarrow> cnf \<Rightarrow> bool" where
  "sat_cnf \<alpha> F = list_all (sat_clause \<alpha>) F"

definition cube_true :: "assignment \<Rightarrow> lit list \<Rightarrow> bool" where
  "cube_true \<alpha> q = list_all (lit_val \<alpha>) q"

definition and_clauses :: "int \<Rightarrow> lit \<Rightarrow> lit \<Rightarrow> cnf" where
  "and_clauses out a b = [[- out, a], [- out, b], [out, - a, - b]]"

lemma lit_val_uminus [sat_simps]: "l \<noteq> 0 \<Longrightarrow> lit_val \<alpha> (- l) = (\<not> lit_val \<alpha> l)"
  by (auto simp: lit_val_def)

lemma lit_val_pos [sat_simps]: "0 \<le> v \<Longrightarrow> lit_val \<alpha> v = \<alpha> v"
  by (simp add: lit_val_def)

lemma lit_val_abs: "lit_val \<alpha> l = (if l < 0 then \<not> \<alpha> \<bar>l\<bar> else \<alpha> \<bar>l\<bar>)"
  by (simp add: lit_val_def)

lemma lit_val_cong: "\<alpha> \<bar>l\<bar> = \<beta> \<bar>l\<bar> \<Longrightarrow> lit_val \<alpha> l = lit_val \<beta> l"
  by (auto simp: lit_val_def split: if_splits)

lemma lit_val_pair: "v \<noteq> 0 \<Longrightarrow> lit_val \<alpha> (if b then v else - v) = (lit_val \<alpha> v = b)"
  by (simp add: sat_simps)

lemma sat_clause_Nil [sat_simps]: "\<not> sat_clause \<alpha> []"
  by (simp add: sat_clause_def)

lemma sat_clause_Cons [sat_simps]: "sat_clause \<alpha> (l # c) = (lit_val \<alpha> l \<or> sat_clause \<alpha> c)"
  by (simp add: sat_clause_def)

lemma sat_clause_set: "sat_clause \<alpha> c = (\<exists>l\<in>set c. lit_val \<alpha> l)"
  by (simp add: sat_clause_def list_ex_iff)

lemma sat_clause_append [sat_simps]: "sat_clause \<alpha> (c @ d) = (sat_clause \<alpha> c \<or> sat_clause \<alpha> d)"
  by (auto simp: sat_clause_set)

lemma sat_cnf_Nil [sat_simps]: "sat_cnf \<alpha> []"
  by (simp add: sat_cnf_def)

lemma sat_cnf_Cons [sat_simps]: "sat_cnf \<alpha> (c # F) = (sat_clause \<alpha> c \<and> sat_cnf \<alpha> F)"
  by (simp add: sat_cnf_def)

lemma sat_cnf_append [sat_simps]: "sat_cnf \<alpha> (F @ G) = (sat_cnf \<alpha> F \<and> sat_cnf \<alpha> G)"
  by (simp add: sat_cnf_def)

lemma sat_cnf_set: "sat_cnf \<alpha> F = (\<forall>c\<in>set F. sat_clause \<alpha> c)"
  by (simp add: sat_cnf_def list_all_iff)

lemma sat_cnf_concat [sat_simps]: "sat_cnf \<alpha> (concat Fs) = (\<forall>F\<in>set Fs. sat_cnf \<alpha> F)"
  by (auto simp: sat_cnf_set)

lemma cube_true_set: "cube_true \<alpha> q = (\<forall>l\<in>set q. lit_val \<alpha> l)"
  by (simp add: cube_true_def list_all_iff)

lemma cube_true_mono: "set p \<subseteq> set q \<Longrightarrow> cube_true \<alpha> q \<Longrightarrow> cube_true \<alpha> p"
  by (auto simp: cube_true_set)

lemma cube_true_Nil [simp]: "cube_true \<alpha> []"
  by (simp add: cube_true_def)

lemma sat_clause_negated_cube:
  "0 \<notin> set q \<Longrightarrow> sat_clause \<alpha> (map uminus q) = (\<not> cube_true \<alpha> q)"
proof -
  assume z: "0 \<notin> set q"
  have "sat_clause \<alpha> (map uminus q) = (\<exists>l\<in>set q. lit_val \<alpha> (- l))"
    by (simp add: sat_clause_set)
  also have "\<dots> = (\<exists>l\<in>set q. \<not> lit_val \<alpha> l)"
    using z by (metis lit_val_uminus)
  finally show ?thesis by (auto simp: cube_true_set)
qed

lemma sat_and_clauses [sat_simps]:
  "0 < out \<Longrightarrow> a \<noteq> 0 \<Longrightarrow> b \<noteq> 0 \<Longrightarrow>
   sat_cnf \<alpha> (and_clauses out a b) = (\<alpha> out = (lit_val \<alpha> a \<and> lit_val \<alpha> b))"
  by (auto simp: and_clauses_def sat_simps lit_val_def)

text \<open>The variables of a formula bound what an assignment must agree on.\<close>

definition lits_le :: "int \<Rightarrow> cnf \<Rightarrow> bool" where
  "lits_le n F = (\<forall>c\<in>set F. \<forall>l\<in>set c. \<bar>l\<bar> \<le> n)"

lemma lits_le_append [simp]: "lits_le n (F @ G) = (lits_le n F \<and> lits_le n G)"
  by (auto simp: lits_le_def)

lemma lits_le_mono: "lits_le n F \<Longrightarrow> n \<le> m \<Longrightarrow> lits_le m F"
  by (force simp: lits_le_def)

lemma sat_cnf_cong:
  assumes "lits_le n F" and "\<And>v. \<bar>v\<bar> \<le> n \<Longrightarrow> \<alpha> v = \<beta> v"
  shows "sat_cnf \<alpha> F = sat_cnf \<beta> F"
proof -
  have "lit_val \<alpha> l = lit_val \<beta> l" if "c \<in> set F" "l \<in> set c" for c l
    using assms that by (intro lit_val_cong) (auto simp: lits_le_def)
  then show ?thesis by (auto simp: sat_cnf_set sat_clause_set)
qed

section \<open>Ordered containers of the C++ standard library\<close>

fun set_insert :: "('a \<Rightarrow> 'a \<Rightarrow> bool) \<Rightarrow> 'a \<Rightarrow> 'a list \<Rightarrow> 'a list" where
  "set_insert lt x [] = [x]"
| "set_insert lt x (y # ys) =
     (if lt x y then x # y # ys
      else if lt y x then y # set_insert lt x ys
      else y # ys)"

definition set_has :: "('a \<Rightarrow> 'a \<Rightarrow> bool) \<Rightarrow> 'a \<Rightarrow> 'a list \<Rightarrow> bool" where
  "set_has lt x ys = list_ex (\<lambda>y. \<not> lt x y \<and> \<not> lt y x) ys"

fun stable_ins :: "('a \<Rightarrow> 'a \<Rightarrow> bool) \<Rightarrow> 'a \<Rightarrow> 'a list \<Rightarrow> 'a list" where
  "stable_ins lt x [] = [x]"
| "stable_ins lt x (y # ys) = (if lt y x then y # stable_ins lt x ys else x # y # ys)"

definition stable_sort_by :: "('a \<Rightarrow> 'a \<Rightarrow> bool) \<Rightarrow> 'a list \<Rightarrow> 'a list" where
  "stable_sort_by lt xs = foldr (stable_ins lt) xs []"

text \<open>\<^verbatim>\<open>std::includes\<close> on two ranges with a comparator, as the standard specifies the loop.\<close>

fun std_includes :: "('a \<Rightarrow> 'a \<Rightarrow> bool) \<Rightarrow> 'a list \<Rightarrow> 'a list \<Rightarrow> bool" where
  "std_includes lt xs [] = True"
| "std_includes lt [] (y # ys) = False"
| "std_includes lt (x # xs) (y # ys) =
     (if lt y x then False
      else if lt x y then std_includes lt xs (y # ys)
      else std_includes lt xs ys)"

lemma mset_stable_ins [cont_simps]: "mset (stable_ins lt x ys) = add_mset x (mset ys)"
  by (induction ys) auto

lemma mset_stable_sort_by [cont_simps]: "mset (stable_sort_by lt xs) = mset xs"
  by (induction xs) (auto simp: stable_sort_by_def mset_stable_ins)

lemma set_stable_sort_by [cont_simps]: "set (stable_sort_by lt xs) = set xs"
  using mset_stable_sort_by by (metis set_mset_mset)

lemma length_stable_sort_by [cont_simps]: "length (stable_sort_by lt xs) = length xs"
  using mset_stable_sort_by by (metis size_mset)

lemma distinct_stable_sort_by [cont_simps]: "distinct (stable_sort_by lt xs) = distinct xs"
  using mset_stable_sort_by by (metis mset_eq_imp_distinct_iff)

lemma set_set_insert_subset: "set (set_insert lt x ys) \<subseteq> insert x (set ys)"
  by (induction ys) auto

lemma set_insert_keeps: "set ys \<subseteq> set (set_insert lt x ys)"
  by (induction ys) auto

text \<open>
  What \<^verbatim>\<open>std::stable_sort\<close> asks of a comparator: a strict weak order. The result has no
  inversion; with \<open>mset_stable_sort_by\<close> it is the sorted rearrangement of its input.
\<close>

locale weak_order =
  fixes lt :: "'a \<Rightarrow> 'a \<Rightarrow> bool"
  assumes irrefl: "\<not> lt x x"
    and trans: "lt x y \<Longrightarrow> lt y z \<Longrightarrow> lt x z"
    and neg_trans: "lt x z \<Longrightarrow> lt x y \<or> lt y z"
begin

lemma stable_ins_ordered:
  "sorted_wrt (\<lambda>x y. \<not> lt y x) ys \<Longrightarrow> sorted_wrt (\<lambda>x y. \<not> lt y x) (stable_ins lt x ys)"
proof (induction ys)
  case Nil
  then show ?case by simp
next
  case (Cons y ys)
  have s: "set (stable_ins lt x ys) = insert x (set ys)"
    by (metis mset_stable_ins set_mset_add_mset_insert set_mset_mset)
  show ?case
  proof (cases "lt y x")
    case True
    then have "\<not> lt x y" using irrefl trans by blast
    then show ?thesis using True Cons s by simp
  next
    case False
    have "\<not> lt z x" if "z \<in> set ys" for z
      using Cons.prems that False neg_trans [of z x y] by auto
    then show ?thesis using False Cons by simp
  qed
qed

lemma stable_sort_by_ordered: "sorted_wrt (\<lambda>x y. \<not> lt y x) (stable_sort_by lt xs)"
  by (induction xs) (simp_all add: stable_sort_by_def stable_ins_ordered)

end

text \<open>
  The laws a comparator class of the program promises: it is a strict order whose
  incomparable elements are equal. Every ordered container over such a comparator is a
  set of its elements, kept in strictly increasing order.
\<close>

locale comparator =
  fixes lt :: "'a \<Rightarrow> 'a \<Rightarrow> bool"
  assumes lt_irrefl: "\<not> lt x x"
    and lt_trans: "lt x y \<Longrightarrow> lt y z \<Longrightarrow> lt x z"
    and lt_total: "x \<noteq> y \<Longrightarrow> lt x y \<or> lt y x"
begin

lemma equiv_eq: "(\<not> lt x y \<and> \<not> lt y x) = (x = y)"
  using lt_irrefl lt_total by blast

lemma set_has_iff: "set_has lt x ys = (x \<in> set ys)"
  by (auto simp: set_has_def list_ex_iff equiv_eq)

lemma set_insert_set: "set (set_insert lt x ys) = insert x (set ys)"
  by (induction ys) (use lt_total in auto)

lemma set_insert_sorted: "sorted_wrt lt ys \<Longrightarrow> sorted_wrt lt (set_insert lt x ys)"
proof (induction ys)
  case Nil
  then show ?case by simp
next
  case (Cons y ys)
  then show ?case
    using lt_trans by (auto simp: set_insert_set)
qed

lemma sorted_distinct: "sorted_wrt lt ys \<Longrightarrow> distinct ys"
  using lt_irrefl by (induction ys) auto

lemma stable_ins_sorted: "sorted_wrt lt ys \<Longrightarrow> x \<notin> set ys \<Longrightarrow> sorted_wrt lt (stable_ins lt x ys)"
proof (induction ys)
  case Nil
  then show ?case by simp
next
  case (Cons y ys)
  have s: "set (stable_ins lt x ys) = insert x (set ys)"
    by (metis mset_stable_ins set_mset_add_mset_insert set_mset_mset)
  show ?case
  proof (cases "lt y x")
    case True
    with Cons s show ?thesis by auto
  next
    case False
    with Cons.prems have "lt x y" using lt_total by auto
    with False Cons.prems show ?thesis using lt_trans by auto
  qed
qed

lemma stable_sort_by_sorted: "distinct xs \<Longrightarrow> sorted_wrt lt (stable_sort_by lt xs)"
proof (induction xs)
  case Nil
  then show ?case by (simp add: stable_sort_by_def)
next
  case (Cons x xs)
  have "x \<notin> set (stable_sort_by lt xs)"
    using Cons.prems by (simp add: set_stable_sort_by)
  with Cons show ?case
    using stable_ins_sorted by (simp add: stable_sort_by_def)
qed

lemma sorted_unique:
  "sorted_wrt lt xs \<Longrightarrow> sorted_wrt lt ys \<Longrightarrow> set xs = set ys \<Longrightarrow> xs = ys"
proof (induction xs arbitrary: ys)
  case Nil
  then show ?case by simp
next
  case (Cons x xs)
  then obtain y zs where ys: "ys = y # zs" by (cases ys) auto
  have "x = y"
  proof (rule ccontr)
    assume ne: "x \<noteq> y"
    then have "y \<in> set xs" and "x \<in> set zs" using Cons.prems ys by auto
    then have "lt x y" and "lt y x" using Cons.prems ys by auto
    then show False using lt_trans lt_irrefl by blast
  qed
  have "x \<notin> set xs" and "x \<notin> set zs"
    using Cons.prems sorted_distinct ys \<open>x = y\<close> by fastforce+
  then have "set xs = set zs" using Cons.prems(3) ys \<open>x = y\<close> by auto
  then show ?case using Cons ys \<open>x = y\<close> by auto
qed

end

sublocale comparator \<subseteq> order: weak_order lt
proof unfold_locales
  show "\<not> lt x x" for x by (rule lt_irrefl)
  show "lt x y \<Longrightarrow> lt y z \<Longrightarrow> lt x z" for x y z by (rule lt_trans)
  show "lt x z \<Longrightarrow> lt x y \<or> lt y z" for x y z using lt_total [of x y] lt_trans [of y x z] by auto
qed

section \<open>Vectors, decimal numerals\<close>

text \<open>\<^verbatim>\<open>operator[]\<close> of a vector: outside the vector the behaviour is undefined, \<open>None\<close>.\<close>

definition vec_at :: "'a list \<Rightarrow> int \<Rightarrow> 'a option" where
  "vec_at xs i = (if 0 \<le> i \<and> i < int (length xs) then Some (xs ! nat i) else None)"

lemma vec_at_Some: "vec_at xs i = Some x \<longleftrightarrow> 0 \<le> i \<and> i < int (length xs) \<and> x = xs ! nat i"
  by (auto simp: vec_at_def)

fun show_nat :: "nat \<Rightarrow> string" where
  "show_nat n =
     (if n < 10 then [char_of (48 + n)]
      else show_nat (n div 10) @ [char_of (48 + n mod 10)])"

declare show_nat.simps [simp del]

definition show_int :: "int \<Rightarrow> string" where
  "show_int i = (if i < 0 then CHR ''-'' # show_nat (nat (- i)) else show_nat (nat i))"

definition newline :: string where "newline = [CHR 0x0A]"

lemma those_Some_conv:
  "those (map f xs) = Some ys \<longleftrightarrow> length ys = length xs \<and> (\<forall>i<length xs. f (xs ! i) = Some (ys ! i))"
proof (induction xs arbitrary: ys)
  case Nil
  then show ?case by auto
next
  case (Cons x xs)
  show ?case
  proof (cases ys)
    case Nil
    then show ?thesis by (auto split: option.splits)
  next
    case (Cons y zs)
    then show ?thesis
      using Cons.IH by (auto split: option.splits simp: nth_Cons less_Suc_eq_0_disj)
  qed
qed

text \<open>A \<^verbatim>\<open>for\<close> loop whose body may abort.\<close>

fun fold_opt :: "('a \<Rightarrow> 's \<Rightarrow> 's option) \<Rightarrow> 'a list \<Rightarrow> 's \<Rightarrow> 's option" where
  "fold_opt f [] s = Some s"
| "fold_opt f (x # xs) s = do { s' \<leftarrow> f x s; fold_opt f xs s' }"

lemma fold_opt_append: "fold_opt f (xs @ ys) s = do { s' \<leftarrow> fold_opt f xs s; fold_opt f ys s' }"
  by (induction xs arbitrary: s) (auto split: bind_splits)

lemma fold_opt_inv:
  assumes "fold_opt f xs s = Some s'" and "I s"
    and "\<And>x t t'. x \<in> set xs \<Longrightarrow> I t \<Longrightarrow> f x t = Some t' \<Longrightarrow> I t'"
  shows "I s'"
  using assms by (induction xs arbitrary: s) (auto simp: bind_eq_Some_conv)

end
