(* ===== verification/Basic.thy ===== *)
theory Basic
  imports Prelude "HOL-Library.Word"
begin

text \<open>
  \<^verbatim>\<open>src/basic.hpp\<close>: the packed literal class, the three-valued \<^verbatim>\<open>lbool\<close> with its table
  lookups, the translation between AIGER and DIMACS literals, and the checks of numeric
  command line arguments. Machine integers keep their width: \<^verbatim>\<open>int\<close> values of the literal
  class are 32-bit words, \<^verbatim>\<open>short\<close> values of \<^verbatim>\<open>lbool\<close> are 16-bit words. The two literal
  translations work on \<open>int\<close>; \<open>aiger_to_dimacs_range\<close> shows that no machine
  value overflows there.
\<close>

unbundle bit_operations_syntax

definition INT_MAX :: int where
  "INT_MAX = 2147483647"

definition INT_MIN :: int where
  "INT_MIN = - 2147483648"

section \<open>The compile-time switches\<close>

text \<open>The \<^verbatim>\<open>#define\<close>s of \<^verbatim>\<open>basic.hpp\<close> that select code of the model.\<close>

definition use_heuristic :: bool where "use_heuristic = True"
definition use_earliest_strengthened_frame :: bool where "use_earliest_strengthened_frame = True"
definition use_punishment :: bool where "use_punishment = True"
definition restart :: bool where "restart = False"

lemmas switches [simp] =
  use_heuristic_def use_earliest_strengthened_frame_def use_punishment_def restart_def

section \<open>Packed literals\<close>

record Literal =
  lval :: "32 word"

definition mkLit :: "32 word \<Rightarrow> bool \<Rightarrow> Literal" where
  "mkLit var sign = \<lparr>lval = var + var + of_bool sign\<rparr>"

definition Literal_eq :: "Literal \<Rightarrow> Literal \<Rightarrow> bool" where
  "Literal_eq p q = (lval p = lval q)"

definition Literal_neq :: "Literal \<Rightarrow> Literal \<Rightarrow> bool" where
  "Literal_neq p q = (lval p \<noteq> lval q)"

definition Literal_less :: "Literal \<Rightarrow> Literal \<Rightarrow> bool" where
  "Literal_less p q = (sint (lval p) < sint (lval q))"

definition Literal_not :: "Literal \<Rightarrow> Literal" where
  "Literal_not p = \<lparr>lval = lval p XOR 1\<rparr>"

definition Literal_xor :: "Literal \<Rightarrow> bool \<Rightarrow> Literal" where
  "Literal_xor p b = \<lparr>lval = lval p XOR of_bool b\<rparr>"

definition get_sign :: "Literal \<Rightarrow> bool" where
  "get_sign p = (lval p AND 1 \<noteq> 0)"

definition get_var :: "Literal \<Rightarrow> 32 word" where
  "get_var p = signed_drop_bit 1 (lval p)"

section \<open>Three-valued booleans\<close>

record lbool =
  lvalue :: "16 word"

definition lbool_of_bool :: "bool \<Rightarrow> lbool" where
  "lbool_of_bool x = \<lparr>lvalue = of_bool (\<not> x)\<rparr>"

definition l_True :: lbool where "l_True = \<lparr>lvalue = 0\<rparr>"
definition l_False :: lbool where "l_False = \<lparr>lvalue = 1\<rparr>"
definition l_Undef :: lbool where "l_Undef = \<lparr>lvalue = 2\<rparr>"

definition lbool_eq :: "lbool \<Rightarrow> lbool \<Rightarrow> bool" where
  "lbool_eq a b =
     (((lvalue b AND 2) AND (lvalue a AND 2)) OR
      (of_bool (lvalue b AND 2 = 0) AND of_bool (lvalue a = lvalue b)) \<noteq> 0)"

definition lbool_neq :: "lbool \<Rightarrow> lbool \<Rightarrow> bool" where
  "lbool_neq a b = (\<not> lbool_eq a b)"

definition lbool_xor :: "lbool \<Rightarrow> bool \<Rightarrow> lbool" where
  "lbool_xor a b = \<lparr>lvalue = lvalue a XOR of_bool b\<rparr>"

definition lbool_table :: "32 word \<Rightarrow> lbool \<Rightarrow> lbool \<Rightarrow> lbool" where
  "lbool_table t a b =
     (let sel = push_bit 1 (lvalue a) OR push_bit 3 (lvalue b)
      in \<lparr>lvalue = ucast (drop_bit (unat sel) t AND 3)\<rparr>)"

definition lbool_and :: "lbool \<Rightarrow> lbool \<Rightarrow> lbool" where
  "lbool_and a b = lbool_table 0xF7F755F4 a b"

definition lbool_or :: "lbool \<Rightarrow> lbool \<Rightarrow> lbool" where
  "lbool_or a b = lbool_table 0xFCFCF400 a b"

definition toInt :: "lbool \<Rightarrow> int" where
  "toInt l = sint (lvalue l)"

definition toLbool :: "int \<Rightarrow> lbool" where
  "toLbool v = \<lparr>lvalue = word_of_int v\<rparr>"

section \<open>AIGER and DIMACS literals\<close>

text \<open>Variable 1 of the DIMACS numbering is the constant; AIGER variable v is DIMACS v + 1.\<close>

definition aiger_to_dimacs :: "int \<Rightarrow> int" where
  "aiger_to_dimacs l =
     (let res = l div 2 in if l mod 2 = 1 then - res - 1 else res + 1)"

definition dimacs_to_aiger :: "int \<Rightarrow> int" where
  "dimacs_to_aiger l =
     (let res = (\<bar>l\<bar> - 1) * 2 in if l < 0 then res + 1 else res)"

section \<open>Checks of numeric arguments\<close>

definition isdigit :: "char \<Rightarrow> bool" where
  "isdigit c = (48 \<le> (of_char c :: nat) \<and> (of_char c :: nat) \<le> 57)"

definition isNumber :: "string \<Rightarrow> bool" where
  "isNumber str = (if str = [] then False else list_all isdigit str)"

text \<open>
  \<^verbatim>\<open>std::atoi\<close> on a string of digits; the standard leaves the result undefined when it is
  not representable as \<^verbatim>\<open>int\<close>, which is the value \<open>None\<close>.
\<close>

definition digits_value :: "string \<Rightarrow> int" where
  "digits_value s = foldl (\<lambda>n c. n * 10 + (int (of_char c :: nat) - 48)) 0 s"

definition atoi :: "string \<Rightarrow> int option" where
  "atoi s = (let n = digits_value (takeWhile isdigit s) in if n \<le> INT_MAX then Some n else None)"

datatype warning = NotANumber | OutOfRange

definition validateInput :: "string \<Rightarrow> int \<Rightarrow> int \<Rightarrow> int \<Rightarrow> (int \<times> warning option) option" where
  "validateInput v lo hi dflt =
     (if \<not> isNumber v then Some (dflt, Some NotANumber)
      else do {
        num \<leftarrow> atoi v;
        if num < lo \<or> hi < num then Some (dflt, Some OutOfRange)
        else Some (num, None)
      })"

section \<open>Properties\<close>

lemma get_sign_mkLit: "get_sign (mkLit v s) = s"
proof -
  have "odd (v + v + of_bool s) = s"
    by (cases s) (simp_all add: mult_2 [symmetric])
  then have "(v + v + of_bool s) AND 1 = (of_bool s :: 32 word)"
    by (simp add: and_one_eq mod_2_eq_odd)
  then show ?thesis by (simp add: get_sign_def mkLit_def)
qed

lemma Literal_not_mkLit: "Literal_not (mkLit v s) = mkLit v (\<not> s)"
proof -
  have e: "even (v + v)" by (simp add: mult_2 [symmetric])
  have "(v + v + of_bool s) XOR 1 = v + v + of_bool (\<not> s)"
    using e by (cases s) (simp_all add: xor_one_eq)
  then show ?thesis by (simp add: Literal_not_def mkLit_def)
qed

lemma aiger_to_dimacs_nonzero: "0 \<le> l \<Longrightarrow> aiger_to_dimacs l \<noteq> 0"
  by (auto simp: aiger_to_dimacs_def Let_def)

lemma aiger_to_dimacs_abs: "0 \<le> l \<Longrightarrow> \<bar>aiger_to_dimacs l\<bar> = l div 2 + 1"
  by (auto simp: aiger_to_dimacs_def Let_def)

text \<open>
  C17. The two literal numberings are inverse to each other on every literal of an AIGER
  file that a 32-bit signed integer can hold, and no intermediate value of either
  direction leaves the range of \<^verbatim>\<open>int\<close>.
\<close>

theorem aiger_dimacs_roundtrip:
  assumes "0 \<le> l" and "l \<le> INT_MAX"
  shows "dimacs_to_aiger (aiger_to_dimacs l) = l
     \<and> INT_MIN \<le> aiger_to_dimacs l \<and> aiger_to_dimacs l \<le> INT_MAX
     \<and> (\<bar>aiger_to_dimacs l\<bar> - 1) * 2 \<le> INT_MAX"
  using assms
  by (auto simp: aiger_to_dimacs_def dimacs_to_aiger_def INT_MAX_def INT_MIN_def Let_def)
     presburger+

theorem aiger_dimacs_roundtrip_witness:
  "dimacs_to_aiger (aiger_to_dimacs 13) = 13 \<and> aiger_to_dimacs 13 = - 7"
  using aiger_dimacs_roundtrip [of 13] by (simp add: INT_MAX_def aiger_to_dimacs_def)

definition lbool_of :: "bool option \<Rightarrow> lbool" where
  "lbool_of x = (case x of None \<Rightarrow> l_Undef | Some b \<Rightarrow> lbool_of_bool b)"

definition kleene_and :: "bool option \<Rightarrow> bool option \<Rightarrow> bool option" where
  "kleene_and x y =
     (if x = Some False \<or> y = Some False then Some False
      else if x = None \<or> y = None then None else Some True)"

definition kleene_or :: "bool option \<Rightarrow> bool option \<Rightarrow> bool option" where
  "kleene_or x y =
     (if x = Some True \<or> y = Some True then Some True
      else if x = None \<or> y = None then None else Some False)"

lemmas lbool_defs = lbool_of_def kleene_and_def kleene_or_def l_True_def l_False_def
  l_Undef_def lbool_of_bool_def lbool_eq_def lbool_and_def lbool_or_def lbool_table_def

lemma lbool_of_cases: "x \<in> {None, Some True, Some False}"
  by (cases x) auto

text \<open>
  C18. The shifted 32-bit tables behind \<^verbatim>\<open>operator &&\<close> and \<^verbatim>\<open>operator ||\<close> of \<^verbatim>\<open>lbool\<close> compute
  Kleene's three-valued conjunction and disjunction, up to the equality of \<^verbatim>\<open>lbool\<close>, which
  identifies every undefined value.
\<close>

theorem lbool_tables_kleene:
  "lbool_eq (lbool_and (lbool_of x) (lbool_of y)) (lbool_of (kleene_and x y))
   \<and> lbool_eq (lbool_or (lbool_of x) (lbool_of y)) (lbool_of (kleene_or x y))
   \<and> lbool_eq (lbool_of x) (lbool_of y) = (x = y)"
  using lbool_of_cases [of x] lbool_of_cases [of y]
  by (elim insertE emptyE) (simp_all add: lbool_defs)

text \<open>
  C19. A checked numeric argument is the decimal value of the text itself exactly when the text is a
  number within the given bounds, both included; otherwise it is the default, with a warning that says
  whether the text is no number or one out of range. The only text for
  which the result is undefined is a number beyond \<^verbatim>\<open>INT_MAX\<close>, where \<^verbatim>\<open>std::atoi\<close> is.
\<close>

theorem validateInput_cases:
  "(case validateInput v lo hi dflt of
      None \<Rightarrow> isNumber v \<and> INT_MAX < digits_value v
    | Some (r, Some NotANumber) \<Rightarrow> r = dflt \<and> \<not> isNumber v
    | Some (r, Some OutOfRange) \<Rightarrow> r = dflt \<and> isNumber v \<and> (digits_value v < lo \<or> hi < digits_value v)
    | Some (r, None) \<Rightarrow> isNumber v \<and> r = digits_value v \<and> lo \<le> r \<and> r \<le> hi)"
proof (cases "isNumber v")
  case False
  then show ?thesis by (simp add: validateInput_def)
next
  case True
  then have t: "takeWhile isdigit v = v"
    by (simp add: isNumber_def list_all_iff takeWhile_eq_all_conv split: if_splits)
  show ?thesis
    using True unfolding validateInput_def atoi_def t by (auto simp: Let_def)
qed

end
