(* ===== verification/Aig.thy ===== *)
theory Aig
  imports Basic
begin

text \<open>
  \<^verbatim>\<open>src/aig.hpp\<close> and the in-memory part of \<^verbatim>\<open>src/aig.cpp\<close>: the class \<^verbatim>\<open>Aiger\<close>, its translation
  to DIMACS numbering (\<^verbatim>\<open>Aiger::translate_to_dimacs\<close>), and the meaning of a circuit: which
  assignments satisfy the gates and constraints, which assignments follow each other,
  and which are reachable in a given number of steps.
\<close>

section \<open>Data\<close>

record Aiger_and =
  ag_o :: int
  ag_i1 :: int
  ag_i2 :: int

record Aiger_latch =
  al_l :: int
  al_next :: int
  al_default_val :: int

record And =
  out :: int
  i1 :: int
  i2 :: int

abbreviation mkAnd :: "int \<Rightarrow> int \<Rightarrow> int \<Rightarrow> And" where
  "mkAnd a b c \<equiv> \<lparr>out = a, i1 = b, i2 = c\<rparr>"

record Variable =
  dimacs_var :: int
  vname :: string

definition Variable_named :: "int \<Rightarrow> char \<Rightarrow> int \<Rightarrow> bool \<Rightarrow> Variable" where
  "Variable_named dimacs_index type type_index prime =
     \<lparr>dimacs_var = dimacs_index,
      vname = type # show_int type_index @ (if prime then [CHR 0x27] else [])\<rparr>"

record Aiger =
  max_var :: int
  num_inputs :: int
  num_outputs :: int
  num_latches :: int
  num_ands :: int
  num_bads :: int
  num_constraints :: int
  num_property :: int
  num_justice :: int
  num_fairness :: int
  binaryMode :: bool
  Aiger_inputs :: "int list"
  Aiger_outputs :: "int list"
  Aiger_bads :: "int list"
  Aiger_constraints :: "int list"
  Aiger_latches :: "Aiger_latch list"
  Aiger_ands :: "Aiger_and list"
  symbols :: "int \<rightharpoonup> string"
  comments :: string
  variables :: "Variable list"
  ands :: "And list"
  nexts :: "int list"
  init_state :: "int list"
  constraints :: "int list"
  constraints_prime :: "int list"
  allbad :: "int list"
  bad :: int
  bad_prime :: int
  propertyIndex :: int
  output_witness :: bool
  output_certificate :: bool
  find_bug_only :: bool
  moreinfo_for_bmc :: bool
  map_to_prime :: "int \<rightharpoonup> int"
  map_to_unprime :: "int \<rightharpoonup> int"
  primed_first_dimacs :: int

text \<open>The constructor; the members it leaves uninitialised are 0.\<close>

definition Aiger_new :: Aiger where
  "Aiger_new =
     \<lparr>max_var = 0, num_inputs = 0, num_outputs = 0, num_latches = 0, num_ands = 0,
      num_bads = 0, num_constraints = 0, num_property = 0, num_justice = 0,
      num_fairness = 0, binaryMode = False, Aiger_inputs = [], Aiger_outputs = [],
      Aiger_bads = [], Aiger_constraints = [], Aiger_latches = [], Aiger_ands = [],
      symbols = Map.empty, comments = [], variables = [], ands = [], nexts = [],
      init_state = [], constraints = [], constraints_prime = [], allbad = [],
      bad = 0, bad_prime = 0, propertyIndex = 0, output_witness = False,
      output_certificate = False, find_bug_only = False, moreinfo_for_bmc = False,
      map_to_prime = Map.empty, map_to_unprime = Map.empty, primed_first_dimacs = 0\<rparr>"

definition unprimed_first_dimacs :: int where
  "unprimed_first_dimacs = 2"

section \<open>Aiger::translate_to_dimacs\<close>

text \<open>A value of type \<^verbatim>\<open>unsigned\<close> passed where an \<^verbatim>\<open>int\<close> is expected.\<close>

definition int_of_unsigned :: "int \<Rightarrow> int" where
  "int_of_unsigned x = (if 2147483648 \<le> x then x - 4294967296 else x)"

definition load_inputs :: "Aiger \<Rightarrow> Variable list option" where
  "load_inputs a = those (map (\<lambda>i. do {
       x \<leftarrow> vec_at (Aiger_inputs a) (i - 1);
       if i * 2 = x then Some (Variable_named (1 + i) (CHR ''i'') (i - 1) False) else None
     }) [1..num_inputs a])"

definition load_latches :: "Aiger \<Rightarrow> Variable list option" where
  "load_latches a = those (map (\<lambda>i. do {
       x \<leftarrow> vec_at (Aiger_latches a) (i - 1);
       if (num_inputs a + i) * 2 = al_l x
       then Some (Variable_named (1 + num_inputs a + i) (CHR ''l'') (i - 1) False) else None
     }) [1..num_latches a])"

definition load_ands :: "Aiger \<Rightarrow> (Variable \<times> And) list option" where
  "load_ands a = those (map (\<lambda>i. do {
       x \<leftarrow> vec_at (Aiger_ands a) (i - 1);
       if 2 * (num_inputs a + num_latches a + i) = ag_o x
       then
         let o' = 1 + num_inputs a + num_latches a + i
         in Some (Variable_named o' (CHR ''a'') (i - 1) False,
                  mkAnd o' (aiger_to_dimacs (int_of_unsigned (ag_i1 x)))
                           (aiger_to_dimacs (int_of_unsigned (ag_i2 x))))
       else None
     }) [1..num_ands a])"

definition load_nexts :: "Aiger \<Rightarrow> (int \<times> int list) list option" where
  "load_nexts a = those (map (\<lambda>i. do {
       al \<leftarrow> vec_at (Aiger_latches a) (i - 1);
       let l = 1 + num_inputs a + i in
       if (l - 1) * 2 = al_l al
       then Some (aiger_to_dimacs (int_of_unsigned (al_next al)),
                  (if al_default_val al = 0 then [- l]
                   else if al_default_val al = 1 then [l] else []))
       else None
     }) [1..num_latches a])"

definition load_lits :: "int list \<Rightarrow> int \<Rightarrow> int list option" where
  "load_lits xs n = those (map (\<lambda>i. do {
       x \<leftarrow> vec_at xs i; Some (aiger_to_dimacs (int_of_unsigned x)) }) [0..n - 1])"

text \<open>
  The bad states, or the outputs when there are none: an index out of range falls back
  to property 0, an empty list of properties aborts.
\<close>

definition load_bad :: "int list \<Rightarrow> int \<Rightarrow> Aiger \<Rightarrow> Aiger option" where
  "load_bad xs n a = do {
     let p = (if n \<le> propertyIndex a then 0 else propertyIndex a);
     bs \<leftarrow> load_lits xs n;
     b \<leftarrow> vec_at (allbad a @ bs) p;
     Some (a\<lparr>propertyIndex := p, allbad := allbad a @ bs, bad := b, num_property := n\<rparr>)
   }"

definition translate_to_dimacs :: "Aiger \<Rightarrow> Aiger option" where
  "translate_to_dimacs a = do {
     vi \<leftarrow> load_inputs a;
     vl \<leftarrow> load_latches a;
     va \<leftarrow> load_ands a;
     nx \<leftarrow> load_nexts a;
     cs \<leftarrow> load_lits (Aiger_constraints a) (num_constraints a);
     let a1 = a\<lparr>variables := variables a
                  @ [\<lparr>dimacs_var = 0, vname = ''NULL''\<rparr>, \<lparr>dimacs_var = 1, vname = ''False''\<rparr>]
                  @ vi @ vl @ map fst va,
                ands := ands a @ map snd va,
                nexts := nexts a @ map fst nx,
                init_state := init_state a @ concat (map snd nx),
                constraints := constraints a @ cs\<rparr>;
     a2 \<leftarrow> (if 0 < num_bads a1 then load_bad (Aiger_bads a1) (num_bads a1) a1
            else if 0 < num_outputs a1 then load_bad (Aiger_outputs a1) (num_outputs a1) a1
            else None);
     let n = int (length (variables a2));
     if \<bar>bad a2\<bar> \<le> n \<and> n = 1 + num_inputs a2 + num_latches a2 + num_ands a2 + 1
     then Some (a2\<lparr>primed_first_dimacs := n\<rparr>) else None
   }"

section \<open>The meaning of a circuit\<close>

abbreviation latch_var :: "Aiger \<Rightarrow> nat \<Rightarrow> int" where
  "latch_var C i \<equiv> num_inputs C + 2 + int i"

abbreviation first_and :: "Aiger \<Rightarrow> int" where
  "first_and C \<equiv> num_inputs C + num_latches C + 2"

definition is_leaf :: "Aiger \<Rightarrow> int \<Rightarrow> bool" where
  "is_leaf C v = (2 \<le> v \<and> v < first_and C)"

definition is_latch :: "Aiger \<Rightarrow> int \<Rightarrow> bool" where
  "is_latch C v = (num_inputs C + 2 \<le> v \<and> v < first_and C)"

definition gate_ok :: "assignment \<Rightarrow> And \<Rightarrow> bool" where
  "gate_ok \<sigma> g = (\<sigma> (out g) = (lit_val \<sigma> (i1 g) \<and> lit_val \<sigma> (i2 g)))"

definition gates_ok :: "Aiger \<Rightarrow> assignment \<Rightarrow> bool" where
  "gates_ok C \<sigma> = (\<not> \<sigma> 1 \<and> (\<forall>g\<in>set (ands C). gate_ok \<sigma> g))"

definition constr_ok :: "Aiger \<Rightarrow> assignment \<Rightarrow> bool" where
  "constr_ok C \<sigma> = cube_true \<sigma> (constraints C)"

definition init_ok :: "Aiger \<Rightarrow> assignment \<Rightarrow> bool" where
  "init_ok C \<sigma> = cube_true \<sigma> (init_state C)"

definition next_ok :: "Aiger \<Rightarrow> assignment \<Rightarrow> assignment \<Rightarrow> bool" where
  "next_ok C \<sigma> \<sigma>' = (\<forall>i<length (nexts C). \<sigma>' (latch_var C i) = lit_val \<sigma> (nexts C ! i))"

definition valid :: "Aiger \<Rightarrow> assignment \<Rightarrow> bool" where
  "valid C \<sigma> = (gates_ok C \<sigma> \<and> constr_ok C \<sigma>)"

text \<open>
  \<open>reach C n \<sigma>\<close>: the circuit can be in the full valuation \<open>\<sigma>\<close> (inputs, latches and gates)
  after n steps from a reset state, the invariant constraints holding at every step.
\<close>

inductive reach :: "Aiger \<Rightarrow> nat \<Rightarrow> assignment \<Rightarrow> bool" for C where
  reach_init: "valid C \<sigma> \<Longrightarrow> init_ok C \<sigma> \<Longrightarrow> reach C 0 \<sigma>"
| reach_step: "reach C n \<sigma> \<Longrightarrow> next_ok C \<sigma> \<sigma>' \<Longrightarrow> valid C \<sigma>' \<Longrightarrow> reach C (Suc n) \<sigma>'"

inductive_simps reach_0 [simp]: "reach C 0 \<sigma>"
inductive_simps reach_Suc: "reach C (Suc n) \<sigma>"
inductive_cases reach_SucE: "reach C (Suc n) \<sigma>"

definition unsafe_at :: "Aiger \<Rightarrow> lit \<Rightarrow> nat \<Rightarrow> bool" where
  "unsafe_at C b n = (\<exists>\<sigma>. reach C n \<sigma> \<and> lit_val \<sigma> b)"

definition unsafe :: "Aiger \<Rightarrow> lit \<Rightarrow> bool" where
  "unsafe C b = (\<exists>n. unsafe_at C b n)"

text \<open>
  A circuit in DIMACS numbering is well formed when its gates are numbered and ordered
  as the AIGER format prescribes: every gate reads smaller variables only.
\<close>

definition lit_in :: "Aiger \<Rightarrow> int \<Rightarrow> bool" where
  "lit_in C l = (l \<noteq> 0 \<and> \<bar>l\<bar> < first_and C + int (length (ands C)))"

definition wf_ands :: "int \<Rightarrow> And list \<Rightarrow> bool" where
  "wf_ands f gs = (\<forall>k<length gs. out (gs ! k) = f + int k
      \<and> i1 (gs ! k) \<noteq> 0 \<and> \<bar>i1 (gs ! k)\<bar> < out (gs ! k)
      \<and> i2 (gs ! k) \<noteq> 0 \<and> \<bar>i2 (gs ! k)\<bar> < out (gs ! k))"

definition wf_aig :: "Aiger \<Rightarrow> bool" where
  "wf_aig C = (0 \<le> num_inputs C \<and> 0 \<le> num_latches C
     \<and> num_ands C = int (length (ands C)) \<and> num_latches C = int (length (nexts C))
     \<and> wf_ands (first_and C) (ands C)
     \<and> (\<forall>l\<in>set (nexts C). lit_in C l) \<and> (\<forall>l\<in>set (constraints C). lit_in C l)
     \<and> (\<forall>l\<in>set (init_state C). is_latch C \<bar>l\<bar>)
     \<and> (\<forall>l\<in>set (allbad C). lit_in C l) \<and> lit_in C (bad C)
     \<and> primed_first_dimacs C = first_and C + int (length (ands C)))"

text \<open>A circuit as the loader leaves it: well formed, nothing primed yet.\<close>

definition loaded :: "Aiger \<Rightarrow> bool" where
  "loaded C = (wf_aig C \<and> int (length (variables C)) = primed_first_dimacs C
     \<and> map_to_prime C = Map.empty \<and> constraints_prime C = [])"

section \<open>Evaluating the gates\<close>

definition gate_eval :: "assignment \<Rightarrow> And \<Rightarrow> assignment" where
  "gate_eval \<sigma> g = \<sigma>(out g := lit_val \<sigma> (i1 g) \<and> lit_val \<sigma> (i2 g))"

definition gates_eval :: "And list \<Rightarrow> assignment \<Rightarrow> assignment" where
  "gates_eval gs \<sigma> = foldl gate_eval \<sigma> gs"

text \<open>The full valuation that the inputs and latches of \<open>\<sigma>\<close> determine.\<close>

definition completed :: "Aiger \<Rightarrow> assignment \<Rightarrow> assignment" where
  "completed C \<sigma> = gates_eval (ands C) (\<sigma>(1 := False))"

lemma wf_ands_snoc:
  "wf_ands f (gs @ [g]) =
     (wf_ands f gs \<and> out g = f + int (length gs) \<and> i1 g \<noteq> 0 \<and> \<bar>i1 g\<bar> < out g
      \<and> i2 g \<noteq> 0 \<and> \<bar>i2 g\<bar> < out g)"
proof -
  have "wf_ands f (gs @ [g]) = ((\<forall>k<length gs. out ((gs @ [g]) ! k) = f + int k
      \<and> i1 ((gs @ [g]) ! k) \<noteq> 0 \<and> \<bar>i1 ((gs @ [g]) ! k)\<bar> < out ((gs @ [g]) ! k)
      \<and> i2 ((gs @ [g]) ! k) \<noteq> 0 \<and> \<bar>i2 ((gs @ [g]) ! k)\<bar> < out ((gs @ [g]) ! k))
      \<and> (out g = f + int (length gs) \<and> i1 g \<noteq> 0 \<and> \<bar>i1 g\<bar> < out g
      \<and> i2 g \<noteq> 0 \<and> \<bar>i2 g\<bar> < out g))"
    unfolding wf_ands_def by (simp add: All_less_Suc conj_ac)
  then show ?thesis by (simp add: wf_ands_def nth_append)
qed

lemma wf_ands_mem:
  assumes "wf_ands f gs" and "g \<in> set gs"
  shows "f \<le> out g" "out g < f + int (length gs)" "i1 g \<noteq> 0" "\<bar>i1 g\<bar> < out g"
    "i2 g \<noteq> 0" "\<bar>i2 g\<bar> < out g"
  using assms by (auto simp: wf_ands_def in_set_conv_nth)

lemma gates_eval_snoc: "gates_eval (gs @ [g]) \<sigma> = gate_eval (gates_eval gs \<sigma>) g"
  by (simp add: gates_eval_def)

lemma gates_eval_below: "wf_ands f gs \<Longrightarrow> v < f \<Longrightarrow> gates_eval gs \<sigma> v = \<sigma> v"
proof (induction gs rule: rev_induct)
  case Nil
  then show ?case by (simp add: gates_eval_def)
next
  case (snoc g gs)
  then show ?case by (auto simp: gates_eval_snoc gate_eval_def wf_ands_snoc)
qed

lemma gate_eval_other: "v \<noteq> out g \<Longrightarrow> gate_eval \<sigma> g v = \<sigma> v"
  by (simp add: gate_eval_def)

lemma gates_eval_ok: "wf_ands f gs \<Longrightarrow> g \<in> set gs \<Longrightarrow> gate_ok (gates_eval gs \<sigma>) g"
proof (induction gs rule: rev_induct)
  case Nil
  then show ?case by simp
next
  case (snoc h gs)
  have wf: "wf_ands f gs" and h: "out h = f + int (length gs)" "\<bar>i1 h\<bar> < out h" "\<bar>i2 h\<bar> < out h"
    using snoc.prems(1) by (auto simp: wf_ands_snoc)
  have keep: "lit_val (gate_eval \<tau> h) l = lit_val \<tau> l" if "\<bar>l\<bar> < out h" for \<tau> l
    using that by (intro lit_val_cong gate_eval_other) auto
  show ?case
  proof (cases "g \<in> set gs")
    case True
    note m = wf_ands_mem [OF wf True]
    have "gate_ok (gates_eval gs \<sigma>) g" using snoc.IH wf True by blast
    moreover have "out g < out h" using m h by simp
    ultimately show ?thesis
      using m by (simp add: gate_ok_def gates_eval_snoc keep gate_eval_other)
  next
    case False
    then have "g = h" using snoc.prems by simp
    then show ?thesis
      using h by (simp add: gate_ok_def gates_eval_snoc keep) (simp add: gate_eval_def)
  qed
qed

lemma wf_aigD:
  assumes "wf_aig C"
  shows "0 \<le> num_inputs C" "0 \<le> num_latches C" "num_latches C = int (length (nexts C))"
    "num_ands C = int (length (ands C))" "wf_ands (first_and C) (ands C)"
    "primed_first_dimacs C = first_and C + int (length (ands C))"
    "lit_in C (bad C)"
  using assms by (auto simp: wf_aig_def)

lemma complete_leaf: "wf_aig C \<Longrightarrow> is_leaf C v \<Longrightarrow> completed C \<sigma> v = \<sigma> v"
  unfolding completed_def
  by (subst gates_eval_below [OF wf_aigD(5)]) (auto simp: is_leaf_def)

lemma complete_gates_ok: "wf_aig C \<Longrightarrow> gates_ok C (completed C \<sigma>)"
proof -
  assume wf: "wf_aig C"
  have "\<not> completed C \<sigma> 1"
    unfolding completed_def
    using wf_aigD(1,2) [OF wf] by (subst gates_eval_below [OF wf_aigD(5) [OF wf]]) auto
  then show ?thesis
    using gates_eval_ok [OF wf_aigD(5) [OF wf]] by (simp add: gates_ok_def completed_def)
qed

text \<open>A valuation of the gates is determined by its leaves.\<close>

lemma gates_agree:
  assumes "wf_ands f gs" and "\<forall>g\<in>set gs. gate_ok \<sigma> g" and "\<forall>g\<in>set gs. gate_ok \<tau> g"
    and "\<And>v. 1 \<le> v \<Longrightarrow> v < f \<Longrightarrow> \<sigma> v = \<tau> v"
  shows "1 \<le> v \<Longrightarrow> v < f + int (length gs) \<Longrightarrow> \<sigma> v = \<tau> v"
  using assms
proof (induction gs arbitrary: v rule: rev_induct)
  case Nil
  then show ?case by simp
next
  case (snoc g gs)
  have wf: "wf_ands f gs" and g: "out g = f + int (length gs)" "i1 g \<noteq> 0" "\<bar>i1 g\<bar> < out g"
    "i2 g \<noteq> 0" "\<bar>i2 g\<bar> < out g"
    using snoc.prems(3) by (auto simp: wf_ands_snoc)
  have IH: "\<sigma> u = \<tau> u" if "1 \<le> u" "u < f + int (length gs)" for u
    using snoc.IH that wf snoc.prems by simp
  have "lit_val \<sigma> (i1 g) = lit_val \<tau> (i1 g)" "lit_val \<sigma> (i2 g) = lit_val \<tau> (i2 g)"
    using g by (auto intro!: lit_val_cong IH)
  moreover have "gate_ok \<sigma> g" "gate_ok \<tau> g" using snoc.prems by auto
  ultimately have top: "\<sigma> (out g) = \<tau> (out g)" by (simp add: gate_ok_def)
  show ?case
    using IH top snoc.prems(1,2) g(1) by (cases "v = out g") auto
qed

lemma gates_ok_agree:
  assumes "wf_aig C" and "gates_ok C \<sigma>" and "gates_ok C \<tau>"
    and "\<And>v. is_leaf C v \<Longrightarrow> \<sigma> v = \<tau> v" and "lit_in C l"
  shows "lit_val \<sigma> l = lit_val \<tau> l"
proof (rule lit_val_cong, rule gates_agree [where f = "first_and C" and gs = "ands C"])
  fix v :: int
  assume "1 \<le> v" "v < first_and C"
  then show "\<sigma> v = \<tau> v"
    using assms(2-4) by (cases "v = 1") (auto simp: gates_ok_def is_leaf_def)
qed (use assms in \<open>auto simp: gates_ok_def lit_in_def wf_aigD(5)\<close>)

lemma lit_in_simps:
  assumes "wf_aig C"
  shows "l \<in> set (constraints C) \<Longrightarrow> lit_in C l" "l \<in> set (nexts C) \<Longrightarrow> lit_in C l"
    "l \<in> set (allbad C) \<Longrightarrow> lit_in C l" "lit_in C (bad C)"
    "l \<in> set (init_state C) \<Longrightarrow> is_latch C \<bar>l\<bar>"
  using assms by (auto simp: wf_aig_def)

lemma constr_ok_agree:
  assumes "wf_aig C" "gates_ok C \<sigma>" "gates_ok C \<tau>" "\<And>v. is_leaf C v \<Longrightarrow> \<sigma> v = \<tau> v"
  shows "constr_ok C \<sigma> = constr_ok C \<tau>"
  using gates_ok_agree [OF assms] lit_in_simps(1) [OF assms(1)]
  by (auto simp: constr_ok_def cube_true_set)

lemma latch_is_leaf: "is_latch C v \<Longrightarrow> wf_aig C \<Longrightarrow> is_leaf C v"
  by (auto simp: is_latch_def is_leaf_def wf_aig_def)

lemma init_ok_agree:
  assumes "wf_aig C" "\<And>v. is_latch C v \<Longrightarrow> \<sigma> v = \<tau> v"
  shows "init_ok C \<sigma> = init_ok C \<tau>"
proof -
  have "lit_val \<sigma> l = lit_val \<tau> l" if "l \<in> set (init_state C)" for l
    using lit_in_simps(5) [OF assms(1) that] assms(2) by (intro lit_val_cong)
  then show ?thesis by (auto simp: init_ok_def cube_true_set)
qed

lemma next_ok_agree_left:
  assumes "wf_aig C" "gates_ok C \<sigma>" "gates_ok C \<tau>" "\<And>v. is_leaf C v \<Longrightarrow> \<sigma> v = \<tau> v"
  shows "next_ok C \<sigma> \<rho> = next_ok C \<tau> \<rho>"
  using gates_ok_agree [OF assms] lit_in_simps(2) [OF assms(1)]
  by (auto simp: next_ok_def)

lemma is_latch_iff: "wf_aig C \<Longrightarrow> is_latch C v = (\<exists>i<length (nexts C). v = latch_var C i)"
  by (auto simp: is_latch_def wf_aig_def intro: exI [of _ "nat (v - num_inputs C - 2)"])

lemma next_ok_agree_right:
  assumes "wf_aig C" "\<And>v. is_latch C v \<Longrightarrow> \<rho> v = \<rho>' v"
  shows "next_ok C \<sigma> \<rho> = next_ok C \<sigma> \<rho>'"
proof -
  have "\<rho> (latch_var C i) = \<rho>' (latch_var C i)" if "i < length (nexts C)" for i
    using is_latch_iff [OF assms(1)] that by (intro assms(2)) auto
  then show ?thesis by (simp add: next_ok_def)
qed

section \<open>The cone of influence\<close>

text \<open>
  The loop every encoder of the program runs over the gates from the last to the first:
  a gate is kept when its output is in the set of needed variables, which then grows by
  the variables of its two inputs.
\<close>

fun coi :: "And list \<Rightarrow> int set \<Rightarrow> And list" where
  "coi [] S = []"
| "coi (g # gs) S =
     (if out g \<in> S then g # coi gs (insert \<bar>i1 g\<bar> (insert \<bar>i2 g\<bar> S)) else coi gs S)"

lemma coi_subset: "set (coi gs S) \<subseteq> set gs"
  by (induction gs arbitrary: S) auto

text \<open>
  An assignment that satisfies only the gates of the cone agrees on the needed variables
  with the full evaluation of the circuit: the gates left out do not matter.
\<close>

lemma coi_agree_aux:
  assumes "wf_ands f gs" and "\<forall>g\<in>set (coi (rev gs) S). gate_ok \<alpha> g"
    and "v \<in> S" and "1 \<le> v" and "v < f + int (length gs)"
  shows "gates_eval gs \<alpha> v = \<alpha> v"
  using assms
proof (induction gs arbitrary: S v rule: rev_induct)
  case Nil
  then show ?case by (simp add: gates_eval_def)
next
  case (snoc g gs)
  have wf: "wf_ands f gs" and g: "out g = f + int (length gs)" "i1 g \<noteq> 0" "\<bar>i1 g\<bar> < out g"
    "i2 g \<noteq> 0" "\<bar>i2 g\<bar> < out g"
    using snoc.prems(1) by (auto simp: wf_ands_snoc)
  show ?case
  proof (cases "out g \<in> S")
    case True
    let ?S = "insert \<bar>i1 g\<bar> (insert \<bar>i2 g\<bar> S)"
    have IH: "gates_eval gs \<alpha> u = \<alpha> u" if "u \<in> ?S" "1 \<le> u" "u < out g" for u
      using snoc.IH [of ?S u] wf snoc.prems(2) True that g(1) by simp
    have "lit_val (gates_eval gs \<alpha>) (i1 g) = lit_val \<alpha> (i1 g)"
      "lit_val (gates_eval gs \<alpha>) (i2 g) = lit_val \<alpha> (i2 g)"
      using g(2-5) by (intro lit_val_cong IH; simp)+
    moreover have "gate_ok \<alpha> g" using snoc.prems(2) True by simp
    ultimately show ?thesis
      using IH snoc.prems(3-5) g(1)
      by (cases "v = out g") (auto simp: gates_eval_snoc gate_eval_def gate_ok_def)
  next
    case False
    then have "v \<noteq> out g" using snoc.prems(3) by blast
    moreover have "gates_eval gs \<alpha> v = \<alpha> v"
      using snoc.IH [of S v] wf snoc.prems False \<open>v \<noteq> out g\<close> g(1) by simp
    ultimately show ?thesis by (simp add: gates_eval_snoc gate_eval_def)
  qed
qed

lemma coi_agree:
  assumes wf: "wf_aig C" and gates: "\<forall>g\<in>set (coi (rev (ands C)) S). gate_ok \<alpha> g"
    and "\<not> \<alpha> 1" and "\<bar>l\<bar> \<in> S" and "lit_in C l"
  shows "lit_val (completed C \<alpha>) l = lit_val \<alpha> l"
proof -
  have "\<alpha>(1 := False) = \<alpha>" using assms(3) by (simp add: fun_upd_idem)
  then show ?thesis
    using coi_agree_aux [OF wf_aigD(5) [OF wf] gates assms(4)] assms(5)
    by (intro lit_val_cong) (auto simp: completed_def lit_in_def)
qed

end
