(* ===== verification/SatSolver.thy ===== *)
theory SatSolver
  imports Basic
begin

text \<open>
  \<^verbatim>\<open>src/sat_solver.hpp\<close>: the wrapper classes around the SAT solvers. A wrapper keeps the
  clauses added so far, the clause under construction, the assumptions of the next call
  and the answer of the last one. The solvers behind the wrappers (CaDiCaL behind the
  IPASIR functions, MiniSat's \<^verbatim>\<open>eliminate\<close>) are parameters, collected in the record \<open>env\<close>;
  what the program relies on is stated as the predicates \<open>ipasir_contract\<close> and
  \<open>eliminate_contract\<close>, which an executable reference solver at the end satisfies.
\<close>

section \<open>The IPASIR interface\<close>

datatype answer = NoAnswer | Sat assignment | Unsat "int list"

record CaDiCaL =
  clauses :: cnf
  pending :: clause
  assumed :: "int list"
  emax :: int
  nv :: int
  clear_flag :: bool
  answer :: answer
  calls :: nat

record env =
  ipasir_answer :: "CaDiCaL \<Rightarrow> answer"
  minisat_eliminate :: "int \<Rightarrow> cnf \<Rightarrow> int set \<Rightarrow> cnf \<times> int list"
  random_shuffle :: "nat \<Rightarrow> int list \<Rightarrow> int list"
  other_threads :: "nat \<Rightarrow> int"

definition nonzero :: "cnf \<Rightarrow> bool" where
  "nonzero F = (\<forall>c\<in>set F. 0 \<notin> set c)"

text \<open>
  IPASIR: a model satisfies all clauses and assumptions; the failed assumptions are
  assumptions that together contradict the clauses; the solver may always give up.
\<close>

definition ipasir_contract :: "env \<Rightarrow> bool" where
  "ipasir_contract e = (\<forall>s. nonzero (clauses s) \<longrightarrow> 0 \<notin> set (assumed s) \<longrightarrow>
     (case ipasir_answer e s of
        NoAnswer \<Rightarrow> True
      | Sat \<alpha> \<Rightarrow> sat_cnf \<alpha> (clauses s) \<and> cube_true \<alpha> (assumed s)
      | Unsat core \<Rightarrow> set core \<subseteq> set (assumed s)
          \<and> \<not> (\<exists>\<alpha>. sat_cnf \<alpha> (clauses s) \<and> cube_true \<alpha> core)))"

text \<open>
  MiniSat's preprocessing (subsumption, strengthening, elimination by resolution): the
  simplified clauses and the literals fixed at level 0 use no new variables and follow
  from the formula; of a satisfiable formula, every solution of the simplified clauses
  extends, from the frozen variables, to one of the formula.
\<close>

abbreviation elim_cnf :: "cnf \<times> int list \<Rightarrow> cnf" where
  "elim_cnf r \<equiv> fst r @ map (\<lambda>l. [l]) (snd r)"

definition eliminate_contract :: "env \<Rightarrow> bool" where
  "eliminate_contract e = (\<forall>n F fr. nonzero F \<longrightarrow> lits_le n F \<longrightarrow>
     (let G = elim_cnf (minisat_eliminate e n F fr) in
        lits_le n G \<and> nonzero G \<and>
        (\<forall>\<alpha>. sat_cnf \<alpha> F \<longrightarrow> sat_cnf \<alpha> G) \<and>
        ((\<exists>\<alpha>. sat_cnf \<alpha> F) \<longrightarrow>
          (\<forall>\<beta>. sat_cnf \<beta> G \<longrightarrow> (\<exists>\<alpha>. sat_cnf \<alpha> F \<and> (\<forall>v\<in>fr. \<alpha> v = \<beta> v))))))"

section \<open>class CaDiCaL\<close>

definition SAT :: int where "SAT = 10"
definition UNSAT :: int where "UNSAT = 20"
definition UNKNOWN :: int where "UNKNOWN = 0"

definition CaDiCaL_new :: CaDiCaL where
  "CaDiCaL_new = \<lparr>clauses = [], pending = [], assumed = [], emax = 0, nv = 0,
     clear_flag = False, answer = NoAnswer, calls = 0\<rparr>"

definition ipasir_add :: "int \<Rightarrow> CaDiCaL \<Rightarrow> CaDiCaL" where
  "ipasir_add l s =
     (if l = 0 then s\<lparr>clauses := clauses s @ [pending s], pending := []\<rparr>
      else s\<lparr>pending := pending s @ [l], emax := max (emax s) \<bar>l\<bar>\<rparr>)"

definition CaDiCaL_add :: "int \<Rightarrow> CaDiCaL \<Rightarrow> CaDiCaL" where
  "CaDiCaL_add l s = (ipasir_add l s)\<lparr>nv := max (nv s) \<bar>l\<bar>\<rparr>"

definition CaDiCaL_assume :: "int \<Rightarrow> CaDiCaL \<Rightarrow> CaDiCaL" where
  "CaDiCaL_assume l s = s\<lparr>assumed := assumed s @ [l], emax := max (emax s) \<bar>l\<bar>\<rparr>"

text \<open>A call answers with \<open>SAT\<close>, \<open>UNSAT\<close> or \<open>UNKNOWN\<close> and drops the assumptions.\<close>

definition CaDiCaL_solve :: "env \<Rightarrow> CaDiCaL \<Rightarrow> int \<times> CaDiCaL" where
  "CaDiCaL_solve e s =
     (let r = ipasir_answer e s
      in (case r of Sat _ \<Rightarrow> SAT | Unsat _ \<Rightarrow> UNSAT | NoAnswer \<Rightarrow> UNKNOWN,
          s\<lparr>assumed := [], answer := r, calls := Suc (calls s)\<rparr>))"

definition CaDiCaL_failed :: "int \<Rightarrow> CaDiCaL \<Rightarrow> bool" where
  "CaDiCaL_failed l s = (case answer s of Unsat core \<Rightarrow> l \<in> set core | _ \<Rightarrow> False)"

text \<open>\<^verbatim>\<open>ipasir_val\<close> as CaDiCaL computes it: an unknown variable has the value -1.\<close>

definition CaDiCaL_val :: "int \<Rightarrow> CaDiCaL \<Rightarrow> int" where
  "CaDiCaL_val l s =
     (case answer s of
        Sat \<alpha> \<Rightarrow>
          (let r = (if \<bar>l\<bar> > emax s then - 1 else if \<alpha> \<bar>l\<bar> then \<bar>l\<bar> else - \<bar>l\<bar>)
           in if l < 0 then - r else r)
      | _ \<Rightarrow> 0)"

definition CaDiCaL_max_var :: "CaDiCaL \<Rightarrow> int" where
  "CaDiCaL_max_var s = nv s"

definition CaDiCaL_set_clear_act :: "CaDiCaL \<Rightarrow> CaDiCaL" where
  "CaDiCaL_set_clear_act s = s\<lparr>clear_flag := True\<rparr>"

definition CaDiCaL_clear_act :: "CaDiCaL \<Rightarrow> CaDiCaL" where
  "CaDiCaL_clear_act s =
     (if clear_flag s then CaDiCaL_add 0 (CaDiCaL_add (- nv s) s) else s)\<lparr>clear_flag := False\<rparr>"

text \<open>
  The base class declares \<^verbatim>\<open>set_clear_act\<close> and \<^verbatim>\<open>clear_act\<close> without \<^verbatim>\<open>virtual\<close>, so a call through
  a \<^verbatim>\<open>SATSolver*\<close> runs these empty bodies.
\<close>

definition SATSolver_set_clear_act :: "CaDiCaL \<Rightarrow> CaDiCaL" where
  "SATSolver_set_clear_act s = s"

definition SATSolver_clear_act :: "CaDiCaL \<Rightarrow> CaDiCaL" where
  "SATSolver_clear_act s = s"

definition adds :: "int list \<Rightarrow> CaDiCaL \<Rightarrow> CaDiCaL" where
  "adds ls s = fold CaDiCaL_add ls s"

definition add_clause :: "clause \<Rightarrow> CaDiCaL \<Rightarrow> CaDiCaL" where
  "add_clause c s = adds (c @ [0]) s"

definition add_cnf :: "cnf \<Rightarrow> CaDiCaL \<Rightarrow> CaDiCaL" where
  "add_cnf F s = fold add_clause F s"

definition assumes_all :: "int list \<Rightarrow> CaDiCaL \<Rightarrow> CaDiCaL" where
  "assumes_all ls s = fold CaDiCaL_assume ls s"

section \<open>class minisatSimp\<close>

text \<open>
  MiniSat numbers its variables from 0 and packs the sign into the literal; the wrapper
  translates both ways, so the model keeps DIMACS literals. The clauses it holds are the
  clauses added; what preprocessing makes of them is the parameter \<open>minisat_eliminate\<close>.
\<close>

record minisatSimp =
  ms_nVars :: int
  ms_clauses :: cnf
  ms_clause :: clause
  ms_assumptions :: "int list"
  ms_frozen :: "int set"
  simplified_cnf :: "int list"

definition minisatSimp_new :: minisatSimp where
  "minisatSimp_new = \<lparr>ms_nVars = 0, ms_clauses = [], ms_clause = [], ms_assumptions = [],
     ms_frozen = {}, simplified_cnf = []\<rparr>"

definition var_enlarge_to :: "int \<Rightarrow> minisatSimp \<Rightarrow> minisatSimp" where
  "var_enlarge_to v m = (if ms_nVars m < v then m\<lparr>ms_nVars := v\<rparr> else m)"

definition minisatSimp_add :: "int \<Rightarrow> minisatSimp \<Rightarrow> minisatSimp" where
  "minisatSimp_add l m =
     (if l = 0 then m\<lparr>ms_clauses := ms_clauses m @ [ms_clause m], ms_clause := []\<rparr>
      else (let m' = var_enlarge_to \<bar>l\<bar> m in m'\<lparr>ms_clause := ms_clause m' @ [l]\<rparr>))"

text \<open>\<^verbatim>\<open>assume\<close> builds the literal and then clears the vector instead of pushing onto it.\<close>

definition minisatSimp_assume :: "int \<Rightarrow> minisatSimp \<Rightarrow> minisatSimp" where
  "minisatSimp_assume l m = m\<lparr>ms_assumptions := []\<rparr>"

definition set_frozen :: "int \<Rightarrow> minisatSimp \<Rightarrow> minisatSimp" where
  "set_frozen l m =
     (let v = \<bar>l\<bar>; m' = var_enlarge_to v m in m'\<lparr>ms_frozen := insert v (ms_frozen m')\<rparr>)"

definition simplify :: "env \<Rightarrow> minisatSimp \<Rightarrow> minisatSimp" where
  "simplify e m =
     (let (cs, trail) = minisat_eliminate e (ms_nVars m) (ms_clauses m) (ms_frozen m)
      in m\<lparr>simplified_cnf :=
             [ms_nVars m, - ms_nVars m, 0]
             @ concat (map (\<lambda>c. c @ [0]) cs)
             @ concat (map (\<lambda>l. [l, 0]) trail)\<rparr>)"

definition minisatSimp_max_var :: "minisatSimp \<Rightarrow> int" where
  "minisatSimp_max_var m = ms_nVars m"

definition ms_adds :: "int list \<Rightarrow> minisatSimp \<Rightarrow> minisatSimp" where
  "ms_adds ls m = fold minisatSimp_add ls m"

definition ms_add_clause :: "clause \<Rightarrow> minisatSimp \<Rightarrow> minisatSimp" where
  "ms_add_clause c m = ms_adds (c @ [0]) m"

definition ms_add_cnf :: "cnf \<Rightarrow> minisatSimp \<Rightarrow> minisatSimp" where
  "ms_add_cnf F m = fold ms_add_clause F m"

section \<open>What adding and assuming does\<close>

definition lit_bound :: "clause \<Rightarrow> int \<Rightarrow> int" where
  "lit_bound c n = fold (\<lambda>l m. max m \<bar>l\<bar>) c n"

lemma lit_bound_ge: "n \<le> lit_bound c n"
  by (induction c arbitrary: n) (auto simp: lit_bound_def intro: order_trans [OF max.cobounded1])

lemma lit_bound_mem: "l \<in> set c \<Longrightarrow> \<bar>l\<bar> \<le> lit_bound c n"
proof (induction c arbitrary: n)
  case (Cons k c)
  then show ?case
    using lit_bound_ge [of "max n \<bar>k\<bar>" c] by (auto simp: lit_bound_def)
qed simp

lemma lit_bound_le: "n \<le> m \<Longrightarrow> (\<And>l. l \<in> set c \<Longrightarrow> \<bar>l\<bar> \<le> m) \<Longrightarrow> lit_bound c n \<le> m"
  by (induction c arbitrary: n) (auto simp: lit_bound_def)

lemma lit_bound_idem: "(\<And>l. l \<in> set c \<Longrightarrow> \<bar>l\<bar> \<le> n) \<Longrightarrow> lit_bound c n = n"
  using lit_bound_le [of n n c] lit_bound_ge [of n c] by simp

lemma adds_lits:
  "0 \<notin> set c \<Longrightarrow>
   adds c s = s\<lparr>pending := pending s @ c, emax := lit_bound c (emax s), nv := lit_bound c (nv s)\<rparr>"
  by (induction c arbitrary: s)
     (auto simp: adds_def lit_bound_def CaDiCaL_add_def ipasir_add_def)

lemma adds_append: "adds (xs @ ys) s = adds ys (adds xs s)"
  by (simp add: adds_def)

lemma add_clause_eq:
  assumes "0 \<notin> set c" and "0 \<le> nv s"
  shows "add_clause c s = s\<lparr>clauses := clauses s @ [pending s @ c], pending := [],
           emax := lit_bound c (emax s), nv := lit_bound c (nv s)\<rparr>"
proof -
  have "0 \<le> lit_bound c (nv s)" using assms(2) lit_bound_ge order_trans by blast
  then show ?thesis
    using assms(1)
    by (simp add: add_clause_def adds_append adds_lits)
       (simp add: adds_def CaDiCaL_add_def ipasir_add_def)
qed

lemma add_cnf_eq:
  assumes "nonzero F" and "pending s = []" and "0 \<le> nv s"
  shows "add_cnf F s = s\<lparr>clauses := clauses s @ F, emax := fold lit_bound F (emax s),
           nv := fold lit_bound F (nv s)\<rparr>"
  using assms
proof (induction F arbitrary: s)
  case Nil
  then show ?case by (simp add: add_cnf_def)
next
  case (Cons c F)
  have z: "0 \<notin> set c" "nonzero F" using Cons.prems(1) by (auto simp: nonzero_def)
  have nn: "0 \<le> lit_bound c (nv s)" using Cons.prems(3) lit_bound_ge order_trans by blast
  have unf: "add_cnf (c # F) s = add_cnf F (add_clause c s)" by (simp add: add_cnf_def)
  show ?case
    unfolding unf add_clause_eq [OF z(1) Cons.prems(3)]
    using Cons.prems(2) nn z(2) by (subst Cons.IH) (simp_all)
qed

lemma adds_flat: "adds (concat (map (\<lambda>c. c @ [0]) F)) s = add_cnf F s"
  by (induction F arbitrary: s) (auto simp: add_cnf_def add_clause_def adds_def)

lemma adds_simplified:
  "adds (simplified_cnf (simplify e m)) s =
   add_cnf ([ms_nVars m, - ms_nVars m]
     # elim_cnf (minisat_eliminate e (ms_nVars m) (ms_clauses m) (ms_frozen m))) s"
proof -
  obtain cs tr where r: "minisat_eliminate e (ms_nVars m) (ms_clauses m) (ms_frozen m) = (cs, tr)"
    by fastforce
  have "concat (map (\<lambda>l. [l, 0]) tr) = concat (map (\<lambda>c. c @ [0]) (map (\<lambda>l. [l]) tr))"
    by (induction tr) simp_all
  then have "simplified_cnf (simplify e m) =
      concat (map (\<lambda>c. c @ [0]) ([ms_nVars m, - ms_nVars m] # (cs @ map (\<lambda>l. [l]) tr)))"
    by (simp add: simplify_def r)
  then show ?thesis by (simp only: adds_flat r fst_conv snd_conv)
qed

lemma assumes_all_eq:
  "assumes_all ls s = s\<lparr>assumed := assumed s @ ls, emax := lit_bound ls (emax s)\<rparr>"
  by (induction ls arbitrary: s) (auto simp: assumes_all_def CaDiCaL_assume_def lit_bound_def)

lemma nonzero_simps [simp]:
  "nonzero []" "nonzero (c # F) = (0 \<notin> set c \<and> nonzero F)"
  "nonzero (F @ G) = (nonzero F \<and> nonzero G)"
  by (auto simp: nonzero_def)

lemma ipasir_contractD:
  assumes "ipasir_contract e" "nonzero (clauses s)" "0 \<notin> set (assumed s)"
  shows "ipasir_answer e s = Sat \<alpha> \<Longrightarrow> sat_cnf \<alpha> (clauses s) \<and> cube_true \<alpha> (assumed s)"
    and "ipasir_answer e s = Unsat core \<Longrightarrow> set core \<subseteq> set (assumed s)
          \<and> \<not> (\<exists>\<alpha>. sat_cnf \<alpha> (clauses s) \<and> cube_true \<alpha> core)"
proof -
  have c: "case ipasir_answer e s of
        NoAnswer \<Rightarrow> True
      | Sat \<alpha> \<Rightarrow> sat_cnf \<alpha> (clauses s) \<and> cube_true \<alpha> (assumed s)
      | Unsat core \<Rightarrow> set core \<subseteq> set (assumed s)
          \<and> \<not> (\<exists>\<alpha>. sat_cnf \<alpha> (clauses s) \<and> cube_true \<alpha> core)"
    using assms unfolding ipasir_contract_def by blast
  show "ipasir_answer e s = Sat \<alpha> \<Longrightarrow> sat_cnf \<alpha> (clauses s) \<and> cube_true \<alpha> (assumed s)"
    using c by simp
  show "ipasir_answer e s = Unsat core \<Longrightarrow> set core \<subseteq> set (assumed s)
          \<and> \<not> (\<exists>\<alpha>. sat_cnf \<alpha> (clauses s) \<and> cube_true \<alpha> core)"
    using c by simp
qed

lemma solve_result:
  "CaDiCaL_solve e s = (r, s') \<Longrightarrow> r = SAT \<Longrightarrow> \<exists>\<alpha>. ipasir_answer e s = Sat \<alpha>"
  "CaDiCaL_solve e s = (r, s') \<Longrightarrow> r = UNSAT \<Longrightarrow> \<exists>core. ipasir_answer e s = Unsat core"
  by (cases "ipasir_answer e s"; simp add: CaDiCaL_solve_def SAT_def UNSAT_def UNKNOWN_def)+

lemma solve_state:
  "CaDiCaL_solve e s = (r, s') \<Longrightarrow>
   s' = s\<lparr>assumed := [], answer := ipasir_answer e s, calls := Suc (calls s)\<rparr>"
  by (simp add: CaDiCaL_solve_def Let_def)

lemma solve_Sat:
  assumes "ipasir_contract e" "nonzero (clauses s)" "0 \<notin> set (assumed s)"
    and "CaDiCaL_solve e s = (r, s')" and "r = SAT"
  obtains \<alpha> where "answer s' = Sat \<alpha>" "sat_cnf \<alpha> (clauses s)" "cube_true \<alpha> (assumed s)"
    "s' = s\<lparr>assumed := [], answer := Sat \<alpha>, calls := Suc (calls s)\<rparr>"
proof -
  obtain \<alpha> where a: "ipasir_answer e s = Sat \<alpha>" using solve_result(1) assms(4,5) by blast
  show thesis
    using that [of \<alpha>] ipasir_contractD(1) [OF assms(1-3) a] solve_state [OF assms(4)] a by simp
qed

lemma solve_Unsat:
  assumes "ipasir_contract e" "nonzero (clauses s)" "0 \<notin> set (assumed s)"
    and "CaDiCaL_solve e s = (r, s')" and "r = UNSAT"
  obtains core where "answer s' = Unsat core" "set core \<subseteq> set (assumed s)"
    "\<And>\<alpha>. sat_cnf \<alpha> (clauses s) \<Longrightarrow> cube_true \<alpha> core \<Longrightarrow> False"
    "s' = s\<lparr>assumed := [], answer := Unsat core, calls := Suc (calls s)\<rparr>"
proof -
  obtain core where a: "ipasir_answer e s = Unsat core" using solve_result(2) assms(4,5) by blast
  show thesis
    using that [of core] ipasir_contractD(2) [OF assms(1-3) a] solve_state [OF assms(4)] a by auto
qed

lemma ms_add_clause_eq:
  assumes "0 \<notin> set c"
  shows "ms_add_clause c m = m\<lparr>ms_clauses := ms_clauses m @ [ms_clause m @ c], ms_clause := [],
           ms_nVars := lit_bound c (ms_nVars m)\<rparr>"
proof -
  have "ms_adds c m = m\<lparr>ms_clause := ms_clause m @ c, ms_nVars := lit_bound c (ms_nVars m)\<rparr>"
    using assms
  proof (induction c arbitrary: m)
    case Nil
    then show ?case by (simp add: ms_adds_def lit_bound_def)
  next
    case (Cons l c)
    have "minisatSimp_add l m = m\<lparr>ms_clause := ms_clause m @ [l], ms_nVars := max (ms_nVars m) \<bar>l\<bar>\<rparr>"
      using Cons.prems by (simp add: minisatSimp_add_def var_enlarge_to_def Let_def)
    then show ?case using Cons by (simp add: ms_adds_def lit_bound_def)
  qed
  then show ?thesis by (simp add: ms_add_clause_def ms_adds_def minisatSimp_add_def)
qed

lemma ms_add_cnf_eq:
  assumes "nonzero F" and "ms_clause m = []"
  shows "ms_add_cnf F m = m\<lparr>ms_clauses := ms_clauses m @ F, ms_nVars := fold lit_bound F (ms_nVars m)\<rparr>"
  using assms
proof (induction F arbitrary: m)
  case Nil
  then show ?case by (simp add: ms_add_cnf_def)
next
  case (Cons c F)
  have "ms_add_cnf (c # F) m = ms_add_cnf F (ms_add_clause c m)" by (simp add: ms_add_cnf_def)
  then show ?case using Cons by (simp add: ms_add_clause_eq)
qed

lemma fold_lit_bound_ge: "n \<le> fold lit_bound F n"
proof (induction F arbitrary: n)
  case (Cons c F)
  show ?case using lit_bound_ge [of n c] Cons.IH [of "lit_bound c n"] by simp
qed simp

lemma fold_lit_bound_lits: "lits_le (fold lit_bound F n) F"
proof (induction F arbitrary: n)
  case Nil
  then show ?case by (simp add: lits_le_def)
next
  case (Cons c F)
  have "\<bar>l\<bar> \<le> fold lit_bound F (lit_bound c n)" if "l \<in> set c" for l
    using lit_bound_mem [OF that, of n] fold_lit_bound_ge [of "lit_bound c n" F] by simp
  then show ?case using Cons [of "lit_bound c n"] by (auto simp: lits_le_def)
qed

lemma fold_lit_bound_le: "n \<le> k \<Longrightarrow> lits_le k F \<Longrightarrow> fold lit_bound F n \<le> k"
proof (induction F arbitrary: n)
  case (Cons c F)
  then have "lit_bound c n \<le> k" by (intro lit_bound_le) (auto simp: lits_le_def)
  then show ?case using Cons by (simp add: lits_le_def)
qed simp

text \<open>Between two clauses, the preprocessing wrapper knows every variable it has seen.\<close>

definition ms_ok :: "minisatSimp \<Rightarrow> bool" where
  "ms_ok m = (ms_clause m = [] \<and> nonzero (ms_clauses m) \<and> lits_le (ms_nVars m) (ms_clauses m)
      \<and> 0 \<le> ms_nVars m)"

lemma ms_add_cnf_ok:
  assumes "ms_ok m" and "nonzero F"
  shows "ms_ok (ms_add_cnf F m)" and "ms_clauses (ms_add_cnf F m) = ms_clauses m @ F"
    and "ms_frozen (ms_add_cnf F m) = ms_frozen m" and "ms_nVars m \<le> ms_nVars (ms_add_cnf F m)"
proof -
  have e: "ms_add_cnf F m = m\<lparr>ms_clauses := ms_clauses m @ F, ms_nVars := fold lit_bound F (ms_nVars m)\<rparr>"
    using assms by (intro ms_add_cnf_eq) (auto simp: ms_ok_def)
  have ge: "ms_nVars m \<le> fold lit_bound F (ms_nVars m)" by (rule fold_lit_bound_ge)
  show "ms_ok (ms_add_cnf F m)"
    using assms ge fold_lit_bound_lits lits_le_mono order_trans by (auto simp: ms_ok_def e)
  show "ms_clauses (ms_add_cnf F m) = ms_clauses m @ F" by (simp add: e)
  show "ms_frozen (ms_add_cnf F m) = ms_frozen m" by (simp add: e)
  show "ms_nVars m \<le> ms_nVars (ms_add_cnf F m)" using ge by (simp add: e)
qed

lemma set_frozen_ok:
  assumes "ms_ok m"
  shows "ms_ok (set_frozen l m)" and "ms_clauses (set_frozen l m) = ms_clauses m"
    and "ms_frozen (set_frozen l m) = insert \<bar>l\<bar> (ms_frozen m)"
    and "ms_nVars m \<le> ms_nVars (set_frozen l m)"
  using assms lits_le_mono [of "ms_nVars m" "ms_clauses m"]
  by (auto simp: set_frozen_def var_enlarge_to_def ms_ok_def Let_def)

lemma ms_new_ok:
  "0 \<le> v \<Longrightarrow> ms_ok (var_enlarge_to v minisatSimp_new)"
  "0 \<le> v \<Longrightarrow> ms_nVars (var_enlarge_to v minisatSimp_new) = v"
  "ms_clauses (var_enlarge_to v minisatSimp_new) = []"
  "ms_frozen (var_enlarge_to v minisatSimp_new) = {}"
  by (auto simp: var_enlarge_to_def minisatSimp_new_def ms_ok_def lits_le_def)

end
