(* ===== verification/PDR_Encode.thy ===== *)
theory PDR_Encode
  imports Aig SatSolver
begin

text \<open>
  The encoders of \<^verbatim>\<open>src/PDR.cpp\<close>: the primed copy of a variable (\<^verbatim>\<open>prime_var\<close>, \<^verbatim>\<open>prime_lit\<close>,
  \<^verbatim>\<open>PDR::translate_to_dimacs\<close>), the initial condition, the bad cone, and the transition
  relation that \<^verbatim>\<open>encode_translation\<close> and \<^verbatim>\<open>encode_lift\<close> build once and pass through MiniSat's
  preprocessing. The theorems relate the clauses to steps of the circuit, in both
  directions, on the variables the queries mention.
\<close>

section \<open>Primed variables\<close>

definition prime_var :: "int \<Rightarrow> Aiger \<Rightarrow> (int \<times> Aiger) option" where
  "prime_var var a =
     (if \<not> 1 \<le> var then None
      else if 1 < var then
        if var \<le> 1 + num_inputs a + num_latches a
        then Some (primed_first_dimacs a + var - 2, a)
        else (case map_to_prime a var of
                None \<Rightarrow> do {
                  let primed_var = int (length (variables a));
                  v \<leftarrow> vec_at (variables a) var;
                  Some (primed_var,
                    a\<lparr>map_to_prime := (map_to_prime a)(var \<mapsto> primed_var),
                      map_to_unprime := (map_to_unprime a)(primed_var \<mapsto> var),
                      variables := variables a
                        @ [\<lparr>dimacs_var = primed_var, vname = vname v @ [CHR 0x27]\<rparr>]\<rparr>)
                }
              | Some p \<Rightarrow> Some (p, a))
      else Some (var, a))"

definition prime_lit :: "int \<Rightarrow> Aiger \<Rightarrow> (int \<times> Aiger) option" where
  "prime_lit l a =
     (if 0 \<le> l then prime_var l a
      else do { (p, a') \<leftarrow> prime_var (- l) a; Some (- p, a') })"

definition PDR_translate_to_dimacs :: "Aiger \<Rightarrow> Aiger option" where
  "PDR_translate_to_dimacs a = do {
     let a1 = a\<lparr>variables := variables a
        @ map (\<lambda>i. Variable_named (primed_first_dimacs a + i) (CHR ''i'') i True)
            [0..num_inputs a - 1]
        @ map (\<lambda>i. Variable_named (primed_first_dimacs a + num_inputs a + i) (CHR ''l'') i True)
            [0..num_latches a - 1]\<rparr>;
     (bp, a2) \<leftarrow> prime_lit (bad a1) a1;
     fold_opt (\<lambda>l a. do {
         (pl, a') \<leftarrow> prime_lit l a;
         Some (a'\<lparr>constraints_prime := constraints_prime a' @ [pl]\<rparr>)
       }) (constraints a2) (a2\<lparr>bad_prime := bp\<rparr>)
   }"

section \<open>The initial condition and the bad cone\<close>

definition gate_clauses :: "And \<Rightarrow> cnf" where
  "gate_clauses g = and_clauses (out g) (i1 g) (i2 g)"

definition init_cnf :: "Aiger \<Rightarrow> cnf" where
  "init_cnf a =
     [[- 1]] @ map (\<lambda>l. [l]) (init_state a) @ map (\<lambda>l. [l]) (constraints a)
     @ concat (map gate_clauses (coi (rev (ands a)) (abs ` set (constraints a))))"

definition encode_init_condition :: "Aiger \<Rightarrow> CaDiCaL \<Rightarrow> CaDiCaL" where
  "encode_init_condition a s = add_cnf (init_cnf a) s"

definition encode_bad_state :: "Aiger \<Rightarrow> CaDiCaL \<Rightarrow> CaDiCaL option" where
  "encode_bad_state a s =
     (if list_all (\<lambda>g. 0 < out g) (ands a)
      then Some (add_cnf (concat (map gate_clauses (coi (rev (ands a)) {\<bar>bad a\<bar>}))) s)
      else None)"

section \<open>The transition relation\<close>

text \<open>Inputs, latches, bad and constraints, primed and unprimed, are not eliminated.\<close>

definition freeze_leaves :: "Aiger \<times> minisatSimp \<Rightarrow> (Aiger \<times> minisatSimp) option" where
  "freeze_leaves st = fold_opt (\<lambda>i (a, m). do {
       (p, a') \<leftarrow> prime_var (1 + i) a;
       Some (a', set_frozen p (set_frozen (1 + i) m))
     }) [1..num_inputs (fst st) + num_latches (fst st)] st"

definition freeze_constraints :: "Aiger \<times> minisatSimp \<Rightarrow> (Aiger \<times> minisatSimp) option" where
  "freeze_constraints st = fold_opt (\<lambda>i (a, m). do {
       c \<leftarrow> vec_at (constraints a) (int i);
       cp \<leftarrow> vec_at (constraints_prime a) (int i);
       (p, a') \<leftarrow> prime_var \<bar>c\<bar> a;
       if p = \<bar>cp\<bar> then Some (a', set_frozen \<bar>cp\<bar> (set_frozen \<bar>c\<bar> m)) else None
     }) [0..<length (constraints (fst st))] st"

definition encode_latches :: "Aiger \<times> minisatSimp \<Rightarrow> (Aiger \<times> minisatSimp) option" where
  "encode_latches st = fold_opt (\<lambda>i (a, m). do {
       (pl, a') \<leftarrow> prime_lit (1 + num_inputs a + i + 1) a;
       nx \<leftarrow> vec_at (nexts a') i;
       Some (a', ms_add_cnf [[- pl, nx], [- nx, pl]] m)
     }) [0..num_latches (fst st) - 1] st"

fun encode_gates ::
  "And list \<Rightarrow> int set \<Rightarrow> int set \<Rightarrow> Aiger \<times> minisatSimp \<Rightarrow> (Aiger \<times> minisatSimp) option" where
  "encode_gates [] S P st = Some st"
| "encode_gates (g # gs) S P (a, m) =
     (if \<not> 0 < out g then None
      else if out g \<in> S then
        let S' = insert \<bar>i1 g\<bar> (insert \<bar>i2 g\<bar> S);
            m1 = ms_add_cnf (and_clauses (out g) (i1 g) (i2 g)) m
        in if out g \<in> P then do {
             (po, a1) \<leftarrow> prime_lit (out g) a;
             (p1, a2) \<leftarrow> prime_lit (i1 g) a1;
             (p2, a3) \<leftarrow> prime_lit (i2 g) a2;
             encode_gates gs S' (insert \<bar>i1 g\<bar> (insert \<bar>i2 g\<bar> P))
               (a3, ms_add_cnf (and_clauses po p1 p2) m1)
           }
           else encode_gates gs S' P (a, m1)
      else encode_gates gs S P (a, m))"

definition prime_lit_set :: "Aiger \<Rightarrow> int set" where
  "prime_lit_set a = insert \<bar>bad a\<bar> (abs ` set (constraints a))"

definition lit_set :: "Aiger \<Rightarrow> int set" where
  "lit_set a = prime_lit_set a \<union> abs ` set (nexts a)"

text \<open>The body of \<^verbatim>\<open>encode_translation\<close> that runs once, up to \<^verbatim>\<open>simplify\<close>.\<close>

definition build_satelite :: "Aiger \<Rightarrow> (minisatSimp \<times> bool \<times> Aiger) option" where
  "build_satelite a = do {
     let m0 = var_enlarge_to (int (length (variables a)) - 1) minisatSimp_new;
     (a1, m1) \<leftarrow> freeze_leaves (a, m0);
     let m2 = set_frozen \<bar>bad_prime a1\<bar> (set_frozen \<bar>bad a1\<bar> m1);
     (a2, m3) \<leftarrow> freeze_constraints (a1, m2);
     let m4 = ms_add_cnf ([[- 1], [- bad a2]] @ map (\<lambda>l. [l]) (constraints a2)) m3;
     (a3, m5) \<leftarrow> encode_latches (a2, m4);
     (a4, m6) \<leftarrow> encode_gates (rev (ands a3)) (lit_set a3) (prime_lit_set a3) (a3, m5);
     Some (m6, bad a4 \<in> set (constraints a4), a4)
   }"

text \<open>The body of \<^verbatim>\<open>encode_lift\<close>: the same without the constraints of the first state.\<close>

definition build_satelite2 :: "Aiger \<Rightarrow> (minisatSimp \<times> Aiger) option" where
  "build_satelite2 a = do {
     let m0 = var_enlarge_to (int (length (variables a)) - 1) minisatSimp_new;
     (a1, m1) \<leftarrow> freeze_leaves (a, m0);
     let m2 = set_frozen \<bar>bad_prime a1\<bar> (set_frozen \<bar>bad a1\<bar> m1);
     (a2, m3) \<leftarrow> freeze_constraints (a1, m2);
     let m4 = ms_add_cnf [[- 1], [- bad a2]] m3;
     (a3, m5) \<leftarrow> encode_latches (a2, m4);
     (a4, m6) \<leftarrow> encode_gates (rev (ands a3)) (lit_set a3) (prime_lit_set a3) (a3, m5);
     Some (m6, a4)
   }"

section \<open>The primed numbering\<close>

definition circ :: "Aiger \<Rightarrow> int \<times> int \<times> int \<times> And list \<times> int list \<times> int list \<times> int list \<times> int list \<times> int \<times> int" where
  "circ a = (num_inputs a, num_latches a, num_ands a, ands a, nexts a, init_state a,
     constraints a, allbad a, bad a, primed_first_dimacs a)"

lemma circD:
  assumes "circ a = circ b"
  shows "num_inputs a = num_inputs b" "num_latches a = num_latches b" "num_ands a = num_ands b"
    "ands a = ands b" "nexts a = nexts b" "init_state a = init_state b"
    "constraints a = constraints b" "allbad a = allbad b" "bad a = bad b"
    "primed_first_dimacs a = primed_first_dimacs b"
  using assms by (simp_all add: circ_def)

lemma circ_sem:
  assumes "circ a = circ b"
  shows "wf_aig a = wf_aig b" "gates_ok a = gates_ok b" "constr_ok a = constr_ok b"
    "init_ok a = init_ok b" "next_ok a = next_ok b" "is_leaf a = is_leaf b"
    "is_latch a = is_latch b" "valid a = valid b" "completed a = completed b"
    "prime_lit_set a = prime_lit_set b" "lit_set a = lit_set b" "lit_in a = lit_in b"
  using circD [OF assms]
  by (simp_all add: fun_eq_iff wf_aig_def gates_ok_def constr_ok_def init_ok_def next_ok_def
      is_leaf_def is_latch_def valid_def completed_def lit_in_def prime_lit_set_def lit_set_def)

definition prime_inv :: "Aiger \<Rightarrow> bool" where
  "prime_inv a = (wf_aig a
     \<and> primed_first_dimacs a + num_inputs a + num_latches a \<le> int (length (variables a))
     \<and> (\<forall>v p. map_to_prime a v = Some p \<longrightarrow>
          first_and a \<le> v \<and> v < primed_first_dimacs a
          \<and> primed_first_dimacs a + num_inputs a + num_latches a \<le> p
          \<and> p < int (length (variables a)) \<and> map_to_unprime a p = Some v))"

definition primed :: "Aiger \<Rightarrow> int \<Rightarrow> int" where
  "primed a v =
     (if v \<le> 1 then v
      else if v < first_and a then primed_first_dimacs a + v - 2
      else the (map_to_prime a v))"

definition has_prime :: "Aiger \<Rightarrow> int \<Rightarrow> bool" where
  "has_prime a v = (1 \<le> v \<and> (v < first_and a \<or> v \<in> dom (map_to_prime a)))"

definition plit :: "Aiger \<Rightarrow> int \<Rightarrow> int" where
  "plit a l = (if 0 \<le> l then primed a l else - primed a (- l))"

definition grow :: "Aiger \<Rightarrow> Aiger \<Rightarrow> bool" where
  "grow a a' = (circ a' = circ a \<and> prime_inv a' \<and> map_to_prime a \<subseteq>\<^sub>m map_to_prime a'
     \<and> bad_prime a' = bad_prime a \<and> constraints_prime a' = constraints_prime a
     \<and> length (variables a) \<le> length (variables a'))"

lemma grow_refl: "prime_inv a \<Longrightarrow> grow a a"
  by (simp add: grow_def)

lemma grow_trans: "grow a b \<Longrightarrow> grow b c \<Longrightarrow> grow a c"
  using map_le_trans [of "map_to_prime a" "map_to_prime b" "map_to_prime c"]
  by (simp add: grow_def)

lemma growD:
  assumes "grow a b"
  shows "circ b = circ a" "prime_inv b" "bad_prime b = bad_prime a"
    "constraints_prime b = constraints_prime a" "length (variables a) \<le> length (variables b)"
  using assms by (simp_all add: grow_def)

lemma keep_prime:
  assumes circ: "circ b = circ a" and m: "map_to_prime a \<subseteq>\<^sub>m map_to_prime b" and v: "has_prime a v"
  shows "has_prime b v" "primed b v = primed a v"
proof -
  note c = circD(1,2,10) [OF circ]
  show "has_prime b v"
    using v c map_le_implies_dom_le [OF m] by (auto simp: has_prime_def)
  have "map_to_prime b v = Some y" if "map_to_prime a v = Some y" for y
    using m that by (metis domI map_le_def)
  then show "primed b v = primed a v"
    using v c by (auto simp: has_prime_def primed_def)
qed

lemma keep_plit:
  assumes "circ b = circ a" "map_to_prime a \<subseteq>\<^sub>m map_to_prime b" "has_prime a \<bar>l\<bar>"
  shows "plit b l = plit a l"
  using keep_prime(2) [OF assms] by (auto simp: plit_def abs_if split: if_splits)

lemma grow_has_prime:
  assumes "grow a b" and "has_prime a v"
  shows "has_prime b v" "primed b v = primed a v"
  using keep_prime [of b a v] assms by (auto simp: grow_def)

lemma grow_plit: "grow a b \<Longrightarrow> has_prime a \<bar>l\<bar> \<Longrightarrow> plit b l = plit a l"
  using keep_plit [of b a l] by (simp add: grow_def)

lemma primed_range:
  assumes "prime_inv a" and "has_prime a v"
  shows "1 \<le> primed a v" "primed a v < int (length (variables a))"
proof -
  have nn: "0 \<le> num_inputs a" "0 \<le> num_latches a" "first_and a \<le> primed_first_dimacs a"
    using assms(1) by (auto simp: prime_inv_def wf_aig_def)
  show "1 \<le> primed a v" "primed a v < int (length (variables a))"
    using assms nn by (force simp: prime_inv_def has_prime_def primed_def)+
qed

lemma lit_val_plit:
  assumes "prime_inv a" and "has_prime a \<bar>l\<bar>"
  shows "lit_val \<alpha> (plit a l) = lit_val (\<lambda>v. \<alpha> (primed a v)) l"
    and "plit a l \<noteq> 0" and "\<bar>plit a l\<bar> < int (length (variables a))"
    and "l \<noteq> 0" and "\<bar>plit a l\<bar> = primed a \<bar>l\<bar>"
  using primed_range [OF assms] assms(2)
  by (auto simp: plit_def lit_val_def has_prime_def abs_if split: if_splits)

lemma prime_var_ok:
  assumes inv: "prime_inv a" and v: "1 \<le> v" "v < primed_first_dimacs a"
  shows "\<exists>a'. prime_var v a = Some (primed a' v, a') \<and> grow a a' \<and> has_prime a' v"
proof (cases "v < first_and a")
  case True
  then show ?thesis
    using v grow_refl [OF inv]
    by (auto simp: prime_var_def primed_def has_prime_def intro!: exI [of _ a])
next
  case False
  have nn: "0 \<le> num_inputs a" "0 \<le> num_latches a"
    using inv by (auto simp: prime_inv_def wf_aig_def)
  have len: "v < int (length (variables a))"
    using inv v nn by (simp add: prime_inv_def)
  show ?thesis
  proof (cases "map_to_prime a v")
    case (Some p)
    then show ?thesis
      using False v nn grow_refl [OF inv]
      by (auto simp: prime_var_def primed_def has_prime_def intro!: exI [of _ a])
  next
    case None
    let ?p = "int (length (variables a))"
    let ?a = "a\<lparr>map_to_prime := (map_to_prime a)(v \<mapsto> ?p),
                map_to_unprime := (map_to_unprime a)(?p \<mapsto> v),
                variables := variables a
                  @ [\<lparr>dimacs_var = ?p, vname = vname (variables a ! nat v) @ [CHR 0x27]\<rparr>]\<rparr>"
    have eq: "prime_var v a = Some (?p, ?a)"
      using False v nn None len by (simp add: prime_var_def vec_at_def Let_def)
    have c: "circ ?a = circ a" by (simp add: circ_def)
    have "\<forall>u p. ((map_to_prime a)(v \<mapsto> ?p)) u = Some p \<longrightarrow>
        first_and a \<le> u \<and> u < primed_first_dimacs a
        \<and> primed_first_dimacs a + num_inputs a + num_latches a \<le> p
        \<and> p < 1 + ?p \<and> ((map_to_unprime a)(?p \<mapsto> v)) p = Some u"
      using inv v False by (auto simp: prime_inv_def) fastforce+
    then have "prime_inv ?a"
      using inv by (simp add: prime_inv_def circ_sem(1) [OF c])
    then have "grow a ?a"
      using c None by (auto simp: grow_def map_le_def)
    moreover have "primed ?a v = ?p" using False nn by (simp add: primed_def)
    moreover have "has_prime ?a v" using v by (simp add: has_prime_def)
    ultimately show ?thesis using eq by metis
  qed
qed

lemma prime_lit_ok:
  assumes inv: "prime_inv a" and l: "l \<noteq> 0" "\<bar>l\<bar> < primed_first_dimacs a"
  shows "\<exists>a'. prime_lit l a = Some (plit a' l, a') \<and> grow a a' \<and> has_prime a' \<bar>l\<bar>"
proof -
  have "1 \<le> \<bar>l\<bar>" using l by auto
  then obtain a' where a': "prime_var \<bar>l\<bar> a = Some (primed a' \<bar>l\<bar>, a')" "grow a a'" "has_prime a' \<bar>l\<bar>"
    using prime_var_ok [OF inv] l by blast
  then show ?thesis
    by (intro exI [of _ a']) (auto simp: prime_lit_def plit_def abs_if split: if_splits)
qed

section \<open>What the encoding loops emit\<close>

lemma gate_ok_primed:
  assumes inv: "prime_inv a" and h: "has_prime a (out g)" "has_prime a \<bar>i1 g\<bar>" "has_prime a \<bar>i2 g\<bar>"
    and pos: "0 < out g"
  shows "sat_cnf \<alpha> (and_clauses (plit a (out g)) (plit a (i1 g)) (plit a (i2 g)))
           = gate_ok (\<lambda>v. \<alpha> (primed a v)) g"
proof -
  have "0 < primed a (out g)" "plit a (out g) = primed a (out g)"
    using primed_range [OF inv h(1)] pos by (auto simp: plit_def)
  then show ?thesis
    using lit_val_plit [OF inv h(2)] lit_val_plit [OF inv h(3)]
    by (simp add: sat_and_clauses gate_ok_def)
qed

definition gate_in :: "Aiger \<Rightarrow> And \<Rightarrow> bool" where
  "gate_in a g = (0 < out g \<and> out g < primed_first_dimacs a
     \<and> i1 g \<noteq> 0 \<and> \<bar>i1 g\<bar> < primed_first_dimacs a \<and> i2 g \<noteq> 0 \<and> \<bar>i2 g\<bar> < primed_first_dimacs a)"

lemma gate_in_circ: "circ a = circ b \<Longrightarrow> gate_in a g = gate_in b g"
  using circD(10) [of a b] by (simp add: gate_in_def)

lemma wf_gate_in:
  assumes "wf_aig a" and "g \<in> set (ands a)"
  shows "gate_in a g"
  using wf_ands_mem [OF wf_aigD(5) [OF assms(1)] assms(2)] wf_aigD(1,2,6) [OF assms(1)]
  by (auto simp: gate_in_def)

text \<open>The three primed literals of a gate are allocated one after the other.\<close>

lemma prime_gate_ok:
  assumes inv: "prime_inv a" and g: "gate_in a g"
  obtains a1 a2 a3 where
    "prime_lit (out g) a = Some (plit a3 (out g), a1)" "prime_lit (i1 g) a1 = Some (plit a3 (i1 g), a2)"
    "prime_lit (i2 g) a2 = Some (plit a3 (i2 g), a3)" "grow a a3"
    "has_prime a3 (out g)" "has_prime a3 \<bar>i1 g\<bar>" "has_prime a3 \<bar>i2 g\<bar>"
proof -
  have o: "out g \<noteq> 0" "\<bar>out g\<bar> < primed_first_dimacs a" "\<bar>out g\<bar> = out g"
    using g by (auto simp: gate_in_def)
  obtain a1 where a1: "prime_lit (out g) a = Some (plit a1 (out g), a1)" "grow a a1"
    "has_prime a1 \<bar>out g\<bar>"
    using prime_lit_ok [OF inv o(1,2)] by blast
  have "gate_in a1 g" using g gate_in_circ [OF growD(1) [OF a1(2)]] by simp
  then obtain a2 where a2: "prime_lit (i1 g) a1 = Some (plit a2 (i1 g), a2)" "grow a1 a2"
    "has_prime a2 \<bar>i1 g\<bar>"
    using prime_lit_ok [OF growD(2) [OF a1(2)], of "i1 g"] by (auto simp: gate_in_def)
  have "gate_in a2 g" using \<open>gate_in a1 g\<close> gate_in_circ [OF growD(1) [OF a2(2)]] by simp
  then obtain a3 where a3: "prime_lit (i2 g) a2 = Some (plit a3 (i2 g), a3)" "grow a2 a3"
    "has_prime a3 \<bar>i2 g\<bar>"
    using prime_lit_ok [OF growD(2) [OF a2(2)], of "i2 g"] by (auto simp: gate_in_def)
  have g13: "grow a1 a3" using grow_trans a2(2) a3(2) by blast
  show thesis
  proof
    show "prime_lit (out g) a = Some (plit a3 (out g), a1)"
      using a1 grow_plit [OF g13 a1(3)] by simp
    show "prime_lit (i1 g) a1 = Some (plit a3 (i1 g), a2)"
      using a2 grow_plit [OF a3(2) a2(3)] by simp
    show "grow a a3" using grow_trans a1(2) g13 by blast
    show "has_prime a3 (out g)" using grow_has_prime(1) [OF g13 a1(3)] o(3) by simp
    show "has_prime a3 \<bar>i1 g\<bar>" using grow_has_prime(1) [OF a3(2) a2(3)] .
  qed (use a3 in auto)
qed

definition gates_primed :: "Aiger \<Rightarrow> And list \<Rightarrow> bool" where
  "gates_primed a gs = (\<forall>g\<in>set gs. has_prime a (out g) \<and> has_prime a \<bar>i1 g\<bar> \<and> has_prime a \<bar>i2 g\<bar>)"

lemma encode_gates_ok:
  assumes "prime_inv a" and "ms_ok m" and "P \<subseteq> S" and "\<forall>g\<in>set gs. gate_in a g"
  shows "\<exists>a' m' G. encode_gates gs S P (a, m) = Some (a', m') \<and> grow a a' \<and> ms_ok m'
     \<and> ms_clauses m' = ms_clauses m @ G \<and> ms_frozen m' = ms_frozen m \<and> ms_nVars m \<le> ms_nVars m'
     \<and> gates_primed a' (coi gs P)
     \<and> (\<forall>\<alpha>. sat_cnf \<alpha> G = ((\<forall>g\<in>set (coi gs S). gate_ok \<alpha> g)
              \<and> (\<forall>g\<in>set (coi gs P). gate_ok (\<lambda>v. \<alpha> (primed a' v)) g)))"
  using assms
proof (induction gs arbitrary: a m S P)
  case Nil
  then show ?case by (auto simp: grow_refl gates_primed_def sat_simps)
next
  case (Cons g gs)
  have g: "gate_in a g" and gs: "\<forall>h\<in>set gs. gate_in a h" using Cons.prems(4) by auto
  have pos: "0 < out g" using g by (simp add: gate_in_def)
  let ?S = "insert \<bar>i1 g\<bar> (insert \<bar>i2 g\<bar> S)"
  let ?P = "insert \<bar>i1 g\<bar> (insert \<bar>i2 g\<bar> P)"
  let ?c = "and_clauses (out g) (i1 g) (i2 g)"
  have nz: "nonzero ?c" using g by (auto simp: gate_in_def and_clauses_def)
  have satc: "sat_cnf \<alpha> ?c = gate_ok \<alpha> g" for \<alpha>
    using g by (simp add: gate_in_def sat_and_clauses gate_ok_def)
  note m1 = ms_add_cnf_ok [OF Cons.prems(2) nz]
  consider (out) "out g \<notin> S" | (both) "out g \<in> S" "out g \<in> P" | (one) "out g \<in> S" "out g \<notin> P"
    by blast
  then show ?case
  proof cases
    case out
    then have "out g \<notin> P" using Cons.prems(3) by blast
    with out show ?thesis
      using Cons.IH [OF Cons.prems(1,2,3) gs] pos by simp
  next
    case one
    have "P \<subseteq> ?S" using Cons.prems(3) by blast
    then obtain a' m' G where IH: "encode_gates gs ?S P (a, ms_add_cnf ?c m) = Some (a', m')"
      "grow a a'" "ms_ok m'" "ms_clauses m' = ms_clauses (ms_add_cnf ?c m) @ G"
      "ms_frozen m' = ms_frozen (ms_add_cnf ?c m)" "ms_nVars (ms_add_cnf ?c m) \<le> ms_nVars m'"
      "gates_primed a' (coi gs P)"
      "\<forall>\<alpha>. sat_cnf \<alpha> G = ((\<forall>g\<in>set (coi gs ?S). gate_ok \<alpha> g)
              \<and> (\<forall>g\<in>set (coi gs P). gate_ok (\<lambda>v. \<alpha> (primed a' v)) g))"
      using Cons.IH [OF Cons.prems(1) m1(1) _ gs, of P ?S] by blast
    then show ?thesis
      using one pos m1 satc
      by (intro exI [of _ a'] exI [of _ m'] exI [of _ "?c @ G"]) (auto simp: sat_simps)
  next
    case both
    obtain a1 a2 a3 where p: "prime_lit (out g) a = Some (plit a3 (out g), a1)"
      "prime_lit (i1 g) a1 = Some (plit a3 (i1 g), a2)"
      "prime_lit (i2 g) a2 = Some (plit a3 (i2 g), a3)" "grow a a3"
      "has_prime a3 (out g)" "has_prime a3 \<bar>i1 g\<bar>" "has_prime a3 \<bar>i2 g\<bar>"
      using prime_gate_ok [OF Cons.prems(1) g] by blast
    note inv3 = growD(2) [OF p(4)]
    let ?d = "and_clauses (plit a3 (out g)) (plit a3 (i1 g)) (plit a3 (i2 g))"
    have "has_prime a3 \<bar>out g\<bar>" using p(5) pos by simp
    then have nzd: "nonzero ?d"
      using lit_val_plit(2) [OF inv3] p(6,7) by (simp add: and_clauses_def)
    note m2 = ms_add_cnf_ok [OF m1(1) nzd]
    have gs3: "\<forall>h\<in>set gs. gate_in a3 h" using gs gate_in_circ [OF growD(1) [OF p(4)]] by simp
    have "?P \<subseteq> ?S" using Cons.prems(3) by blast
    then obtain a' m' G where IH:
      "encode_gates gs ?S ?P (a3, ms_add_cnf ?d (ms_add_cnf ?c m)) = Some (a', m')"
      "grow a3 a'" "ms_ok m'"
      "ms_clauses m' = ms_clauses (ms_add_cnf ?d (ms_add_cnf ?c m)) @ G"
      "ms_frozen m' = ms_frozen (ms_add_cnf ?d (ms_add_cnf ?c m))"
      "ms_nVars (ms_add_cnf ?d (ms_add_cnf ?c m)) \<le> ms_nVars m'"
      "gates_primed a' (coi gs ?P)"
      "\<forall>\<alpha>. sat_cnf \<alpha> G = ((\<forall>g\<in>set (coi gs ?S). gate_ok \<alpha> g)
              \<and> (\<forall>g\<in>set (coi gs ?P). gate_ok (\<lambda>v. \<alpha> (primed a' v)) g))"
      using Cons.IH [OF inv3 m2(1) _ gs3, of ?P ?S] by blast
    note hp = grow_has_prime [OF IH(2)]
    have satd: "sat_cnf \<alpha> ?d = gate_ok (\<lambda>v. \<alpha> (primed a' v)) g" for \<alpha>
    proof -
      have "plit a' l = plit a3 l" if "has_prime a3 \<bar>l\<bar>" for l
        using grow_plit [OF IH(2) that] .
      then show ?thesis
        using gate_ok_primed [OF growD(2) [OF IH(2)], of g \<alpha>] hp(1) p(5-7) pos by simp
    qed
    have "encode_gates (g # gs) S P (a, m) = Some (a', m')"
      using both pos p(1-3) IH(1) by (simp add: Let_def)
    moreover have "grow a a'" using grow_trans p(4) IH(2) by blast
    moreover have "ms_clauses m' = ms_clauses m @ (?c @ ?d @ G)" using IH(4) m1 m2 by simp
    moreover have "ms_nVars m \<le> ms_nVars m'" using IH(6) m1(4) m2(4) by linarith
    moreover have "gates_primed a' (coi (g # gs) P)"
      using IH(7) hp(1) p(5-7) both by (simp add: gates_primed_def)
    moreover have "sat_cnf \<alpha> (?c @ ?d @ G) = ((\<forall>g\<in>set (coi (g # gs) S). gate_ok \<alpha> g)
              \<and> (\<forall>g\<in>set (coi (g # gs) P). gate_ok (\<lambda>v. \<alpha> (primed a' v)) g))" for \<alpha>
      using IH(8) satc satd both by (auto simp: sat_simps)
    ultimately show ?thesis
      using IH(3,5) m1(3) m2(3)
      by (intro exI [of _ a'] exI [of _ m'] exI [of _ "?c @ ?d @ G"]) simp
  qed
qed

lemma prime_var_has: "prime_inv a \<Longrightarrow> has_prime a v \<Longrightarrow> prime_var v a = Some (primed a v, a)"
  by (auto simp: prime_var_def has_prime_def primed_def prime_inv_def wf_aig_def)

lemma prime_lit_has:
  "prime_inv a \<Longrightarrow> has_prime a \<bar>l\<bar> \<Longrightarrow> prime_lit l a = Some (plit a l, a)"
  using prime_var_has [of a "\<bar>l\<bar>"] by (auto simp: prime_lit_def plit_def abs_if split: if_splits)

lemma leaf_has_prime: "prime_inv a \<Longrightarrow> is_leaf a v \<Longrightarrow> has_prime a v"
  by (auto simp: has_prime_def is_leaf_def)

lemma latch_has_prime: "prime_inv a \<Longrightarrow> is_latch a v \<Longrightarrow> has_prime a v"
  by (auto simp: leaf_has_prime latch_is_leaf prime_inv_def)

lemma primed_leaf: "is_leaf a v \<Longrightarrow> primed a v = v + (primed_first_dimacs a - 2)"
  by (auto simp: primed_def is_leaf_def)

definition enc_inv :: "Aiger \<Rightarrow> bool" where
  "enc_inv a = (prime_inv a \<and> constraints_prime a = map (plit a) (constraints a)
     \<and> (\<forall>c\<in>set (constraints a). has_prime a \<bar>c\<bar>)
     \<and> bad_prime a = plit a (bad a) \<and> has_prime a \<bar>bad a\<bar>)"

lemma grow_enc_inv:
  assumes "enc_inv a" and "grow a b"
  shows "enc_inv b"
proof -
  have "constraints b = constraints a" "bad b = bad a"
    using circD [OF growD(1) [OF assms(2)]] by simp_all
  then show ?thesis
    using assms grow_has_prime [OF assms(2)] grow_plit [OF assms(2)] growD [OF assms(2)]
    by (auto simp: enc_inv_def)
qed

definition frozen_ok :: "Aiger \<Rightarrow> int set \<Rightarrow> bool" where
  "frozen_ok a fr = ((\<forall>v. is_leaf a v \<longrightarrow> v \<in> fr \<and> primed a v \<in> fr)
     \<and> \<bar>bad a\<bar> \<in> fr \<and> \<bar>bad_prime a\<bar> \<in> fr
     \<and> (\<forall>c\<in>set (constraints a). \<bar>c\<bar> \<in> fr \<and> \<bar>plit a c\<bar> \<in> fr))"

lemma freeze_leaves_ok:
  assumes inv: "prime_inv a" and m: "ms_ok m"
  shows "\<exists>m'. freeze_leaves (a, m) = Some (a, m') \<and> ms_ok m' \<and> ms_clauses m' = ms_clauses m
    \<and> ms_nVars m \<le> ms_nVars m' \<and> (\<forall>v. is_leaf a v \<longrightarrow> v \<in> ms_frozen m' \<and> primed a v \<in> ms_frozen m')"
proof -
  let ?f = "\<lambda>i (a, m). do {
       (p, a') \<leftarrow> prime_var (1 + i) a;
       Some (a', set_frozen p (set_frozen (1 + i) m)) }"
  have "\<exists>m'. fold_opt ?f is (a, m) = Some (a, m') \<and> ms_ok m' \<and> ms_clauses m' = ms_clauses m
    \<and> ms_nVars m \<le> ms_nVars m' \<and> ms_frozen m \<subseteq> ms_frozen m'
    \<and> (\<forall>i\<in>set is. 1 + i \<in> ms_frozen m' \<and> primed a (1 + i) \<in> ms_frozen m')"
    if "\<forall>i\<in>set is. is_leaf a (1 + i)" "ms_ok m" for "is" m
    using that
  proof (induction "is" arbitrary: m)
    case Nil
    then show ?case by simp
  next
    case (Cons i js)
    have leaf: "is_leaf a (1 + i)" using Cons.prems by simp
    have r: "1 \<le> primed a (1 + i)" "1 \<le> 1 + i"
      using primed_range [OF inv leaf_has_prime [OF inv leaf]] leaf by (auto simp: is_leaf_def)
    let ?m = "set_frozen (primed a (1 + i)) (set_frozen (1 + i) m)"
    note f1 = set_frozen_ok [OF Cons.prems(2), of "1 + i"]
    note f2 = set_frozen_ok [OF f1(1), of "primed a (1 + i)"]
    have st: "?f i (a, m) = Some (a, ?m)"
      using prime_var_has [OF inv leaf_has_prime [OF inv leaf]] by simp
    obtain m' where IH: "fold_opt ?f js (a, ?m) = Some (a, m')" "ms_ok m'"
      "ms_clauses m' = ms_clauses ?m" "ms_nVars ?m \<le> ms_nVars m'" "ms_frozen ?m \<subseteq> ms_frozen m'"
      "\<forall>i\<in>set js. 1 + i \<in> ms_frozen m' \<and> primed a (1 + i) \<in> ms_frozen m'"
      using Cons.IH [of ?m] Cons.prems f2(1) by auto
    show ?case
      using IH st f1 f2 r by (intro exI [of _ m']) auto
  qed
  moreover have "\<forall>i\<in>set [1..num_inputs a + num_latches a]. is_leaf a (1 + i)"
    by (auto simp: is_leaf_def)
  ultimately obtain m' where m': "freeze_leaves (a, m) = Some (a, m')" "ms_ok m'"
    "ms_clauses m' = ms_clauses m" "ms_nVars m \<le> ms_nVars m'"
    "\<forall>i\<in>set [1..num_inputs a + num_latches a]. 1 + i \<in> ms_frozen m' \<and> primed a (1 + i) \<in> ms_frozen m'"
    using m unfolding freeze_leaves_def fst_conv by blast
  have "v \<in> ms_frozen m' \<and> primed a v \<in> ms_frozen m'" if "is_leaf a v" for v
    using m'(5) that by (force simp: is_leaf_def dest!: bspec [of _ _ "v - 1"])
  then show ?thesis using m' by blast
qed

lemma freeze_constraints_ok:
  assumes inv: "enc_inv a" and m: "ms_ok m"
  shows "\<exists>m'. freeze_constraints (a, m) = Some (a, m') \<and> ms_ok m' \<and> ms_clauses m' = ms_clauses m
    \<and> ms_nVars m \<le> ms_nVars m' \<and> ms_frozen m \<subseteq> ms_frozen m'
    \<and> (\<forall>c\<in>set (constraints a). \<bar>c\<bar> \<in> ms_frozen m' \<and> \<bar>plit a c\<bar> \<in> ms_frozen m')"
proof -
  let ?f = "\<lambda>i (a, m). do {
       c \<leftarrow> vec_at (constraints a) (int i);
       cp \<leftarrow> vec_at (constraints_prime a) (int i);
       (p, a') \<leftarrow> prime_var \<bar>c\<bar> a;
       if p = \<bar>cp\<bar> then Some (a', set_frozen \<bar>cp\<bar> (set_frozen \<bar>c\<bar> m)) else None }"
  have pinv: "prime_inv a" using inv by (simp add: enc_inv_def)
  have "\<exists>m'. fold_opt ?f is (a, m) = Some (a, m') \<and> ms_ok m' \<and> ms_clauses m' = ms_clauses m
    \<and> ms_nVars m \<le> ms_nVars m' \<and> ms_frozen m \<subseteq> ms_frozen m'
    \<and> (\<forall>i\<in>set is. \<bar>constraints a ! i\<bar> \<in> ms_frozen m' \<and> \<bar>plit a (constraints a ! i)\<bar> \<in> ms_frozen m')"
    if "\<forall>i\<in>set is. i < length (constraints a)" "ms_ok m" for "is" m
    using that
  proof (induction "is" arbitrary: m)
    case Nil
    then show ?case by simp
  next
    case (Cons i js)
    let ?c = "constraints a ! i"
    have i: "i < length (constraints a)" using Cons.prems by simp
    then have h: "has_prime a \<bar>?c\<bar>" using inv by (simp add: enc_inv_def)
    have cp: "constraints_prime a ! i = plit a ?c" "length (constraints_prime a) = length (constraints a)"
      using inv i by (auto simp: enc_inv_def)
    let ?m = "set_frozen \<bar>plit a ?c\<bar> (set_frozen \<bar>?c\<bar> m)"
    note f1 = set_frozen_ok [OF Cons.prems(2), of "\<bar>?c\<bar>"]
    note f2 = set_frozen_ok [OF f1(1), of "\<bar>plit a ?c\<bar>"]
    have st: "?f i (a, m) = Some (a, ?m)"
      using i cp prime_var_has [OF pinv h] lit_val_plit(5) [OF pinv h]
      by (simp add: vec_at_def)
    obtain m' where IH: "fold_opt ?f js (a, ?m) = Some (a, m')" "ms_ok m'"
      "ms_clauses m' = ms_clauses ?m" "ms_nVars ?m \<le> ms_nVars m'" "ms_frozen ?m \<subseteq> ms_frozen m'"
      "\<forall>i\<in>set js. \<bar>constraints a ! i\<bar> \<in> ms_frozen m' \<and> \<bar>plit a (constraints a ! i)\<bar> \<in> ms_frozen m'"
      using Cons.IH [of ?m] Cons.prems f2(1) by auto
    show ?case
      using IH st f1 f2 by (intro exI [of _ m']) auto
  qed
  moreover have "\<forall>i\<in>set [0..<length (constraints a)]. i < length (constraints a)" by simp
  ultimately obtain m' where m': "freeze_constraints (a, m) = Some (a, m')" "ms_ok m'"
    "ms_clauses m' = ms_clauses m" "ms_nVars m \<le> ms_nVars m'" "ms_frozen m \<subseteq> ms_frozen m'"
    "\<forall>i\<in>set [0..<length (constraints a)].
       \<bar>constraints a ! i\<bar> \<in> ms_frozen m' \<and> \<bar>plit a (constraints a ! i)\<bar> \<in> ms_frozen m'"
    using m unfolding freeze_constraints_def fst_conv by blast
  have "\<bar>c\<bar> \<in> ms_frozen m' \<and> \<bar>plit a c\<bar> \<in> ms_frozen m'" if "c \<in> set (constraints a)" for c
    using m'(6) that by (auto simp: in_set_conv_nth)
  then show ?thesis using m' by blast
qed

lemma sat_equiv_clauses:
  assumes "0 < p" and "n \<noteq> 0"
  shows "sat_cnf \<alpha> [[- p, n], [- n, p]] = (\<alpha> p = lit_val \<alpha> n)"
  using assms by (auto simp: sat_simps lit_val_def)

lemma encode_latches_ok:
  assumes inv: "prime_inv a" and m: "ms_ok m"
  shows "\<exists>m' G. encode_latches (a, m) = Some (a, m') \<and> ms_ok m' \<and> ms_clauses m' = ms_clauses m @ G
    \<and> ms_nVars m \<le> ms_nVars m' \<and> ms_frozen m' = ms_frozen m
    \<and> (\<forall>\<alpha>. sat_cnf \<alpha> G = (\<forall>i<length (nexts a).
          \<alpha> (primed a (latch_var a i)) = lit_val \<alpha> (nexts a ! i)))"
proof -
  let ?f = "\<lambda>i (a, m). do {
       (pl, a') \<leftarrow> prime_lit (1 + num_inputs a + i + 1) a;
       nx \<leftarrow> vec_at (nexts a') i;
       Some (a', ms_add_cnf [[- pl, nx], [- nx, pl]] m) }"
  have wf: "wf_aig a" using inv by (simp add: prime_inv_def)
  have loop: "\<exists>m' G. fold_opt ?f is (a, m) = Some (a, m') \<and> ms_ok m' \<and> ms_clauses m' = ms_clauses m @ G
    \<and> ms_nVars m \<le> ms_nVars m' \<and> ms_frozen m' = ms_frozen m
    \<and> (\<forall>\<alpha>. sat_cnf \<alpha> G = (\<forall>i\<in>set is.
          \<alpha> (primed a (latch_var a (nat i))) = lit_val \<alpha> (nexts a ! nat i)))"
    if "\<forall>i\<in>set is. 0 \<le> i \<and> i < num_latches a" "ms_ok m" for "is" m
    using that
  proof (induction "is" arbitrary: m)
    case Nil
    then show ?case by (simp add: sat_simps)
  next
    case (Cons i js)
    have i: "0 \<le> i" "i < num_latches a" using Cons.prems by auto
    let ?l = "num_inputs a + 2 + i" and ?n = "nexts a ! nat i"
    have lv: "latch_var a (nat i) = ?l" using i by simp
    have latch: "is_latch a ?l" using i by (simp add: is_latch_def)
    have h: "has_prime a \<bar>?l\<bar>"
      using latch_has_prime [OF inv latch] wf_aigD(1) [OF wf] i by simp
    have pl: "prime_lit (1 + num_inputs a + i + 1) a = Some (primed a ?l, a)"
      using prime_lit_has [OF inv h] wf_aigD(1) [OF wf] i by (simp add: plit_def algebra_simps)
    have pos: "0 < primed a ?l"
      using primed_range [OF inv latch_has_prime [OF inv latch]] by simp
    have nx: "vec_at (nexts a) i = Some ?n" "?n \<noteq> 0"
      using i wf by (auto simp: vec_at_def wf_aig_def lit_in_def)
    let ?c = "[[- primed a ?l, ?n], [- ?n, primed a ?l]]"
    have nz: "nonzero ?c" using pos nx by simp
    note ad = ms_add_cnf_ok [OF Cons.prems(2) nz]
    have st: "?f i (a, m) = Some (a, ms_add_cnf ?c m)" using pl nx by simp
    obtain m' G where IH: "fold_opt ?f js (a, ms_add_cnf ?c m) = Some (a, m')" "ms_ok m'"
      "ms_clauses m' = ms_clauses (ms_add_cnf ?c m) @ G" "ms_nVars (ms_add_cnf ?c m) \<le> ms_nVars m'"
      "ms_frozen m' = ms_frozen (ms_add_cnf ?c m)"
      "\<forall>\<alpha>. sat_cnf \<alpha> G = (\<forall>i\<in>set js.
          \<alpha> (primed a (latch_var a (nat i))) = lit_val \<alpha> (nexts a ! nat i))"
      using Cons.IH [of "ms_add_cnf ?c m"] Cons.prems ad(1) by auto
    have "sat_cnf \<alpha> (?c @ G) = (\<forall>i\<in>set (i # js).
          \<alpha> (primed a (latch_var a (nat i))) = lit_val \<alpha> (nexts a ! nat i))" for \<alpha>
      using sat_equiv_clauses [OF pos nx(2)] IH(6) lv unfolding sat_cnf_append by simp
    moreover have "fold_opt ?f (i # js) (a, m) = Some (a, m')" using st IH(1) by simp
    moreover have "ms_clauses m' = ms_clauses m @ (?c @ G)" using IH(3) ad(2) by simp
    ultimately show ?case
      using IH(2,4,5) ad(3,4) by (intro exI [of _ m'] exI [of _ "?c @ G"]) auto
  qed
  have range: "\<forall>i\<in>set [0..num_latches a - 1]. 0 \<le> i \<and> i < num_latches a" by auto
  obtain m' G where r: "encode_latches (a, m) = Some (a, m')" "ms_ok m'"
    "ms_clauses m' = ms_clauses m @ G" "ms_nVars m \<le> ms_nVars m'" "ms_frozen m' = ms_frozen m"
    "\<forall>\<alpha>. sat_cnf \<alpha> G = (\<forall>i\<in>set [0..num_latches a - 1].
          \<alpha> (primed a (latch_var a (nat i))) = lit_val \<alpha> (nexts a ! nat i))"
    using loop [OF range m] unfolding encode_latches_def fst_conv by (elim exE conjE)
  have conv: "(\<forall>i\<in>set [0..num_latches a - 1]. Q (nat i)) = (\<forall>i<length (nexts a). Q i)" for Q
  proof (intro iffI allI impI)
    fix i
    assume q: "\<forall>i\<in>set [0..num_latches a - 1]. Q (nat i)" and "i < length (nexts a)"
    then have "int i \<in> set [0..num_latches a - 1]" using wf_aigD(3) [OF wf] by simp
    then show "Q i" using q by fastforce
  next
    assume "\<forall>i<length (nexts a). Q i"
    then show "\<forall>i\<in>set [0..num_latches a - 1]. Q (nat i)" using wf_aigD(3) [OF wf] by auto
  qed
  have "sat_cnf \<alpha> G = (\<forall>i<length (nexts a).
          \<alpha> (primed a (latch_var a i)) = lit_val \<alpha> (nexts a ! i))" for \<alpha>
    using r(6) [rule_format, of \<alpha>]
      conv [of "\<lambda>i. \<alpha> (primed a (latch_var a i)) = lit_val \<alpha> (nexts a ! i)"]
    by (rule trans)
  then show ?thesis using r(1-5) by blast
qed

section \<open>The transition formula and steps of the circuit\<close>

definition trans_sem :: "Aiger \<Rightarrow> assignment \<Rightarrow> bool" where
  "trans_sem a \<alpha> =
     ((\<forall>i<length (nexts a). \<alpha> (primed a (latch_var a i)) = lit_val \<alpha> (nexts a ! i))
      \<and> (\<forall>g\<in>set (coi (rev (ands a)) (lit_set a)). gate_ok \<alpha> g)
      \<and> (\<forall>g\<in>set (coi (rev (ands a)) (prime_lit_set a)). gate_ok (\<lambda>v. \<alpha> (primed a v)) g))"

definition built :: "Aiger \<Rightarrow> cnf \<Rightarrow> Aiger \<Rightarrow> minisatSimp \<Rightarrow> bool" where
  "built a U a' m = (grow a a' \<and> ms_ok m \<and> int (length (variables a)) - 1 \<le> ms_nVars m
     \<and> frozen_ok a' (ms_frozen m) \<and> gates_primed a' (coi (rev (ands a')) (prime_lit_set a'))
     \<and> (\<forall>\<alpha>. sat_cnf \<alpha> (ms_clauses m) = (sat_cnf \<alpha> U \<and> trans_sem a' \<alpha>)))"

lemma primed_grow_latch:
  assumes "grow a b" and "prime_inv a" and "i < length (nexts a)"
  shows "primed b (latch_var a i) = primed a (latch_var a i)"
proof -
  have "is_latch a (latch_var a i)"
    using is_latch_iff assms(2,3) by (auto simp: prime_inv_def)
  then show ?thesis using grow_has_prime(2) [OF assms(1)] latch_has_prime assms(2) by blast
qed

text \<open>The common loop structure of the two builders, for the unit clauses \<open>U\<close> of each.\<close>

lemma build_chain:
  assumes inv: "enc_inv a" and U: "nonzero U"
  obtains m1 m3 m5 a4 m6 where
    "freeze_leaves (a, var_enlarge_to (int (length (variables a)) - 1) minisatSimp_new) = Some (a, m1)"
    "freeze_constraints (a, set_frozen \<bar>bad_prime a\<bar> (set_frozen \<bar>bad a\<bar> m1)) = Some (a, m3)"
    "encode_latches (a, ms_add_cnf U m3) = Some (a, m5)"
    "encode_gates (rev (ands a)) (lit_set a) (prime_lit_set a) (a, m5) = Some (a4, m6)"
    "built a U a4 m6"
proof -
  have pinv: "prime_inv a" and wf: "wf_aig a" using inv by (auto simp: enc_inv_def prime_inv_def)
  let ?n = "int (length (variables a)) - 1"
  have "0 \<le> ?n" using pinv wf_aigD(1,2,6) [OF wf] by (auto simp: prime_inv_def)
  note new = ms_new_ok(1,2) [OF this] ms_new_ok(3,4) [of ?n]
  obtain m1 where m1: "freeze_leaves (a, var_enlarge_to ?n minisatSimp_new) = Some (a, m1)"
    "ms_ok m1" "ms_clauses m1 = []" "?n \<le> ms_nVars m1"
    "\<forall>v. is_leaf a v \<longrightarrow> v \<in> ms_frozen m1 \<and> primed a v \<in> ms_frozen m1"
    using freeze_leaves_ok [OF pinv new(1)] new by auto
  note f1 = set_frozen_ok [OF m1(2), of "\<bar>bad a\<bar>"]
  note f2 = set_frozen_ok [OF f1(1), of "\<bar>bad_prime a\<bar>"]
  let ?m2 = "set_frozen \<bar>bad_prime a\<bar> (set_frozen \<bar>bad a\<bar> m1)"
  obtain m3 where m3: "freeze_constraints (a, ?m2) = Some (a, m3)" "ms_ok m3"
    "ms_clauses m3 = ms_clauses ?m2" "ms_nVars ?m2 \<le> ms_nVars m3" "ms_frozen ?m2 \<subseteq> ms_frozen m3"
    "\<forall>c\<in>set (constraints a). \<bar>c\<bar> \<in> ms_frozen m3 \<and> \<bar>plit a c\<bar> \<in> ms_frozen m3"
    using freeze_constraints_ok [OF inv f2(1)] by blast
  note u = ms_add_cnf_ok [OF m3(2) U]
  obtain m5 G where m5: "encode_latches (a, ms_add_cnf U m3) = Some (a, m5)" "ms_ok m5"
    "ms_clauses m5 = ms_clauses (ms_add_cnf U m3) @ G" "ms_nVars (ms_add_cnf U m3) \<le> ms_nVars m5"
    "ms_frozen m5 = ms_frozen (ms_add_cnf U m3)"
    "\<forall>\<alpha>. sat_cnf \<alpha> G = (\<forall>i<length (nexts a).
          \<alpha> (primed a (latch_var a i)) = lit_val \<alpha> (nexts a ! i))"
    using encode_latches_ok [OF pinv u(1)] by (elim exE conjE)
  have sub: "prime_lit_set a \<subseteq> lit_set a" by (simp add: lit_set_def)
  have gs: "\<forall>g\<in>set (rev (ands a)). gate_in a g" using wf_gate_in [OF wf] by simp
  obtain a4 m6 H where m6:
    "encode_gates (rev (ands a)) (lit_set a) (prime_lit_set a) (a, m5) = Some (a4, m6)"
    "grow a a4" "ms_ok m6" "ms_clauses m6 = ms_clauses m5 @ H" "ms_frozen m6 = ms_frozen m5"
    "ms_nVars m5 \<le> ms_nVars m6" "gates_primed a4 (coi (rev (ands a)) (prime_lit_set a))"
    "\<forall>\<alpha>. sat_cnf \<alpha> H = ((\<forall>g\<in>set (coi (rev (ands a)) (lit_set a)). gate_ok \<alpha> g)
       \<and> (\<forall>g\<in>set (coi (rev (ands a)) (prime_lit_set a)). gate_ok (\<lambda>v. \<alpha> (primed a4 v)) g))"
    using encode_gates_ok [OF pinv m5(2) sub gs] by (elim exE conjE)
  note c = circD [OF growD(1) [OF m6(2)]] and cs = circ_sem [OF growD(1) [OF m6(2)]]
  have fr: "frozen_ok a4 (ms_frozen m6)"
  proof -
    have leaf: "primed a4 v = primed a v" if "is_leaf a v" for v
      using grow_has_prime(2) [OF m6(2)] leaf_has_prime [OF pinv that] by blast
    have con: "plit a4 l = plit a l" if "l \<in> set (constraints a)" for l
      using grow_plit [OF m6(2)] that inv by (simp add: enc_inv_def)
    show ?thesis
      using m1(5) m3(5,6) f1(3) f2(3) m5(5) m6(5) u(3) c(7,9) cs(6) leaf con growD(3) [OF m6(2)]
      unfolding frozen_ok_def by (auto dest: subsetD)
  qed
  have "ms_clauses m6 = U @ G @ H" using m6(4) m5(3) u(2) m3(3) f1(2) f2(2) m1(3) by simp
  then have "sat_cnf \<alpha> (ms_clauses m6) = (sat_cnf \<alpha> U \<and> trans_sem a4 \<alpha>)" for \<alpha>
    using m5(6) m6(8) primed_grow_latch [OF m6(2) pinv] c cs
    by (simp add: sat_simps trans_sem_def)
  moreover have "?n \<le> ms_nVars m6" using m6(6) m5(4) u(4) m3(4) f1(4) f2(4) m1(4) by linarith
  ultimately have "built a U a4 m6"
    using m6(2,3,7) fr c cs by (simp add: built_def)
  then show thesis using that m1(1) m3(1) m5(1) m6(1) by blast
qed

definition units :: "cnf \<Rightarrow> bool \<Rightarrow> Aiger \<Rightarrow> bool" where
  "units U cons a = (\<forall>\<alpha>. sat_cnf \<alpha> U = (\<not> \<alpha> 1 \<and> \<not> lit_val \<alpha> (bad a) \<and> (cons \<longrightarrow> constr_ok a \<alpha>)))"

lemma build_satelite_ok:
  assumes inv: "enc_inv a"
  obtains m U a' where "build_satelite a = Some (m, bad a \<in> set (constraints a), a')"
    "built a U a' m" "units U True a"
proof -
  let ?U = "[[- 1], [- bad a]] @ map (\<lambda>l. [l]) (constraints a)"
  have wf: "wf_aig a" using inv by (auto simp: enc_inv_def prime_inv_def)
  have b: "bad a \<noteq> 0" and cz: "0 \<notin> set (constraints a)"
    using wf by (auto simp: wf_aig_def lit_in_def)
  have nz: "nonzero ?U" using b cz by (auto simp: nonzero_def)
  obtain m1 m3 m5 a4 m6 where ch:
    "freeze_leaves (a, var_enlarge_to (int (length (variables a)) - 1) minisatSimp_new) = Some (a, m1)"
    "freeze_constraints (a, set_frozen \<bar>bad_prime a\<bar> (set_frozen \<bar>bad a\<bar> m1)) = Some (a, m3)"
    "encode_latches (a, ms_add_cnf ?U m3) = Some (a, m5)"
    "encode_gates (rev (ands a)) (lit_set a) (prime_lit_set a) (a, m5) = Some (a4, m6)"
    "built a ?U a4 m6"
    using build_chain [OF inv nz] by blast
  have "circ a4 = circ a" using ch(5) by (simp add: built_def grow_def)
  then have "bad a4 = bad a" "constraints a4 = constraints a" using circD by blast+
  then have "build_satelite a = Some (m6, bad a \<in> set (constraints a), a4)"
    using ch(1-4) by (simp add: build_satelite_def)
  moreover have "units ?U True a"
    using b by (auto simp: units_def sat_simps lit_val_uminus constr_ok_def cube_true_set sat_cnf_set)
  ultimately show thesis using that ch(5) by blast
qed

lemma build_satelite2_ok:
  assumes inv: "enc_inv a"
  obtains m U a' where "build_satelite2 a = Some (m, a')" "built a U a' m" "units U False a"
proof -
  let ?U = "[[- 1], [- bad a]]"
  have b: "bad a \<noteq> 0" using inv by (auto simp: enc_inv_def prime_inv_def wf_aig_def lit_in_def)
  have nz: "nonzero ?U" using b by simp
  obtain m1 m3 m5 a4 m6 where ch:
    "freeze_leaves (a, var_enlarge_to (int (length (variables a)) - 1) minisatSimp_new) = Some (a, m1)"
    "freeze_constraints (a, set_frozen \<bar>bad_prime a\<bar> (set_frozen \<bar>bad a\<bar> m1)) = Some (a, m3)"
    "encode_latches (a, ms_add_cnf ?U m3) = Some (a, m5)"
    "encode_gates (rev (ands a)) (lit_set a) (prime_lit_set a) (a, m5) = Some (a4, m6)"
    "built a ?U a4 m6"
    using build_chain [OF inv nz] by blast
  have "build_satelite2 a = Some (m6, a4)"
    using ch(1-4) by (simp add: build_satelite2_def)
  moreover have "units ?U False a"
    using b by (auto simp: units_def sat_simps lit_val_uminus)
  ultimately show thesis using that ch(5) by blast
qed

text \<open>
  A step of the circuit as the queries see it: from a state that is not bad (and meets
  the constraints, in \<^verbatim>\<open>encode_translation\<close>) to any state its next functions lead to.
\<close>

definition tstep :: "Aiger \<Rightarrow> bool \<Rightarrow> assignment \<Rightarrow> assignment \<Rightarrow> bool" where
  "tstep a cons \<sigma> \<sigma>' = (gates_ok a \<sigma> \<and> gates_ok a \<sigma>' \<and> next_ok a \<sigma> \<sigma>'
     \<and> \<not> lit_val \<sigma> (bad a) \<and> (cons \<longrightarrow> constr_ok a \<sigma>))"

definition agrees :: "Aiger \<Rightarrow> assignment \<Rightarrow> assignment \<Rightarrow> assignment \<Rightarrow> bool" where
  "agrees a \<alpha> \<sigma> \<sigma>' = ((\<forall>v. is_leaf a v \<longrightarrow> \<alpha> v = \<sigma> v \<and> \<alpha> (primed a v) = \<sigma>' v)
     \<and> lit_val \<alpha> (bad a) = lit_val \<sigma> (bad a) \<and> lit_val \<alpha> (bad_prime a) = lit_val \<sigma>' (bad a)
     \<and> (\<forall>c\<in>set (constraints a). lit_val \<alpha> c = lit_val \<sigma> c \<and> lit_val \<alpha> (plit a c) = lit_val \<sigma>' c))"

definition enc_sound :: "Aiger \<Rightarrow> bool \<Rightarrow> cnf \<Rightarrow> bool" where
  "enc_sound a cons G = (\<forall>\<alpha>. sat_cnf \<alpha> G \<longrightarrow> (\<exists>\<sigma> \<sigma>'. tstep a cons \<sigma> \<sigma>' \<and> agrees a \<alpha> \<sigma> \<sigma>'))"

definition enc_complete :: "Aiger \<Rightarrow> bool \<Rightarrow> cnf \<Rightarrow> bool" where
  "enc_complete a cons G = (\<forall>\<sigma> \<sigma>'. tstep a cons \<sigma> \<sigma>' \<longrightarrow>
     (\<exists>\<alpha>. sat_cnf \<alpha> G \<and> agrees a \<alpha> \<sigma> \<sigma>' \<and> (\<forall>v<primed_first_dimacs a. \<alpha> v = \<sigma> v)))"

lemma agrees_cong:
  assumes "frozen_ok a fr" and "\<forall>v\<in>fr. \<alpha> v = \<beta> v"
  shows "agrees a \<alpha> = agrees a \<beta>"
proof -
  have "lit_val \<alpha> l = lit_val \<beta> l" if "\<bar>l\<bar> \<in> fr" for l
    using assms(2) that by (intro lit_val_cong) blast
  then show ?thesis
    using assms by (auto simp: agrees_def frozen_ok_def fun_eq_iff)
qed

lemma grow_tstep: "grow a b \<Longrightarrow> tstep b = tstep a"
  using circ_sem [OF growD(1)] circD [OF growD(1)] by (auto simp: tstep_def fun_eq_iff)

lemma grow_agrees:
  assumes "enc_inv a" and "grow a b"
  shows "agrees b = agrees a"
proof -
  have "primed b v = primed a v" if "is_leaf a v" for v
    using grow_has_prime(2) [OF assms(2)] leaf_has_prime that assms(1) by (auto simp: enc_inv_def)
  moreover have "plit b c = plit a c" if "c \<in> set (constraints a)" for c
    using grow_plit [OF assms(2)] that assms(1) by (auto simp: enc_inv_def)
  ultimately show ?thesis
    using circD [OF growD(1) [OF assms(2)]] circ_sem(6) [OF growD(1) [OF assms(2)]]
      growD(3) [OF assms(2)]
    by (auto simp: agrees_def fun_eq_iff)
qed

lemma lit_in_bad_prime: "enc_inv a \<Longrightarrow> lit_val \<alpha> (bad_prime a) = lit_val (\<lambda>v. \<alpha> (primed a v)) (bad a)"
  using lit_val_plit(1) by (auto simp: enc_inv_def)

lemma trans_sem_sound:
  assumes inv: "enc_inv a" and sem: "trans_sem a \<alpha>" and u: "units U cons a" "sat_cnf \<alpha> U"
  shows "\<exists>\<sigma> \<sigma>'. tstep a cons \<sigma> \<sigma>' \<and> agrees a \<alpha> \<sigma> \<sigma>'"
proof -
  have pinv: "prime_inv a" and wf: "wf_aig a" using inv by (auto simp: enc_inv_def prime_inv_def)
  let ?\<pi> = "\<lambda>v. \<alpha> (primed a v)"
  let ?\<sigma> = "completed a \<alpha>" and ?\<sigma>' = "completed a ?\<pi>"
  have a1: "\<not> \<alpha> 1" and a1': "\<not> ?\<pi> 1" and b: "\<not> lit_val \<alpha> (bad a)"
    and c: "cons \<longrightarrow> constr_ok a \<alpha>"
    using u by (auto simp: units_def primed_def)
  have g: "gates_ok a ?\<sigma>" "gates_ok a ?\<sigma>'" using complete_gates_ok [OF wf] by blast+
  have cur: "lit_val ?\<sigma> l = lit_val \<alpha> l" if "\<bar>l\<bar> \<in> lit_set a" "lit_in a l" for l
    using coi_agree [of a "lit_set a" \<alpha> l] wf a1 that sem by (simp add: trans_sem_def)
  have nxt: "lit_val ?\<sigma>' l = lit_val ?\<pi> l" if "\<bar>l\<bar> \<in> prime_lit_set a" "lit_in a l" for l
    using coi_agree [of a "prime_lit_set a" ?\<pi> l] wf a1' that sem by (simp add: trans_sem_def)
  have bs: "\<bar>bad a\<bar> \<in> prime_lit_set a" "\<bar>bad a\<bar> \<in> lit_set a" "lit_in a (bad a)"
    using wf_aigD(7) [OF wf] by (auto simp: prime_lit_set_def lit_set_def)
  have cs: "\<bar>l\<bar> \<in> prime_lit_set a" "\<bar>l\<bar> \<in> lit_set a" "lit_in a l" if "l \<in> set (constraints a)" for l
    using that lit_in_simps(1) [OF wf] by (auto simp: prime_lit_set_def lit_set_def)
  have leaf: "?\<sigma> v = \<alpha> v" "?\<sigma>' v = ?\<pi> v" if "is_leaf a v" for v
    using that by (simp_all add: complete_leaf [OF wf])
  have "next_ok a ?\<sigma> ?\<sigma>'"
  proof (unfold next_ok_def, intro allI impI)
    fix i
    assume i: "i < length (nexts a)"
    have "nexts a ! i \<in> set (nexts a)" using i by simp
    then have n: "\<bar>nexts a ! i\<bar> \<in> lit_set a" "lit_in a (nexts a ! i)"
      using lit_in_simps(2) [OF wf] by (auto simp: lit_set_def)
    have "is_leaf a (latch_var a i)"
      using latch_is_leaf [OF _ wf] is_latch_iff [OF wf] i by auto
    then show "?\<sigma>' (latch_var a i) = lit_val ?\<sigma> (nexts a ! i)"
      using leaf cur n sem i by (simp add: trans_sem_def)
  qed
  moreover have "\<not> lit_val ?\<sigma> (bad a)" using cur bs b by simp
  moreover have "cons \<longrightarrow> constr_ok a ?\<sigma>"
    using c cur cs by (auto simp: constr_ok_def cube_true_set)
  ultimately have "tstep a cons ?\<sigma> ?\<sigma>'" using g by (simp add: tstep_def)
  moreover have "agrees a \<alpha> ?\<sigma> ?\<sigma>'"
    using leaf cur nxt bs cs lit_in_bad_prime [OF inv] lit_val_plit(1) [OF pinv] inv
    by (auto simp: agrees_def enc_inv_def)
  ultimately show ?thesis by blast
qed

text \<open>Conversely, a pair of circuit states is spread over the two copies of the variables.\<close>

definition spread :: "Aiger \<Rightarrow> assignment \<Rightarrow> assignment \<Rightarrow> assignment" where
  "spread a \<sigma> \<sigma>' = (\<lambda>v. if v < primed_first_dimacs a then \<sigma> v
     else if v < primed_first_dimacs a + num_inputs a + num_latches a
       then \<sigma>' (v - primed_first_dimacs a + 2)
     else (case map_to_unprime a v of Some u \<Rightarrow> \<sigma>' u | None \<Rightarrow> False))"

lemma spread_primed:
  assumes inv: "prime_inv a" and v: "has_prime a v" and one: "\<not> \<sigma> 1" "\<not> \<sigma>' 1"
  shows "spread a \<sigma> \<sigma>' (primed a v) = \<sigma>' v"
proof -
  have wf: "wf_aig a" using inv by (simp add: prime_inv_def)
  have pf: "2 \<le> first_and a" "first_and a \<le> primed_first_dimacs a"
    using wf_aigD(1,2,6) [OF wf] by auto
  consider "v = 1" | "1 < v" "v < first_and a" | p where "first_and a \<le> v" "map_to_prime a v = Some p"
    using v by (force simp: has_prime_def)
  then show ?thesis
  proof cases
    case 1
    then show ?thesis using one pf by (simp add: spread_def primed_def)
  next
    case 2
    then show ?thesis by (simp add: spread_def primed_def)
  next
    case 3
    then have "primed_first_dimacs a + num_inputs a + num_latches a \<le> p" "map_to_unprime a p = Some v"
      using inv by (auto simp: prime_inv_def)
    then show ?thesis
      using 3 pf wf_aigD(1,2) [OF wf] by (simp add: spread_def primed_def)
  qed
qed

lemma gate_ok_cong:
  assumes "\<alpha> (out g) = \<beta> (out g)" "\<alpha> \<bar>i1 g\<bar> = \<beta> \<bar>i1 g\<bar>" "\<alpha> \<bar>i2 g\<bar> = \<beta> \<bar>i2 g\<bar>"
  shows "gate_ok \<alpha> g = gate_ok \<beta> g"
  using assms lit_val_cong [of \<alpha> _ \<beta>] by (simp add: gate_ok_def)

lemma trans_sem_complete:
  assumes inv: "enc_inv a" and gp: "gates_primed a (coi (rev (ands a)) (prime_lit_set a))"
    and u: "units U cons a" and st: "tstep a cons \<sigma> \<sigma>'"
  shows "\<exists>\<alpha>. sat_cnf \<alpha> U \<and> trans_sem a \<alpha> \<and> agrees a \<alpha> \<sigma> \<sigma>'
    \<and> (\<forall>v<primed_first_dimacs a. \<alpha> v = \<sigma> v)"
proof (intro exI conjI)
  have pinv: "prime_inv a" and wf: "wf_aig a" using inv by (auto simp: enc_inv_def prime_inv_def)
  let ?\<alpha> = "spread a \<sigma> \<sigma>'"
  have pf: "2 \<le> primed_first_dimacs a" using wf_aigD(1,2,6) [OF wf] by simp
  have g: "gates_ok a \<sigma>" "gates_ok a \<sigma>'" using st by (auto simp: tstep_def)
  then have one: "\<not> \<sigma> 1" "\<not> \<sigma>' 1" by (auto simp: gates_ok_def)
  have low: "?\<alpha> v = \<sigma> v" if "v < primed_first_dimacs a" for v
    using that by (simp add: spread_def)
  have lit: "lit_val ?\<alpha> l = lit_val \<sigma> l" if "lit_in a l" for l
    using that wf_aigD(6) [OF wf] by (intro lit_val_cong low) (simp add: lit_in_def)
  have pr: "?\<alpha> (primed a v) = \<sigma>' v" if "has_prime a v" for v
    using spread_primed [of a v \<sigma> \<sigma>'] pinv that one by simp
  have plit: "lit_val ?\<alpha> (plit a l) = lit_val \<sigma>' l" if "has_prime a \<bar>l\<bar>" for l
    using lit_val_plit(1) [OF pinv that] pr [OF that]
      lit_val_cong [of "\<lambda>v. ?\<alpha> (primed a v)" l \<sigma>'] by simp
  have con: "constr_ok a ?\<alpha> = constr_ok a \<sigma>"
    using lit lit_in_simps(1) [OF wf] by (auto simp: constr_ok_def cube_true_set)
  show "sat_cnf ?\<alpha> U"
    using u st low pf lit [OF wf_aigD(7) [OF wf]] con one by (auto simp: units_def tstep_def)
  have latch: "is_latch a (latch_var a i)" if "i < length (nexts a)" for i
    using is_latch_iff [OF wf] that by auto
  have "?\<alpha> (primed a (latch_var a i)) = lit_val ?\<alpha> (nexts a ! i)" if "i < length (nexts a)" for i
    using st that pr [OF latch_has_prime [OF pinv latch [OF that]]] lit lit_in_simps(2) [OF wf]
    by (auto simp: tstep_def next_ok_def)
  moreover have "gate_ok ?\<alpha> h" if "h \<in> set (coi (rev (ands a)) (lit_set a))" for h
  proof -
    have h: "h \<in> set (ands a)" using that coi_subset by fastforce
    have "gate_ok ?\<alpha> h = gate_ok \<sigma> h"
      using wf_gate_in [OF wf h] by (intro gate_ok_cong low) (auto simp: gate_in_def)
    then show ?thesis using g(1) h by (simp add: gates_ok_def)
  qed
  moreover have "gate_ok (\<lambda>v. ?\<alpha> (primed a v)) h"
    if "h \<in> set (coi (rev (ands a)) (prime_lit_set a))" for h
  proof -
    have h: "h \<in> set (ands a)" using that coi_subset by fastforce
    have "gate_ok (\<lambda>v. ?\<alpha> (primed a v)) h = gate_ok \<sigma>' h"
      using gp that by (intro gate_ok_cong pr) (auto simp: gates_primed_def)
    then show ?thesis using g(2) h by (simp add: gates_ok_def)
  qed
  ultimately show "trans_sem a ?\<alpha>" by (simp add: trans_sem_def)
  have "?\<alpha> v = \<sigma> v" if "is_leaf a v" for v
    using that wf_aigD(6) [OF wf] by (intro low) (simp add: is_leaf_def)
  then show "agrees a ?\<alpha> \<sigma> \<sigma>'"
    using pr leaf_has_prime [OF pinv] lit plit lit_in_simps(1,4) [OF wf] inv
    by (auto simp: agrees_def enc_inv_def)
  show "\<forall>v<primed_first_dimacs a. ?\<alpha> v = \<sigma> v" using low by simp
qed

text \<open>
  The clauses a frame solver starts from: complete for the steps of the circuit, and
  sound as soon as there is a step at all.
\<close>

definition trans_cnf :: "env \<Rightarrow> minisatSimp \<Rightarrow> cnf" where
  "trans_cnf e m = [ms_nVars m, - ms_nVars m]
     # elim_cnf (minisat_eliminate e (ms_nVars m) (ms_clauses m) (ms_frozen m))"

lemma trans_cnf_ok:
  assumes e: "eliminate_contract e" and inv: "enc_inv a"
    and b: "built a U a' m" and u: "units U cons a"
  shows "nonzero (trans_cnf e m)" "lits_le (ms_nVars m) (trans_cnf e m)"
    "enc_complete a cons (trans_cnf e m)"
    "tstep a cons \<sigma> \<sigma>' \<Longrightarrow> enc_sound a cons (trans_cnf e m)"
proof -
  have gr: "grow a a'" and mo: "ms_ok m" and fr: "frozen_ok a' (ms_frozen m)"
    and gp: "gates_primed a' (coi (rev (ands a')) (prime_lit_set a'))"
    and sem: "\<And>\<alpha>. sat_cnf \<alpha> (ms_clauses m) = (sat_cnf \<alpha> U \<and> trans_sem a' \<alpha>)"
    and len: "int (length (variables a)) - 1 \<le> ms_nVars m"
    using b by (auto simp: built_def)
  have inv': "enc_inv a'" using grow_enc_inv [OF inv gr] .
  have u': "units U cons a'"
    using u circD(9) [OF growD(1) [OF gr]] circ_sem(3) [OF growD(1) [OF gr]] by (simp add: units_def)
  note ts = grow_tstep [OF gr] and ag = grow_agrees [OF inv gr]
  have wf: "wf_aig a" and pinv: "prime_inv a" using inv by (auto simp: enc_inv_def prime_inv_def)
  have n1: "1 \<le> ms_nVars m"
    using len pinv wf_aigD(1,2,6) [OF wf] by (auto simp: prime_inv_def)
  let ?F = "ms_clauses m"
  let ?G = "elim_cnf (minisat_eliminate e (ms_nVars m) ?F (ms_frozen m))"
  have con: "lits_le (ms_nVars m) ?G" "nonzero ?G"
    "\<forall>\<alpha>. sat_cnf \<alpha> ?F \<longrightarrow> sat_cnf \<alpha> ?G"
    "(\<exists>\<alpha>. sat_cnf \<alpha> ?F) \<longrightarrow>
       (\<forall>\<beta>. sat_cnf \<beta> ?G \<longrightarrow> (\<exists>\<alpha>. sat_cnf \<alpha> ?F \<and> (\<forall>v\<in>ms_frozen m. \<alpha> v = \<beta> v)))"
    using e mo unfolding eliminate_contract_def ms_ok_def Let_def by blast+
  have taut: "sat_clause \<beta> [ms_nVars m, - ms_nVars m]" for \<beta>
    using n1 by (simp add: sat_simps)
  show "nonzero (trans_cnf e m)" "lits_le (ms_nVars m) (trans_cnf e m)"
    using con(1,2) n1 by (auto simp: trans_cnf_def lits_le_def)
  have pf: "primed_first_dimacs a' = primed_first_dimacs a" using circD(10) [OF growD(1) [OF gr]] .
  have model: "\<exists>\<alpha>. sat_cnf \<alpha> ?F \<and> agrees a \<alpha> \<sigma> \<sigma>' \<and> (\<forall>v<primed_first_dimacs a. \<alpha> v = \<sigma> v)"
    if "tstep a cons \<sigma> \<sigma>'" for \<sigma> \<sigma>'
    using trans_sem_complete [OF inv' gp u', of \<sigma> \<sigma>'] that sem ts ag pf by simp
  show "enc_complete a cons (trans_cnf e m)"
    unfolding enc_complete_def
  proof (intro allI impI)
    fix \<sigma> \<sigma>'
    assume "tstep a cons \<sigma> \<sigma>'"
    then obtain \<alpha> where \<alpha>: "sat_cnf \<alpha> ?F" "agrees a \<alpha> \<sigma> \<sigma>'"
      "\<forall>v<primed_first_dimacs a. \<alpha> v = \<sigma> v" using model by blast
    then have "sat_cnf \<alpha> (trans_cnf e m)" using con(3) taut by (simp add: trans_cnf_def sat_simps)
    then show "\<exists>\<alpha>. sat_cnf \<alpha> (trans_cnf e m) \<and> agrees a \<alpha> \<sigma> \<sigma>'
        \<and> (\<forall>v<primed_first_dimacs a. \<alpha> v = \<sigma> v)"
      using \<alpha>(2,3) by blast
  qed
  show "enc_sound a cons (trans_cnf e m)" if some: "tstep a cons \<sigma> \<sigma>'"
    unfolding enc_sound_def
  proof (intro allI impI)
    fix \<beta>
    assume "sat_cnf \<beta> (trans_cnf e m)"
    then have "sat_cnf \<beta> ?G" by (simp add: trans_cnf_def sat_simps)
    then obtain \<alpha> where \<alpha>: "sat_cnf \<alpha> ?F" "\<forall>v\<in>ms_frozen m. \<alpha> v = \<beta> v"
      using con(4) model [OF some] by blast
    then obtain \<tau> \<tau>' where "tstep a' cons \<tau> \<tau>'" "agrees a' \<alpha> \<tau> \<tau>'"
      using trans_sem_sound [OF inv' _ u'] sem by blast
    then show "\<exists>\<sigma> \<sigma>'. tstep a cons \<sigma> \<sigma>' \<and> agrees a \<beta> \<sigma> \<sigma>'"
      using agrees_cong [OF fr \<alpha>(2)] ts ag by metis
  qed
qed

section \<open>The initial and bad formulas\<close>

lemma sat_gate_clauses:
  assumes "wf_aig a"
  shows "sat_cnf \<alpha> (concat (map gate_clauses (coi (rev (ands a)) S)))
       = (\<forall>g\<in>set (coi (rev (ands a)) S). gate_ok \<alpha> g)"
proof -
  have "sat_cnf \<alpha> (gate_clauses g) = gate_ok \<alpha> g" if "g \<in> set (coi (rev (ands a)) S)" for g
  proof -
    have "g \<in> set (ands a)" using that coi_subset by fastforce
    then show ?thesis
      using wf_gate_in [OF assms] by (simp add: gate_in_def gate_clauses_def sat_simps gate_ok_def)
  qed
  then show ?thesis by (auto simp: sat_simps)
qed

lemma gate_clauses_lits:
  assumes "wf_aig a"
  shows "nonzero (concat (map gate_clauses (coi (rev (ands a)) S)))"
    "lits_le (primed_first_dimacs a - 1) (concat (map gate_clauses (coi (rev (ands a)) S)))"
proof -
  have g: "gate_in a g" if "g \<in> set (coi (rev (ands a)) S)" for g
    using that coi_subset wf_gate_in [OF assms] by fastforce
  show "nonzero (concat (map gate_clauses (coi (rev (ands a)) S)))"
    using g by (fastforce simp: nonzero_def gate_clauses_def and_clauses_def gate_in_def)
  show "lits_le (primed_first_dimacs a - 1) (concat (map gate_clauses (coi (rev (ands a)) S)))"
    using g by (fastforce simp: lits_le_def gate_clauses_def and_clauses_def gate_in_def)
qed

lemma sat_unit_list: "sat_cnf \<alpha> (map (\<lambda>l. [l]) q) = cube_true \<alpha> q"
  by (auto simp: sat_cnf_set cube_true_set sat_simps)

lemma init_cnf_sem:
  assumes "wf_aig a"
  shows "sat_cnf \<alpha> (init_cnf a) = (\<not> \<alpha> 1 \<and> init_ok a \<alpha> \<and> constr_ok a \<alpha>
     \<and> (\<forall>g\<in>set (coi (rev (ands a)) (abs ` set (constraints a))). gate_ok \<alpha> g))"
  using sat_gate_clauses [OF assms]
  by (auto simp: init_cnf_def sat_cnf_append sat_cnf_Cons sat_cnf_Nil sat_unit_list sat_simps
      lit_val_uminus init_ok_def constr_ok_def)

lemma init_cnf_lits:
  assumes wf: "wf_aig a"
  shows "nonzero (init_cnf a)" "lits_le (primed_first_dimacs a - 1) (init_cnf a)"
proof -
  have pf: "2 \<le> primed_first_dimacs a" using wf_aigD(1,2,6) [OF wf] by simp
  have i: "l \<noteq> 0 \<and> \<bar>l\<bar> \<le> primed_first_dimacs a - 1" if "l \<in> set (init_state a)" for l
    using lit_in_simps(5) [OF wf that] wf_aigD(1,2,6) [OF wf] by (auto simp: is_latch_def)
  have c: "l \<noteq> 0 \<and> \<bar>l\<bar> \<le> primed_first_dimacs a - 1" if "l \<in> set (constraints a)" for l
    using lit_in_simps(1) [OF wf that] wf_aigD(6) [OF wf] by (auto simp: lit_in_def)
  show "nonzero (init_cnf a)"
    using gate_clauses_lits(1) [OF wf] i c by (auto simp: init_cnf_def nonzero_def)
  show "lits_le (primed_first_dimacs a - 1) (init_cnf a)"
    using gate_clauses_lits(2) [OF wf] i c pf unfolding init_cnf_def lits_le_append
    by (auto simp: lits_le_def)
qed

lemma init_cnf_sound:
  assumes wf: "wf_aig a" and sat: "sat_cnf \<alpha> (init_cnf a)"
  shows "valid a (completed a \<alpha>)" "init_ok a (completed a \<alpha>)"
proof -
  let ?S = "abs ` set (constraints a)"
  have s: "\<not> \<alpha> 1" "init_ok a \<alpha>" "constr_ok a \<alpha>" "\<forall>g\<in>set (coi (rev (ands a)) ?S). gate_ok \<alpha> g"
    using init_cnf_sem [OF wf] sat by auto
  have "lit_val (completed a \<alpha>) l = lit_val \<alpha> l" if "l \<in> set (constraints a)" for l
    using coi_agree [of a ?S \<alpha> l] wf s that lit_in_simps(1) [OF wf] by simp
  then have "constr_ok a (completed a \<alpha>)" using s(3) by (simp add: constr_ok_def cube_true_set)
  then show "valid a (completed a \<alpha>)" using complete_gates_ok [OF wf] by (simp add: valid_def)
  show "init_ok a (completed a \<alpha>)"
    using init_ok_agree [OF wf, of "completed a \<alpha>" \<alpha>] s(2) complete_leaf [OF wf] latch_is_leaf [OF _ wf]
    by simp
qed

lemma init_cnf_complete:
  assumes wf: "wf_aig a" and "valid a \<sigma>" "init_ok a \<sigma>"
    and "\<And>v. 1 \<le> v \<Longrightarrow> v < primed_first_dimacs a \<Longrightarrow> \<alpha> v = \<sigma> v"
  shows "sat_cnf \<alpha> (init_cnf a)"
proof -
  have gs: "gate_ok \<sigma> g" if "g \<in> set (coi (rev (ands a)) S)" for g S
    using that coi_subset assms(2) by (fastforce simp: valid_def gates_ok_def)
  have "sat_cnf \<sigma> (init_cnf a)"
    using init_cnf_sem [OF wf] assms(2,3) gs by (auto simp: valid_def gates_ok_def)
  moreover have "lit_val \<alpha> l = lit_val \<sigma> l" if "c \<in> set (init_cnf a)" "l \<in> set c" for c l
  proof -
    have "l \<noteq> 0 \<and> \<bar>l\<bar> \<le> primed_first_dimacs a - 1"
      using init_cnf_lits [OF wf] that by (auto simp: nonzero_def lits_le_def)
    then show ?thesis using assms(4) by (intro lit_val_cong) auto
  qed
  ultimately show ?thesis by (auto simp: sat_cnf_set sat_clause_set)
qed

definition bad_cnf :: "Aiger \<Rightarrow> cnf" where
  "bad_cnf a = concat (map gate_clauses (coi (rev (ands a)) {\<bar>bad a\<bar>}))"

lemma encode_bad_state_ok:
  "wf_aig a \<Longrightarrow> encode_bad_state a s = Some (add_cnf (bad_cnf a) s)"
  using wf_gate_in by (auto simp: encode_bad_state_def bad_cnf_def list_all_iff gate_in_def)

lemma bad_cnf_sound:
  assumes wf: "wf_aig a" and "sat_cnf \<alpha> (bad_cnf a)" and "\<not> \<alpha> 1"
  shows "lit_val (completed a \<alpha>) (bad a) = lit_val \<alpha> (bad a)"
  using coi_agree [of a "{\<bar>bad a\<bar>}" \<alpha> "bad a"] assms sat_gate_clauses [OF wf] wf_aigD(7) [OF wf]
  by (simp add: bad_cnf_def)

lemma bad_cnf_complete: "wf_aig a \<Longrightarrow> gates_ok a \<sigma> \<Longrightarrow> sat_cnf \<sigma> (bad_cnf a)"
  using sat_gate_clauses [of a \<sigma> "{\<bar>bad a\<bar>}"] coi_subset [of "rev (ands a)" "{\<bar>bad a\<bar>}"]
  by (auto simp: bad_cnf_def gates_ok_def)

section \<open>PDR::translate\_to\_dimacs establishes the numbering\<close>

lemma translate_fold_ok:
  assumes "prime_inv a" and "\<forall>c\<in>set cs. c \<noteq> 0 \<and> \<bar>c\<bar> < primed_first_dimacs a"
  shows "\<exists>a'. fold_opt (\<lambda>l a. do {
         (pl, a') \<leftarrow> prime_lit l a;
         Some (a'\<lparr>constraints_prime := constraints_prime a' @ [pl]\<rparr>) }) cs a = Some a'
     \<and> circ a' = circ a \<and> prime_inv a' \<and> map_to_prime a \<subseteq>\<^sub>m map_to_prime a'
     \<and> bad_prime a' = bad_prime a
     \<and> constraints_prime a' = constraints_prime a @ map (plit a') cs
     \<and> (\<forall>c\<in>set cs. has_prime a' \<bar>c\<bar>)"
  using assms
proof (induction cs arbitrary: a)
  case Nil
  then show ?case by simp
next
  case (Cons c cs)
  obtain a1 where a1: "prime_lit c a = Some (plit a1 c, a1)" "grow a a1" "has_prime a1 \<bar>c\<bar>"
    using prime_lit_ok [OF Cons.prems(1)] Cons.prems(2) by auto
  let ?a2 = "a1\<lparr>constraints_prime := constraints_prime a1 @ [plit a1 c]\<rparr>"
  have c2: "circ ?a2 = circ a1" by (simp add: circ_def)
  have i2: "prime_inv ?a2"
    using growD(2) [OF a1(2)] circ_sem(1) [OF c2] by (simp add: prime_inv_def)
  have pf: "primed_first_dimacs ?a2 = primed_first_dimacs a"
    using circD(10) [OF growD(1) [OF a1(2)]] by simp
  obtain a' where a': "fold_opt (\<lambda>l a. do {
         (pl, a') \<leftarrow> prime_lit l a;
         Some (a'\<lparr>constraints_prime := constraints_prime a' @ [pl]\<rparr>) }) cs ?a2 = Some a'"
     "circ a' = circ ?a2" "prime_inv a'" "map_to_prime ?a2 \<subseteq>\<^sub>m map_to_prime a'"
     "bad_prime a' = bad_prime ?a2"
     "constraints_prime a' = constraints_prime ?a2 @ map (plit a') cs"
     "\<forall>c\<in>set cs. has_prime a' \<bar>c\<bar>"
    using Cons.IH [OF i2] Cons.prems(2) pf by auto
  have h: "has_prime a' \<bar>c\<bar>" "plit a' c = plit a1 c"
    using keep_prime(1) [of a' a1] keep_plit [of a' a1] a'(2,4) c2 a1(3) by simp_all
  have "circ a' = circ a" using a'(2) c2 growD(1) [OF a1(2)] by simp
  moreover have "map_to_prime a \<subseteq>\<^sub>m map_to_prime a'"
    using a1(2) a'(4) map_le_trans [of "map_to_prime a" "map_to_prime a1"] by (simp add: grow_def)
  ultimately show ?case
    using a1(1) a' h growD(3,4) [OF a1(2)] by (intro exI [of _ a']) simp
qed

lemma PDR_translate_ok:
  assumes wf: "wf_aig C" and len: "int (length (variables C)) = primed_first_dimacs C"
    and new: "map_to_prime C = Map.empty" "constraints_prime C = []"
  obtains a where "PDR_translate_to_dimacs C = Some a" "enc_inv a" "circ a = circ C"
proof -
  let ?a1 = "C\<lparr>variables := variables C
        @ map (\<lambda>i. Variable_named (primed_first_dimacs C + i) (CHR ''i'') i True)
            [0..num_inputs C - 1]
        @ map (\<lambda>i. Variable_named (primed_first_dimacs C + num_inputs C + i) (CHR ''l'') i True)
            [0..num_latches C - 1]\<rparr>"
  have c1: "circ ?a1 = circ C" by (simp add: circ_def)
  have i1: "prime_inv ?a1"
    using wf len new wf_aigD(1,2) [OF wf] circ_sem(1) [OF c1] by (simp add: prime_inv_def)
  have bad: "bad C \<noteq> 0" "\<bar>bad C\<bar> < primed_first_dimacs C"
    using wf_aigD(6,7) [OF wf] by (auto simp: lit_in_def)
  obtain a2 where a2: "prime_lit (bad C) ?a1 = Some (plit a2 (bad C), a2)" "grow ?a1 a2"
    "has_prime a2 \<bar>bad C\<bar>"
    using prime_lit_ok [OF i1] bad by auto
  note ca2 = circD [OF growD(1) [OF a2(2)]]
  let ?a3 = "a2\<lparr>bad_prime := plit a2 (bad C)\<rparr>"
  have c3: "circ ?a3 = circ a2" by (simp add: circ_def)
  have i3: "prime_inv ?a3" using growD(2) [OF a2(2)] circ_sem(1) [OF c3] by (simp add: prime_inv_def)
  have cs: "\<forall>c\<in>set (constraints C). c \<noteq> 0 \<and> \<bar>c\<bar> < primed_first_dimacs ?a3"
    using lit_in_simps(1) [OF wf] wf_aigD(6) [OF wf] ca2 by (auto simp: lit_in_def)
  obtain a where a: "fold_opt (\<lambda>l a. do {
         (pl, a') \<leftarrow> prime_lit l a;
         Some (a'\<lparr>constraints_prime := constraints_prime a' @ [pl]\<rparr>) }) (constraints C) ?a3 = Some a"
     "circ a = circ ?a3" "prime_inv a" "map_to_prime ?a3 \<subseteq>\<^sub>m map_to_prime a"
     "bad_prime a = bad_prime ?a3"
     "constraints_prime a = constraints_prime ?a3 @ map (plit a) (constraints C)"
     "\<forall>c\<in>set (constraints C). has_prime a \<bar>c\<bar>"
    using translate_fold_ok [OF i3 cs] by blast
  have t: "PDR_translate_to_dimacs C = Some a"
    using a2(1) a(1) ca2(7) by (simp add: PDR_translate_to_dimacs_def Let_def)
  have ca: "circ a = circ C" using a(2) c3 growD(1) [OF a2(2)] c1 by simp
  note cc = circD [OF ca]
  have hb: "has_prime a \<bar>bad C\<bar>" "plit a (bad C) = plit a2 (bad C)"
    using keep_prime(1) [of a a2] keep_plit [of a a2] a(2,4) c3 a2(3) by simp_all
  have "constraints_prime a = map (plit a) (constraints C)"
    using a(6) growD(4) [OF a2(2)] new by simp
  then have "enc_inv a" using a(3,5,7) hb cc by (simp add: enc_inv_def)
  then show thesis using that t ca by blast
qed

end
