(* ===== verification/Floats.thy ===== *)
theory Floats
  imports Prelude Complex_Main
begin

text \<open>
  The floating-point arithmetic of the literal heuristic in \<^verbatim>\<open>src/PDR.cpp\<close>
  (\<^verbatim>\<open>heuristic_Lit_CMP::counts\<close> is a \<^verbatim>\<open>vector<float>\<close>, its updates compute in \<^verbatim>\<open>double\<close>): a finite
  IEEE number is a mantissa times a power of two, every operation is computed exactly and
  rounded to nearest, ties to even, at the precision and least exponent of the format.
  Infinities and NaN do not occur: the scores are non-negative and bounded.
\<close>

section \<open>Numbers and rounding\<close>

datatype fp = Fp (mant: int) (expo: int)

function bits :: "int \<Rightarrow> int" where
  "bits n = (if n \<le> 0 then 0 else 1 + bits (n div 2))"
  by auto
termination by (relation "measure nat") auto

declare bits.simps [simp del]

definition round_even :: "int \<Rightarrow> int \<Rightarrow> int" where
  "round_even m d =
     (let q = m div d; r = m mod d
      in if d < 2 * r \<or> (2 * r = d \<and> odd q) then q + 1 else q)"

fun fp_round :: "int \<Rightarrow> int \<Rightarrow> fp \<Rightarrow> fp" where
  "fp_round p emin (Fp m e) =
     (let s = max (bits \<bar>m\<bar> - p) (emin - e)
      in if s \<le> 0 then Fp m e else Fp (sgn m * round_even \<bar>m\<bar> (2 ^ nat s)) (e + s))"

definition to_float :: "fp \<Rightarrow> fp" where
  "to_float x = fp_round 24 (- 149) x"

definition to_double :: "fp \<Rightarrow> fp" where
  "to_double x = fp_round 53 (- 1074) x"

section \<open>Exact operations\<close>

fun fp_add :: "fp \<Rightarrow> fp \<Rightarrow> fp" where
  "fp_add (Fp m e) (Fp n f) =
     (let g = min e f in Fp (m * 2 ^ nat (e - g) + n * 2 ^ nat (f - g)) g)"

fun fp_mul :: "fp \<Rightarrow> fp \<Rightarrow> fp" where
  "fp_mul (Fp m e) (Fp n f) = Fp (m * n) (e + f)"

fun fp_less :: "fp \<Rightarrow> fp \<Rightarrow> bool" where
  "fp_less (Fp m e) (Fp n f) =
     (let g = min e f in m * 2 ^ nat (e - g) < n * 2 ^ nat (f - g))"

text \<open>
  A quotient of non-negative numbers, with enough digits for \<^verbatim>\<open>double\<close> and the lowest bit set
  when digits were cut off, so that rounding it rounds the exact quotient.
\<close>

fun fp_div :: "fp \<Rightarrow> fp \<Rightarrow> fp" where
  "fp_div (Fp m e) (Fp n f) =
     (let k = max 0 (57 + bits n - bits m); x = m * 2 ^ nat k
      in to_double (Fp (2 * (x div n) + (if x mod n = 0 then 0 else 1)) (e - f - k - 1)))"

section \<open>The value of a number\<close>

definition fp_val :: "fp \<Rightarrow> real" where
  "fp_val x = of_int (mant x) * 2 powr of_int (expo x)"

lemma fp_val_Fp [simp]: "fp_val (Fp m e) = of_int m * 2 powr of_int e"
  by (simp add: fp_val_def)

lemma scale_mant:
  assumes "g \<le> e"
  shows "(of_int (m * 2 ^ nat (e - g)) :: real) * 2 powr of_int g = of_int m * 2 powr of_int e"
proof -
  have "(2::real) ^ nat (e - g) * 2 powr of_int g = 2 powr of_int (e - g) * 2 powr of_int g"
    using assms by (simp add: powr_realpow [symmetric])
  also have "\<dots> = 2 powr of_int e" by (simp add: powr_add [symmetric])
  finally show ?thesis by (simp add: mult.assoc)
qed

lemma fp_add_val: "fp_val (fp_add x y) = fp_val x + fp_val y"
proof (cases x; cases y)
  fix m e n f
  assume xy: "x = Fp m e" "y = Fp n f"
  let ?g = "min e f"
  have "fp_val (fp_add x y) = of_int (m * 2 ^ nat (e - ?g)) * 2 powr of_int ?g
      + of_int (n * 2 ^ nat (f - ?g)) * 2 powr of_int ?g"
    by (simp add: xy Let_def algebra_simps)
  also have "\<dots> = fp_val x + fp_val y"
    using scale_mant [of ?g e m] scale_mant [of ?g f n] by (simp only: xy fp_val_Fp)
  finally show ?thesis .
qed

lemma fp_mul_val: "fp_val (fp_mul x y) = fp_val x * fp_val y"
  by (cases x; cases y) (simp add: powr_add)

lemma fp_less_iff: "fp_less x y = (fp_val x < fp_val y)"
proof (cases x; cases y)
  fix m e n f
  assume xy: "x = Fp m e" "y = Fp n f"
  let ?g = "min e f"
  have "(fp_val x < fp_val y) = (real_of_int (m * 2 ^ nat (e - ?g)) * 2 powr of_int ?g
      < real_of_int (n * 2 ^ nat (f - ?g)) * 2 powr of_int ?g)"
    using scale_mant [of ?g e m] scale_mant [of ?g f n] by (simp only: xy fp_val_Fp)
  also have "\<dots> = (m * 2 ^ nat (e - ?g) < n * 2 ^ nat (f - ?g))"
    by (subst mult_less_cancel_right_pos) (auto simp only: of_int_less_iff powr_gt_zero)
  finally show ?thesis by (simp add: xy Let_def)
qed

text \<open>Rounding moves a number by at most half of the last place it keeps.\<close>

lemma round_even_close:
  assumes "0 < d"
  shows "2 * \<bar>round_even m d * d - m\<bar> \<le> d"
proof -
  have m: "m = (m div d) * d + m mod d" by simp
  have r: "0 \<le> m mod d" "m mod d < d" using assms by simp_all
  show ?thesis
  proof (cases "d < 2 * (m mod d) \<or> (2 * (m mod d) = d \<and> odd (m div d))")
    case True
    then have "round_even m d * d - m = d - m mod d"
      using m by (simp add: round_even_def Let_def algebra_simps)
    then show ?thesis using True r by auto
  next
    case False
    then have "round_even m d * d - m = - (m mod d)"
      using m by (auto simp add: round_even_def Let_def algebra_simps)
    then show ?thesis using False r by auto
  qed
qed

lemma fp_round_close:
  assumes "s = max (bits \<bar>mant x\<bar> - p) (emin - expo x)"
  shows "\<bar>fp_val (fp_round p emin x) - fp_val x\<bar> \<le> 2 powr of_int (expo x + max s 0) / 2"
proof (cases x)
  case x: (Fp m e)
  show ?thesis
  proof (cases "s \<le> 0")
    case True
    then show ?thesis using assms x by (simp add: Let_def)
  next
    case False
    let ?d = "2 ^ nat s :: int" and ?q = "round_even \<bar>m\<bar> (2 ^ nat s)"
    have d: "0 < ?d" by simp
    have rd: "fp_round p emin x = Fp (sgn m * ?q) (e + s)"
      using False unfolding x assms by (simp only: fp_round.simps Let_def fp.sel if_False)
    have "fp_val (fp_round p emin x) - fp_val x
        = of_int (sgn m * ?q) * 2 powr of_int (e + s) - of_int m * 2 powr of_int e"
      unfolding rd by (simp only: fp_val_Fp x)
    also have "real_of_int (sgn m * ?q) * 2 powr of_int (e + s)
        = real_of_int (sgn m * ?q * ?d) * 2 powr of_int e"
      using scale_mant [of e "e + s" "sgn m * ?q"] False by auto
    also have "real_of_int (sgn m * ?q * ?d) * 2 powr of_int e - of_int m * 2 powr of_int e
        = real_of_int (sgn m * (?q * ?d - \<bar>m\<bar>)) * 2 powr of_int e"
      by (cases m "0 :: int" rule: linorder_cases) (simp_all add: algebra_simps)
    finally have "\<bar>fp_val (fp_round p emin x) - fp_val x\<bar>
        = of_int (\<bar>sgn m * (?q * ?d - \<bar>m\<bar>)\<bar>) * 2 powr of_int e"
      unfolding of_int_abs by (simp only: abs_mult [of _ "2 powr _"] abs_of_nonneg powr_ge_zero)
    also have "\<dots> \<le> of_int ?d / 2 * 2 powr of_int e"
    proof (rule mult_right_mono)
      have "2 * \<bar>sgn m * (?q * ?d - \<bar>m\<bar>)\<bar> \<le> ?d"
        using round_even_close [OF d, of "\<bar>m\<bar>"] by (simp add: abs_mult abs_sgn_eq)
      then have "real_of_int (2 * \<bar>sgn m * (?q * ?d - \<bar>m\<bar>)\<bar>) \<le> real_of_int ?d"
        by (simp only: of_int_le_iff)
      then show "real_of_int \<bar>sgn m * (?q * ?d - \<bar>m\<bar>)\<bar> \<le> real_of_int ?d / 2" by simp
    qed simp
    also have "\<dots> = 2 powr of_int (e + s) / 2"
      using False by (simp add: powr_add powr_realpow [symmetric])
    finally show ?thesis using False x by simp
  qed
qed

end
