(* ===== verification/PDR_Data.thy ===== *)
theory PDR_Data
  imports Floats SatSolver
begin

text \<open>
  The small classes of \<^verbatim>\<open>src/PDR.hpp\<close>: states, proof obligations, the comparators of
  literals, cubes and obligations, and frames. Every comparator meets the contract of the
  container or algorithm it is passed to: \<^verbatim>\<open>Lit_CMP\<close> and \<^verbatim>\<open>Cube_CMP\<close> are strict total orders,
  \<^verbatim>\<open>heuristic_Lit_CMP\<close> and the order of obligations strict weak orders.
\<close>

section \<open>Data\<close>

type_synonym Cube = "int list"

record State =
  latches :: "int list"
  inputs :: "int list"
  State_next :: "nat option"
  index :: nat
  failed :: int
  failed_depth :: int

definition State_clear :: "State \<Rightarrow> State" where
  "State_clear s = s\<lparr>latches := [], inputs := [], State_next := None\<rparr>"

record Obligation =
  obl_state :: nat
  frame_k :: int
  obl_depth :: int
  obl_thread :: int

definition Obligation_new :: "nat \<Rightarrow> int \<Rightarrow> int \<Rightarrow> int \<Rightarrow> Obligation" where
  "Obligation_new s k d t =
     \<lparr>obl_state = s, frame_k = k, obl_depth = d, obl_thread = (if 0 < t then t else 1)\<rparr>"

definition index_of :: "(nat \<rightharpoonup> State) \<Rightarrow> nat \<Rightarrow> nat" where
  "index_of h x = (case h x of Some s \<Rightarrow> index s | None \<Rightarrow> 0)"

definition Obligation_less :: "(nat \<rightharpoonup> State) \<Rightarrow> Obligation \<Rightarrow> Obligation \<Rightarrow> bool" where
  "Obligation_less h a b =
     (if frame_k a < frame_k b then True
      else if frame_k b < frame_k a then False
      else if obl_depth a < obl_depth b then True
      else if obl_depth b < obl_depth a then False
      else index_of h (obl_state a) < index_of h (obl_state b))"

definition Lit_CMP :: "int \<Rightarrow> int \<Rightarrow> bool" where
  "Lit_CMP a b = (if \<bar>a\<bar> = \<bar>b\<bar> then a < b else \<bar>a\<bar> < \<bar>b\<bar>)"

definition heuristic_Lit_CMP :: "fp list \<Rightarrow> int \<Rightarrow> int \<Rightarrow> bool" where
  "heuristic_Lit_CMP counts a b =
     (if int (length counts) - 1 < \<bar>b\<bar> then False
      else if int (length counts) - 1 < \<bar>a\<bar> then True
      else fp_less (counts ! nat \<bar>a\<bar>) (counts ! nat \<bar>b\<bar>))"

fun cube_lex :: "Cube \<Rightarrow> Cube \<Rightarrow> bool" where
  "cube_lex (a # as) (b # bs) = (if a \<noteq> b then a < b else cube_lex as bs)"
| "cube_lex _ _ = False"

definition Cube_CMP :: "Cube \<Rightarrow> Cube \<Rightarrow> bool" where
  "Cube_CMP a b = (if length a \<noteq> length b then length a < length b else cube_lex a b)"

definition abs_compare :: "int \<Rightarrow> int \<Rightarrow> bool" where
  "abs_compare a b = (\<bar>a\<bar> < \<bar>b\<bar>)"

record Frame =
  cubes :: "Cube list"
  solver :: CaDiCaL

definition Frame_new :: Frame where
  "Frame_new = \<lparr>cubes = [], solver = CaDiCaL_new\<rparr>"

section \<open>The comparators meet their contracts\<close>

lemma cube_lex_irrefl: "\<not> cube_lex a a"
  by (induction a) auto

lemma cube_lex_trans:
  "cube_lex a b \<Longrightarrow> cube_lex b c \<Longrightarrow> length a = length b \<Longrightarrow> length b = length c \<Longrightarrow> cube_lex a c"
proof (induction a arbitrary: b c)
  case Nil
  then show ?case by simp
next
  case (Cons x a)
  then obtain y b' z c' where "b = y # b'" "c = z # c'" by (cases b; cases c) auto
  then show ?case using Cons by (auto split: if_splits)
qed

lemma cube_lex_total: "length a = length b \<Longrightarrow> a \<noteq> b \<Longrightarrow> cube_lex a b \<or> cube_lex b a"
proof (induction a arbitrary: b)
  case Nil
  then show ?case by simp
next
  case (Cons x a)
  then obtain y b' where "b = y # b'" by (cases b) auto
  then show ?case using Cons by auto
qed

interpretation lit_cmp: comparator Lit_CMP
  by unfold_locales (auto simp: Lit_CMP_def split: if_splits)

interpretation cube_cmp: comparator Cube_CMP
proof unfold_locales
  fix x y z :: Cube
  show "\<not> Cube_CMP x x" by (simp add: Cube_CMP_def cube_lex_irrefl)
  show "Cube_CMP x y \<Longrightarrow> Cube_CMP y z \<Longrightarrow> Cube_CMP x z"
    using cube_lex_trans [of x y z] by (auto simp: Cube_CMP_def split: if_splits)
  show "x \<noteq> y \<Longrightarrow> Cube_CMP x y \<or> Cube_CMP y x"
    using cube_lex_total [of x y] by (auto simp: Cube_CMP_def)
qed

interpretation heuristic_cmp: weak_order "heuristic_Lit_CMP counts" for counts
  by unfold_locales (auto simp: heuristic_Lit_CMP_def fp_less_iff split: if_splits)

interpretation obligation_order: weak_order "Obligation_less h" for h
  by unfold_locales (auto simp: Obligation_less_def split: if_splits)

lemma std_includes_subset:
  "std_includes lt xs ys \<Longrightarrow> \<forall>y\<in>set ys. \<exists>x\<in>set xs. \<not> lt x y \<and> \<not> lt y x"
  by (induction lt xs ys rule: std_includes.induct) (auto split: if_splits)

end
