(* ===== verification/PDR_Core.thy ===== *)
theory PDR_Core
  imports PDR_Encode PDR_Data
begin

text \<open>
  \<^verbatim>\<open>src/PDR.hpp\<close> and the algorithm of \<^verbatim>\<open>src/PDR.cpp\<close>: states, proof obligations, cubes and
  frames, the object \<^verbatim>\<open>PDR\<close> and its operations, each a function on that object.
  \<open>None\<close> is a failed \<^verbatim>\<open>assert\<close>, an access outside a vector or through a null or deleted
  pointer, or a loop that does not end. States live in the map \<open>heap\<close>; deleting one
  removes it. The counters that are only printed by disabled statistics
  (\<^verbatim>\<open>nQuery\<close>, \<^verbatim>\<open>nCTI\<close>, ...) and code the switches of \<^verbatim>\<open>basic.hpp\<close> compile out
  (\<^verbatim>\<open>share_memory\<close>, \<^verbatim>\<open>split_ands\<close>, \<^verbatim>\<open>assumption_allsort\<close>) are left out.
\<close>

section \<open>The object\<close>

record PDR =
  aiger :: Aiger
  thread_index :: int
  main_thread_index :: int
  satelite :: "minisatSimp option"
  satelite2 :: "minisatSimp option"
  lift :: "CaDiCaL option"
  init :: "CaDiCaL option"
  restart_depth :: int
  satelite_unsat :: bool
  use_pr :: bool
  use_acc :: bool
  use_plusone_count :: bool
  cex_state_idx :: "nat option"
  find_cex :: bool
  states :: "nat list"
  cex_states :: "nat list"
  frames :: "Frame list"
  obligation_queue :: "Obligation list"
  core :: Cube
  top_frame_cannot_reach_bad :: bool
  heuristic_lit_cmp :: "fp list option"
  earliest_strengthened_frame :: int
  heap :: "nat \<rightharpoonup> State"
  state_count :: nat
  RESULT :: int
  polls :: nat
  shuffles :: nat
  cout :: string
  certificate :: "string option"

text \<open>
  The constructor. The heap and the globals \<^verbatim>\<open>state_count\<close> and \<^verbatim>\<open>RESULT\<close> start as the program
  starts; members without an initialiser are 0.
\<close>

definition PDR_new :: "Aiger \<Rightarrow> int \<Rightarrow> bool \<Rightarrow> bool \<Rightarrow> bool \<Rightarrow> PDR" where
  "PDR_new a Thread_index acc pr ao =
     \<lparr>aiger = a, thread_index = Thread_index,
      main_thread_index = (if 0 \<le> Thread_index
        then if Thread_index = 1 then 0 else if Thread_index = 4 then 1 else - 1 else 0),
      satelite = None, satelite2 = None, lift = None, init = None, restart_depth = 5,
      satelite_unsat = False, use_pr = pr, use_acc = acc, use_plusone_count = ao,
      cex_state_idx = None, find_cex = False, states = [], cex_states = [], frames = [],
      obligation_queue = [], core = [], top_frame_cannot_reach_bad = False,
      heuristic_lit_cmp = None, earliest_strengthened_frame = 0, heap = Map.empty,
      state_count = 0, RESULT = 0, polls = 0, shuffles = 0, cout = [], certificate = None\<rparr>"

definition depth :: "PDR \<Rightarrow> int" where
  "depth p = int (length (frames p)) - 2"

definition cube_is_null :: "Cube \<Rightarrow> bool" where
  "cube_is_null c = (length c = 0)"

definition state_is_null :: "State \<Rightarrow> bool" where
  "state_is_null s = (length (latches s) = 0)"

subsection \<open>Allocating, reading and writing states\<close>

definition new_State :: "int list \<Rightarrow> int list \<Rightarrow> PDR \<Rightarrow> nat \<times> PDR" where
  "new_State l i p =
     (let n = Suc (state_count p)
      in (n, p\<lparr>state_count := n,
               heap := (heap p)(n \<mapsto> \<lparr>latches = l, inputs = i, State_next = None, index = n,
                                      failed = 0, failed_depth = 0\<rparr>)\<rparr>))"

definition upd_State :: "nat \<Rightarrow> (State \<Rightarrow> State) \<Rightarrow> PDR \<Rightarrow> PDR option" where
  "upd_State x f p = do { s \<leftarrow> heap p x; Some (p\<lparr>heap := (heap p)(x \<mapsto> f s)\<rparr>) }"

definition delete_State :: "nat \<Rightarrow> PDR \<Rightarrow> PDR" where
  "delete_State x p = p\<lparr>heap := (heap p)(x := None)\<rparr>"

text \<open>
  Reading the global \<^verbatim>\<open>RESULT\<close>: another thread may have written it since the last look.
\<close>

definition read_RESULT :: "env \<Rightarrow> PDR \<Rightarrow> int \<times> PDR" where
  "read_RESULT e p =
     (let r = (if RESULT p \<noteq> 0 then RESULT p else other_threads e (polls p))
      in (r, p\<lparr>RESULT := r, polls := Suc (polls p)\<rparr>))"

definition set_solver :: "int \<Rightarrow> CaDiCaL \<Rightarrow> PDR \<Rightarrow> PDR" where
  "set_solver j s p = p\<lparr>frames := (frames p)[nat j := (frames p ! nat j)\<lparr>solver := s\<rparr>]\<rparr>"

definition set_cubes :: "int \<Rightarrow> Cube list \<Rightarrow> PDR \<Rightarrow> PDR" where
  "set_cubes j cs p = p\<lparr>frames := (frames p)[nat j := (frames p ! nat j)\<lparr>cubes := cs\<rparr>]\<rparr>"

fun prime_lits :: "int list \<Rightarrow> Aiger \<Rightarrow> (int list \<times> Aiger) option" where
  "prime_lits [] a = Some ([], a)"
| "prime_lits (l # ls) a = do {
     (p, a1) \<leftarrow> prime_lit l a;
     (ps, a2) \<leftarrow> prime_lits ls a1;
     Some (p # ps, a2)
   }"

section \<open>The literal heuristic\<close>

definition initialize_heuristic :: "PDR \<Rightarrow> PDR" where
  "initialize_heuristic p =
     (let ni = num_inputs (aiger p); nl = num_latches (aiger p)
      in p\<lparr>heuristic_lit_cmp := Some (map (\<lambda>i.
             if (2 \<le> i \<and> i \<le> ni + 1 \<and> (i - 2) mod 10 = 0)
              \<or> (ni + 2 \<le> i \<and> i \<le> ni + nl + 1 \<and> (i - (ni + 2)) mod 10 = 0)
             then Fp 1 (- 1) else Fp 0 0) [0..ni + nl + ni + 1])\<rparr>)"

definition restart_heuristic :: "PDR \<Rightarrow> PDR option" where
  "restart_heuristic p = do {
     cs \<leftarrow> heuristic_lit_cmp p;
     let ni = num_inputs (aiger p);
     let nl = num_latches (aiger p);
     cs' \<leftarrow> fold_opt (\<lambda>i cs. do {
         c \<leftarrow> vec_at cs i;
         Some (if fp_less (Fp 1 (- 1)) c then cs[nat i := to_float (fp_div (Fp 1 0) c)] else cs)
       }) [ni + 2..ni + nl + 1] cs;
     Some (p\<lparr>heuristic_lit_cmp := Some cs'\<rparr>)
   }"

definition updateLitOrder :: "Cube \<Rightarrow> PDR \<Rightarrow> PDR option" where
  "updateLitOrder cube p = do {
     cs \<leftarrow> heuristic_lit_cmp p;
     let n = num_inputs (aiger p) + num_latches (aiger p) + num_inputs (aiger p) + 2;
     cs1 \<leftarrow> fold_opt (\<lambda>i cs. do {
         c \<leftarrow> vec_at cs i;
         Some (cs[nat i := to_float (to_double (fp_mul c (fp_div (Fp 99 0) (Fp 100 0))))])
       }) [0..n - 1] cs;
     cs2 \<leftarrow> fold_opt (\<lambda>l cs. do {
         c \<leftarrow> vec_at cs \<bar>l\<bar>;
         Some (cs[nat \<bar>l\<bar> :=
           (if use_plusone_count p then to_float (fp_add c (Fp 1 0))
            else to_float (to_double (fp_add c (fp_div (Fp 10 0) (Fp (int (length cube)) 0)))))])
       }) cube cs1;
     Some (p\<lparr>heuristic_lit_cmp := Some cs2\<rparr>)
   }"

section \<open>Frames and the basic queries\<close>

definition encode_translation :: "env \<Rightarrow> CaDiCaL \<Rightarrow> PDR \<Rightarrow> (CaDiCaL \<times> PDR) option" where
  "encode_translation e s p = do {
     p1 \<leftarrow> (case satelite p of
              Some _ \<Rightarrow> Some p
            | None \<Rightarrow> do {
                (m, u, a) \<leftarrow> build_satelite (aiger p);
                Some (p\<lparr>aiger := a, satelite := Some (simplify e m),
                        satelite_unsat := satelite_unsat p \<or> u\<rparr>) });
     m \<leftarrow> satelite p1;
     let s1 = adds (simplified_cnf m) s;
     Some (if satelite_unsat p1 then add_clause [1] s1 else s1, p1)
   }"

definition encode_lift :: "env \<Rightarrow> CaDiCaL \<Rightarrow> PDR \<Rightarrow> (CaDiCaL \<times> PDR) option" where
  "encode_lift e s p = do {
     p1 \<leftarrow> (case satelite2 p of
              Some _ \<Rightarrow> Some p
            | None \<Rightarrow> do {
                (m, a) \<leftarrow> build_satelite2 (aiger p);
                Some (p\<lparr>aiger := a, satelite2 := Some (simplify e m)\<rparr>) });
     m \<leftarrow> satelite2 p1;
     Some (adds (simplified_cnf m) s, p1)
   }"

definition new_frame :: "env \<Rightarrow> PDR \<Rightarrow> PDR option" where
  "new_frame e p = do {
     (s, p1) \<leftarrow> encode_translation e (solver Frame_new) p;
     let s1 = add_cnf (map (\<lambda>l. [l]) (constraints_prime (aiger p1))) s;
     Some (p1\<lparr>frames := frames p1 @ [Frame_new\<lparr>solver := s1\<rparr>]\<rparr>)
   }"

definition is_init :: "env \<Rightarrow> int list \<Rightarrow> PDR \<Rightarrow> (bool \<times> PDR) option" where
  "is_init e ls p = do {
     let s = (case init p of Some s \<Rightarrow> s | None \<Rightarrow> encode_init_condition (aiger p) CaDiCaL_new);
     let (res, s') = CaDiCaL_solve e (assumes_all ls s);
     if res \<noteq> 0 then Some (res = SAT, p\<lparr>init := Some s'\<rparr>) else None
   }"

text \<open>
  SAT?[Fj /\ -latches /\ T /\ latches']. The calls of \<^verbatim>\<open>clear_act\<close> and \<^verbatim>\<open>set_clear_act\<close> go through
  a \<^verbatim>\<open>SATSolver*\<close> and do nothing.
\<close>

definition is_inductive ::
  "env \<Rightarrow> int \<Rightarrow> Cube \<Rightarrow> bool \<Rightarrow> bool \<Rightarrow> PDR \<Rightarrow> (bool \<times> PDR) option" where
  "is_inductive e j ls gen_core reverse_assumption p = do {
     f \<leftarrow> vec_at (frames p) j;
     let s0 = SATSolver_clear_act (solver f);
     let act = CaDiCaL_max_var s0 + 1;
     let s1 = add_clause (- act # map uminus ls) s0;
     (assumptions, a1) \<leftarrow>
       (if use_heuristic then do {
          cs \<leftarrow> heuristic_lit_cmp p;
          let sorted = stable_sort_by (heuristic_Lit_CMP cs) ls;
          prime_lits (if reverse_assumption then rev sorted else sorted) (aiger p)
        } else do {
          (ps, a) \<leftarrow> prime_lits ls (aiger p);
          Some (stable_sort_by Lit_CMP ps, a)
        });
     let (status, s2) = CaDiCaL_solve e (assumes_all (act # assumptions) s1);
     if status = 0 then None
     else do {
       let res = (status = UNSAT);
       let p1 = set_solver j (SATSolver_set_clear_act s2) (p\<lparr>aiger := a1\<rparr>);
       if res \<and> gen_core then do {
         (ps, a2) \<leftarrow> prime_lits ls a1;
         let c = map fst (filter (\<lambda>(i, pi). CaDiCaL_failed pi s2) (zip ls ps));
         (b, p2) \<leftarrow> is_init e c (p1\<lparr>aiger := a2, core := c\<rparr>);
         Some (res, if b then p2\<lparr>core := ls\<rparr> else p2)
       }
       else Some (res, p1)
     }
   }"

definition add_to_frame :: "Cube \<Rightarrow> int \<Rightarrow> PDR \<Rightarrow> PDR option" where
  "add_to_frame cube i p = do {
     f \<leftarrow> vec_at (frames p) i;
     Some (set_solver i (add_clause (map uminus cube) (solver f)) p)
   }"

text \<open>\<^verbatim>\<open>add_cube\<close> sorts its argument in place: the sorted cube is returned.\<close>

definition add_cube :: "Cube \<Rightarrow> int \<Rightarrow> bool \<Rightarrow> bool \<Rightarrow> PDR \<Rightarrow> (Cube \<times> PDR) option" where
  "add_cube cube k to_all ispropagate p = do {
     let p0 = (if ispropagate then p else
       p\<lparr>earliest_strengthened_frame := min (earliest_strengthened_frame p) k\<rparr>);
     let q = stable_sort_by Lit_CMP cube;
     f \<leftarrow> vec_at (frames p0) k;
     if set_has Cube_CMP q (cubes f) then Some (q, p0)
     else do {
       let p1 = set_cubes k (set_insert Cube_CMP q (cubes f)) p0;
       p2 \<leftarrow> (if to_all then fold_opt (add_to_frame q) [1..k - 1] p1 else Some p1);
       p3 \<leftarrow> add_to_frame q k p2;
       p4 \<leftarrow> (if use_heuristic \<and> \<not> ispropagate then updateLitOrder q p3 else Some p3);
       Some (q, p4)
     }
   }"

section \<open>Reading states from a model\<close>

definition sat_vals :: "CaDiCaL \<Rightarrow> int \<Rightarrow> int \<Rightarrow> int list" where
  "sat_vals s first n = filter (\<lambda>l. l \<noteq> 0) (map (\<lambda>i. CaDiCaL_val (first + i) s) [0..n - 1])"

definition unprime_vals :: "Aiger \<Rightarrow> int list \<Rightarrow> int list" where
  "unprime_vals a = map (\<lambda>l.
     if 0 < l then l - (primed_first_dimacs a - unprimed_first_dimacs)
     else l + (primed_first_dimacs a - unprimed_first_dimacs))"

definition input_assumptions :: "Aiger \<Rightarrow> CaDiCaL \<Rightarrow> int \<Rightarrow> int list" where
  "input_assumptions a s distance = concat (map (\<lambda>i.
       let ipt = CaDiCaL_val (unprimed_first_dimacs + i) s;
           pipt = CaDiCaL_val (primed_first_dimacs a + i) s
       in (if ipt \<noteq> 0 then [ipt] else [])
        @ (if 0 < pipt then [pipt - distance]
           else if pipt < 0 then [- (- pipt - distance)] else [])) [0..num_inputs a - 1])"

definition shift_assumption :: "Aiger \<Rightarrow> int \<Rightarrow> int \<Rightarrow> int" where
  "shift_assumption a distance l =
     (if num_inputs a + num_latches a + 2 \<le> l then l + distance
      else if l \<le> - (num_inputs a + num_latches a + 2) then l - distance
      else l)"

text \<open>Some cube, in the order of the set and no longer than \<open>ls\<close>, is included in \<open>ls\<close>.\<close>

fun has_included :: "int list \<Rightarrow> Cube list \<Rightarrow> bool" where
  "has_included ls [] = False"
| "has_included ls (c # cs) =
     (if length ls < length c then False
      else if std_includes abs_compare ls c then True
      else has_included ls cs)"

fun score_core ::
  "Aiger \<Rightarrow> int \<Rightarrow> CaDiCaL \<Rightarrow> int list \<Rightarrow> int \<Rightarrow> int \<Rightarrow> fp list \<Rightarrow> fp list option" where
  "score_core a distance s [] i core_literal cs = Some cs"
| "score_core a distance s (l # ls) i core_literal cs =
     (if CaDiCaL_failed l s then do {
        let score0 = fp_div (Fp (i - core_literal) 0) (Fp 20 0);
        let score = (if fp_less (Fp 1 0) score0 then fp_div (Fp 105 0) (Fp 100 0) else score0);
        let v = (if \<bar>l\<bar> < primed_first_dimacs a then \<bar>l\<bar> else \<bar>l\<bar> - distance);
        c \<leftarrow> vec_at cs v;
        score_core a distance s ls (i + 1) i (cs[nat v := to_float (to_double (fp_add c score))])
      }
      else score_core a distance s ls (i + 1) core_literal cs)"

definition load_lift :: "env \<Rightarrow> PDR \<Rightarrow> (CaDiCaL \<times> PDR) option" where
  "load_lift e p = (case lift p of Some s \<Rightarrow> Some (s, p) | None \<Rightarrow> encode_lift e CaDiCaL_new p)"

text \<open>
  \<^verbatim>\<open>extract_state_from_sat\<close>: the model of frame j's solver is a state with a step into \<open>succ\<close>
  (into the bad states when it is null); the latch literals that the step needs, under
  the inputs of the model, become the latches of \<open>s\<close>. Here \<^verbatim>\<open>lift\<close> has its own class, so its
  \<^verbatim>\<open>clear_act\<close> retires the last activation variable.
\<close>

definition extract_state_from_sat ::
  "env \<Rightarrow> int \<Rightarrow> nat \<Rightarrow> nat option \<Rightarrow> int \<Rightarrow> PDR \<Rightarrow> PDR option" where
  "extract_state_from_sat e j s succ findex p = do {
     p0 \<leftarrow> upd_State s State_clear p;
     (lf, p1) \<leftarrow> load_lift e p0;
     let l0 = CaDiCaL_clear_act lf;
     f \<leftarrow> vec_at (frames p1) j;
     let sat = solver f;
     let a = aiger p1;
     let distance = primed_first_dimacs a - (num_inputs a + num_latches a + 2);
     let ins = sat_vals sat unprimed_first_dimacs (num_inputs a);
     let ls = sat_vals sat (unprimed_first_dimacs + num_inputs a) (num_latches a);
     let act_var = CaDiCaL_max_var l0 + 1;
     (goal, a1) \<leftarrow> (case succ of
         None \<Rightarrow> Some ([- bad_prime a], a)
       | Some x \<Rightarrow> do { t \<leftarrow> heap p1 x; prime_lits (map uminus (latches t)) a });
     let l1 = add_clause (- act_var # map uminus (constraints a)
                @ map uminus (constraints_prime a) @ goal) l0;
     cs \<leftarrow> heuristic_lit_cmp p1;
     let assumptions = map (shift_assumption a distance)
           (input_assumptions a sat distance
            @ (if use_heuristic then rev (stable_sort_by (heuristic_Lit_CMP cs) ls)
               else stable_sort_by Lit_CMP ls));
     let (res, l2) = CaDiCaL_solve e (assumes_all (act_var # assumptions) l1);
     if res \<noteq> UNSAT then None
     else do {
       let sl = filter (\<lambda>l. CaDiCaL_failed l l2) ls;
       cpo \<leftarrow> (if findex \<noteq> 0
               then do { g \<leftarrow> vec_at (frames p1) (findex - 1); Some (has_included sl (cubes g)) }
               else Some False);
       cs1 \<leftarrow> (if use_acc p1 \<and> cpo
               then score_core a distance l2 assumptions 0 0 cs else Some cs);
       upd_State s (\<lambda>st. st\<lparr>inputs := ins, latches := sl, State_next := succ\<rparr>)
         (p1\<lparr>aiger := a1, lift := Some (CaDiCaL_set_clear_act l2), heuristic_lit_cmp := Some cs1\<rparr>)
     }
   }"

definition get_pre_of_bad :: "env \<Rightarrow> nat \<Rightarrow> PDR \<Rightarrow> (bool \<times> PDR) option" where
  "get_pre_of_bad e s p = do {
     p0 \<leftarrow> upd_State s State_clear p;
     let Fk = depth p0;
     f \<leftarrow> vec_at (frames p0) Fk;
     let (res, s') = CaDiCaL_solve e (CaDiCaL_assume (bad_prime (aiger p0)) (solver f));
     let p1 = set_solver Fk s' p0;
     if res = SAT then do {
       let a = aiger p1;
       let ins = unprime_vals a (sat_vals s' (primed_first_dimacs a) (num_inputs a));
       let ls = unprime_vals a
             (sat_vals s' (primed_first_dimacs a + num_inputs a) (num_latches a));
       let (b, p2) = new_State ls ins p1;
       p3 \<leftarrow> extract_state_from_sat e Fk s None Fk p2;
       p4 \<leftarrow> upd_State s (\<lambda>st. st\<lparr>State_next := Some b\<rparr>) p3;
       Some (True, p4)
     }
     else Some (False, p1)
   }"

section \<open>Generalising a blocked cube\<close>

definition option_ctg_tries :: int where "option_ctg_tries = 3"
definition option_ctg_max_depth :: int where "option_ctg_max_depth = 1"
definition option_max_joins :: int where "option_max_joins = 1048576"

text \<open>The loop that pushes a cube up to the first frame where it is not inductive.\<close>

fun push_frames :: "env \<Rightarrow> Cube \<Rightarrow> int list \<Rightarrow> int \<Rightarrow> PDR \<Rightarrow> (int \<times> PDR) option" where
  "push_frames e q [] kend p = Some (kend, p)"
| "push_frames e q (k # ks) kend p = do {
     (b, p1) \<leftarrow> is_inductive e k q False True p;
     if b then push_frames e q ks kend p1 else Some (k, p1)
   }"

definition push_from :: "env \<Rightarrow> Cube \<Rightarrow> int \<Rightarrow> PDR \<Rightarrow> (int \<times> PDR) option" where
  "push_from e q k p = push_frames e q [k..depth p] (max k (depth p + 1)) p"

fun join_cube :: "int list \<Rightarrow> int set \<Rightarrow> int list \<Rightarrow> bool \<times> int list" where
  "join_cube s_cti required [] = (False, [])"
| "join_cube s_cti required (i # is) =
     (if i \<in> set s_cti then (case join_cube s_cti required is of (b, js) \<Rightarrow> (b, i # js))
      else if i \<in> required then (True, [])
      else join_cube s_cti required is)"

text \<open>
  \<^verbatim>\<open>mic\<close> and \<^verbatim>\<open>CTG_down\<close> call each other; the first argument bounds the nesting of calls and
  the iterations of \<^verbatim>\<open>CTG_down\<close>'s loop (\<^verbatim>\<open>ctg_ct\<close> and \<^verbatim>\<open>join_ct\<close> are its locals). A cube passed by
  reference is returned. \<^verbatim>\<open>CTG_down\<close> passes the member \<^verbatim>\<open>core\<close> itself to \<^verbatim>\<open>mic\<close>; at that depth
  \<^verbatim>\<open>mic\<close> overwrites it right after every call that changes it, so it is passed by value here
  and stored afterwards.
\<close>

function (sequential) mic ::
    "nat \<Rightarrow> env \<Rightarrow> Cube \<Rightarrow> int \<Rightarrow> int \<Rightarrow> PDR \<Rightarrow> (Cube \<times> PDR) option"
  and mic_loop ::
    "nat \<Rightarrow> env \<Rightarrow> int list \<Rightarrow> int \<Rightarrow> int \<Rightarrow> int \<Rightarrow> int set \<Rightarrow> Cube \<Rightarrow> PDR \<Rightarrow> (Cube \<times> PDR) option"
  and CTG_down ::
    "nat \<Rightarrow> env \<Rightarrow> Cube \<Rightarrow> int \<Rightarrow> int \<Rightarrow> int set \<Rightarrow> int \<Rightarrow> int \<Rightarrow> PDR \<Rightarrow> (bool \<times> Cube \<times> PDR) option"
  where
  "mic 0 e cube k d p = None"
| "mic (Suc n) e cube k d p = do {
     let c1 = stable_sort_by Lit_CMP cube;
     (c2, p1) \<leftarrow>
       (if thread_index p \<le> 1 then do {
          cs \<leftarrow> heuristic_lit_cmp p;
          Some (stable_sort_by (heuristic_Lit_CMP cs) c1, p)
        }
        else Some (random_shuffle e (shuffles p) c1, p\<lparr>shuffles := Suc (shuffles p)\<rparr>));
     mic_loop n e c2 k d 0 {} c2 p1
   }"
| "mic_loop n e [] k d mic_failed required cube p = Some (cube, p)"
| "mic_loop n e (l # ls) k d mic_failed required cube p =
     (if l \<notin> set cube then mic_loop n e ls k d 0 required cube p
      else do {
        let cand = filter (\<lambda>i. i \<noteq> l) cube;
        (b, cand', p1) \<leftarrow> CTG_down n e cand k d required 0 0 p;
        if b then mic_loop n e ls k d 0 required cand' p1
        else if option_ctg_tries < mic_failed + 1 then Some (cube, p1)
        else mic_loop n e ls k d (mic_failed + 1) (insert l required) cube p1
      })"
| "CTG_down 0 e cube k rec_depth required ctg_ct join_ct p = None"
| "CTG_down (Suc n) e cube k rec_depth required ctg_ct join_ct p = do {
     (ini, p1) \<leftarrow> is_init e cube p;
     if ini then Some (False, cube, p1)
     else do {
       (ind, p2) \<leftarrow> is_inductive e k cube True True p1;
       if ind then Some (True, if length (core p2) < length cube then core p2 else cube, p2)
       else if option_ctg_max_depth < rec_depth then Some (False, cube, p2)
       else do {
         let (s, p3) = new_State [] [] p2;
         let (succ, p4) = new_State cube [] p3;
         p5 \<leftarrow> extract_state_from_sat e k s (Some succ) k p4;
         st \<leftarrow> heap p5 s;
         (ctg, p6) \<leftarrow>
           (if ctg_ct < option_ctg_tries \<and> 1 < k then do {
              (i0, q1) \<leftarrow> is_init e (latches st) p5;
              if i0 then Some (False, q1) else is_inductive e (k - 1) (latches st) True True q1
            }
            else Some (False, p5));
         if ctg then do {
           (i, p7) \<leftarrow> push_from e (core p6) k p6;
           (c, p8) \<leftarrow> mic n e (core p7) (i - 1) (rec_depth + 1) p7;
           (c', p9) \<leftarrow> add_cube c i True False (p8\<lparr>core := c\<rparr>);
           CTG_down n e cube k rec_depth required (ctg_ct + 1) join_ct
             (delete_State s (p9\<lparr>core := c'\<rparr>))
         }
         else if join_ct < option_max_joins then do {
           let (breaked, cube') = join_cube (latches st) required cube;
           if breaked then Some (False, cube', delete_State s p6)
           else CTG_down n e cube' k rec_depth required 0 (join_ct + 1) (delete_State s p6)
         }
         else Some (False, cube, delete_State s p6)
       }
     }
   }"
  by pat_completeness auto
termination
  by (relation "measures [
      \<lambda>x. case x of Inl (n, _) \<Rightarrow> n | Inr (Inl (n, _)) \<Rightarrow> n | Inr (Inr (n, _)) \<Rightarrow> n,
      \<lambda>x. case x of Inr (Inl (_, _, ls, _)) \<Rightarrow> Suc (length ls) | _ \<Rightarrow> 0]")
     auto

text \<open>
  \<^verbatim>\<open>generalize\<close>: between two joins, each of which removes a literal, the loop of \<^verbatim>\<open>CTG_down\<close>
  handles at most three counterexamples to generalisation.
\<close>

definition mic_fuel :: "Cube \<Rightarrow> nat" where
  "mic_fuel cube = 4 * length cube + 9"

definition generalize :: "env \<Rightarrow> Cube \<Rightarrow> int \<Rightarrow> PDR \<Rightarrow> (Cube \<times> PDR) option" where
  "generalize e cube k p = mic (mic_fuel cube) e cube k 1 p"

section \<open>Log functions\<close>


text \<open>The vector of characters the printers fill: x where the state has no literal.\<close>

definition state_chars :: "State \<Rightarrow> Aiger \<Rightarrow> char list option" where
  "state_chars s a = fold_opt (\<lambda>l cs.
       if \<bar>l\<bar> < int (length cs) then Some (cs[nat \<bar>l\<bar> := (if l < 0 then CHR ''0'' else CHR ''1'')])
       else None)
     (inputs s @ latches s)
     (replicate (nat (num_inputs a + num_latches a + 2)) (CHR ''x''))"

definition return_input :: "State \<Rightarrow> Aiger \<Rightarrow> string option" where
  "return_input s a = do {
     cs \<leftarrow> state_chars s a;
     those (map (\<lambda>i. vec_at cs (1 + i)) [1..num_inputs a]) }"

definition return_latch :: "State \<Rightarrow> Aiger \<Rightarrow> string option" where
  "return_latch s a = do {
     cs \<leftarrow> state_chars s a;
     those (map (\<lambda>l. vec_at cs (1 + num_inputs a + l)) [1..num_latches a]) }"

definition return_state :: "State \<Rightarrow> Aiger \<Rightarrow> string option" where
  "return_state s a = do {
     i \<leftarrow> return_input s a;
     l \<leftarrow> return_latch s a;
     Some (''['' @ i @ ''|'' @ l @ '']'') }"

definition show_state :: "State \<Rightarrow> PDR \<Rightarrow> PDR option" where
  "show_state s p = do {
     str \<leftarrow> return_state s (aiger p);
     Some (p\<lparr>cout := cout p @ str @ newline\<rparr>) }"

definition return_lit :: "int \<Rightarrow> Aiger \<Rightarrow> string option" where
  "return_lit l a = do {
     v \<leftarrow> vec_at (variables a) \<bar>l\<bar>;
     Some ((if l < 0 then ''-'' else []) @ vname v) }"

definition return_litvec :: "int list \<Rightarrow> Aiger \<Rightarrow> string option" where
  "return_litvec lv a = do {
     strs \<leftarrow> those (map (\<lambda>l. return_lit l a) lv);
     Some (concat (map (\<lambda>s. s @ '' '') strs)) }"

definition show_lit :: "int \<Rightarrow> PDR \<Rightarrow> PDR option" where
  "show_lit l p = do { s \<leftarrow> return_lit l (aiger p); Some (p\<lparr>cout := cout p @ s\<rparr>) }"

definition show_litvec :: "int list \<Rightarrow> PDR \<Rightarrow> PDR option" where
  "show_litvec lv p = do {
     p1 \<leftarrow> fold_opt (\<lambda>l p. do { p' \<leftarrow> show_lit l p; Some (p'\<lparr>cout := cout p' @ '' ''\<rparr>) }) lv p;
     Some (p1\<lparr>cout := cout p1 @ newline\<rparr>) }"

definition show_PO :: "PDR \<Rightarrow> PDR option" where
  "show_PO p = do {
     p1 \<leftarrow> fold_opt (\<lambda>ob p. do {
         s \<leftarrow> heap p (obl_state ob);
         show_litvec (latches s) (p\<lparr>cout := cout p @ ''L'' @ show_int (frame_k ob)
           @ '' d'' @ show_int (obl_depth ob) @ '' S: ''\<rparr>)
       }) (obligation_queue p) (p\<lparr>cout := cout p @ '' + -----'' @ newline\<rparr>);
     Some (p1\<lparr>cout := cout p1 @ '' + ====='' @ newline\<rparr>) }"

text \<open>\<^verbatim>\<open>log_witness\<close>: the chain of successors from the initial state of the counterexample.\<close>

partial_function (option) next_chain :: "(nat \<rightharpoonup> State) \<Rightarrow> nat option \<Rightarrow> nat list option" where
  "next_chain h x = (case x of
       None \<Rightarrow> Some []
     | Some s \<Rightarrow> do { st \<leftarrow> h s; xs \<leftarrow> next_chain h (State_next st); Some (s # xs) })"

declare next_chain.simps [code]

definition log_witness :: "PDR \<Rightarrow> PDR option" where
  "log_witness p = do {
     ss \<leftarrow> next_chain (heap p) (cex_state_idx p);
     Some (fold delete_State (filter (\<lambda>q. q \<notin> set ss) (states p))
             (p\<lparr>cex_states := cex_states p @ ss\<rparr>)) }"

definition witness_text :: "State list \<Rightarrow> Aiger \<Rightarrow> string option" where
  "witness_text ss a = do {
     l \<leftarrow> (case ss of [] \<Rightarrow> Some [] | s # _ \<Rightarrow> do { t \<leftarrow> return_latch s a; Some (t @ newline) });
     is \<leftarrow> those (map (\<lambda>s. return_input s a) ss);
     Some (''1'' @ newline @ ''b0'' @ newline @ l
       @ concat (map (\<lambda>i. i @ newline) is) @ ''.'' @ newline) }"

definition show_witness :: "PDR \<Rightarrow> PDR option" where
  "show_witness p =
     (if \<not> find_cex p then None
      else if \<not> output_witness (aiger p) then Some p
      else do {
        ss \<leftarrow> those (map (heap p) (cex_states p));
        w \<leftarrow> witness_text ss (aiger p);
        Some (p\<lparr>cout := cout p @ w\<rparr>) })"

section \<open>The certificate\<close>

text \<open>\<^verbatim>\<open>show_aag\<close>: the text of \<^verbatim>\<open>certificate.aag\<close>.\<close>

definition aag_latch :: "Aiger \<Rightarrow> int \<Rightarrow> string option" where
  "aag_latch a i = do {
     n \<leftarrow> vec_at (nexts a) (i - 1);
     l \<leftarrow> vec_at (Aiger_latches a) (i - 1);
     Some (show_int (2 * (num_inputs a + i)) @ '' '' @ show_int (dimacs_to_aiger n)
       @ (if al_default_val l \<noteq> 0 then '' '' @ show_int (al_default_val l) else []) @ newline) }"

definition aag_text :: "Aiger \<Rightarrow> string option" where
  "aag_text a = do {
     ls \<leftarrow> those (map (aag_latch a) [1..num_latches a]);
     Some (''aag '' @ show_int (num_inputs a + num_latches a + num_ands a)
       @ '' '' @ show_int (num_inputs a) @ '' '' @ show_int (num_latches a) @ '' 0 ''
       @ show_int (num_ands a) @ '' 1''
       @ (if constraints a \<noteq> [] then '' '' @ show_int (int (length (constraints a))) else [])
       @ newline
       @ concat (map (\<lambda>i. show_int (2 * i) @ newline) [1..num_inputs a])
       @ concat ls
       @ show_int (dimacs_to_aiger (bad a)) @ newline
       @ concat (map (\<lambda>c. show_int (dimacs_to_aiger c) @ newline) (constraints a))
       @ concat (map (\<lambda>g. show_int (dimacs_to_aiger (out g)) @ '' ''
           @ show_int (dimacs_to_aiger (i1 g)) @ '' ''
           @ show_int (dimacs_to_aiger (i2 g)) @ newline) (ands a))) }"

definition show_aag :: "PDR \<Rightarrow> PDR option" where
  "show_aag p = do { t \<leftarrow> aag_text (aiger p); Some (p\<lparr>certificate := Some t\<rparr>) }"

definition cert_and :: "int \<Rightarrow> int \<Rightarrow> Aiger \<Rightarrow> int \<times> Aiger" where
  "cert_and x y a =
     (let v = 1 + num_inputs a + num_latches a + num_ands a + 1
      in (v, a\<lparr>ands := ands a @ [if \<bar>y\<bar> < \<bar>x\<bar> then mkAnd v x y else mkAnd v y x],
               num_ands := num_ands a + 1\<rparr>))"

text \<open>The gate of one cube, from its largest variable down; an empty cube is true.\<close>

definition cert_cube :: "Cube \<Rightarrow> Aiger \<Rightarrow> int \<times> Aiger" where
  "cert_cube c a =
     (let cc = rev (stable_sort_by Lit_CMP (if c = [] then [- 1] else c))
      in fold (\<lambda>l (g, a). cert_and g l a) (tl cc) (hd cc, a))"

text \<open>The conjunction of the negated cubes; the result is the literal \<^verbatim>\<open>invariant\<close>.\<close>

definition cert_cubes :: "Cube list \<Rightarrow> Aiger \<Rightarrow> (int \<times> Aiger) option" where
  "cert_cubes cs a = (case cs of
       [] \<Rightarrow> None
     | c # cs' \<Rightarrow>
         (case cert_cube c a of (g, a1) \<Rightarrow>
            Some (fold (\<lambda>c (inv, a). case cert_cube c a of (g, a') \<Rightarrow> cert_and (- g) inv a')
                    cs' (- g, a1))))"

definition build_certificate :: "int \<Rightarrow> PDR \<Rightarrow> PDR option" where
  "build_certificate i p = do {
     p1 \<leftarrow> fold_opt (\<lambda>d p. do {
         g \<leftarrow> vec_at (frames p) d;
         f \<leftarrow> vec_at (frames p) (i + 1);
         Some (set_cubes (i + 1) (fold (set_insert Cube_CMP) (cubes g) (cubes f)) p)
       }) [i + 2..depth p + 1] p;
     f \<leftarrow> vec_at (frames p1) (i + 1);
     (inv, a) \<leftarrow> cert_cubes (cubes f) (aiger p1);
     show_aag (p1\<lparr>aiger := a\<lparr>bad := - inv\<rparr>\<rparr>)
   }"

section \<open>Propagation\<close>

text \<open>
  One step of the loop over the cubes of frame i: an inductive cube moves up, as the core
  of the query; only a core that lost literals is new to the frames below.
\<close>

definition propagate_cube :: "env \<Rightarrow> int \<Rightarrow> Cube \<Rightarrow> PDR \<Rightarrow> PDR option" where
  "propagate_cube e i c p = do {
     (b, p1) \<leftarrow> is_inductive e i c True True p;
     if b then do {
       (q, p2) \<leftarrow> add_cube (core p1) (i + 1) (length (core p1) < length c) True p1;
       f \<leftarrow> vec_at (frames p2) i;
       Some (set_cubes i (filter (\<lambda>x. x \<noteq> c) (cubes f)) (p2\<lparr>core := q\<rparr>))
     }
     else Some p1
   }"

definition finish_proof :: "env \<Rightarrow> int \<Rightarrow> PDR \<Rightarrow> PDR option" where
  "finish_proof e i p = do {
     let (r, p1) = read_RESULT e p;
     if r \<noteq> 0 then Some p1
     else do {
       let p2 = p1\<lparr>RESULT := 20\<rparr>;
       f \<leftarrow> vec_at (frames p2) (i + 1);
       let cs = fold (set_insert Cube_CMP)
             ([bad (aiger p2)] # map (\<lambda>l. [- l]) (constraints (aiger p2))) (cubes f);
       let p3 = set_cubes (i + 1) cs p2;
       if output_certificate (aiger p3) then build_certificate i p3 else Some p3
     }
   }"

fun propagate_frames :: "env \<Rightarrow> int list \<Rightarrow> PDR \<Rightarrow> (bool \<times> PDR) option" where
  "propagate_frames e [] p = Some (False, p)"
| "propagate_frames e (i # is) p = do {
     f \<leftarrow> vec_at (frames p) i;
     p1 \<leftarrow> fold_opt (propagate_cube e i) (cubes f) p;
     g \<leftarrow> vec_at (frames p1) i;
     if cubes g = [] then do { p2 \<leftarrow> finish_proof e i p1; Some (True, p2) }
     else propagate_frames e is p1
   }"

definition start_k :: "PDR \<Rightarrow> int" where
  "start_k p =
     (if top_frame_cannot_reach_bad p then depth p
      else if use_earliest_strengthened_frame \<and> depth p mod 5 \<noteq> 0 \<and> 20 < depth p
        then earliest_strengthened_frame p
      else 1)"

definition propagate :: "env \<Rightarrow> PDR \<Rightarrow> (bool \<times> PDR) option" where
  "propagate e p = propagate_frames e [start_k p..depth p] p"

section \<open>Blocking proof obligations\<close>

definition insert_obligation :: "Obligation \<Rightarrow> PDR \<Rightarrow> PDR" where
  "insert_obligation ob p =
     p\<lparr>obligation_queue := set_insert (Obligation_less (heap p)) ob (obligation_queue p)\<rparr>"

definition punish :: "nat option \<Rightarrow> Cube \<Rightarrow> PDR \<Rightarrow> PDR option" where
  "punish x c p = (case x of
       None \<Rightarrow> Some p
     | Some y \<Rightarrow> if use_punishment \<and> 10 < length c
         then upd_State y (\<lambda>s. s\<lparr>failed := failed s +
                (if 30 < length c then 5 else if 20 < length c then 3 else 1)\<rparr>) p
         else Some p)"

text \<open>The obligation is met: its state is generalised, pushed as far as it goes, blocked there.\<close>

definition block_obligation :: "env \<Rightarrow> Obligation \<Rightarrow> PDR \<Rightarrow> PDR option" where
  "block_obligation e ob p = do {
     (c, p1) \<leftarrow> generalize e (core p) (frame_k ob)
                  (p\<lparr>obligation_queue := tl (obligation_queue p)\<rparr>);
     st \<leftarrow> heap p1 (obl_state ob);
     p2 \<leftarrow> punish (State_next st) c p1;
     (k, p3) \<leftarrow> push_from e c (frame_k ob + 1) p2;
     f \<leftarrow> vec_at (frames p3) k;
     let pushpo = (has_included (latches st) (cubes f) \<or> \<not> use_pr p3);
     (q, p4) \<leftarrow> add_cube c k True False p3;
     Some (if k \<le> depth p4 \<and> pushpo
           then insert_obligation
                  (Obligation_new (obl_state ob) k (obl_depth ob) (thread_index p4)) p4
           else p4)
   }"

definition set_failed_depth :: "nat option \<Rightarrow> int \<Rightarrow> PDR \<Rightarrow> PDR option" where
  "set_failed_depth x d p = (case x of
       None \<Rightarrow> Some p
     | Some y \<Rightarrow> upd_State y (\<lambda>s. s\<lparr>failed_depth := d\<rparr>) p)"

definition cex_found :: "Obligation \<Rightarrow> PDR \<Rightarrow> PDR option" where
  "cex_found ob p = do {
     f \<leftarrow> vec_at (frames p) (frame_k ob);
     let a = aiger p;
     let ins = sat_vals (solver f) unprimed_first_dimacs (num_inputs a);
     let ls = sat_vals (solver f) (unprimed_first_dimacs + num_inputs a) (num_latches a);
     let (s, p1) = new_State ls ins p;
     p2 \<leftarrow> upd_State s (\<lambda>st. st\<lparr>State_next := Some (obl_state ob)\<rparr>) p1;
     log_witness (p2\<lparr>cex_state_idx := Some s, find_cex := True\<rparr>)
   }"

text \<open>One iteration of the loop of \<^verbatim>\<open>rec_block_cube\<close>: a value to return, or \<open>None\<close> to go on.\<close>

definition rec_block_step :: "env \<Rightarrow> PDR \<Rightarrow> (bool option \<times> PDR) option" where
  "rec_block_step e p = (case obligation_queue p of
       [] \<Rightarrow> Some (Some True, p)
     | ob # rest \<Rightarrow> do {
         let (r, p1) = read_RESULT e p;
         if r \<noteq> 0 then Some (Some True, p1)
         else do {
           st \<leftarrow> heap p1 (obl_state ob);
           (b, p2) \<leftarrow> is_inductive e (frame_k ob) (latches st) True True p1;
           if b then do { p3 \<leftarrow> block_obligation e ob p2; Some (None, p3) }
           else if failed_depth st \<noteq> 0 \<and> failed_depth st \<le> obl_depth ob + frame_k ob then do {
             p3 \<leftarrow> set_failed_depth (State_next st) (failed_depth st)
                    (p2\<lparr>obligation_queue := rest\<rparr>);
             Some (None, p3)
           }
           else if 5 \<le> failed st \<and> depth p2 < obl_depth ob + frame_k ob then do {
             p3 \<leftarrow> set_failed_depth (Some (obl_state ob)) (obl_depth ob + frame_k ob)
                    (p2\<lparr>obligation_queue := rest\<rparr>);
             p4 \<leftarrow> set_failed_depth (State_next st) (obl_depth ob + frame_k ob) p3;
             Some (None, p4)
           }
           else if frame_k ob = 0 then do { p3 \<leftarrow> cex_found ob p2; Some (Some False, p3) }
           else do {
             let (s, p3) = new_State [] [] p2;
             p4 \<leftarrow> extract_state_from_sat e (frame_k ob) s (Some (obl_state ob)) (frame_k ob) p3;
             Some (None, insert_obligation
               (Obligation_new s (frame_k ob - 1) (obl_depth ob + 1) (thread_index p4)) p4)
           }
         }
       })"

partial_function (option) rec_block_cube :: "env \<Rightarrow> PDR \<Rightarrow> (bool \<times> PDR) option" where
  "rec_block_cube e p = do {
     (r, p1) \<leftarrow> rec_block_step e p;
     case r of Some b \<Rightarrow> Some (b, p1) | None \<Rightarrow> rec_block_cube e p1
   }"

declare rec_block_cube.simps [code]

definition clear_po :: "PDR \<Rightarrow> PDR" where
  "clear_po p = (fold (\<lambda>ob p. delete_State (obl_state ob) p) (obligation_queue p) p)
     \<lparr>obligation_queue := []\<rparr>"

section \<open>PDR::check\<close>

definition simplify_aiger :: "PDR \<Rightarrow> PDR" where
  "simplify_aiger p = p"

definition initialize :: "PDR \<Rightarrow> PDR option" where
  "initialize p = do {
     let p1 = simplify_aiger (p\<lparr>satelite := None\<rparr>);
     a \<leftarrow> PDR_translate_to_dimacs (aiger p1);
     Some (initialize_heuristic (p1\<lparr>aiger := a\<rparr>))
   }"

definition check_BMC0 :: "env \<Rightarrow> PDR \<Rightarrow> (bool \<times> PDR) option" where
  "check_BMC0 e p =
     (if frames p \<noteq> [] then None
      else do {
        let a = aiger p;
        s1 \<leftarrow> encode_bad_state a (encode_init_condition a CaDiCaL_new);
        let (res, sat0) = CaDiCaL_solve e (CaDiCaL_assume (bad a) s1);
        if res = SAT then do {
          let (s, p1) = new_State
            (sat_vals sat0 (unprimed_first_dimacs + num_inputs a) (num_latches a))
            (sat_vals sat0 unprimed_first_dimacs (num_inputs a)) (p\<lparr>find_cex := True\<rparr>);
          Some (False, p1\<lparr>cex_states := cex_states p1 @ [s]\<rparr>)
        }
        else do {
          p1 \<leftarrow> new_frame e p;
          f \<leftarrow> vec_at (frames p1) 0;
          Some (True, set_solver 0 (encode_init_condition (aiger p1) (solver f)) p1)
        }
      })"

definition check_BMC1 :: "env \<Rightarrow> PDR \<Rightarrow> (bool \<times> PDR) option" where
  "check_BMC1 e p =
     (if length (frames p) \<noteq> 1 then None
      else do {
        (s1, p1) \<leftarrow> encode_translation e (encode_init_condition (aiger p) CaDiCaL_new) p;
        let a = aiger p1;
        let s2 = add_cnf (map (\<lambda>l. [l]) (constraints_prime a)) s1;
        let (res1, sat1) = CaDiCaL_solve e (CaDiCaL_assume (bad_prime a) s2);
        if res1 = SAT then do {
          let (s, p2) = new_State
            (sat_vals sat1 (unprimed_first_dimacs + num_inputs a) (num_latches a))
            (sat_vals sat1 unprimed_first_dimacs (num_inputs a)) (p1\<lparr>find_cex := True\<rparr>);
          let (ps, p3) = new_State
            (unprime_vals a (sat_vals sat1 (primed_first_dimacs a + num_inputs a) (num_latches a)))
            (unprime_vals a (sat_vals sat1 (primed_first_dimacs a) (num_inputs a))) p2;
          p4 \<leftarrow> upd_State s (\<lambda>st. st\<lparr>State_next := Some ps\<rparr>) p3;
          Some (False, p4\<lparr>cex_states := cex_states p4 @ [s, ps]\<rparr>)
        }
        else do { p2 \<leftarrow> new_frame e p1; Some (True, p2) }
      })"

text \<open>A counterexample is reported, under the lock, unless another thread was first.\<close>

definition report_cex :: "env \<Rightarrow> PDR \<Rightarrow> PDR option" where
  "report_cex e p = do {
     let (r, p1) = read_RESULT e p;
     if r = 0 then show_witness (p1\<lparr>RESULT := 10\<rparr>) else Some p1
   }"

definition open_top :: "PDR \<Rightarrow> PDR" where
  "open_top p = p\<lparr>top_frame_cannot_reach_bad := True, earliest_strengthened_frame := depth p\<rparr>"

definition restart_frames :: "env \<Rightarrow> PDR \<Rightarrow> PDR option" where
  "restart_frames e p = do {
     p1 \<leftarrow> new_frame e (p\<lparr>frames := []\<rparr>);
     f \<leftarrow> vec_at (frames p1) 0;
     p2 \<leftarrow> new_frame e (set_solver 0 (encode_init_condition (aiger p1) (solver f)) p1);
     p3 \<leftarrow> new_frame e p2;
     if depth p3 \<noteq> 1 then None else restart_heuristic (open_top p3)
   }"

datatype loop_exit = Continue | Return int | Break int

definition check_step :: "env \<Rightarrow> PDR \<Rightarrow> (loop_exit \<times> PDR) option" where
  "check_step e p = do {
     let (r, p0) = read_RESULT e p;
     if r \<noteq> 0 then Some (Return 0, p0)
     else do {
       p1 \<leftarrow> (if restart \<and> restart_depth p0 < depth p0 then restart_frames e p0 else Some p0);
       let (s, p2) = new_State [] [] p1;
       (flag, p3) \<leftarrow> get_pre_of_bad e s p2;
       if flag then do {
         let p4 = insert_obligation (Obligation_new s (depth p3 - 1) 1 (thread_index p3))
               (p3\<lparr>obligation_queue := [], top_frame_cannot_reach_bad := False\<rparr>);
         (ok, p5) \<leftarrow> rec_block_cube e p4;
         if ok then Some (Continue, fold delete_State (states p5) p5)
         else do { p6 \<leftarrow> report_cex e p5; Some (Break 10, p6) }
       }
       else if obligation_queue p3 \<noteq> [] then None
       else do {
         (ok, p4) \<leftarrow> propagate e p3;
         if ok then Some (Break 20, p4\<lparr>RESULT := 20\<rparr>)
         else do { p5 \<leftarrow> new_frame e p4; Some (Continue, open_top p5) }
       }
     }
   }"

partial_function (option) check_loop :: "env \<Rightarrow> PDR \<Rightarrow> (int \<times> PDR) option" where
  "check_loop e p = do {
     (x, p1) \<leftarrow> check_step e p;
     case x of
       Continue \<Rightarrow> check_loop e p1
     | Return r \<Rightarrow> Some (r, p1)
     | Break r \<Rightarrow> Some (r, p1\<lparr>frames := []\<rparr>)
   }"

declare check_loop.simps [code]

definition check :: "env \<Rightarrow> PDR \<Rightarrow> (int \<times> PDR) option" where
  "check e p = do {
     p0 \<leftarrow> initialize p;
     (ok0, p1) \<leftarrow> check_BMC0 e p0;
     if \<not> ok0 then do { q \<leftarrow> report_cex e p1; Some (10, q) }
     else do {
       (ok1, p2) \<leftarrow> check_BMC1 e p1;
       if \<not> ok1 then do { q \<leftarrow> report_cex e p2; Some (10, q) }
       else do {
         p3 \<leftarrow> new_frame e p2;
         if depth p3 \<noteq> 1 then None else check_loop e (open_top p3)
       }
     }
   }"

end
