(* ===== verification/PDR_Query.thy ===== *)
theory PDR_Query
  imports PDR_Core
begin

text \<open>
  What the solver calls of \<^verbatim>\<open>src/PDR.cpp\<close> establish. A solver that answers queries guarded by
  activation variables holds three kinds of clauses: its base formula, clauses switched
  off by an activation variable above the bound N of the formula's variables, and
  clauses that weaken the negation of a blocked cube. Every solution of the base formula
  that avoids the blocked cubes extends to the whole solver, with any one activation
  variable switched on.
\<close>

section \<open>Solvers with activation variables\<close>

definition base_ok :: "int \<Rightarrow> cnf \<Rightarrow> bool" where
  "base_ok N B = (0 \<le> N \<and> nonzero B \<and> lits_le N B)"

definition cube_le :: "int \<Rightarrow> int list \<Rightarrow> bool" where
  "cube_le N q = (\<forall>l\<in>set q. l \<noteq> 0 \<and> \<bar>l\<bar> \<le> N)"

definition avoids :: "assignment \<Rightarrow> Cube set \<Rightarrow> bool" where
  "avoids \<alpha> Q = (\<forall>q\<in>Q. \<not> cube_true \<alpha> q)"

definition guarded :: "cnf \<Rightarrow> int \<Rightarrow> Cube set \<Rightarrow> clause \<Rightarrow> bool" where
  "guarded B N Q c = ((\<forall>l\<in>set c. l \<le> N)
     \<and> (c \<in> set B \<or> (\<exists>v>N. - v \<in> set c) \<or> (\<exists>q\<in>Q. uminus ` set q \<subseteq> set c)))"

definition solver_ok :: "cnf \<Rightarrow> int \<Rightarrow> Cube set \<Rightarrow> CaDiCaL \<Rightarrow> bool" where
  "solver_ok B N Q s = (pending s = [] \<and> assumed s = [] \<and> nonzero (clauses s)
     \<and> N \<le> nv s \<and> nv s \<le> emax s \<and> lits_le (nv s) (clauses s)
     \<and> set B \<subseteq> set (clauses s) \<and> (\<forall>c\<in>set (clauses s). guarded B N Q c))"

lemma guarded_mono:
  assumes "guarded B N Q c" and "\<And>q. q \<in> Q \<Longrightarrow> \<exists>q'\<in>Q'. set q' \<subseteq> set q"
  shows "guarded B N Q' c"
proof -
  have "\<exists>q'\<in>Q'. uminus ` set q' \<subseteq> set c" if "q \<in> Q" "uminus ` set q \<subseteq> set c" for q
    using assms(2) [OF that(1)] that(2) by blast
  then show ?thesis using assms(1) by (auto simp: guarded_def)
qed

lemma solver_ok_mono:
  assumes "solver_ok B N Q s" and "\<And>q. q \<in> Q \<Longrightarrow> \<exists>q'\<in>Q'. set q' \<subseteq> set q"
  shows "solver_ok B N Q' s"
proof -
  have "guarded B N Q' c" if "guarded B N Q c" for c
    by (rule guarded_mono [OF that]) (rule assms(2))
  then show ?thesis using assms(1) by (simp add: solver_ok_def)
qed

lemma sat_clause_le_cong:
  assumes "\<forall>l\<in>set c. \<bar>l\<bar> \<le> N" and "\<And>v. 0 \<le> v \<Longrightarrow> v \<le> N \<Longrightarrow> \<beta> v = \<alpha> v"
  shows "sat_clause \<beta> c = sat_clause \<alpha> c"
proof -
  have "lit_val \<beta> l = lit_val \<alpha> l" if "l \<in> set c" for l
    using assms that by (intro lit_val_cong) auto
  then show ?thesis by (auto simp: sat_clause_set)
qed

lemma cube_true_le_cong:
  assumes "\<forall>l\<in>set q. \<bar>l\<bar> \<le> N" and "\<And>v. 0 \<le> v \<Longrightarrow> v \<le> N \<Longrightarrow> \<beta> v = \<alpha> v"
  shows "cube_true \<beta> q = cube_true \<alpha> q"
proof -
  have "lit_val \<beta> l = lit_val \<alpha> l" if "l \<in> set q" for l
    using assms that by (intro lit_val_cong) auto
  then show ?thesis by (auto simp: cube_true_set)
qed

lemma guarded_extend:
  assumes s: "solver_ok B N Q s" and B: "base_ok N B" "sat_cnf \<alpha> B"
    and Q: "avoids \<alpha> Q" "\<forall>q\<in>Q. cube_le N q"
    and low: "\<And>v. 0 \<le> v \<Longrightarrow> v \<le> N \<Longrightarrow> \<beta> v = \<alpha> v"
    and high: "\<And>v. N < v \<Longrightarrow> v \<le> nv s \<Longrightarrow> \<not> \<beta> v"
  shows "sat_cnf \<beta> (clauses s)"
proof (unfold sat_cnf_set, rule ballI)
  fix c
  assume c: "c \<in> set (clauses s)"
  have N0: "0 \<le> N" using B(1) by (simp add: base_ok_def)
  consider "c \<in> set B" | v where "N < v" "- v \<in> set c" | q where "q \<in> Q" "uminus ` set q \<subseteq> set c"
    using s c by (auto simp: solver_ok_def guarded_def)
  then show "sat_clause \<beta> c"
  proof cases
    case 1
    then have "sat_clause \<alpha> c" using B(2) by (simp add: sat_cnf_set)
    moreover have "\<forall>l\<in>set c. \<bar>l\<bar> \<le> N" using 1 B(1) by (simp add: base_ok_def lits_le_def)
    ultimately show ?thesis using sat_clause_le_cong low by blast
  next
    case 2
    have "lits_le (nv s) (clauses s)" using s by (simp add: solver_ok_def)
    then have "\<bar>- v\<bar> \<le> nv s" using c 2(2) unfolding lits_le_def by blast
    then have "lit_val \<beta> (- v)" using 2 N0 high [of v] by (simp add: lit_val_def)
    then show ?thesis using 2 by (auto simp: sat_clause_set)
  next
    case 3
    have "\<forall>l\<in>set q. \<bar>l\<bar> \<le> N" "0 \<notin> set q" using Q(2) 3(1) by (auto simp: cube_le_def)
    moreover have "\<not> cube_true \<alpha> q" using Q(1) 3(1) by (simp add: avoids_def)
    ultimately have "\<not> cube_true \<beta> q" using cube_true_le_cong [of q N \<beta> \<alpha>] low by blast
    then have "sat_clause \<beta> (map uminus q)"
      using sat_clause_negated_cube [OF \<open>0 \<notin> set q\<close>] by blast
    then show ?thesis using 3(2) by (auto simp: sat_clause_set)
  qed
qed

section \<open>Guarded queries\<close>

definition query :: "env \<Rightarrow> clause \<Rightarrow> int list \<Rightarrow> CaDiCaL \<Rightarrow> int \<times> CaDiCaL" where
  "query e c ps s =
     CaDiCaL_solve e (assumes_all ((nv s + 1) # ps) (add_clause (- (nv s + 1) # c) s))"

lemma add_guard:
  assumes s: "solver_ok B N Q s" and N: "0 \<le> N" and c: "cube_le N c" and act: "nv s + 1 = act"
  defines "t \<equiv> add_clause (- act # c) s"
  shows "clauses t = clauses s @ [- act # c]" "nv t = act" "solver_ok B N Q t" "answer t = answer s"
proof -
  have nv: "N < act" "0 < act" "0 \<le> nv s" "pending s = []" "nv s < act"
    using s N act by (auto simp: solver_ok_def)
  have z: "0 \<notin> set (- act # c)" using c nv by (auto simp: cube_le_def)
  have mx: "max (nv s) \<bar>- act\<bar> = act" using nv by simp
  have "lit_bound c act = act" using c nv by (intro lit_bound_idem) (auto simp: cube_le_def)
  then have b: "lit_bound (- act # c) (nv s) = act" using mx by (simp add: lit_bound_def)
  have t: "t = s\<lparr>clauses := clauses s @ [- act # c], pending := [],
      emax := lit_bound (- act # c) (emax s), nv := act\<rparr>"
    unfolding t_def add_clause_eq [OF z nv(3)] b using nv by simp
  have eb: "act \<le> lit_bound (- act # c) (emax s)"
    using lit_bound_mem [of "- act" "- act # c" "emax s"] nv by simp
  show "clauses t = clauses s @ [- act # c]" "nv t = act" "answer t = answer s"
    by (simp_all add: t)
  have "guarded B N Q (- act # c)"
    using c nv N by (auto simp: guarded_def cube_le_def intro: exI [of _ act])
  moreover have "lits_le act (clauses s)"
    using s lits_le_mono nv by (auto simp: solver_ok_def)
  moreover have "lits_le act [- act # c]" using c nv by (auto simp: lits_le_def cube_le_def)
  ultimately show "solver_ok B N Q t"
    using s z eb nv by (auto simp: solver_ok_def t)
qed

lemma query_ok:
  assumes e: "ipasir_contract e" and s: "solver_ok B N Q s" and B: "base_ok N B"
    and c: "cube_le N c" and ps: "0 \<notin> set ps" and q: "query e c ps s = (r, s')"
  shows "solver_ok B N Q s'" "nv s < nv s'"
    "r = SAT \<Longrightarrow> \<exists>\<alpha>. answer s' = Sat \<alpha> \<and> sat_cnf \<alpha> B \<and> sat_clause \<alpha> c \<and> cube_true \<alpha> ps"
    "r = UNSAT \<Longrightarrow> cube_le N ps \<Longrightarrow> \<forall>q\<in>Q. cube_le N q \<Longrightarrow> sat_cnf \<alpha> B \<Longrightarrow> avoids \<alpha> Q \<Longrightarrow>
       sat_clause \<alpha> c \<Longrightarrow> \<not> cube_true \<alpha> (filter (\<lambda>l. CaDiCaL_failed l s') ps)"
proof -
  obtain act where act: "nv s + 1 = act" by simp
  let ?t = "add_clause (- act # c) s"
  let ?u = "assumes_all (act # ps) ?t"
  have N: "0 \<le> N" "N \<le> nv s" using B s by (auto simp: base_ok_def solver_ok_def)
  note t = add_guard [OF s N(1) c act]
  have u: "?u = ?t\<lparr>assumed := act # ps, emax := lit_bound (act # ps) (emax ?t)\<rparr>"
    using t(3) by (simp add: assumes_all_eq solver_ok_def)
  have uc: "nonzero (clauses ?u)" "0 \<notin> set (assumed ?u)"
    using t(3) ps N act by (auto simp: u solver_ok_def)
  have q': "CaDiCaL_solve e ?u = (r, s')" using q unfolding query_def act .
  have "nv s' = act" using solve_state [OF q'] t by (simp add: u)
  then show "nv s < nv s'" using act by simp
  show "solver_ok B N Q s'"
    using t(3) lit_bound_ge [of "emax ?t" "act # ps"] solve_state [OF q'] u
    by (auto simp: solver_ok_def)
  show "\<exists>\<alpha>. answer s' = Sat \<alpha> \<and> sat_cnf \<alpha> B \<and> sat_clause \<alpha> c \<and> cube_true \<alpha> ps" if sat: "r = SAT"
  proof -
    obtain \<alpha> where \<alpha>: "answer s' = Sat \<alpha>" "sat_cnf \<alpha> (clauses ?u)" "cube_true \<alpha> (assumed ?u)"
      using solve_Sat [OF e uc q' sat] by blast
    have cl: "sat_cnf \<alpha> (clauses s)" "sat_clause \<alpha> (- act # c)" "lit_val \<alpha> act" "cube_true \<alpha> ps"
      using \<alpha>(2,3) t(1) by (auto simp: u sat_simps cube_true_set)
    have "sat_cnf \<alpha> B" using cl(1) s by (auto simp: solver_ok_def sat_cnf_set)
    moreover have "sat_clause \<alpha> c" using cl(2,3) N act by (auto simp: sat_clause_Cons lit_val_def)
    ultimately show ?thesis using \<alpha>(1) cl(4) by blast
  qed
  show "\<not> cube_true \<alpha> (filter (\<lambda>l. CaDiCaL_failed l s') ps)"
    if us: "r = UNSAT" "cube_le N ps" "\<forall>q\<in>Q. cube_le N q" "sat_cnf \<alpha> B" "avoids \<alpha> Q" "sat_clause \<alpha> c"
  proof
    assume true: "cube_true \<alpha> (filter (\<lambda>l. CaDiCaL_failed l s') ps)"
    obtain core where core: "answer s' = Unsat core" "set core \<subseteq> set (assumed ?u)"
      "\<And>\<beta>. sat_cnf \<beta> (clauses ?u) \<Longrightarrow> cube_true \<beta> core \<Longrightarrow> False"
      using solve_Unsat [OF e uc q' us(1)] by blast
    define \<beta> where "\<beta> = (\<lambda>v. if v \<le> N then \<alpha> v else v = act)"
    have low: "\<beta> v = \<alpha> v" if "0 \<le> v" "v \<le> N" for v using that by (simp add: \<beta>_def)
    have "sat_cnf \<beta> (clauses s)"
      using guarded_extend [OF s B us(4,5,3) low] N act by (auto simp: \<beta>_def)
    moreover have "sat_clause \<beta> c"
      using sat_clause_le_cong [of c N \<beta> \<alpha>] low c us(6) by (auto simp: cube_le_def)
    ultimately have 1: "sat_cnf \<beta> (clauses ?u)" using t(1) by (simp add: u sat_simps)
    have "lit_val \<beta> l" if l: "l \<in> set core" for l
    proof (cases "l = act")
      case True
      then show ?thesis using N act by (simp add: \<beta>_def lit_val_def)
    next
      case False
      then have "l \<in> set ps" "CaDiCaL_failed l s'"
        using l core(1,2) by (auto simp: u CaDiCaL_failed_def)
      then have "lit_val \<alpha> l" "\<bar>l\<bar> \<le> N" using true us(2) by (auto simp: cube_true_set cube_le_def)
      then show ?thesis using lit_val_cong [of \<beta> l \<alpha>] low by simp
    qed
    then show False using core(3) [OF 1] by (simp add: cube_true_set)
  qed
qed

end
