(* ===== verification/PDR_Inv.thy ===== *)
theory PDR_Inv
  imports PDR_Query
begin

text \<open>
  The invariant of the PDR object and that every query and update of \<^verbatim>\<open>src/PDR.cpp\<close> keeps it.
  Frame j stands for the states that avoid all cubes blocked at level j or above (frame 0
  for the initial states). Each blocked cube excludes no initial state and cannot be
  entered by a step from the frame below; each frame solver holds the step formula and
  weakenings of the frame's cubes.
\<close>

section \<open>Frames as sets of states\<close>

definition latch_cube :: "Aiger \<Rightarrow> int list \<Rightarrow> bool" where
  "latch_cube A q = (\<forall>l\<in>set q. is_latch A \<bar>l\<bar>)"

definition blocked :: "Frame list \<Rightarrow> nat \<Rightarrow> Cube set" where
  "blocked fs j = (\<Union>i\<in>{j..<length fs}. set (cubes (fs ! i)))"

definition in_frame :: "Aiger \<Rightarrow> Frame list \<Rightarrow> nat \<Rightarrow> assignment \<Rightarrow> bool" where
  "in_frame A fs j \<sigma> = (if j = 0 then init_ok A \<sigma> else avoids \<sigma> (blocked fs j))"

definition init_disjoint :: "Aiger \<Rightarrow> int list \<Rightarrow> bool" where
  "init_disjoint A q = (\<forall>\<sigma>. valid A \<sigma> \<longrightarrow> init_ok A \<sigma> \<longrightarrow> \<not> cube_true \<sigma> q)"

text \<open>A step between two states that meet the constraints, from a state that is not bad.\<close>

definition vstep :: "Aiger \<Rightarrow> assignment \<Rightarrow> assignment \<Rightarrow> bool" where
  "vstep A \<sigma> \<sigma>' = (tstep A True \<sigma> \<sigma>' \<and> constr_ok A \<sigma>')"

definition excluded :: "Aiger \<Rightarrow> (assignment \<Rightarrow> bool) \<Rightarrow> int list \<Rightarrow> bool" where
  "excluded A R q = (\<forall>\<sigma> \<sigma>'. R \<sigma> \<longrightarrow> vstep A \<sigma> \<sigma>' \<longrightarrow> \<not> cube_true \<sigma>' q)"

lemma vstep_valid: "vstep A \<sigma> \<sigma>' \<Longrightarrow> valid A \<sigma> \<and> valid A \<sigma>'"
  by (auto simp: vstep_def tstep_def valid_def)

lemma excluded_mono: "excluded A R q \<Longrightarrow> (\<And>\<sigma>. R' \<sigma> \<Longrightarrow> R \<sigma>) \<Longrightarrow> set q \<subseteq> set q' \<Longrightarrow> excluded A R' q'"
  using cube_true_mono [of q q'] unfolding excluded_def by blast

lemma init_disjoint_mono: "init_disjoint A q \<Longrightarrow> set q \<subseteq> set q' \<Longrightarrow> init_disjoint A q'"
  using cube_true_mono [of q q'] unfolding init_disjoint_def by blast

lemma latch_cube_mono: "latch_cube A q \<Longrightarrow> set q' \<subseteq> set q \<Longrightarrow> latch_cube A q'"
  by (auto simp: latch_cube_def)

section \<open>The formulas of the frame solvers\<close>

definition leaves_le :: "Aiger \<Rightarrow> int \<Rightarrow> bool" where
  "leaves_le A N = (primed_first_dimacs A + num_inputs A + num_latches A \<le> N + 1)"

text \<open>The formula of one step that \<^verbatim>\<open>encode_translation\<close> adds.\<close>

definition step_cnf :: "Aiger \<Rightarrow> int \<Rightarrow> cnf \<Rightarrow> bool" where
  "step_cnf A N G = (base_ok N G \<and> leaves_le A N \<and> int (length (variables A)) \<le> N + 1
     \<and> enc_complete A True G \<and> ((\<exists>\<sigma> \<sigma>'. tstep A True \<sigma> \<sigma>') \<longrightarrow> enc_sound A True G))"

definition frame_cnf :: "Aiger \<Rightarrow> cnf \<Rightarrow> nat \<Rightarrow> cnf" where
  "frame_cnf A G j = G @ map (\<lambda>l. [l]) (constraints_prime A) @ (if j = 0 then init_cnf A else [])"

lemma enc_invD:
  assumes "enc_inv A"
  shows "prime_inv A" "wf_aig A" "constraints_prime A = map (plit A) (constraints A)"
    "bad_prime A = plit A (bad A)"
  using assms by (auto simp: enc_inv_def prime_inv_def)

lemma latch_lit:
  assumes "enc_inv A" and "leaves_le A N" and "is_latch A \<bar>l\<bar>"
  shows "l \<noteq> 0" "\<bar>l\<bar> \<le> N" "plit A l \<noteq> 0" "\<bar>plit A l\<bar> \<le> N" "has_prime A \<bar>l\<bar>"
    "plit A l = (if 0 < l then l + (primed_first_dimacs A - 2) else l - (primed_first_dimacs A - 2))"
proof -
  note wf = enc_invD(2) [OF assms(1)]
  have leaf: "is_leaf A \<bar>l\<bar>" using latch_is_leaf [OF assms(3) wf] .
  have l: "l \<noteq> 0" "\<bar>l\<bar> < first_and A" "2 \<le> \<bar>l\<bar>" using leaf by (auto simp: is_leaf_def)
  have pf: "first_and A \<le> primed_first_dimacs A" using wf_aigD(6) [OF wf] by simp
  show p: "plit A l = (if 0 < l then l + (primed_first_dimacs A - 2)
      else l - (primed_first_dimacs A - 2))"
    using primed_leaf [OF leaf] l by (auto simp: plit_def)
  show "l \<noteq> 0" "\<bar>l\<bar> \<le> N" "plit A l \<noteq> 0" "\<bar>plit A l\<bar> \<le> N"
    using l pf assms(2) p wf_aigD(1,2) [OF wf] by (auto simp: leaves_le_def)
  show "has_prime A \<bar>l\<bar>" by (rule latch_has_prime [OF enc_invD(1) [OF assms(1)] assms(3)])
qed

lemma latch_cube_le:
  assumes "enc_inv A" "leaves_le A N" "latch_cube A q"
  shows "cube_le N q" "cube_le N (map (plit A) q)" "cube_le N (map uminus q)"
    "cube_le N (map uminus (map (plit A) q))"
  using latch_lit(1-4) [OF assms(1,2)] assms(3) unfolding cube_le_def latch_cube_def by auto

lemma frame_cnf_ok:
  assumes A: "enc_inv A" and G: "step_cnf A N G"
  shows "base_ok N (frame_cnf A G j)"
proof -
  note wf = enc_invD(2) [OF A]
  have "plit A c \<noteq> 0 \<and> \<bar>plit A c\<bar> \<le> N" if "c \<in> set (constraints A)" for c
  proof -
    have "has_prime A \<bar>c\<bar>" using A that by (auto simp: enc_inv_def)
    from lit_val_plit(2,3) [OF enc_invD(1) [OF A] this]
    show ?thesis using G unfolding step_cnf_def by linarith
  qed
  moreover have "lits_le N (init_cnf A)"
    using init_cnf_lits(2) [OF wf] lits_le_mono G wf_aigD(1,2) [OF wf]
    by (auto simp: step_cnf_def leaves_le_def)
  ultimately show ?thesis
    using G init_cnf_lits(1) [OF wf] enc_invD(3) [OF A]
    by (auto simp: base_ok_def frame_cnf_def step_cnf_def nonzero_def lits_le_def)
qed


lemma agrees_cube:
  assumes A: "enc_inv A" and ag: "agrees A \<alpha> \<sigma> \<sigma>'" and q: "latch_cube A q"
  shows "cube_true \<alpha> q = cube_true \<sigma> q" "cube_true \<alpha> (map (plit A) q) = cube_true \<sigma>' q"
proof -
  have leaf: "is_leaf A \<bar>l\<bar>" if "l \<in> set q" for l
    using q that latch_is_leaf [OF _ enc_invD(2) [OF A]] by (simp add: latch_cube_def)
  have "lit_val \<alpha> l = lit_val \<sigma> l" if "l \<in> set q" for l
    using leaf [OF that] ag by (intro lit_val_cong) (simp add: agrees_def)
  then show "cube_true \<alpha> q = cube_true \<sigma> q" by (simp add: cube_true_set)
  have "lit_val \<alpha> (plit A l) = lit_val \<sigma>' l" if "l \<in> set q" for l
  proof -
    have "lit_val \<alpha> (plit A l) = lit_val (\<lambda>v. \<alpha> (primed A v)) l"
      using lit_val_plit(1) [OF enc_invD(1) [OF A] leaf_has_prime [OF enc_invD(1) [OF A] leaf [OF that]]] .
    also have "\<dots> = lit_val \<sigma>' l"
      using leaf [OF that] ag by (intro lit_val_cong) (simp add: agrees_def)
    finally show ?thesis .
  qed
  then show "cube_true \<alpha> (map (plit A) q) = cube_true \<sigma>' q" by (simp add: cube_true_set)
qed

lemma constraints_prime_agree:
  assumes A: "enc_inv A" and ag: "agrees A \<alpha> \<sigma> \<sigma>'"
  shows "sat_cnf \<alpha> (map (\<lambda>l. [l]) (constraints_prime A)) = constr_ok A \<sigma>'"
    "cube_true \<alpha> (constraints_prime A) = constr_ok A \<sigma>'"
    "cube_true \<alpha> (constraints A) = constr_ok A \<sigma>"
proof -
  have c: "lit_val \<alpha> c = lit_val \<sigma> c" "lit_val \<alpha> (plit A c) = lit_val \<sigma>' c"
    if "c \<in> set (constraints A)" for c
    using ag that by (simp_all add: agrees_def)
  show "sat_cnf \<alpha> (map (\<lambda>l. [l]) (constraints_prime A)) = constr_ok A \<sigma>'"
    "cube_true \<alpha> (constraints_prime A) = constr_ok A \<sigma>'"
    unfolding sat_unit_list enc_invD(3) [OF A] using c(2) by (simp_all add: cube_true_set constr_ok_def)
  show "cube_true \<alpha> (constraints A) = constr_ok A \<sigma>"
    using c(1) by (simp add: cube_true_set constr_ok_def)
qed

text \<open>Every step from a state of frame j is a model of frame j's formula.\<close>

lemma frame_model:
  assumes A: "enc_inv A" and G: "step_cnf A N G" and st: "vstep A \<sigma> \<sigma>'"
    and init: "j = 0 \<Longrightarrow> init_ok A \<sigma>"
  obtains \<alpha> where "sat_cnf \<alpha> (frame_cnf A G j)" "agrees A \<alpha> \<sigma> \<sigma>'"
proof -
  obtain \<alpha> where \<alpha>: "sat_cnf \<alpha> G" "agrees A \<alpha> \<sigma> \<sigma>'" "\<forall>v<primed_first_dimacs A. \<alpha> v = \<sigma> v"
    using G st unfolding step_cnf_def enc_complete_def vstep_def by blast
  have "sat_cnf \<alpha> (init_cnf A)" if "j = 0"
    using init_cnf_complete [OF enc_invD(2) [OF A], of \<sigma> \<alpha>] vstep_valid [OF st] init [OF that] \<alpha>(3)
    by simp
  then have "sat_cnf \<alpha> (frame_cnf A G j)"
    using \<alpha>(1) constraints_prime_agree(1) [OF A \<alpha>(2)] st
    by (simp add: frame_cnf_def sat_simps vstep_def)
  then show thesis using that \<alpha>(2) by blast
qed

text \<open>
  Conversely a model of frame 0's formula is a step from an initial state, provided no
  initial state is bad: then the formula of one step is satisfiable.
\<close>

definition init_good :: "Aiger \<Rightarrow> bool" where
  "init_good A = (\<forall>\<sigma>. valid A \<sigma> \<longrightarrow> init_ok A \<sigma> \<longrightarrow> \<not> lit_val \<sigma> (bad A))"

definition next_latches :: "Aiger \<Rightarrow> assignment \<Rightarrow> assignment \<Rightarrow> assignment" where
  "next_latches A \<sigma> \<tau> = completed A (\<lambda>v.
     if is_latch A v then lit_val \<sigma> (nexts A ! nat (v - num_inputs A - 2)) else \<tau> v)"

lemma next_latches_ok:
  assumes "wf_aig A"
  shows "next_ok A \<sigma> (next_latches A \<sigma> \<tau>)" "gates_ok A (next_latches A \<sigma> \<tau>)"
    "is_leaf A v \<Longrightarrow> \<not> is_latch A v \<Longrightarrow> next_latches A \<sigma> \<tau> v = \<tau> v"
proof -
  show "gates_ok A (next_latches A \<sigma> \<tau>)"
    by (simp add: next_latches_def complete_gates_ok [OF assms])
  show "is_leaf A v \<Longrightarrow> \<not> is_latch A v \<Longrightarrow> next_latches A \<sigma> \<tau> v = \<tau> v"
    by (simp add: next_latches_def complete_leaf [OF assms])
  show "next_ok A \<sigma> (next_latches A \<sigma> \<tau>)"
    unfolding next_ok_def
  proof (intro allI impI)
    fix i
    assume "i < length (nexts A)"
    then have l: "is_latch A (latch_var A i)" using is_latch_iff [OF assms] by auto
    have "nat (latch_var A i - num_inputs A - 2) = i" by simp
    then show "next_latches A \<sigma> \<tau> (latch_var A i) = lit_val \<sigma> (nexts A ! i)"
      using l latch_is_leaf [OF l assms] by (simp add: next_latches_def complete_leaf [OF assms])
  qed
qed

lemma frame_0_sound:
  assumes A: "enc_inv A" and G: "step_cnf A N G" and good: "init_good A"
    and sat: "sat_cnf \<alpha> (frame_cnf A G 0)"
  obtains \<sigma> \<sigma>' where "vstep A \<sigma> \<sigma>'" "init_ok A \<sigma>" "agrees A \<alpha> \<sigma> \<sigma>'"
proof -
  note wf = enc_invD(2) [OF A]
  have s: "sat_cnf \<alpha> G" "sat_cnf \<alpha> (init_cnf A)" "sat_cnf \<alpha> (map (\<lambda>l. [l]) (constraints_prime A))"
    using sat by (auto simp: frame_cnf_def sat_simps)
  let ?\<tau> = "completed A \<alpha>"
  have v: "valid A ?\<tau>" "init_ok A ?\<tau>" using init_cnf_sound [OF wf s(2)] .
  then have "tstep A True ?\<tau> (next_latches A ?\<tau> ?\<tau>)"
    using next_latches_ok [OF wf] good by (simp add: tstep_def valid_def init_good_def)
  then have "enc_sound A True G" using G by (auto simp: step_cnf_def)
  then obtain \<sigma> \<sigma>' where st: "tstep A True \<sigma> \<sigma>'" "agrees A \<alpha> \<sigma> \<sigma>'"
    using s(1) unfolding enc_sound_def by blast
  have "vstep A \<sigma> \<sigma>'" using st s(3) constraints_prime_agree(1) [OF A st(2)] by (simp add: vstep_def)
  moreover have "init_ok A \<sigma> = init_ok A ?\<tau>"
  proof (rule init_ok_agree [OF wf])
    fix v
    assume "is_latch A v"
    then have "is_leaf A v" using latch_is_leaf wf by blast
    then show "\<sigma> v = ?\<tau> v" using st(2) complete_leaf [OF wf] by (simp add: agrees_def)
  qed
  ultimately show thesis using that st(2) v(2) by blast
qed


section \<open>The invariant\<close>

definition cube_ok :: "Aiger \<Rightarrow> Frame list \<Rightarrow> nat \<Rightarrow> Cube \<Rightarrow> bool" where
  "cube_ok A fs j q = (latch_cube A q \<and> init_disjoint A q \<and> excluded A (in_frame A fs (j - 1)) q)"

definition frame_ok :: "Aiger \<Rightarrow> int \<Rightarrow> cnf \<Rightarrow> Frame list \<Rightarrow> nat \<Rightarrow> bool" where
  "frame_ok A N G fs j =
     (solver_ok (frame_cnf A G j) N (if j = 0 then {} else blocked fs j) (solver (fs ! j))
      \<and> (\<forall>q\<in>set (cubes (fs ! j)). cube_ok A fs j q) \<and> (j = 0 \<longrightarrow> cubes (fs ! j) = []))"

definition frames_ok :: "Aiger \<Rightarrow> int \<Rightarrow> cnf \<Rightarrow> Frame list \<Rightarrow> bool" where
  "frames_ok A N G fs = (\<forall>j<length fs. frame_ok A N G fs j)"

definition encodes :: "cnf \<Rightarrow> PDR \<Rightarrow> bool" where
  "encodes G p = (\<exists>m G0. satelite p = Some m \<and> nonzero G0
     \<and> (\<forall>s. adds (simplified_cnf m) s = add_cnf G0 s)
     \<and> G = G0 @ (if satelite_unsat p then [[1]] else []))"

definition init_solver_ok :: "Aiger \<Rightarrow> CaDiCaL \<Rightarrow> bool" where
  "init_solver_ok A s = (clauses s = init_cnf A \<and> pending s = [] \<and> assumed s = [])"

definition lift_cnf :: "Aiger \<Rightarrow> int \<Rightarrow> cnf \<Rightarrow> bool" where
  "lift_cnf A N G = (base_ok N G \<and> leaves_le A N \<and> int (length (variables A)) \<le> N + 1
     \<and> enc_complete A False G)"

definition lift_solver_ok :: "Aiger \<Rightarrow> CaDiCaL \<Rightarrow> bool" where
  "lift_solver_ok A s =
     (\<exists>N G. lift_cnf A N G \<and> solver_ok G N {} s \<and> (clear_flag s \<longrightarrow> N < nv s))"

definition pdr_inv :: "Aiger \<Rightarrow> int \<Rightarrow> cnf \<Rightarrow> PDR \<Rightarrow> bool" where
  "pdr_inv A N G p = (enc_inv A \<and> step_cnf A N G \<and> grow A (aiger p) \<and> encodes G p
     \<and> frames_ok A N G (frames p)
     \<and> (\<forall>s. init p = Some s \<longrightarrow> init_solver_ok A s)
     \<and> (\<forall>s. lift p = Some s \<longrightarrow> lift_solver_ok A s) \<and> (lift p = None \<longrightarrow> satelite2 p = None)
     \<and> (\<forall>x. heap p x \<noteq> None \<longrightarrow> x \<le> state_count p))"

lemma pdr_invD:
  assumes "pdr_inv A N G p"
  shows "enc_inv A" "step_cnf A N G" "grow A (aiger p)" "encodes G p" "frames_ok A N G (frames p)"
    "leaves_le A N" "wf_aig A"
  using assms enc_invD(2) by (auto simp: pdr_inv_def step_cnf_def)

lemma grow_circ:
  assumes "pdr_inv A N G p"
  shows "num_inputs (aiger p) = num_inputs A" "num_latches (aiger p) = num_latches A"
    "ands (aiger p) = ands A" "nexts (aiger p) = nexts A" "init_state (aiger p) = init_state A"
    "constraints (aiger p) = constraints A" "bad (aiger p) = bad A"
    "primed_first_dimacs (aiger p) = primed_first_dimacs A"
    "bad_prime (aiger p) = bad_prime A" "constraints_prime (aiger p) = constraints_prime A"
    "init_cnf (aiger p) = init_cnf A"
  using circD [OF growD(1) [OF pdr_invD(3) [OF assms]]] growD(3,4) [OF pdr_invD(3) [OF assms]]
  by (simp_all add: init_cnf_def)

lemma prime_lits_ok:
  assumes "enc_inv A" "grow A a" "\<forall>l\<in>set ls. is_latch A \<bar>l\<bar>"
  shows "prime_lits ls a = Some (map (plit A) ls, a)"
  using assms(3)
proof (induction ls)
  case Nil
  then show ?case by simp
next
  case (Cons l ls)
  have h: "has_prime A \<bar>l\<bar>" using latch_has_prime [OF enc_invD(1) [OF assms(1)]] Cons.prems by simp
  have "prime_lit l a = Some (plit a l, a)"
    using prime_lit_has [OF growD(2) [OF assms(2)]] grow_has_prime(1) [OF assms(2) h] by simp
  then show ?case using Cons grow_plit [OF assms(2) h] by simp
qed

lemma is_init_ok:
  assumes e: "ipasir_contract e" and inv: "pdr_inv A N G p" and ls: "latch_cube A ls"
    and r: "is_init e ls p = Some (b, p')"
  obtains s where "p' = p\<lparr>init := Some s\<rparr>" "pdr_inv A N G p'" "b = (\<not> init_disjoint A ls)"
proof -
  note wf = pdr_invD(7) [OF inv]
  define s0 where "s0 = (case init p of Some s \<Rightarrow> s
    | None \<Rightarrow> encode_init_condition (aiger p) CaDiCaL_new)"
  have "init_solver_ok A (encode_init_condition (aiger p) CaDiCaL_new)"
    using init_cnf_lits(1) [OF wf] add_cnf_eq [of "init_cnf A" CaDiCaL_new] grow_circ(11) [OF inv]
    by (simp add: encode_init_condition_def init_solver_ok_def CaDiCaL_new_def)
  then have s0: "init_solver_ok A s0" using inv by (auto simp: s0_def pdr_inv_def split: option.splits)
  let ?t = "assumes_all ls s0"
  have t: "clauses ?t = init_cnf A" "assumed ?t = ls" "pending ?t = []"
    using s0 by (simp_all add: assumes_all_eq init_solver_ok_def)
  have tc: "nonzero (clauses ?t)" "0 \<notin> set (assumed ?t)"
    using t init_cnf_lits(1) [OF wf] ls wf_aigD(1) [OF wf] by (auto simp: latch_cube_def is_latch_def)
  obtain res s' where q: "CaDiCaL_solve e ?t = (res, s')" by fastforce
  have r': "res \<noteq> 0" "b = (res = SAT)" "p' = p\<lparr>init := Some s'\<rparr>"
    using r q by (auto simp: is_init_def s0_def Let_def split: if_splits)
  have "init_solver_ok A s'" using solve_state [OF q] t by (simp add: init_solver_ok_def)
  then have inv': "pdr_inv A N G p'" using inv r'(3) by (simp add: pdr_inv_def encodes_def)
  have "\<not> init_disjoint A ls" if sat: "res = SAT"
  proof -
    obtain \<alpha> where \<alpha>: "sat_cnf \<alpha> (init_cnf A)" "cube_true \<alpha> ls"
      using solve_Sat [OF e tc q sat] t by metis
    have "lit_val (completed A \<alpha>) l = lit_val \<alpha> l" if "l \<in> set ls" for l
      using ls that latch_is_leaf [OF _ wf]
      by (intro lit_val_cong complete_leaf [OF wf]) (simp add: latch_cube_def)
    then have "cube_true (completed A \<alpha>) ls" using \<alpha>(2) by (simp add: cube_true_set)
    then show ?thesis using init_cnf_sound [OF wf \<alpha>(1)] by (auto simp: init_disjoint_def)
  qed
  moreover have "init_disjoint A ls" if ns: "res \<noteq> SAT"
  proof (unfold init_disjoint_def, intro allI impI notI)
    fix \<sigma>
    assume v: "valid A \<sigma>" "init_ok A \<sigma>" "cube_true \<sigma> ls"
    have us: "res = UNSAT" using q r'(1) ns
      by (auto simp: CaDiCaL_solve_def UNKNOWN_def Let_def split: answer.splits)
    obtain core where core: "set core \<subseteq> set (assumed ?t)"
      "\<And>\<alpha>. sat_cnf \<alpha> (clauses ?t) \<Longrightarrow> cube_true \<alpha> core \<Longrightarrow> False"
      using solve_Unsat [OF e tc q us] by blast
    have "sat_cnf \<sigma> (clauses ?t)" using init_cnf_complete [OF wf v(1,2)] t by simp
    moreover have "cube_true \<sigma> core" using core(1) v(3) t cube_true_mono by metis
    ultimately show False by (rule core(2))
  qed
  ultimately have "b = (\<not> init_disjoint A ls)" using r'(2) by blast
  then show thesis using that r'(3) inv' by blast
qed

lemma blocked_solver:
  "blocked (fs[j := (fs ! j)\<lparr>solver := s\<rparr>]) = blocked fs"
  "in_frame A (fs[j := (fs ! j)\<lparr>solver := s\<rparr>]) = in_frame A fs"
  "cube_ok A (fs[j := (fs ! j)\<lparr>solver := s\<rparr>]) = cube_ok A fs"
proof -
  have c: "cubes (fs[j := (fs ! j)\<lparr>solver := s\<rparr>] ! i) = cubes (fs ! i)" for i
    by (cases "i = j"; cases "j < length fs") (simp_all add: list_update_beyond)
  show b: "blocked (fs[j := (fs ! j)\<lparr>solver := s\<rparr>]) = blocked fs"
    by (simp add: blocked_def fun_eq_iff c)
  show i: "in_frame A (fs[j := (fs ! j)\<lparr>solver := s\<rparr>]) = in_frame A fs"
    by (simp add: in_frame_def fun_eq_iff b)
  show "cube_ok A (fs[j := (fs ! j)\<lparr>solver := s\<rparr>]) = cube_ok A fs"
    by (simp add: cube_ok_def fun_eq_iff i)
qed

lemma frames_ok_solver:
  assumes "frames_ok A N G fs" and "j < length fs"
    and "solver_ok (frame_cnf A G j) N (if j = 0 then {} else blocked fs j) s"
  shows "frames_ok A N G (fs[j := (fs ! j)\<lparr>solver := s\<rparr>])"
proof (unfold frames_ok_def, intro allI impI)
  fix i
  assume "i < length (fs[j := (fs ! j)\<lparr>solver := s\<rparr>])"
  then have i: "i < length fs" by simp
  then have "frame_ok A N G fs i" using assms(1) by (simp add: frames_ok_def)
  then show "frame_ok A N G (fs[j := (fs ! j)\<lparr>solver := s\<rparr>]) i"
    unfolding frame_ok_def blocked_solver using assms(2,3) by (cases "i = j") auto
qed

section \<open>is\_inductive\<close>

lemma is_inductive_cases:
  assumes inv: "pdr_inv A N G p" and ls: "latch_cube A ls"
    and r: "is_inductive e j ls g ra p = Some (b, p')"
  obtains ps status s2 where "0 \<le> j" "nat j < length (frames p)" "set ps = plit A ` set ls"
    "query e (map uminus ls) ps (solver (frames p ! nat j)) = (status, s2)"
    "status \<noteq> 0" "b = (status = UNSAT)"
    "\<not> (b \<and> g) \<Longrightarrow> p' = set_solver j s2 p"
    "b \<and> g \<Longrightarrow> \<exists>c b0 p2. c = filter (\<lambda>i. CaDiCaL_failed (plit A i) s2) ls
       \<and> is_init e c ((set_solver j s2 p)\<lparr>core := c\<rparr>) = Some (b0, p2)
       \<and> p' = (if b0 then p2\<lparr>core := ls\<rparr> else p2)"
proof -
  have gr: "grow A (aiger p)" and A: "enc_inv A" using pdr_invD [OF inv] by blast+
  have lat: "\<forall>l\<in>set ls. is_latch A \<bar>l\<bar>" using ls by (simp add: latch_cube_def)
  obtain cs where cs: "heuristic_lit_cmp p = Some cs" and j: "0 \<le> j" "nat j < length (frames p)"
    using r by (cases "heuristic_lit_cmp p")
      (auto simp: is_inductive_def vec_at_def Let_def nat_less_iff split: if_splits)
  let ?s = "solver (frames p ! nat j)"
  let ?o = "if ra then rev (stable_sort_by (heuristic_Lit_CMP cs) ls)
     else stable_sort_by (heuristic_Lit_CMP cs) ls"
  have so: "set ?o = set ls" by (simp add: set_stable_sort_by)
  have po: "prime_lits ?o (aiger p) = Some (map (plit A) ?o, aiger p)"
    using prime_lits_ok [OF A gr] lat so by presburger
  have pl: "prime_lits ls (aiger p) = Some (map (plit A) ls, aiger p)"
    using prime_lits_ok [OF A gr lat] .
  obtain st s2 where q: "query e (map uminus ls) (map (plit A) ?o) ?s = (st, s2)" by fastforce
  have fz: "map fst (filter (\<lambda>(i, pi). CaDiCaL_failed pi s2) (zip ls (map (plit A) ls)))
      = filter (\<lambda>i. CaDiCaL_failed (plit A i) s2) ls"
    by (induction ls) auto
  have v: "vec_at (frames p) j = Some (frames p ! nat j)" using j by (simp add: vec_at_def)
  have ai: "p\<lparr>aiger := aiger p\<rparr> = p" by simp
  have r2: "(if st = 0 then None else if st = UNSAT \<and> g then do {
       (b0, p2) \<leftarrow> is_init e (filter (\<lambda>i. CaDiCaL_failed (plit A i) s2) ls)
          ((set_solver j s2 p)\<lparr>core := filter (\<lambda>i. CaDiCaL_failed (plit A i) s2) ls\<rparr>);
       Some (True, if b0 then p2\<lparr>core := ls\<rparr> else p2) }
     else Some (st = UNSAT, set_solver j s2 p)) = Some (b, p')"
    using r q v cs po pl
    by (simp add: is_inductive_def query_def SATSolver_clear_act_def SATSolver_set_clear_act_def
        CaDiCaL_max_var_def Let_def fz set_solver_def if_distrib [of "\<lambda>f. f _"] cong: if_cong)
  show thesis
  proof (rule that [OF j _ q])
    show "set (map (plit A) ?o) = plit A ` set ls" using so by (metis image_set)
    let ?c = "filter (\<lambda>i. CaDiCaL_failed (plit A i) s2) ls"
    show st: "st \<noteq> 0" using r2 by (rule contrapos_pn) simp
    show b: "b = (st = UNSAT)"
      using r2 st by (cases "st = UNSAT \<and> g") (auto simp: bind_eq_Some_conv)
    show "\<not> (b \<and> g) \<Longrightarrow> p' = set_solver j s2 p" using r2 st b by auto
    show "\<exists>c b0 p2. c = ?c \<and> is_init e c ((set_solver j s2 p)\<lparr>core := c\<rparr>) = Some (b0, p2)
       \<and> p' = (if b0 then p2\<lparr>core := ls\<rparr> else p2)" if bg: "b \<and> g"
    proof -
      have "do { (b0, p2) \<leftarrow> is_init e ?c ((set_solver j s2 p)\<lparr>core := ?c\<rparr>);
          Some (True, if b0 then p2\<lparr>core := ls\<rparr> else p2) } = Some (b, p')"
        using r2 st b bg by simp
      then obtain x where x: "is_init e ?c ((set_solver j s2 p)\<lparr>core := ?c\<rparr>) = Some x"
        "p' = (if fst x then (snd x)\<lparr>core := ls\<rparr> else snd x)"
        by (auto simp: bind_eq_Some_conv)
      then show ?thesis by (intro exI [of _ ?c] exI [of _ "fst x"] exI [of _ "snd x"]) simp
    qed
  qed
qed

definition rel_ind :: "Aiger \<Rightarrow> Frame list \<Rightarrow> nat \<Rightarrow> Cube \<Rightarrow> Cube \<Rightarrow> bool" where
  "rel_ind A fs j ls q = (\<forall>\<sigma> \<sigma>'. in_frame A fs j \<sigma> \<longrightarrow> \<not> cube_true \<sigma> ls \<longrightarrow> vstep A \<sigma> \<sigma>' \<longrightarrow>
     \<not> cube_true \<sigma>' q)"

lemma frames_solver:
  "frames_ok A N G fs \<Longrightarrow> j < length fs \<Longrightarrow>
   solver_ok (frame_cnf A G j) N (if j = 0 then {} else blocked fs j) (solver (fs ! j))"
  unfolding frames_ok_def frame_ok_def by blast

lemma frames_latch: "frames_ok A N G fs \<Longrightarrow> q \<in> blocked fs j \<Longrightarrow> latch_cube A q"
  by (auto simp: frames_ok_def frame_ok_def blocked_def cube_ok_def)

lemma avoids_agrees:
  assumes "enc_inv A" "agrees A \<alpha> \<sigma> \<sigma>'" "\<And>q. q \<in> Q \<Longrightarrow> latch_cube A q"
  shows "avoids \<alpha> Q = avoids \<sigma> Q"
  using agrees_cube(1) [OF assms(1,2)] assms(3) by (simp add: avoids_def)

lemma frame_query_unsat:
  assumes e: "ipasir_contract e" and inv: "pdr_inv A N G p" and ls: "latch_cube A ls"
    and j: "j < length (frames p)" and ps: "set ps = plit A ` set ls"
    and q: "query e (map uminus ls) ps (solver (frames p ! j)) = (UNSAT, s2)"
  shows "rel_ind A (frames p) j ls (filter (\<lambda>i. CaDiCaL_failed (plit A i) s2) ls)"
proof (unfold rel_ind_def, intro allI impI notI)
  fix \<sigma> \<sigma>'
  let ?c = "filter (\<lambda>i. CaDiCaL_failed (plit A i) s2) ls"
  let ?Q = "if j = 0 then {} else blocked (frames p) j"
  assume R: "in_frame A (frames p) j \<sigma>" and nl: "\<not> cube_true \<sigma> ls" and st: "vstep A \<sigma> \<sigma>'"
    and c: "cube_true \<sigma>' ?c"
  note A = pdr_invD(1) [OF inv] and G = pdr_invD(2) [OF inv] and fr = pdr_invD(5) [OF inv]
    and lv = pdr_invD(6) [OF inv]
  obtain \<alpha> where \<alpha>: "sat_cnf \<alpha> (frame_cnf A G j)" "agrees A \<alpha> \<sigma> \<sigma>'"
  proof (rule frame_model [OF A G st])
    show "j = 0 \<Longrightarrow> init_ok A \<sigma>" using R by (simp add: in_frame_def)
  qed
  have s: "solver_ok (frame_cnf A G j) N ?Q (solver (frames p ! j))"
    using frames_solver [OF fr j] .
  have Ql: "latch_cube A q" if "q \<in> ?Q" for q
    using frames_latch [OF fr] that by (simp split: if_splits)
  have Q: "\<forall>q\<in>?Q. cube_le N q" using latch_cube_le(1) [OF A lv] Ql by blast
  have av: "avoids \<alpha> ?Q"
    using avoids_agrees [OF A \<alpha>(2) Ql] R by (auto simp: in_frame_def avoids_def split: if_splits)
  have pz: "cube_le N ps"
    using latch_cube_le(2) [OF A lv ls] ps by (simp add: cube_le_def)
  then have p0: "0 \<notin> set ps" by (auto simp: cube_le_def)
  have l0: "0 \<notin> set ls" using latch_cube_le(1) [OF A lv ls] by (auto simp: cube_le_def)
  have cl: "sat_clause \<alpha> (map uminus ls)"
    using sat_clause_negated_cube [OF l0] agrees_cube(1) [OF A \<alpha>(2) ls] nl by simp
  have "\<not> cube_true \<alpha> (filter (\<lambda>l. CaDiCaL_failed l s2) ps)"
    by (rule query_ok(4) [OF e s frame_cnf_ok [OF A G] latch_cube_le(3) [OF A lv ls] p0 q refl
          pz Q \<alpha>(1) av cl])
  moreover have "cube_true \<alpha> (map (plit A) ?c)"
    using agrees_cube(2) [OF A \<alpha>(2), of ?c] c latch_cube_mono [OF ls, of ?c] by simp
  moreover have "set (filter (\<lambda>l. CaDiCaL_failed l s2) ps) \<subseteq> set (map (plit A) ?c)" using ps by auto
  ultimately show False using cube_true_mono by blast
qed

lemma frame_query_sat:
  assumes e: "ipasir_contract e" and inv: "pdr_inv A N G p" and ls: "latch_cube A ls"
    and j: "j < length (frames p)" and ps: "set ps = plit A ` set ls"
    and q: "query e (map uminus ls) ps (solver (frames p ! j)) = (SAT, s2)"
  obtains \<alpha> where "answer s2 = Sat \<alpha>" "sat_cnf \<alpha> (frame_cnf A G j)" "\<not> cube_true \<alpha> ls"
    "cube_true \<alpha> (map (plit A) ls)"
proof -
  note A = pdr_invD(1) [OF inv] and G = pdr_invD(2) [OF inv] and fr = pdr_invD(5) [OF inv]
    and lv = pdr_invD(6) [OF inv]
  have s: "solver_ok (frame_cnf A G j) N (if j = 0 then {} else blocked (frames p) j)
      (solver (frames p ! j))"
    using frames_solver [OF fr j] .
  have z: "0 \<notin> set ps" "0 \<notin> set ls"
    using latch_cube_le(1,2) [OF A lv ls] ps by (auto simp: cube_le_def)
  obtain \<alpha> where \<alpha>: "answer s2 = Sat \<alpha>" "sat_cnf \<alpha> (frame_cnf A G j)"
    "sat_clause \<alpha> (map uminus ls)" "cube_true \<alpha> ps"
    using query_ok(3) [OF e s frame_cnf_ok [OF A G] latch_cube_le(3) [OF A lv ls] z(1) q refl] by blast
  have "cube_true \<alpha> (map (plit A) ls)" using \<alpha>(4) ps by (simp add: cube_true_set)
  then show thesis using that \<alpha> sat_clause_negated_cube [OF z(2)] by blast
qed

lemma set_solver_inv:
  assumes inv: "pdr_inv A N G p" and j: "0 \<le> j" "nat j < length (frames p)"
    and s: "solver_ok (frame_cnf A G (nat j)) N (if nat j = 0 then {} else blocked (frames p) (nat j)) s"
  shows "pdr_inv A N G (set_solver j s p)" "blocked (frames (set_solver j s p)) = blocked (frames p)"
    "in_frame A (frames (set_solver j s p)) = in_frame A (frames p)"
    "length (frames (set_solver j s p)) = length (frames p)"
  using inv frames_ok_solver [OF pdr_invD(5) [OF inv] j(2) s]
  by (simp_all add: pdr_inv_def encodes_def set_solver_def blocked_solver)

text \<open>What a call of \<^verbatim>\<open>is_inductive\<close> changes, and what its answer says.\<close>

definition same_cubes :: "PDR \<Rightarrow> PDR \<Rightarrow> bool" where
  "same_cubes p p' = (map cubes (frames p') = map cubes (frames p)
     \<and> (\<exists>fs i c. p' = p\<lparr>frames := fs, init := i, core := c\<rparr>))"

lemma same_cubesD:
  assumes "same_cubes p p'"
  shows "length (frames p') = length (frames p)" "blocked (frames p') = blocked (frames p)"
    "in_frame A (frames p') = in_frame A (frames p)" "heap p' = heap p"
    "state_count p' = state_count p" "obligation_queue p' = obligation_queue p"
    "depth p' = depth p" "RESULT p' = RESULT p"
    "earliest_strengthened_frame p' = earliest_strengthened_frame p" "states p' = states p"
    "find_cex p' = find_cex p" "cex_states p' = cex_states p" "aiger p' = aiger p" "polls p' = polls p"
    "i < length (frames p) \<Longrightarrow> cubes (frames p' ! i) = cubes (frames p ! i)"
    "top_frame_cannot_reach_bad p' = top_frame_cannot_reach_bad p" "thread_index p' = thread_index p"
proof -
  have m: "map cubes (frames p') = map cubes (frames p)" using assms by (simp add: same_cubes_def)
  then show l: "length (frames p') = length (frames p)" using map_eq_imp_length_eq by blast
  have c: "cubes (frames p' ! i) = cubes (frames p ! i)" if "i < length (frames p)" for i
    using m that l by (metis nth_map)
  then show "i < length (frames p) \<Longrightarrow> cubes (frames p' ! i) = cubes (frames p ! i)" .
  show b: "blocked (frames p') = blocked (frames p)" using c l by (auto simp: blocked_def fun_eq_iff)
  show "in_frame A (frames p') = in_frame A (frames p)" using b by (simp add: in_frame_def fun_eq_iff)
  show "depth p' = depth p" using l by (simp add: depth_def)
qed (use assms in \<open>auto simp: same_cubes_def\<close>)

lemma same_cubes_refl [simp]: "same_cubes p p"
  unfolding same_cubes_def by (intro conjI exI [of _ "frames p"] exI [of _ "init p"] exI [of _ "core p"]) simp_all

lemma same_cubes_trans: "same_cubes p q \<Longrightarrow> same_cubes q r \<Longrightarrow> same_cubes p r"
  unfolding same_cubes_def by force

lemma is_inductive_ok:
  assumes e: "ipasir_contract e" and inv: "pdr_inv A N G p" and ls: "latch_cube A ls"
    and r: "is_inductive e j ls g ra p = Some (b, p')"
  shows "pdr_inv A N G p'" "same_cubes p p'" "0 \<le> j" "nat j < length (frames p)"
    "b \<Longrightarrow> g \<Longrightarrow> set (core p') \<subseteq> set ls \<and> length (core p') \<le> length ls
       \<and> (length (core p') = length ls \<longrightarrow> core p' = ls)
       \<and> rel_ind A (frames p) (nat j) ls (core p') \<and> (init_disjoint A ls \<longrightarrow> init_disjoint A (core p'))"
    "b \<Longrightarrow> \<not> g \<Longrightarrow> rel_ind A (frames p) (nat j) ls ls"
    "\<not> (b \<and> g) \<Longrightarrow> core p' = core p"
    "\<not> b \<Longrightarrow> \<exists>\<alpha>. answer (solver (frames p' ! nat j)) = Sat \<alpha> \<and> sat_cnf \<alpha> (frame_cnf A G (nat j))
       \<and> \<not> cube_true \<alpha> ls \<and> cube_true \<alpha> (map (plit A) ls)"
proof -
  note A = pdr_invD(1) [OF inv] and G = pdr_invD(2) [OF inv] and fr = pdr_invD(5) [OF inv]
    and lv = pdr_invD(6) [OF inv]
  obtain ps st s2 where j: "0 \<le> j" "nat j < length (frames p)" and ps: "set ps = plit A ` set ls"
    and q: "query e (map uminus ls) ps (solver (frames p ! nat j)) = (st, s2)"
    and st: "st \<noteq> 0" "b = (st = UNSAT)"
    and n: "\<not> (b \<and> g) \<Longrightarrow> p' = set_solver j s2 p"
    and y: "b \<and> g \<Longrightarrow> \<exists>c b0 p2. c = filter (\<lambda>i. CaDiCaL_failed (plit A i) s2) ls
       \<and> is_init e c ((set_solver j s2 p)\<lparr>core := c\<rparr>) = Some (b0, p2)
       \<and> p' = (if b0 then p2\<lparr>core := ls\<rparr> else p2)"
    using is_inductive_cases [OF inv ls r] by metis
  show "0 \<le> j" "nat j < length (frames p)" using j .
  let ?p1 = "set_solver j s2 p" and ?c = "filter (\<lambda>i. CaDiCaL_failed (plit A i) s2) ls"
  have z: "0 \<notin> set ps" using latch_cube_le(2) [OF A lv ls] ps by (auto simp: cube_le_def)
  have s: "solver_ok (frame_cnf A G (nat j)) N (if nat j = 0 then {} else blocked (frames p) (nat j))
      (solver (frames p ! nat j))"
    using frames_solver [OF fr j(2)] .
  note p1 = set_solver_inv [OF inv j query_ok(1) [OF e s frame_cnf_ok [OF A G]
        latch_cube_le(3) [OF A lv ls] z q]]
  have m1: "map cubes (frames ?p1) = map cubes (frames p)"
    using j by (simp add: set_solver_def map_update list_update_same_conv)
  have sc: "same_cubes p (?p1\<lparr>init := i, core := c\<rparr>)" for i c
    unfolding same_cubes_def
    by (intro conjI exI [of _ "frames ?p1"] exI [of _ i] exI [of _ c])
       (simp_all add: m1, simp add: set_solver_def)
  have sc1: "same_cubes p ?p1" using sc [where i = "init ?p1" and c = "core ?p1"] by simp
  have lc: "latch_cube A ?c" using latch_cube_mono [OF ls] by simp
  have i1: "pdr_inv A N G (?p1\<lparr>core := ?c\<rparr>)" using p1(1) by (simp add: pdr_inv_def encodes_def)
  have yes: "pdr_inv A N G p' \<and> same_cubes p p' \<and> core p' = (if init_disjoint A ?c then ?c else ls)"
    if bg: "b \<and> g"
  proof -
    obtain b0 p2 where p2: "is_init e ?c (?p1\<lparr>core := ?c\<rparr>) = Some (b0, p2)"
      "p' = (if b0 then p2\<lparr>core := ls\<rparr> else p2)"
      using y [OF bg] by blast
    obtain t where t: "p2 = ?p1\<lparr>core := ?c, init := Some t\<rparr>" "pdr_inv A N G p2"
      "b0 = (\<not> init_disjoint A ?c)"
      using is_init_ok [OF e i1 lc p2(1)] by blast
    have t': "p2 = ?p1\<lparr>init := Some t, core := ?c\<rparr>" using t(1) by simp
    have "pdr_inv A N G (p2\<lparr>core := ls\<rparr>)" using t(2) by (simp add: pdr_inv_def encodes_def)
    moreover have "same_cubes p p2" "same_cubes p (p2\<lparr>core := ls\<rparr>)"
      using sc [where i = "Some t" and c = ?c] sc [where i = "Some t" and c = ls] by (simp_all only: t' PDR.update_convs) simp
    ultimately show ?thesis using t p2(2) by (cases b0) simp_all
  qed
  show "pdr_inv A N G p'" "same_cubes p p'"
    using yes n p1(1) sc1 by (cases "b \<and> g"; simp)+
  show "\<not> (b \<and> g) \<Longrightarrow> core p' = core p" using n by (simp add: set_solver_def)
  have ri: "rel_ind A (frames p) (nat j) ls ?c" if b
    using frame_query_unsat [OF e inv ls j(2) ps] q st that by simp
  show "set (core p') \<subseteq> set ls \<and> length (core p') \<le> length ls
       \<and> (length (core p') = length ls \<longrightarrow> core p' = ls)
       \<and> rel_ind A (frames p) (nat j) ls (core p') \<and> (init_disjoint A ls \<longrightarrow> init_disjoint A (core p'))"
    if b g
  proof -
    have c: "core p' = (if init_disjoint A ?c then ?c else ls)" using yes that by blast
    have "length ?c = length ls \<longrightarrow> ?c = ls"
      by (metis length_filter_less less_irrefl filter_True)
    moreover have "rel_ind A (frames p) (nat j) ls ls"
      using ri [OF that(1)] cube_true_mono [of ?c ls] unfolding rel_ind_def by (metis filter_is_subset)
    ultimately show ?thesis using c ri [OF that(1)] by simp
  qed
  show "rel_ind A (frames p) (nat j) ls ls" if b
    using ri [OF that] cube_true_mono [of ?c ls] unfolding rel_ind_def by (metis filter_is_subset)
  show "\<exists>\<alpha>. answer (solver (frames p' ! nat j)) = Sat \<alpha> \<and> sat_cnf \<alpha> (frame_cnf A G (nat j))
       \<and> \<not> cube_true \<alpha> ls \<and> cube_true \<alpha> (map (plit A) ls)" if nb: "\<not> b"
  proof -
    have "st = SAT" using q st nb
      by (auto simp: query_def CaDiCaL_solve_def UNKNOWN_def Let_def split: answer.splits)
    then obtain \<alpha> where "answer s2 = Sat \<alpha>" "sat_cnf \<alpha> (frame_cnf A G (nat j))"
      "\<not> cube_true \<alpha> ls" "cube_true \<alpha> (map (plit A) ls)"
      using frame_query_sat [OF e inv ls j(2) ps] q by blast
    moreover have "solver (frames p' ! nat j) = s2" using n nb j by (simp add: set_solver_def)
    ultimately show ?thesis by blast
  qed
qed

section \<open>Blocking a cube\<close>

text \<open>The frames after a change of their cubes still block all that was blocked.\<close>

definition covers :: "Frame list \<Rightarrow> Frame list \<Rightarrow> bool" where
  "covers fs fs' = (\<forall>j\<ge>1. \<forall>q\<in>blocked fs j. \<exists>q'\<in>blocked fs' j. set q' \<subseteq> set q)"

lemma covers_in_frame:
  assumes "covers fs fs'" "in_frame A fs' j \<sigma>"
  shows "in_frame A fs j \<sigma>"
proof (cases "j = 0")
  case True
  then show ?thesis using assms by (simp add: in_frame_def)
next
  case False
  have "\<not> cube_true \<sigma> q" if q: "q \<in> blocked fs j" for q
  proof -
    obtain q' where "q' \<in> blocked fs' j" "set q' \<subseteq> set q"
      using assms(1) q False unfolding covers_def by (meson less_one linorder_not_less)
    then show ?thesis using assms(2) False cube_true_mono by (auto simp: in_frame_def avoids_def)
  qed
  then show ?thesis using False by (simp add: in_frame_def avoids_def)
qed

lemma frames_ok_change:
  assumes ok: "frames_ok A N G fs" and len: "length fs' = length fs"
    and s: "\<And>j. j < length fs \<Longrightarrow> solver (fs' ! j) = solver (fs ! j)"
    and z: "0 < length fs \<Longrightarrow> cubes (fs' ! 0) = []" and c: "covers fs fs'"
    and new: "\<And>j q. j < length fs \<Longrightarrow> q \<in> set (cubes (fs' ! j)) \<Longrightarrow> cube_ok A fs' j q"
  shows "frames_ok A N G fs'"
proof (unfold frames_ok_def, intro allI impI)
  fix j
  assume "j < length fs'"
  then have j: "j < length fs" using len by simp
  let ?Q = "\<lambda>fs. if j = 0 then {} else blocked fs j"
  have "solver_ok (frame_cnf A G j) N (?Q fs') (solver (fs ! j))"
  proof (rule solver_ok_mono [OF frames_solver [OF ok j]])
    show "\<exists>q'\<in>?Q fs'. set q' \<subseteq> set q" if "q \<in> ?Q fs" for q
      using c that by (auto simp: covers_def split: if_splits)
  qed
  then show "frame_ok A N G fs' j" using s [OF j] z j new [OF j] by (cases "j = 0") (auto simp: frame_ok_def)
qed

lemma cube_ok_mono:
  assumes "cube_ok A fs j q" "covers fs fs'"
  shows "cube_ok A fs' j q"
  using assms(1) excluded_mono [of A "in_frame A fs (j - 1)" q "in_frame A fs' (j - 1)" q]
    covers_in_frame [OF assms(2)] by (simp add: cube_ok_def)

lemma rel_ind_cube_ok:
  assumes "latch_cube A q" "init_disjoint A q" "rel_ind A fs (k - 1) q q" "covers fs fs'"
    and "1 \<le> k" and "k \<noteq> 1 \<Longrightarrow> q \<in> blocked fs' (k - 1)"
  shows "cube_ok A fs' k q"
proof -
  have "\<not> cube_true \<sigma>' q" if R: "in_frame A fs' (k - 1) \<sigma>" and st: "vstep A \<sigma> \<sigma>'" for \<sigma> \<sigma>'
  proof -
    have "\<not> cube_true \<sigma> q"
    proof (cases "k = 1")
      case True
      then show ?thesis using R assms(2) vstep_valid [OF st] by (simp add: in_frame_def init_disjoint_def)
    next
      case False
      then show ?thesis using R assms(5,6) by (auto simp: in_frame_def avoids_def)
    qed
    then show ?thesis using assms(3) covers_in_frame [OF assms(4) R] st by (simp add: rel_ind_def)
  qed
  then show ?thesis using assms(1,2) by (simp add: cube_ok_def excluded_def)
qed

lemma blocked_insert:
  assumes "k < length fs"
  shows "blocked (fs[k := (fs ! k)\<lparr>cubes := set_insert Cube_CMP q (cubes (fs ! k))\<rparr>]) j
       = (if j \<le> k then insert q (blocked fs j) else blocked fs j)"
proof -
  let ?fs = "fs[k := (fs ! k)\<lparr>cubes := set_insert Cube_CMP q (cubes (fs ! k))\<rparr>]"
  have c: "set (cubes (?fs ! i)) = (if i = k then insert q (set (cubes (fs ! i))) else set (cubes (fs ! i)))"
    for i using assms by (simp add: cube_cmp.set_insert_set)
  show ?thesis using assms by (auto simp: blocked_def c split: if_splits)
qed

lemma frames_ok_insert:
  assumes ok: "frames_ok A N G fs" and k: "1 \<le> k" "k < length fs"
    and q: "latch_cube A q" "init_disjoint A q" "rel_ind A fs (k - 1) q q"
  defines "fs' \<equiv> fs[k := (fs ! k)\<lparr>cubes := set_insert Cube_CMP q (cubes (fs ! k))\<rparr>]"
  shows "frames_ok A N G fs'" "covers fs fs'" "\<And>j. j \<le> k \<Longrightarrow> q \<in> blocked fs' j"
proof -
  show b: "q \<in> blocked fs' j" if "j \<le> k" for j
    using blocked_insert [OF k(2)] that by (simp add: fs'_def)
  show c: "covers fs fs'" using blocked_insert [OF k(2)] by (auto simp: covers_def fs'_def)
  show "frames_ok A N G fs'"
  proof (rule frames_ok_change [OF ok _ _ _ c])
    show "length fs' = length fs" by (simp add: fs'_def)
    show "solver (fs' ! j) = solver (fs ! j)" for j
      using k(2) by (cases "j = k") (simp_all add: fs'_def)
    show "cubes (fs' ! 0) = []" if "0 < length fs"
      using ok k that by (auto simp: fs'_def frames_ok_def frame_ok_def)
    show "cube_ok A fs' j r" if j: "j < length fs" and r: "r \<in> set (cubes (fs' ! j))" for j r
    proof (cases "j = k \<and> r = q")
      case True
      then show ?thesis using rel_ind_cube_ok [OF q c k(1)] b by simp
    next
      case False
      then have "r \<in> set (cubes (fs ! j))"
        using r k(2) by (cases "j = k") (auto simp: fs'_def cube_cmp.set_insert_set)
      then have "cube_ok A fs j r" using ok j by (auto simp: frames_ok_def frame_ok_def)
      then show ?thesis using cube_ok_mono c by blast
    qed
  qed
qed

lemma add_clause_guarded:
  assumes s: "solver_ok B N Q s" and N: "0 \<le> N" and q: "cube_le N q" "q \<in> Q"
  shows "solver_ok B N Q (add_clause (map uminus q) s)"
proof -
  let ?c = "map uminus q"
  have nv: "0 \<le> nv s" "N \<le> nv s" "pending s = []" "nv s \<le> emax s" using s N by (auto simp: solver_ok_def)
  have z: "0 \<notin> set ?c" using q(1) by (auto simp: cube_le_def)
  have le: "\<bar>l\<bar> \<le> N" if "l \<in> set ?c" for l using q(1) that by (auto simp: cube_le_def)
  have b: "lit_bound ?c (nv s) = nv s" "lit_bound ?c (emax s) = emax s"
    using le nv by (intro lit_bound_idem; force)+
  have t: "add_clause ?c s = s\<lparr>clauses := clauses s @ [?c]\<rparr>"
    using add_clause_eq [OF z nv(1)] nv b by simp
  have "guarded B N Q ?c" using q le by (force simp: guarded_def)
  moreover have "lits_le (nv s) [?c]" using le nv by (force simp: lits_le_def)
  ultimately show ?thesis using s z unfolding t by (auto simp: solver_ok_def)
qed

definition only_frames :: "PDR \<Rightarrow> PDR \<Rightarrow> bool" where
  "only_frames p p' = (\<exists>fs. p' = p\<lparr>frames := fs\<rparr> \<and> map cubes fs = map cubes (frames p))"

lemma only_frames_same: "only_frames p p' \<Longrightarrow> same_cubes p p'"
proof -
  assume "only_frames p p'"
  then obtain fs where "p' = p\<lparr>frames := fs\<rparr>" "map cubes fs = map cubes (frames p)"
    by (auto simp: only_frames_def)
  then show ?thesis
    unfolding same_cubes_def
    by (intro conjI exI [of _ fs] exI [of _ "init p"] exI [of _ "core p"]) simp_all
qed

lemma only_frames_trans: "only_frames p q \<Longrightarrow> only_frames q r \<Longrightarrow> only_frames p r"
  by (auto simp: only_frames_def)

lemma add_to_frame_ok:
  assumes inv: "pdr_inv A N G p" and q: "latch_cube A q" "q \<in> blocked (frames p) (nat i)" "1 \<le> i"
    and r: "add_to_frame q i p = Some p'"
  shows "pdr_inv A N G p'" "only_frames p p'"
proof -
  have i: "0 \<le> i" "nat i < length (frames p)"
    and p': "p' = set_solver i (add_clause (map uminus q) (solver (frames p ! nat i))) p"
    using r by (auto simp: add_to_frame_def vec_at_def nat_less_iff bind_eq_Some_conv split: if_splits)
  have N: "0 \<le> N" using pdr_invD(2) [OF inv] by (simp add: step_cnf_def base_ok_def)
  have z: "nat i \<noteq> 0" using q(3) by simp
  have s: "solver_ok (frame_cnf A G (nat i)) N (if nat i = 0 then {} else blocked (frames p) (nat i))
      (add_clause (map uminus q) (solver (frames p ! nat i)))"
    using add_clause_guarded [OF frames_solver [OF pdr_invD(5) [OF inv] i(2)] N
        latch_cube_le(1) [OF pdr_invD(1,6) [OF inv] q(1)]] q(2) z by simp
  show "pdr_inv A N G p'" using set_solver_inv(1) [OF inv i s] p' by simp
  show "only_frames p p'"
    using i p' by (auto simp: only_frames_def set_solver_def map_update list_update_same_conv)
qed

lemma add_to_frames_ok:
  assumes "pdr_inv A N G p" "latch_cube A q"
    and "\<forall>i\<in>set is. 1 \<le> i \<and> q \<in> blocked (frames p) (nat i)"
    and "fold_opt (add_to_frame q) is p = Some p'"
  shows "pdr_inv A N G p' \<and> only_frames p p'"
proof -
  have "pdr_inv A N G p' \<and> only_frames p p'"
  proof (rule fold_opt_inv [OF assms(4), where I = "\<lambda>r. pdr_inv A N G r \<and> only_frames p r"])
    show "pdr_inv A N G p \<and> only_frames p p"
      using assms(1) by (auto simp: only_frames_def intro: exI [of _ "frames p"])
    fix i t t'
    assume i: "i \<in> set is" and I: "pdr_inv A N G t \<and> only_frames p t" and r: "add_to_frame q i t = Some t'"
    have "blocked (frames t) = blocked (frames p)"
      using same_cubesD(2) [OF only_frames_same] I by blast
    then show "pdr_inv A N G t' \<and> only_frames p t'"
      using add_to_frame_ok [of A N G t q i t'] I i r assms(2,3) only_frames_trans by metis
  qed
  then show ?thesis .
qed

text \<open>
  The changes an operation of the algorithm may make while proof obligations are pending:
  the frames only get smaller, and no state allocated before it is touched.
\<close>

definition evolves :: "Aiger \<Rightarrow> PDR \<Rightarrow> PDR \<Rightarrow> bool" where
  "evolves A p p' = (length (frames p') = length (frames p)
     \<and> (\<forall>j \<sigma>. in_frame A (frames p') j \<sigma> \<longrightarrow> in_frame A (frames p) j \<sigma>)
     \<and> obligation_queue p' = obligation_queue p \<and> state_count p \<le> state_count p'
     \<and> (\<forall>x\<le> state_count p. heap p' x = heap p x) \<and> RESULT p' = RESULT p \<and> polls p' = polls p
     \<and> thread_index p' = thread_index p \<and> states p' = states p \<and> cex_states p' = cex_states p
     \<and> find_cex p' = find_cex p
     \<and> top_frame_cannot_reach_bad p' = top_frame_cannot_reach_bad p
     \<and> (1 \<le> earliest_strengthened_frame p \<longrightarrow> 1 \<le> earliest_strengthened_frame p'))"

lemma evolves_refl [simp]: "evolves A p p"
  by (simp add: evolves_def)

lemma evolves_trans: "evolves A p q \<Longrightarrow> evolves A q r \<Longrightarrow> evolves A p r"
  unfolding evolves_def by auto

lemma same_cubes_evolves: "same_cubes p p' \<Longrightarrow> evolves A p p'"
  using same_cubesD [of p p'] by (simp add: evolves_def)

lemma updateLitOrder_ok:
  "updateLitOrder c p = Some p' \<Longrightarrow> \<exists>h. p' = p\<lparr>heuristic_lit_cmp := h\<rparr>"
  by (auto simp: updateLitOrder_def Let_def bind_eq_Some_conv)

lemma add_cube_ok:
  assumes inv: "pdr_inv A N G p" and c: "latch_cube A c" "init_disjoint A c"
    and k: "1 \<le> k" and ri: "rel_ind A (frames p) (nat k - 1) c c"
    and r: "add_cube c k to_all ispr p = Some (q, p')"
  shows "pdr_inv A N G p'" "evolves A p p'" "set q = set c" "length q = length c"
    "nat k < length (frames p)" "\<And>j. j \<le> nat k \<Longrightarrow> q \<in> blocked (frames p') j" "core p' = core p"
proof -
  let ?q = "stable_sort_by Lit_CMP c"
  let ?p0 = "if ispr then p else
       p\<lparr>earliest_strengthened_frame := min (earliest_strengthened_frame p) k\<rparr>"
  have fr: "frames ?p0 = frames p" by simp
  obtain f where f: "vec_at (frames p) k = Some f"
    using r unfolding add_cube_def Let_def fr by (cases "vec_at (frames p) k") auto
  then have kl: "nat k < length (frames p)" "f = frames p ! nat k"
    by (auto simp: vec_at_Some nat_less_iff)
  show "nat k < length (frames p)" by (rule kl)
  have q: "latch_cube A ?q" "init_disjoint A ?q" "rel_ind A (frames p) (nat k - 1) ?q ?q"
    using c ri by (simp_all add: latch_cube_def init_disjoint_def rel_ind_def cube_true_set
        set_stable_sort_by)
  have k1: "1 \<le> nat k" using k by simp
  have ev0: "evolves A p ?p0" using k by (simp add: evolves_def)
  have inv0: "pdr_inv A N G ?p0" using inv by (simp add: pdr_inv_def encodes_def)
  have "q = ?q \<and> pdr_inv A N G p' \<and> evolves A p p' \<and> (\<forall>j\<le>nat k. ?q \<in> blocked (frames p') j)
    \<and> core p' = core p"
  proof (cases "set_has Cube_CMP ?q (cubes f)")
    case True
    have "q = ?q \<and> p' = ?p0" using r True f unfolding add_cube_def Let_def fr by simp
    moreover have "?q \<in> set (cubes (frames p ! nat k))"
      using True kl by (simp add: cube_cmp.set_has_iff)
    ultimately show ?thesis using inv0 ev0 kl by (auto simp: blocked_def)
  next
    case False
    let ?p1 = "set_cubes k (set_insert Cube_CMP ?q (cubes f)) ?p0"
    obtain p2 p3 p4 where p2: "(if to_all then fold_opt (add_to_frame ?q) [1..k - 1] ?p1 else Some ?p1) = Some p2"
      and p3: "add_to_frame ?q k p2 = Some p3"
      and p4: "(if use_heuristic \<and> \<not> ispr then updateLitOrder ?q p3 else Some p3) = Some p4"
      and qp: "q = ?q" "p' = p4"
      using r False f unfolding add_cube_def Let_def fr by (auto simp: bind_eq_Some_conv simp del: switches)
    have f1: "frames ?p1 = (frames p)[nat k := (frames p ! nat k)
        \<lparr>cubes := set_insert Cube_CMP ?q (cubes (frames p ! nat k))\<rparr>]"
      by (simp add: set_cubes_def kl(2))
    note fi = frames_ok_insert [OF pdr_invD(5) [OF inv] k1 kl(1) q, folded f1]
    have inv1: "pdr_inv A N G ?p1"
      using inv0 fi(1) by (simp add: pdr_inv_def encodes_def set_cubes_def)
    have ev1: "evolves A p ?p1"
      using ev0 covers_in_frame [OF fi(2)] f1 by (simp add: evolves_def set_cubes_def)
    have 2: "pdr_inv A N G p2 \<and> only_frames ?p1 p2"
    proof (cases to_all)
      case True
      have "\<forall>i\<in>set [1..k - 1]. 1 \<le> i \<and> ?q \<in> blocked (frames ?p1) (nat i)"
      proof (rule ballI, rule conjI)
        fix i
        assume i: "i \<in> set [1..k - 1]"
        show "1 \<le> i" using i by simp
        show "?q \<in> blocked (frames ?p1) (nat i)" using i by (intro fi(3)) (simp add: nat_mono)
      qed
      moreover have "fold_opt (add_to_frame ?q) [1..k - 1] ?p1 = Some p2" using p2 True by (simp only: if_True)
      ultimately show ?thesis by (rule add_to_frames_ok [OF inv1 q(1)])
    next
      case False
      then show ?thesis using p2 inv1 by (auto simp: only_frames_def intro: exI [of _ "frames ?p1"])
    qed
    have b2: "blocked (frames p2) = blocked (frames ?p1)"
      using same_cubesD(2) [OF only_frames_same] 2 by blast
    have 3: "pdr_inv A N G p3" "only_frames p2 p3"
      using add_to_frame_ok [OF _ q(1) _ k p3] 2 b2 fi(3) by auto
    have o3: "only_frames ?p1 p3" using only_frames_trans 2 3 by blast
    have "\<exists>h. p4 = p3\<lparr>heuristic_lit_cmp := h\<rparr>"
    proof (cases "use_heuristic \<and> \<not> ispr")
      case True
      then show ?thesis using p4 updateLitOrder_ok [of ?q p3 p4] by simp
    next
      case False
      then have "p4 = p3" using p4 by simp
      then show ?thesis by (intro exI [of _ "heuristic_lit_cmp p3"]) simp
    qed
    then obtain h where h: "p4 = p3\<lparr>heuristic_lit_cmp := h\<rparr>" by blast
    have "evolves A p3 p4" "pdr_inv A N G p4" using 3 h by (simp_all add: evolves_def pdr_inv_def encodes_def)
    moreover have "evolves A ?p1 p3" using same_cubes_evolves [OF only_frames_same [OF o3]] .
    moreover have "blocked (frames p4) = blocked (frames ?p1)"
      using same_cubesD(2) [OF only_frames_same [OF o3]] h by simp
    moreover have "core p4 = core p" using h o3 by (auto simp: only_frames_def set_cubes_def)
    ultimately show ?thesis using ev1 evolves_trans fi(3) qp by metis
  qed
  then show "pdr_inv A N G p'" "evolves A p p'" "set q = set c" "length q = length c"
    "\<And>j. j \<le> nat k \<Longrightarrow> q \<in> blocked (frames p') j" "core p' = core p"
    by (auto simp: set_stable_sort_by length_stable_sort_by)
qed

section \<open>The lifting solver\<close>

lemma clear_act_ok:
  assumes "lift_cnf A N G" "solver_ok G N {} s" "clear_flag s \<longrightarrow> N < nv s"
  shows "solver_ok G N {} (CaDiCaL_clear_act s)" "\<not> clear_flag (CaDiCaL_clear_act s)"
proof -
  show "\<not> clear_flag (CaDiCaL_clear_act s)" by (simp add: CaDiCaL_clear_act_def)
  show "solver_ok G N {} (CaDiCaL_clear_act s)"
  proof (cases "clear_flag s")
    case False
    then show ?thesis using assms(2) by (simp add: CaDiCaL_clear_act_def solver_ok_def)
  next
    case True
    have nv: "0 \<le> N" "N < nv s" "pending s = []" "nv s \<le> emax s"
      using assms True by (auto simp: lift_cnf_def base_ok_def solver_ok_def)
    have "CaDiCaL_clear_act s = s\<lparr>clauses := clauses s @ [[- nv s]], clear_flag := False\<rparr>"
      using nv True by (simp add: CaDiCaL_clear_act_def CaDiCaL_add_def ipasir_add_def)
    moreover have "guarded G N {} [- nv s]" using nv by (auto simp: guarded_def)
    ultimately show ?thesis using assms(2) nv by (auto simp: solver_ok_def lits_le_def)
  qed
qed

lemma encode_lift_ok:
  assumes e: "eliminate_contract e" and inv: "pdr_inv A N G p" and l: "lift p = None"
    and r: "encode_lift e CaDiCaL_new p = Some (s, p1)"
  shows "lift_solver_ok A s" "\<exists>a m. p1 = p\<lparr>aiger := a, satelite2 := m\<rparr> \<and> grow A a"
proof -
  note A = pdr_invD(1) [OF inv] and gr = pdr_invD(3) [OF inv]
  have ia: "enc_inv (aiger p)" using grow_enc_inv [OF A gr] .
  obtain m U a' where b: "build_satelite2 (aiger p) = Some (m, a')" "built (aiger p) U a' m"
    "units U False (aiger p)"
    using build_satelite2_ok [OF ia] by blast
  have n2: "satelite2 p = None" using inv l by (simp add: pdr_inv_def)
  have s: "s = add_cnf (trans_cnf e m) CaDiCaL_new"
    and p1: "p1 = p\<lparr>aiger := a', satelite2 := Some (simplify e m)\<rparr>"
    using r n2 b(1) by (auto simp: encode_lift_def adds_simplified trans_cnf_def)
  note t = trans_cnf_ok [OF e ia b(2,3)]
  have gr': "grow A a'" using grow_trans [OF gr] b(2) by (simp add: built_def)
  show "\<exists>a m. p1 = p\<lparr>aiger := a, satelite2 := m\<rparr> \<and> grow A a" using p1 gr' by blast
  let ?N = "ms_nVars m" and ?G = "trans_cnf e m"
  have pv: "prime_inv A" "prime_inv (aiger p)" using enc_invD(1) A ia by blast+
  have len: "int (length (variables A)) \<le> ?N + 1"
    using b(2) growD(5) [OF gr] by (auto simp: built_def)
  have lv: "leaves_le A ?N" using pv(1) len by (auto simp: prime_inv_def leaves_le_def)
  have N1: "1 \<le> ?N" using lv wf_aigD(1,2,6) [OF pdr_invD(7) [OF inv]] by (auto simp: leaves_le_def)
  have "enc_complete A False ?G"
    using t(3) grow_tstep [OF gr] grow_agrees [OF A gr] circD(10) [OF growD(1) [OF gr]]
    by (simp add: enc_complete_def)
  then have lc: "lift_cnf A ?N ?G" using t(1,2) lv len N1 by (simp add: lift_cnf_def base_ok_def)
  have cl: "clauses s = ?G" "pending s = []" "assumed s = []" "nv s = fold lit_bound ?G 0"
    "emax s = fold lit_bound ?G 0" "\<not> clear_flag s"
    using add_cnf_eq [OF t(1), of CaDiCaL_new] by (simp_all add: s CaDiCaL_new_def)
  have "nv s \<le> ?N" using fold_lit_bound_le [OF _ t(2), of 0] N1 cl(4) by simp
  moreover have "?N \<le> nv s"
  proof -
    have "[?N, - ?N] \<in> set ?G" by (simp add: trans_cnf_def)
    then show ?thesis using fold_lit_bound_lits [of ?G 0] cl(4) by (force simp: lits_le_def)
  qed
  moreover have "guarded ?G ?N {} c" if "c \<in> set ?G" for c
  proof -
    have "l \<le> ?N" if "l \<in> set c" for l
      using t(2) \<open>c \<in> set ?G\<close> that unfolding lits_le_def by (meson abs_le_D1)
    then show ?thesis using that by (simp add: guarded_def)
  qed
  ultimately have "solver_ok ?G ?N {} s" using cl t(1,2) by (simp add: solver_ok_def)
  then show "lift_solver_ok A s" using lc cl(6) by (auto simp: lift_solver_ok_def)
qed

section \<open>Values read from a model\<close>

lemma sat_vals_range:
  assumes "1 \<le> first" "first + n - 1 \<le> emax s" "l \<in> set (sat_vals s first n)"
  shows "first \<le> \<bar>l\<bar>" "\<bar>l\<bar> < first + n"
proof -
  obtain i where i: "0 \<le> i" "i \<le> n - 1" "l = CaDiCaL_val (first + i) s" "l \<noteq> 0"
    using assms(3) by (auto simp: sat_vals_def)
  then have "\<bar>l\<bar> = first + i" using assms(1,2)
    by (auto simp: CaDiCaL_val_def Let_def split: answer.splits if_splits)
  then show "first \<le> \<bar>l\<bar>" "\<bar>l\<bar> < first + n" using i by simp_all
qed

lemma sat_vals_eq:
  assumes "1 \<le> first" "first + n - 1 \<le> emax s" "answer s = Sat \<alpha>"
  shows "sat_vals s first n = map (\<lambda>i. if \<alpha> (first + i) then first + i else - (first + i)) [0..n - 1]"
proof -
  have "CaDiCaL_val (first + i) s = (if \<alpha> (first + i) then first + i else - (first + i))"
    if "i \<in> set [0..n - 1]" for i
    using that assms by (simp add: CaDiCaL_val_def Let_def)
  then have "map (\<lambda>i. CaDiCaL_val (first + i) s) [0..n - 1]
      = map (\<lambda>i. if \<alpha> (first + i) then first + i else - (first + i)) [0..n - 1]"
    by simp
  moreover have "filter (\<lambda>l. l \<noteq> 0) (map (\<lambda>i. if \<alpha> (first + i) then first + i else - (first + i)) [0..n - 1])
      = map (\<lambda>i. if \<alpha> (first + i) then first + i else - (first + i)) [0..n - 1]"
    using assms(1) by (intro filter_True) auto
  ultimately show ?thesis by (simp only: sat_vals_def)
qed

lemma input_assumptions_set:
  assumes wf: "wf_aig A" and em: "leaves_le A (emax s)"
    and d: "d = primed_first_dimacs A - (num_inputs A + num_latches A + 2)"
  shows "shift_assumption A d ` set (input_assumptions A s d)
       = set (sat_vals s unprimed_first_dimacs (num_inputs A))
         \<union> set (sat_vals s (primed_first_dimacs A) (num_inputs A))"
proof -
  note w = wf_aigD(1,2,6) [OF wf]
  let ?v = "\<lambda>i. CaDiCaL_val (unprimed_first_dimacs + i) s"
  let ?w = "\<lambda>i. CaDiCaL_val (primed_first_dimacs A + i) s"
  let ?I = "set [0..num_inputs A - 1]"
  have vr: "?v i = 0 \<or> \<bar>?v i\<bar> = 2 + i" and wr: "?w i = 0 \<or> \<bar>?w i\<bar> = primed_first_dimacs A + i"
    if "i \<in> ?I" for i
    using that w em
    by (auto simp: CaDiCaL_val_def Let_def leaves_le_def unprimed_first_dimacs_def split: answer.splits)
  have s1: "shift_assumption A d (?v i) = ?v i" if "i \<in> ?I" for i
    using vr [OF that] that w by (auto simp: shift_assumption_def)
  have s2: "0 < ?w i \<Longrightarrow> shift_assumption A d (?w i - d) = ?w i"
    "?w i < 0 \<Longrightarrow> shift_assumption A d (- (- ?w i - d)) = ?w i" if "i \<in> ?I" for i
    using wr [OF that] that w d by (auto simp: shift_assumption_def)
  let ?f = "\<lambda>i. set ((if ?v i \<noteq> 0 then [?v i] else [])
        @ (if 0 < ?w i then [?w i - d] else if ?w i < 0 then [- (- ?w i - d)] else []))"
  have im: "shift_assumption A d ` ?f i = ({?v i} \<union> {?w i}) - {0}" if "i \<in> ?I" for i
  proof -
    consider "0 < ?w i" | "?w i < 0" | "?w i = 0" by linarith
    then show ?thesis
    proof cases
      case 1
      then show ?thesis using s1 [OF that] s2(1) [OF that] by (cases "?v i = 0") auto
    next
      case 2
      then show ?thesis using s1 [OF that] s2(2) [OF that] by (cases "?v i = 0") auto
    next
      case 3
      then show ?thesis using s1 [OF that] by (cases "?v i = 0") auto
    qed
  qed
  have "set (input_assumptions A s d) = (\<Union>i\<in>?I. ?f i)"
    by (simp add: input_assumptions_def Let_def)
  then have "shift_assumption A d ` set (input_assumptions A s d) = (\<Union>i\<in>?I. ({?v i} \<union> {?w i}) - {0})"
    using im by (simp add: image_UN)
  also have "\<dots> = set (sat_vals s unprimed_first_dimacs (num_inputs A))
         \<union> set (sat_vals s (primed_first_dimacs A) (num_inputs A))"
    by (auto simp: sat_vals_def)
  finally show ?thesis .
qed

end
