(* ===== verification/PDR_Lift.thy ===== *)
theory PDR_Lift
  imports PDR_Inv
begin

text \<open>
  \<^verbatim>\<open>extract_state_from_sat\<close>: the latch literals it keeps, with the inputs it records, lead into
  the successor from every state that has them, unless that state is bad itself.
\<close>

definition lift_assumptions :: "Aiger \<Rightarrow> CaDiCaL \<Rightarrow> fp list \<Rightarrow> int list" where
  "lift_assumptions a sat cs =
     (let d = primed_first_dimacs a - (num_inputs a + num_latches a + 2)
      in map (shift_assumption a d) (input_assumptions a sat d
           @ rev (stable_sort_by (heuristic_Lit_CMP cs)
               (sat_vals sat (unprimed_first_dimacs + num_inputs a) (num_latches a)))))"

lemma extract_cases:
  assumes r: "extract_state_from_sat e j s succ findex p = Some p'"
  obtains st lf p1 goal a1 cs l2 cs1 where "heap p s = Some st"
    "load_lift e (p\<lparr>heap := (heap p)(s \<mapsto> State_clear st)\<rparr>) = Some (lf, p1)"
    "0 \<le> j" "nat j < length (frames p1)"
    "(case succ of None \<Rightarrow> Some ([- bad_prime (aiger p1)], aiger p1)
      | Some x \<Rightarrow> do { t \<leftarrow> heap p1 x; prime_lits (map uminus (latches t)) (aiger p1) }) = Some (goal, a1)"
    "query e (map uminus (constraints (aiger p1)) @ map uminus (constraints_prime (aiger p1)) @ goal)
       (lift_assumptions (aiger p1) (solver (frames p1 ! nat j)) cs) (CaDiCaL_clear_act lf) = (UNSAT, l2)"
    "upd_State s (\<lambda>st. st\<lparr>
        inputs := sat_vals (solver (frames p1 ! nat j)) unprimed_first_dimacs (num_inputs (aiger p1)),
        latches := filter (\<lambda>l. CaDiCaL_failed l l2) (sat_vals (solver (frames p1 ! nat j))
          (unprimed_first_dimacs + num_inputs (aiger p1)) (num_latches (aiger p1))),
        State_next := succ\<rparr>)
      (p1\<lparr>aiger := a1, lift := Some (CaDiCaL_set_clear_act l2), heuristic_lit_cmp := Some cs1\<rparr>) = Some p'"
proof -
  obtain st where st: "heap p s = Some st"
    using r by (cases "heap p s") (simp_all add: extract_state_from_sat_def upd_State_def)
  let ?p0 = "p\<lparr>heap := (heap p)(s \<mapsto> State_clear st)\<rparr>"
  have u: "upd_State s State_clear p = Some ?p0" using st by (simp add: upd_State_def)
  have "load_lift e ?p0 \<noteq> None"
    using r by (rule contrapos_pn) (simp add: extract_state_from_sat_def u)
  then obtain lf p1 where l: "load_lift e ?p0 = Some (lf, p1)" by auto
  have "vec_at (frames p1) j \<noteq> None"
    using r by (rule contrapos_pn) (simp add: extract_state_from_sat_def u l Let_def)
  then obtain f where f: "vec_at (frames p1) j = Some f" by auto
  then have j: "0 \<le> j" "nat j < length (frames p1)" "f = frames p1 ! nat j"
    by (auto simp: vec_at_Some nat_less_iff)
  let ?g = "(case succ of None \<Rightarrow> Some ([- bad_prime (aiger p1)], aiger p1)
      | Some x \<Rightarrow> do { t \<leftarrow> heap p1 x; prime_lits (map uminus (latches t)) (aiger p1) })"
  have "?g \<noteq> None"
    using r by (rule contrapos_pn) (simp add: extract_state_from_sat_def u l f Let_def)
  then obtain goal a1 where g: "?g = Some (goal, a1)" by (cases ?g) (simp, metis surj_pair)
  have "heuristic_lit_cmp p1 \<noteq> None"
    using r by (rule contrapos_pn) (simp add: extract_state_from_sat_def u l f g Let_def)
  then obtain cs where cs: "heuristic_lit_cmp p1 = Some cs" by auto
  obtain res l2 where q: "query e
      (map uminus (constraints (aiger p1)) @ map uminus (constraints_prime (aiger p1)) @ goal)
       (lift_assumptions (aiger p1) (solver f) cs) (CaDiCaL_clear_act lf) = (res, l2)"
    by fastforce
  note q' = q [unfolded query_def lift_assumptions_def Let_def CaDiCaL_max_var_def [symmetric]]
  have us: "res = UNSAT"
    using r q' by (simp add: extract_state_from_sat_def u l f g cs Let_def split: if_splits)
  let ?sl = "filter (\<lambda>l. CaDiCaL_failed l l2)
     (sat_vals (solver f) (unprimed_first_dimacs + num_inputs (aiger p1)) (num_latches (aiger p1)))"
  let ?cpo = "(if findex \<noteq> 0
     then do { g \<leftarrow> vec_at (frames p1) (findex - 1); Some (has_included ?sl (cubes g)) } else Some False)"
  have r3: "do {
     cpo \<leftarrow> ?cpo;
     cs1 \<leftarrow> (if use_acc p1 \<and> cpo
       then score_core (aiger p1) (primed_first_dimacs (aiger p1)
         - (num_inputs (aiger p1) + num_latches (aiger p1) + 2)) l2
         (lift_assumptions (aiger p1) (solver f) cs) 0 0 cs else Some cs);
     upd_State s (\<lambda>st. st\<lparr>inputs := sat_vals (solver f) unprimed_first_dimacs (num_inputs (aiger p1)),
        latches := ?sl, State_next := succ\<rparr>)
      (p1\<lparr>aiger := a1, lift := Some (CaDiCaL_set_clear_act l2), heuristic_lit_cmp := Some cs1\<rparr>) } = Some p'"
    using r q' us
    by (simp add: extract_state_from_sat_def u l f g cs Let_def lift_assumptions_def
        split del: if_split cong: if_cong)
  then obtain cs1 where "upd_State s (\<lambda>st. st\<lparr>
        inputs := sat_vals (solver f) unprimed_first_dimacs (num_inputs (aiger p1)),
        latches := ?sl, State_next := succ\<rparr>)
      (p1\<lparr>aiger := a1, lift := Some (CaDiCaL_set_clear_act l2), heuristic_lit_cmp := Some cs1\<rparr>) = Some p'"
    by (auto simp: bind_eq_Some_conv simp del: fun_upd_apply)
  then show thesis using that [OF st l j(1,2) g] q us j(3) by blast
qed

definition lifted ::
  "Aiger \<Rightarrow> int list \<Rightarrow> int list \<Rightarrow> int list \<Rightarrow> (assignment \<Rightarrow> bool) \<Rightarrow> bool" where
  "lifted A sl ins pins P = (\<forall>\<sigma> \<sigma>'. tstep A False \<sigma> \<sigma>' \<longrightarrow> cube_true \<sigma> sl \<longrightarrow> cube_true \<sigma> ins \<longrightarrow>
     cube_true \<sigma>' pins \<longrightarrow> constr_ok A \<sigma> \<and> constr_ok A \<sigma>' \<and> P \<sigma>')"

definition succ_ok :: "Aiger \<Rightarrow> PDR \<Rightarrow> nat \<Rightarrow> nat option \<Rightarrow> bool" where
  "succ_ok A p s succ = (case succ of None \<Rightarrow> True
     | Some x \<Rightarrow> x \<noteq> s \<and> (\<exists>t. heap p x = Some t \<and> latch_cube A (latches t)))"

definition succ_goal :: "Aiger \<Rightarrow> PDR \<Rightarrow> nat option \<Rightarrow> assignment \<Rightarrow> bool" where
  "succ_goal A p succ \<sigma>' = (case succ of None \<Rightarrow> lit_val \<sigma>' (bad A)
     | Some x \<Rightarrow> cube_true \<sigma>' (latches (the (heap p x))))"

lemma load_lift_ok:
  assumes e: "eliminate_contract e" and inv: "pdr_inv A N G p" and r: "load_lift e p = Some (lf, p1)"
  obtains a m where "p1 = p\<lparr>aiger := a, satelite2 := m\<rparr>" "grow A a" "lift_solver_ok A lf"
proof (cases "lift p")
  case None
  then show thesis using encode_lift_ok [OF e inv None] r that by (auto simp: load_lift_def)
next
  case (Some s)
  then have p1: "p1 = p\<lparr>aiger := aiger p, satelite2 := satelite2 p\<rparr>" "lf = s"
    using r by (simp_all add: load_lift_def)
  moreover have "lift_solver_ok A s" using inv Some by (simp add: pdr_inv_def)
  ultimately show thesis using that [OF p1(1) pdr_invD(3) [OF inv]] by blast
qed

lemma leaf_vals:
  assumes wf: "wf_aig A" and em: "leaves_le A (emax s)"
  shows "l \<in> set (sat_vals s (unprimed_first_dimacs + num_inputs A) (num_latches A)) \<Longrightarrow> is_latch A \<bar>l\<bar>"
    "l \<in> set (sat_vals s unprimed_first_dimacs (num_inputs A)) \<Longrightarrow> is_leaf A \<bar>l\<bar> \<and> \<not> is_latch A \<bar>l\<bar>"
    "l \<in> set (sat_vals s (primed_first_dimacs A) (num_inputs A)) \<Longrightarrow>
       primed_first_dimacs A \<le> \<bar>l\<bar> \<and> \<bar>l\<bar> < primed_first_dimacs A + num_inputs A"
proof -
  note w = wf_aigD(1,2,6) [OF wf]
  show "is_latch A \<bar>l\<bar>" if "l \<in> set (sat_vals s (unprimed_first_dimacs + num_inputs A) (num_latches A))"
    using sat_vals_range [OF _ _ that] w em
    by (auto simp: is_latch_def leaves_le_def unprimed_first_dimacs_def)
  show "is_leaf A \<bar>l\<bar> \<and> \<not> is_latch A \<bar>l\<bar>" if "l \<in> set (sat_vals s unprimed_first_dimacs (num_inputs A))"
    using sat_vals_range [OF _ _ that] w em
    by (auto simp: is_latch_def is_leaf_def leaves_le_def unprimed_first_dimacs_def)
  show "primed_first_dimacs A \<le> \<bar>l\<bar> \<and> \<bar>l\<bar> < primed_first_dimacs A + num_inputs A"
    if "l \<in> set (sat_vals s (primed_first_dimacs A) (num_inputs A))"
    using sat_vals_range [OF _ _ that] w em by (auto simp: leaves_le_def)
qed

lemma lift_assumptions_set:
  assumes wf: "wf_aig A" and em: "leaves_le A (emax s)"
    and a: "num_inputs a = num_inputs A" "num_latches a = num_latches A"
      "primed_first_dimacs a = primed_first_dimacs A"
  shows "set (lift_assumptions a s cs) = set (sat_vals s unprimed_first_dimacs (num_inputs A))
     \<union> set (sat_vals s (primed_first_dimacs A) (num_inputs A))
     \<union> set (sat_vals s (unprimed_first_dimacs + num_inputs A) (num_latches A))"
proof -
  let ?d = "primed_first_dimacs A - (num_inputs A + num_latches A + 2)"
  let ?L = "set (sat_vals s (unprimed_first_dimacs + num_inputs A) (num_latches A))"
  have sh: "shift_assumption a ?d = shift_assumption A ?d" "input_assumptions a s ?d = input_assumptions A s ?d"
    by (simp_all add: shift_assumption_def fun_eq_iff input_assumptions_def a)
  have "shift_assumption A ?d l = l" if "l \<in> ?L" for l
    using leaf_vals(1) [OF wf em that] by (auto simp: shift_assumption_def is_latch_def)
  then have "shift_assumption A ?d ` ?L = ?L" by simp
  then show ?thesis
    using input_assumptions_set [OF wf em refl] sh
    by (simp add: lift_assumptions_def Let_def a image_Un set_stable_sort_by)
qed

lemma unprime_val:
  assumes A: "enc_inv A" and ag: "agrees A \<alpha> \<sigma> \<sigma>'"
    and l: "primed_first_dimacs A \<le> \<bar>l\<bar>" "\<bar>l\<bar> < primed_first_dimacs A + num_inputs A + num_latches A"
  shows "lit_val \<alpha> l = lit_val \<sigma>' (if 0 < l then l - (primed_first_dimacs A - unprimed_first_dimacs)
     else l + (primed_first_dimacs A - unprimed_first_dimacs))"
proof -
  note wf = enc_invD(2) [OF A]
  let ?v = "\<bar>l\<bar> - (primed_first_dimacs A - 2)"
  have leaf: "is_leaf A ?v" using l by (auto simp: is_leaf_def)
  have "primed A ?v = \<bar>l\<bar>" using primed_leaf [OF leaf] by simp
  moreover have "\<alpha> (primed A ?v) = \<sigma>' ?v" using ag leaf by (simp add: agrees_def)
  ultimately have v: "\<alpha> \<bar>l\<bar> = \<sigma>' ?v" by simp
  have "2 \<le> primed_first_dimacs A" using wf_aigD(1,2,6) [OF wf] by simp
  then have "l \<noteq> 0" using l by auto
  show ?thesis
  proof (cases "0 < l")
    case True
    then show ?thesis using v l wf_aigD(1,2,6) [OF wf] by (simp add: lit_val_def unprimed_first_dimacs_def)
  next
    case False
    then have "?v = - (l + (primed_first_dimacs A - 2))" by simp
    with v have "\<alpha> \<bar>l\<bar> = \<sigma>' (- (l + (primed_first_dimacs A - 2)))" by (simp only:)
    then show ?thesis using l False \<open>l \<noteq> 0\<close> by (auto simp: lit_val_def unprimed_first_dimacs_def)
  qed
qed

lemma lift_goal_ok:
  assumes A: "enc_inv A" and lc: "lift_cnf A N2 G2" and ga: "grow A a" and s: "succ_ok A p s succ"
    and g: "(case succ of None \<Rightarrow> Some ([- bad_prime a], a)
      | Some x \<Rightarrow> do { t \<leftarrow> heap p x; prime_lits (map uminus (latches t)) a }) = Some (goal, a1)"
  shows "a1 = a" "cube_le N2 goal"
    "agrees A \<alpha> \<sigma> \<sigma>' \<Longrightarrow> sat_clause \<alpha> goal = (\<not> succ_goal A p succ \<sigma>')"
proof -
  note lv = lc [unfolded lift_cnf_def, THEN conjunct2, THEN conjunct1]
  have bp: "bad_prime a = bad_prime A" using growD(3) [OF ga] .
  have bn: "bad_prime A \<noteq> 0" "\<bar>bad_prime A\<bar> \<le> N2"
    using A lit_val_plit(2,3) [OF enc_invD(1) [OF A], of "bad A"] lc by (auto simp: enc_inv_def lift_cnf_def)
  have "a1 = a \<and> cube_le N2 goal \<and> (agrees A \<alpha> \<sigma> \<sigma>' \<longrightarrow> sat_clause \<alpha> goal = (\<not> succ_goal A p succ \<sigma>'))"
  proof (cases succ)
    case None
    then show ?thesis
      using g bn bp by (auto simp: cube_le_def sat_simps succ_goal_def agrees_def)
  next
    case (Some x)
    then obtain t where t: "heap p x = Some t" "latch_cube A (latches t)" using s by (auto simp: succ_ok_def)
    have lat: "\<forall>l\<in>set (map uminus (latches t)). is_latch A \<bar>l\<bar>" using t(2) by (auto simp: latch_cube_def)
    have gl: "goal = map (plit A) (map uminus (latches t))" "a1 = a"
      using g Some t prime_lits_ok [OF A ga lat] by simp_all
    have pn: "plit A (- l) = - plit A l" if "l \<in> set (latches t)" for l
      using t(2) that latch_lit(1) [OF A lv, of l] by (auto simp: plit_def latch_cube_def)
    then have gl': "goal = map uminus (map (plit A) (latches t))" using gl by simp
    have z: "0 \<notin> set (map (plit A) (latches t))"
      using latch_cube_le(2) [OF A lv t(2)] by (auto simp: cube_le_def)
    have "sat_clause \<alpha> goal = (\<not> succ_goal A p succ \<sigma>')" if ag: "agrees A \<alpha> \<sigma> \<sigma>'"
      unfolding gl' sat_clause_negated_cube [OF z] using agrees_cube(2) [OF A ag t(2)] t(1) Some
      by (simp add: succ_goal_def)
    moreover have "cube_le N2 goal" using latch_cube_le(4) [OF A lv t(2)] gl' by simp
    ultimately show ?thesis using gl(2) by simp
  qed
  then show "a1 = a" "cube_le N2 goal"
    "agrees A \<alpha> \<sigma> \<sigma>' \<Longrightarrow> sat_clause \<alpha> goal = (\<not> succ_goal A p succ \<sigma>')" by simp_all
qed

lemma extract_ok:
  assumes e: "ipasir_contract e" "eliminate_contract e" and inv: "pdr_inv A N G p"
    and s: "succ_ok A p s succ" and r: "extract_state_from_sat e j s succ findex p = Some p'"
  defines "sat \<equiv> solver (frames p ! nat j)"
  obtains st sl a m lf h where "0 \<le> j" "nat j < length (frames p)" "heap p s = Some st"
    "p' = p\<lparr>satelite2 := m, aiger := a, lift := Some lf, heuristic_lit_cmp := h,
       heap := (heap p)(s \<mapsto> st\<lparr>inputs := sat_vals sat unprimed_first_dimacs (num_inputs A),
         latches := sl, State_next := succ\<rparr>)\<rparr>"
    "pdr_inv A N G p'" "latch_cube A sl"
    "set sl \<subseteq> set (sat_vals sat (unprimed_first_dimacs + num_inputs A) (num_latches A))"
    "lifted A sl (sat_vals sat unprimed_first_dimacs (num_inputs A))
       (unprime_vals A (sat_vals sat (primed_first_dimacs A) (num_inputs A))) (succ_goal A p succ)"
proof -
  note A = pdr_invD(1) [OF inv] and wf = pdr_invD(7) [OF inv]
  obtain st lf p1 goal a1 cs l2 cs1 where st: "heap p s = Some st"
    and lo: "load_lift e (p\<lparr>heap := (heap p)(s \<mapsto> State_clear st)\<rparr>) = Some (lf, p1)"
    and j: "0 \<le> j" "nat j < length (frames p1)"
    and g: "(case succ of None \<Rightarrow> Some ([- bad_prime (aiger p1)], aiger p1)
      | Some x \<Rightarrow> do { t \<leftarrow> heap p1 x; prime_lits (map uminus (latches t)) (aiger p1) }) = Some (goal, a1)"
    and q: "query e (map uminus (constraints (aiger p1)) @ map uminus (constraints_prime (aiger p1)) @ goal)
       (lift_assumptions (aiger p1) (solver (frames p1 ! nat j)) cs) (CaDiCaL_clear_act lf) = (UNSAT, l2)"
    and up: "upd_State s (\<lambda>st. st\<lparr>
        inputs := sat_vals (solver (frames p1 ! nat j)) unprimed_first_dimacs (num_inputs (aiger p1)),
        latches := filter (\<lambda>l. CaDiCaL_failed l l2) (sat_vals (solver (frames p1 ! nat j))
          (unprimed_first_dimacs + num_inputs (aiger p1)) (num_latches (aiger p1))),
        State_next := succ\<rparr>)
      (p1\<lparr>aiger := a1, lift := Some (CaDiCaL_set_clear_act l2), heuristic_lit_cmp := Some cs1\<rparr>) = Some p'"
    by (rule extract_cases [OF r])
  let ?p0 = "p\<lparr>heap := (heap p)(s \<mapsto> State_clear st)\<rparr>"
  have inv0: "pdr_inv A N G ?p0" using inv st by (auto simp: pdr_inv_def encodes_def)
  obtain a m where p1: "p1 = ?p0\<lparr>aiger := a, satelite2 := m\<rparr>" and ga: "grow A a"
    and lok: "lift_solver_ok A lf"
    by (rule load_lift_ok [OF e(2) inv0 lo])
  note c = circD [OF growD(1) [OF ga]]
  obtain N2 G2 where lc: "lift_cnf A N2 G2" and l0: "solver_ok G2 N2 {} (CaDiCaL_clear_act lf)"
    using lok clear_act_ok(1) unfolding lift_solver_ok_def by blast
  have lv: "leaves_le A N2" and bo: "base_ok N2 G2" and ec: "enc_complete A False G2"
    using lc by (auto simp: lift_cnf_def)
  have j': "nat j < length (frames p)" using j p1 by simp
  have sat: "solver (frames p1 ! nat j) = sat" by (simp add: p1 sat_def)
  have em: "leaves_le A (emax sat)"
    using frames_solver [OF pdr_invD(5) [OF inv] j'] pdr_invD(6) [OF inv]
    by (auto simp: sat_def solver_ok_def leaves_le_def)
  let ?ins = "sat_vals sat unprimed_first_dimacs (num_inputs A)"
  let ?pin = "sat_vals sat (primed_first_dimacs A) (num_inputs A)"
  let ?ls = "sat_vals sat (unprimed_first_dimacs + num_inputs A) (num_latches A)"
  let ?sl = "filter (\<lambda>l. CaDiCaL_failed l l2) ?ls"
  let ?as = "lift_assumptions a sat cs"
  let ?c = "map uminus (constraints A) @ map uminus (constraints_prime A) @ goal"
  have q': "query e ?c ?as (CaDiCaL_clear_act lf) = (UNSAT, l2)"
    using q c(7) growD(4) [OF ga] by (simp add: p1 sat_def)
  have as: "set ?as = set ?ins \<union> set ?pin \<union> set ?ls"
    using lift_assumptions_set [OF wf em] c by simp
  have sp: "succ_ok A p1 s succ" "succ_goal A p1 succ = succ_goal A p succ"
    using s by (auto simp: succ_ok_def succ_goal_def p1 fun_eq_iff split: option.splits)
  have ap1: "aiger p1 = a" by (simp add: p1)
  note go = lift_goal_ok [OF A lc ga sp(1) g [unfolded ap1]]
  have cle: "cube_le N2 ?c"
  proof -
    have "l \<noteq> 0 \<and> \<bar>l\<bar> \<le> N2" if "l \<in> set (constraints A)" for l
      using lit_in_simps(1) [OF wf that] lv wf_aigD(1,2,6) [OF wf] by (auto simp: lit_in_def leaves_le_def)
    moreover have "l \<noteq> 0 \<and> \<bar>l\<bar> \<le> N2" if l: "l \<in> set (constraints_prime A)" for l
    proof -
      obtain k where k: "k \<in> set (constraints A)" "l = plit A k" using l enc_invD(3) [OF A] by auto
      then have "has_prime A \<bar>k\<bar>" using A by (simp add: enc_inv_def)
      from lit_val_plit(2,3) [OF enc_invD(1) [OF A] this] show ?thesis
        using k(2) lc unfolding lift_cnf_def by linarith
    qed
    ultimately show ?thesis using go(2) by (auto simp: cube_le_def)
  qed
  have asl: "cube_le N2 ?as"
    using as leaf_vals [OF wf em] lv wf_aigD(1,2,6) [OF wf]
    by (fastforce simp: cube_le_def is_leaf_def is_latch_def leaves_le_def)
  then have as0: "0 \<notin> set ?as" by (auto simp: cube_le_def)
  have lat: "latch_cube A ?ls" using leaf_vals(1) [OF wf em] by (simp add: latch_cube_def)
  have lift: "lifted A ?sl ?ins (unprime_vals A ?pin) (succ_goal A p succ)"
  proof (unfold lifted_def, intro allI impI)
    fix \<sigma> \<sigma>'
    assume t: "tstep A False \<sigma> \<sigma>'" and h: "cube_true \<sigma> ?sl" "cube_true \<sigma> ?ins"
      "cube_true \<sigma>' (unprime_vals A ?pin)"
    obtain \<alpha> where \<alpha>: "sat_cnf \<alpha> G2" "agrees A \<alpha> \<sigma> \<sigma>'"
      using ec t unfolding enc_complete_def by blast
    have "lit_val \<alpha> l" if l: "l \<in> set ?as" "CaDiCaL_failed l l2" for l
    proof -
      consider "l \<in> set ?ins" | "l \<in> set ?pin" | "l \<in> set ?ls" using l(1) as by blast
      then show ?thesis
      proof cases
        case 1
        then have "\<alpha> \<bar>l\<bar> = \<sigma> \<bar>l\<bar>" using leaf_vals(2) [OF wf em 1] \<alpha>(2) by (simp add: agrees_def)
        then show ?thesis using h(2) 1 lit_val_cong [of \<alpha> l \<sigma>] by (simp add: cube_true_set)
      next
        case 2
        have "lit_val \<sigma>' (if 0 < l then l - (primed_first_dimacs A - unprimed_first_dimacs)
            else l + (primed_first_dimacs A - unprimed_first_dimacs))"
          using h(3) 2 by (auto simp: cube_true_set unprime_vals_def)
        then show ?thesis
          using unprime_val [OF A \<alpha>(2), of l] leaf_vals(3) [OF wf em 2] wf_aigD(2) [OF wf] by simp
      next
        case 3
        then have "l \<in> set ?sl" using l(2) by simp
        then have "lit_val \<sigma> l" using h(1) by (simp add: cube_true_set)
        moreover have "\<alpha> \<bar>l\<bar> = \<sigma> \<bar>l\<bar>"
          using leaf_vals(1) [OF wf em 3] latch_is_leaf [OF _ wf] \<alpha>(2) by (simp add: agrees_def)
        ultimately show ?thesis using lit_val_cong [of \<alpha> l \<sigma>] by simp
      qed
    qed
    then have "cube_true \<alpha> (filter (\<lambda>l. CaDiCaL_failed l l2) ?as)" by (simp add: cube_true_set)
    then have "\<not> sat_clause \<alpha> ?c"
      using query_ok(4) [OF e(1) l0 bo cle as0 q' refl asl _ \<alpha>(1)] by (auto simp: avoids_def)
    then have "\<not> sat_clause \<alpha> (map uminus (constraints A))"
      "\<not> sat_clause \<alpha> (map uminus (constraints_prime A))" "\<not> sat_clause \<alpha> goal"
      by (simp_all add: sat_simps)
    moreover have "0 \<notin> set (constraints A)" "0 \<notin> set (constraints_prime A)"
      using cle by (auto simp: cube_le_def)
    ultimately show "constr_ok A \<sigma> \<and> constr_ok A \<sigma>' \<and> succ_goal A p succ \<sigma>'"
      using sat_clause_negated_cube constraints_prime_agree(2,3) [OF A \<alpha>(2)] go(3) [OF \<alpha>(2)] sp(2) by simp
  qed
  have p': "p' = p\<lparr>satelite2 := m, aiger := a, lift := Some (CaDiCaL_set_clear_act l2),
       heuristic_lit_cmp := Some cs1,
       heap := (heap p)(s \<mapsto> st\<lparr>inputs := ?ins, latches := ?sl, State_next := succ\<rparr>)\<rparr>"
    using up c(1,2) go(1)
    by (simp add: upd_State_def p1 State_clear_def sat_def)
  have l2: "solver_ok G2 N2 {} l2" "nv (CaDiCaL_clear_act lf) < nv l2"
    using query_ok(1,2) [OF e(1) l0 bo cle as0 q'] .
  have "lift_solver_ok A (CaDiCaL_set_clear_act l2)"
    using lc l2 l0 unfolding lift_solver_ok_def
    by (intro exI [of _ N2] exI [of _ G2]) (auto simp: CaDiCaL_set_clear_act_def solver_ok_def)
  then have "pdr_inv A N G p'" using inv ga st by (auto simp: p' pdr_inv_def encodes_def)
  moreover have "latch_cube A ?sl" using latch_cube_mono [OF lat] by simp
  ultimately show thesis using that [OF j(1) j' st p'] lift by simp
qed

end
