(* ===== verification/PDR_Sem.thy ===== *)
theory PDR_Sem
  imports PDR_Lift
begin

text \<open>
  The meaning of proof obligations. A cube is \<open>doomed\<close> when every state in it can run into a
  bad state, and \<open>blockable\<close> at level k when no state of frame k without a bad successor of
  its own lies in it. Both hold of every lifted state, and pass from a cube to the states
  lifted as its predecessors. Lifting encodes \<^verbatim>\<open>-bad\<close> but not the constraints of the lifted
  state; \<open>bad_valid\<close> names what that needs: the constraints hold wherever bad does. Circuits without
  constraints meet it; the theorems on the answers of PDR carry it as a hypothesis.
\<close>

section \<open>Runs into bad states\<close>

definition bad_valid :: "Aiger \<Rightarrow> bool" where
  "bad_valid A = (\<forall>\<sigma>. gates_ok A \<sigma> \<longrightarrow> lit_val \<sigma> (bad A) \<longrightarrow> constr_ok A \<sigma>)"

lemma no_constraints_bad_valid: "constraints A = [] \<Longrightarrow> bad_valid A"
  by (simp add: bad_valid_def constr_ok_def)

definition same_latches :: "Aiger \<Rightarrow> assignment \<Rightarrow> assignment \<Rightarrow> bool" where
  "same_latches A \<sigma> \<tau> = (\<forall>v. is_latch A v \<longrightarrow> \<sigma> v = \<tau> v)"

fun goes_bad :: "Aiger \<Rightarrow> nat \<Rightarrow> assignment \<Rightarrow> bool" where
  "goes_bad A 0 \<sigma> = (\<exists>\<tau>. same_latches A \<sigma> \<tau> \<and> valid A \<tau> \<and> lit_val \<tau> (bad A))"
| "goes_bad A (Suc n) \<sigma> = (\<exists>\<tau>. same_latches A \<sigma> \<tau> \<and> valid A \<tau>
     \<and> (lit_val \<tau> (bad A) \<or> (\<exists>\<sigma>'. next_ok A \<tau> \<sigma>' \<and> goes_bad A n \<sigma>')))"

definition doomed :: "Aiger \<Rightarrow> int list \<Rightarrow> bool" where
  "doomed A q = (\<forall>\<sigma>. cube_true \<sigma> q \<longrightarrow> (\<exists>n. goes_bad A n \<sigma>))"

definition calm :: "Aiger \<Rightarrow> assignment \<Rightarrow> bool" where
  "calm A \<sigma> = (\<forall>\<tau>. same_latches A \<sigma> \<tau> \<longrightarrow> valid A \<tau> \<longrightarrow> \<not> lit_val \<tau> (bad A))"

definition blockable :: "Aiger \<Rightarrow> Frame list \<Rightarrow> nat \<Rightarrow> int list \<Rightarrow> bool" where
  "blockable A fs k q = (\<forall>\<sigma>. valid A \<sigma> \<longrightarrow> in_frame A fs k \<sigma> \<longrightarrow> calm A \<sigma> \<longrightarrow> \<not> cube_true \<sigma> q)"

definition top_safe :: "Aiger \<Rightarrow> Frame list \<Rightarrow> nat \<Rightarrow> bool" where
  "top_safe A fs k = (\<forall>\<sigma> \<sigma>'. in_frame A fs k \<sigma> \<longrightarrow> vstep A \<sigma> \<sigma>' \<longrightarrow> \<not> lit_val \<sigma>' (bad A))"

lemma same_latches_cube: "latch_cube A q \<Longrightarrow> same_latches A \<sigma> \<tau> \<Longrightarrow> cube_true \<sigma> q = cube_true \<tau> q"
proof -
  assume "latch_cube A q" "same_latches A \<sigma> \<tau>"
  then have "lit_val \<sigma> l = lit_val \<tau> l" if "l \<in> set q" for l
    using that by (intro lit_val_cong) (auto simp: latch_cube_def same_latches_def)
  then show ?thesis by (simp add: cube_true_set)
qed

lemma same_latches_in_frame:
  assumes "wf_aig A" "frames_ok A N G fs" "same_latches A \<sigma> \<tau>"
  shows "in_frame A fs j \<sigma> = in_frame A fs j \<tau>"
proof (cases "j = 0")
  case True
  then show ?thesis
    using init_ok_agree [OF assms(1), of \<sigma> \<tau>] assms(3) by (simp add: in_frame_def same_latches_def)
next
  case False
  have "cube_true \<sigma> q = cube_true \<tau> q" if "q \<in> blocked fs j" for q
    using same_latches_cube [OF frames_latch [OF assms(2) that] assms(3)] .
  then show ?thesis using False by (simp add: in_frame_def avoids_def)
qed

lemma reach_goes_bad:
  assumes wf: "wf_aig A" and "goes_bad A n \<sigma>'" "reach A k \<sigma>" "next_ok A \<sigma> \<sigma>'"
  shows "\<exists>m. unsafe_at A (bad A) m"
  using assms(2-4)
proof (induction n arbitrary: \<sigma> \<sigma>' k)
  case 0
  then obtain \<tau> where \<tau>: "same_latches A \<sigma>' \<tau>" "valid A \<tau>" "lit_val \<tau> (bad A)" by auto
  have "next_ok A \<sigma> \<tau>"
    using next_ok_agree_right [OF wf, of \<sigma>' \<tau>] \<tau>(1) 0 by (auto simp: same_latches_def)
  then show ?case using reach_step [OF 0(2) _ \<tau>(2)] \<tau>(3) by (auto simp: unsafe_at_def)
next
  case (Suc n)
  then obtain \<tau> where \<tau>: "same_latches A \<sigma>' \<tau>" "valid A \<tau>"
    "lit_val \<tau> (bad A) \<or> (\<exists>\<rho>. next_ok A \<tau> \<rho> \<and> goes_bad A n \<rho>)" by auto
  have "next_ok A \<sigma> \<tau>"
    using next_ok_agree_right [OF wf, of \<sigma>' \<tau>] \<tau>(1) Suc.prems(3) by (auto simp: same_latches_def)
  then have "reach A (Suc k) \<tau>" using reach_step [OF Suc.prems(2) _ \<tau>(2)] by blast
  then show ?case using \<tau>(3) Suc.IH by (auto simp: unsafe_at_def)
qed

section \<open>Frames\<close>

lemma init_in_frame:
  assumes ok: "frames_ok A N G fs" and v: "valid A \<sigma>" "init_ok A \<sigma>"
  shows "in_frame A fs j \<sigma>"
proof -
  have "\<not> cube_true \<sigma> q" if q: "q \<in> blocked fs j" for q
  proof -
    obtain i where "i < length fs" "q \<in> set (cubes (fs ! i))" using q by (auto simp: blocked_def)
    then have "init_disjoint A q" using ok by (auto simp: frames_ok_def frame_ok_def cube_ok_def)
    then show ?thesis using v by (simp add: init_disjoint_def)
  qed
  then show ?thesis using v by (simp add: in_frame_def avoids_def)
qed

lemma frame_mono:
  assumes ok: "frames_ok A N G fs" and v: "valid A \<sigma>" "in_frame A fs i \<sigma>" and ij: "i \<le> j"
  shows "in_frame A fs j \<sigma>"
proof (cases "i = 0")
  case True
  then show ?thesis using init_in_frame [OF ok v(1)] v(2) by (simp add: in_frame_def)
next
  case False
  have "blocked fs j \<subseteq> blocked fs i" unfolding blocked_def using ij by (intro UN_mono) auto
  then show ?thesis using v(2) ij False by (auto simp: in_frame_def avoids_def)
qed

lemma consecution:
  assumes ok: "frames_ok A N G fs" and R: "in_frame A fs i \<sigma>" and st: "vstep A \<sigma> \<sigma>'"
  shows "in_frame A fs (Suc i) \<sigma>'"
proof -
  have "\<not> cube_true \<sigma>' q" if q: "q \<in> blocked fs (Suc i)" for q
  proof -
    obtain j where j: "Suc i \<le> j" "j < length fs" "q \<in> set (cubes (fs ! j))"
      using q by (auto simp: blocked_def)
    then have "excluded A (in_frame A fs (j - 1)) q"
      using ok by (auto simp: frames_ok_def frame_ok_def cube_ok_def)
    moreover have "in_frame A fs (j - 1) \<sigma>"
      using frame_mono [OF ok _ R, of "j - 1"] vstep_valid [OF st] j(1) by simp
    ultimately show ?thesis using st by (simp add: excluded_def)
  qed
  then show ?thesis by (simp add: in_frame_def avoids_def)
qed

lemma top_safe_mono:
  assumes "frames_ok A N G fs" "top_safe A fs j" "i \<le> j"
  shows "top_safe A fs i"
  unfolding top_safe_def
proof (intro allI impI)
  fix \<sigma> \<sigma>'
  assume "in_frame A fs i \<sigma>" and st: "vstep A \<sigma> \<sigma>'"
  then have "in_frame A fs j \<sigma>" using frame_mono [OF assms(1) _ _ assms(3)] vstep_valid [OF st] by blast
  then show "\<not> lit_val \<sigma>' (bad A)" using assms(2) st by (simp add: top_safe_def)
qed

lemma vstep_same_latches:
  assumes "wf_aig A" "vstep A \<sigma> \<sigma>'" "same_latches A \<sigma>' \<tau>" "valid A \<tau>"
  shows "vstep A \<sigma> \<tau>"
  using assms next_ok_agree_right [OF assms(1), of \<sigma>' \<tau> \<sigma>]
  by (auto simp: vstep_def tstep_def valid_def same_latches_def)

lemma top_safe_calm:
  assumes "wf_aig A" "top_safe A fs i" "in_frame A fs i \<sigma>" "vstep A \<sigma> \<sigma>'"
  shows "calm A \<sigma>'"
  using assms vstep_same_latches [OF assms(1,4)] unfolding calm_def top_safe_def by blast

lemma blockable_init_disjoint:
  assumes wf: "wf_aig A" and ok: "frames_ok A N G fs" and "init_good A" and "blockable A fs k q"
  shows "init_disjoint A q"
proof (unfold init_disjoint_def, intro allI impI)
  fix \<sigma>
  assume v: "valid A \<sigma>" "init_ok A \<sigma>"
  have "calm A \<sigma>"
    using init_ok_agree [OF wf, of \<sigma>] v(2) assms(3) unfolding calm_def init_good_def same_latches_def by blast
  then show "\<not> cube_true \<sigma> q" using assms(4) v init_in_frame [OF ok v] by (simp add: blockable_def)
qed

section \<open>Lifted states\<close>

definition input_lits :: "Aiger \<Rightarrow> int list \<Rightarrow> bool" where
  "input_lits A ins = ((\<forall>l\<in>set ins. is_leaf A \<bar>l\<bar> \<and> \<not> is_latch A \<bar>l\<bar>) \<and> (\<exists>\<iota>. cube_true \<iota> ins))"

text \<open>A state with the latches of \<open>\<sigma>\<close> and the recorded inputs, and its successor.\<close>

lemma lifted_step:
  assumes wf: "wf_aig A" and l: "lifted A sl ins pins P" and sl: "latch_cube A sl"
    and i: "input_lits A ins" "input_lits A pins" and t: "cube_true \<sigma> sl"
  obtains \<tau> \<sigma>' where "same_latches A \<sigma> \<tau>" "gates_ok A \<tau>" "cube_true \<tau> ins"
    "lit_val \<tau> (bad A) \<or> (tstep A False \<tau> \<sigma>' \<and> constr_ok A \<tau> \<and> constr_ok A \<sigma>' \<and> P \<sigma>')"
proof -
  obtain \<iota> \<iota>' where \<iota>: "cube_true \<iota> ins" "cube_true \<iota>' pins" using i by (auto simp: input_lits_def)
  let ?\<tau> = "completed A (\<lambda>v. if is_latch A v then \<sigma> v else \<iota> v)"
  let ?\<sigma>' = "next_latches A ?\<tau> \<iota>'"
  have g: "gates_ok A ?\<tau>" by (rule complete_gates_ok [OF wf])
  have sm: "same_latches A \<sigma> ?\<tau>"
    using complete_leaf [OF wf] latch_is_leaf [OF _ wf] by (simp add: same_latches_def)
  have "lit_val ?\<tau> l = lit_val \<iota> l" if "l \<in> set ins" for l
    using i(1) that complete_leaf [OF wf] by (intro lit_val_cong) (simp add: input_lits_def)
  then have ti: "cube_true ?\<tau> ins" using \<iota>(1) by (simp add: cube_true_set)
  have "lit_val ?\<sigma>' l = lit_val \<iota>' l" if "l \<in> set pins" for l
    using i(2) that next_latches_ok(3) [OF wf] by (intro lit_val_cong) (simp add: input_lits_def)
  then have tp: "cube_true ?\<sigma>' pins" using \<iota>(2) by (simp add: cube_true_set)
  have ts: "cube_true ?\<tau> sl" using same_latches_cube [OF sl sm] t by simp
  show thesis
  proof (cases "lit_val ?\<tau> (bad A)")
    case True
    then show thesis using that [OF sm g ti] by blast
  next
    case False
    then have st: "tstep A False ?\<tau> ?\<sigma>'" using g next_latches_ok [OF wf] by (simp add: tstep_def)
    then have "constr_ok A ?\<tau> \<and> constr_ok A ?\<sigma>' \<and> P ?\<sigma>'" using l ts ti tp unfolding lifted_def by blast
    then show thesis using that [OF sm g ti] st by blast
  qed
qed

lemma lifted_doomed:
  assumes wf: "wf_aig A" and bv: "bad_valid A" and l: "lifted A sl ins pins P" "latch_cube A sl"
    "input_lits A ins" "input_lits A pins"
    and P: "\<And>\<sigma>'. valid A \<sigma>' \<Longrightarrow> P \<sigma>' \<Longrightarrow> \<exists>n. goes_bad A n \<sigma>'"
  shows "doomed A sl"
proof (unfold doomed_def, intro allI impI)
  fix \<sigma>
  assume "cube_true \<sigma> sl"
  then obtain \<tau> \<sigma>' where t: "same_latches A \<sigma> \<tau>" "gates_ok A \<tau>" "cube_true \<tau> ins"
    "lit_val \<tau> (bad A) \<or> (tstep A False \<tau> \<sigma>' \<and> constr_ok A \<tau> \<and> constr_ok A \<sigma>' \<and> P \<sigma>')"
    by (rule lifted_step [OF wf l])
  show "\<exists>n. goes_bad A n \<sigma>"
  proof (cases "lit_val \<tau> (bad A)")
    case True
    then have "goes_bad A 0 \<sigma>" using t(1,2) bv by (auto simp: valid_def bad_valid_def)
    then show ?thesis by blast
  next
    case False
    then have s: "next_ok A \<tau> \<sigma>'" "valid A \<tau>" "valid A \<sigma>'" "P \<sigma>'"
      using t by (auto simp: tstep_def valid_def)
    obtain n where "goes_bad A n \<sigma>'" using P s(3,4) by blast
    then have "goes_bad A (Suc n) \<sigma>" using t(1) s(1,2) by auto
    then show ?thesis by blast
  qed
qed

lemma lifted_blockable:
  assumes wf: "wf_aig A" and bv: "bad_valid A" and ok: "frames_ok A N G fs"
    and l: "lifted A sl ins pins P" "latch_cube A sl" "input_lits A ins" "input_lits A pins"
    and P: "\<And>\<tau> \<sigma>'. in_frame A fs k \<tau> \<Longrightarrow> vstep A \<tau> \<sigma>' \<Longrightarrow> \<not> P \<sigma>'"
  shows "blockable A fs k sl"
proof (unfold blockable_def, intro allI impI notI)
  fix \<sigma>
  assume v: "valid A \<sigma>" and R: "in_frame A fs k \<sigma>" and c: "calm A \<sigma>" and sl: "cube_true \<sigma> sl"
  obtain \<tau> \<sigma>' where t: "same_latches A \<sigma> \<tau>" "gates_ok A \<tau>" "cube_true \<tau> ins"
    "lit_val \<tau> (bad A) \<or> (tstep A False \<tau> \<sigma>' \<and> constr_ok A \<tau> \<and> constr_ok A \<sigma>' \<and> P \<sigma>')"
    using lifted_step [OF wf l sl] by blast
  have "\<not> lit_val \<tau> (bad A)" using c t(1,2) bv by (auto simp: calm_def valid_def bad_valid_def)
  then have "vstep A \<tau> \<sigma>'" "P \<sigma>'" using t by (auto simp: vstep_def tstep_def)
  moreover have "in_frame A fs k \<tau>" using same_latches_in_frame [OF wf ok t(1)] R by simp
  ultimately show False using P by blast
qed

text \<open>Predecessors of a blockable cube are blockable one level down.\<close>

lemma pred_blockable:
  assumes wf: "wf_aig A" and bv: "bad_valid A" and ok: "frames_ok A N G fs"
    and l: "lifted A sl ins pins (\<lambda>\<sigma>'. cube_true \<sigma>' q)" "latch_cube A sl" "input_lits A ins"
      "input_lits A pins"
    and b: "blockable A fs (Suc k) q" and top: "top_safe A fs k"
  shows "blockable A fs k sl"
proof (rule lifted_blockable [OF wf bv ok l])
  fix \<tau> \<sigma>'
  assume R: "in_frame A fs k \<tau>" and st: "vstep A \<tau> \<sigma>'"
  have "valid A \<sigma>'" "in_frame A fs (Suc k) \<sigma>'" "calm A \<sigma>'"
    using vstep_valid [OF st] consecution [OF ok R st] top_safe_calm [OF wf top R st] by blast+
  then show "\<not> cube_true \<sigma>' q" using b by (simp add: blockable_def)
qed

lemma sat_vals_inputs:
  assumes wf: "wf_aig A" and em: "leaves_le A (emax s)"
  shows "input_lits A (sat_vals s unprimed_first_dimacs (num_inputs A))"
    "input_lits A (unprime_vals A (sat_vals s (primed_first_dimacs A) (num_inputs A)))"
proof -
  note w = wf_aigD(1,2,6) [OF wf]
  let ?i = "sat_vals s unprimed_first_dimacs (num_inputs A)"
  let ?p = "sat_vals s (primed_first_dimacs A) (num_inputs A)"
  let ?d = "primed_first_dimacs A - unprimed_first_dimacs"
  have b: "unprimed_first_dimacs + num_inputs A - 1 \<le> emax s" "primed_first_dimacs A + num_inputs A - 1 \<le> emax s"
    using w em by (auto simp: leaves_le_def unprimed_first_dimacs_def)
  have one: "1 \<le> unprimed_first_dimacs" "1 \<le> primed_first_dimacs A"
    using w by (auto simp: unprimed_first_dimacs_def)
  have "\<exists>\<iota>. cube_true \<iota> ?i \<and> cube_true (\<lambda>v. \<iota> v) ?p"
  proof (cases "answer s")
    case (Sat \<alpha>)
    show ?thesis
      using sat_vals_eq [OF one(1) b(1) Sat] sat_vals_eq [OF one(2) b(2) Sat] one
      by (intro exI [of _ \<alpha>]) (auto simp: cube_true_set lit_val_def add.commute)
  qed (auto simp: sat_vals_def CaDiCaL_val_def cube_true_set)
  then obtain \<iota> where \<iota>: "cube_true \<iota> ?i" "cube_true \<iota> ?p" by auto
  show "input_lits A ?i" using leaf_vals(2) [OF wf em] \<iota>(1) by (auto simp: input_lits_def)
  have r: "primed_first_dimacs A \<le> \<bar>l\<bar>" "\<bar>l\<bar> < primed_first_dimacs A + num_inputs A" if "l \<in> set ?p" for l
    using leaf_vals(3) [OF wf em that] by simp_all
  have "cube_true (\<lambda>v. \<iota> (v + ?d)) (unprime_vals A ?p)"
  proof (unfold cube_true_set, rule ballI)
    fix k
    assume "k \<in> set (unprime_vals A ?p)"
    then obtain l where l: "l \<in> set ?p" "k = (if 0 < l then l - ?d else l + ?d)"
      by (auto simp: unprime_vals_def)
    have "lit_val \<iota> l" using \<iota>(2) l(1) by (simp add: cube_true_set)
    then show "lit_val (\<lambda>v. \<iota> (v + ?d)) k"
      using l(2) r [OF l(1)] w one by (auto simp: lit_val_def unprimed_first_dimacs_def split: if_splits)
  qed
  moreover have "is_leaf A \<bar>k\<bar> \<and> \<not> is_latch A \<bar>k\<bar>" if k: "k \<in> set (unprime_vals A ?p)" for k
  proof -
    obtain l where l: "l \<in> set ?p" "k = (if 0 < l then l - ?d else l + ?d)"
      using k by (auto simp: unprime_vals_def)
    then show ?thesis using r [OF l(1)] w
      by (auto simp: is_leaf_def is_latch_def unprimed_first_dimacs_def split: if_splits)
  qed
  ultimately show "input_lits A (unprime_vals A ?p)" by (auto simp: input_lits_def)
qed

end
