(* ===== verification/PDR_Gen.thy ===== *)
theory PDR_Gen
  imports PDR_Sem
begin

text \<open>
  Generalisation of blocked cubes (\<^verbatim>\<open>mic\<close>, \<^verbatim>\<open>CTG_down\<close>, \<^verbatim>\<open>generalize\<close>): what comes back is a part
  of the cube that went in, contains no initial state, and is still inductive relative to
  the frame; the frames only shrink meanwhile.
\<close>

lemma rel_ind_evolves: "rel_ind A (frames p) k q r \<Longrightarrow> evolves A p p' \<Longrightarrow> rel_ind A (frames p') k q r"
  unfolding rel_ind_def evolves_def by blast

lemma rel_ind_core: "rel_ind A fs k ls c \<Longrightarrow> set c \<subseteq> set ls \<Longrightarrow> rel_ind A fs k c c"
  using cube_true_mono [of c ls] unfolding rel_ind_def by blast

lemma rel_ind_same: "same_cubes p p' \<Longrightarrow> rel_ind A (frames p') = rel_ind A (frames p)"
  using same_cubesD(3) [of p p'] by (simp add: rel_ind_def fun_eq_iff)

text \<open>A cube that a query found inductive: what may be blocked one level up.\<close>

definition ind_cube :: "Aiger \<Rightarrow> PDR \<Rightarrow> int \<Rightarrow> Cube \<Rightarrow> bool" where
  "ind_cube A p k c = (latch_cube A c \<and> init_disjoint A c \<and> 0 \<le> k \<and> rel_ind A (frames p) (nat k) c c)"

lemma ind_cube_evolves: "ind_cube A p k c \<Longrightarrow> evolves A p p' \<Longrightarrow> ind_cube A p' k c"
  using rel_ind_evolves by (auto simp: ind_cube_def)

lemma ind_cube_set: "ind_cube A p k c \<Longrightarrow> set d = set c \<Longrightarrow> ind_cube A p k d"
  by (simp add: ind_cube_def latch_cube_def init_disjoint_def rel_ind_def cube_true_set)

lemma ind_cube_upd: "ind_cube A (p\<lparr>shuffles := x\<rparr>) = ind_cube A p" "ind_cube A (p\<lparr>core := y\<rparr>) = ind_cube A p"
  "ind_cube A (p\<lparr>obligation_queue := z\<rparr>) = ind_cube A p"
  by (simp_all add: ind_cube_def fun_eq_iff)

lemma is_inductive_core:
  assumes e: "ipasir_contract e" and inv: "pdr_inv A N G p" and ls: "latch_cube A ls" "init_disjoint A ls"
    and r: "is_inductive e j ls True ra p = Some (True, p')"
  shows "ind_cube A p' j (core p')" "set (core p') \<subseteq> set ls"
    "\<not> length (core p') < length ls \<Longrightarrow> core p' = ls"
proof -
  note k = is_inductive_ok [OF e inv ls(1) r]
  have c: "set (core p') \<subseteq> set ls" "length (core p') \<le> length ls"
    "length (core p') = length ls \<longrightarrow> core p' = ls" "rel_ind A (frames p) (nat j) ls (core p')"
    "init_disjoint A (core p')"
    using k(5) ls(2) by simp_all
  show "set (core p') \<subseteq> set ls" "\<not> length (core p') < length ls \<Longrightarrow> core p' = ls" using c by auto
  show "ind_cube A p' j (core p')"
    using c k(3) rel_ind_core [OF c(4,1)] rel_ind_same [OF k(2)] latch_cube_mono [OF ls(1) c(1)]
    by (simp add: ind_cube_def)
qed

lemma push_frames_ok:
  assumes e: "ipasir_contract e"
  shows "push_frames e q [a..D] kend p = Some (i, p') \<Longrightarrow> pdr_inv A N G p \<Longrightarrow> latch_cube A q \<Longrightarrow> 1 \<le> a \<Longrightarrow>
    rel_ind A (frames p) (nat (a - 1)) q q \<Longrightarrow> kend = max a (D + 1) \<Longrightarrow>
    pdr_inv A N G p' \<and> same_cubes p p' \<and> core p' = core p \<and> a \<le> i \<and> i \<le> max a (D + 1)
      \<and> rel_ind A (frames p) (nat (i - 1)) q q"
proof (induction "nat (D + 1 - a)" arbitrary: a p)
  case 0
  then show ?case by simp
next
  case (Suc n)
  then have aD: "a \<le> D" by simp
  then have l: "[a..D] = a # [a + 1..D]" by (simp add: upto_rec1)
  obtain b p1 where p1: "is_inductive e a q False True p = Some (b, p1)"
    and r: "(if b then push_frames e q [a + 1..D] kend p1 else Some (a, p1)) = Some (i, p')"
    using Suc.prems(1) unfolding l by (auto simp: bind_eq_Some_conv)
  note k = is_inductive_ok [OF e Suc.prems(2,3) p1]
  have c1: "core p1 = core p" using k(7) by simp
  show ?case
  proof (cases b)
    case False
    then show ?thesis using r k c1 Suc.prems aD by auto
  next
    case True
    have n: "n = nat (D + 1 - (a + 1))" using Suc(2) by simp
    have rel: "rel_ind A (frames p) (nat a) q q" using k(6) True by simp
    have "pdr_inv A N G p' \<and> same_cubes p1 p' \<and> core p' = core p1 \<and> a + 1 \<le> i \<and> i \<le> max (a + 1) (D + 1)
      \<and> rel_ind A (frames p1) (nat (i - 1)) q q"
    proof (rule Suc.hyps(1) [OF n])
      show "push_frames e q [a + 1..D] kend p1 = Some (i, p')" using r True by simp
      show "rel_ind A (frames p1) (nat (a + 1 - 1)) q q" using rel rel_ind_same [OF k(2)] by simp
      show "kend = max (a + 1) (D + 1)" using Suc.prems(6) aD by simp
    qed (use k Suc.prems in auto)
    then show ?thesis using same_cubes_trans [OF k(2)] c1 rel_ind_same [OF k(2)] aD by auto
  qed
qed

lemma push_from_ok:
  assumes e: "ipasir_contract e" and inv: "pdr_inv A N G p" and q: "ind_cube A p (k - 1) q"
    and r: "push_from e q k p = Some (i, p')"
  shows "pdr_inv A N G p'" "same_cubes p p'" "core p' = core p" "k \<le> i" "i \<le> max k (depth p + 1)"
    "ind_cube A p' (i - 1) q"
proof -
  have "pdr_inv A N G p' \<and> same_cubes p p' \<and> core p' = core p \<and> k \<le> i \<and> i \<le> max k (depth p + 1)
      \<and> rel_ind A (frames p) (nat (i - 1)) q q"
  proof (rule push_frames_ok [OF e _ inv _ _ _ refl])
    show "push_frames e q [k..depth p] (max k (depth p + 1)) p = Some (i, p')"
      using r by (simp only: push_from_def)
    show "latch_cube A q" "1 \<le> k" "rel_ind A (frames p) (nat (k - 1)) q q"
      using q by (simp_all add: ind_cube_def)
  qed
  then show "pdr_inv A N G p'" "same_cubes p p'" "core p' = core p" "k \<le> i" "i \<le> max k (depth p + 1)"
    "ind_cube A p' (i - 1) q"
    using q rel_ind_same [of p p' A] by (auto simp: ind_cube_def)
qed

definition gen_ok :: "Aiger \<Rightarrow> int \<Rightarrow> cnf \<Rightarrow> PDR \<Rightarrow> int \<Rightarrow> Cube \<Rightarrow> Cube \<times> PDR \<Rightarrow> bool" where
  "gen_ok A N G p k cube r = (pdr_inv A N G (snd r) \<and> evolves A p (snd r) \<and> set (fst r) \<subseteq> set cube
     \<and> ind_cube A (snd r) k (fst r))"

definition down_ok :: "Aiger \<Rightarrow> int \<Rightarrow> cnf \<Rightarrow> PDR \<Rightarrow> int \<Rightarrow> Cube \<Rightarrow> bool \<times> Cube \<times> PDR \<Rightarrow> bool" where
  "down_ok A N G p k cube r = (case r of (b, c, p') \<Rightarrow> pdr_inv A N G p' \<and> evolves A p p'
     \<and> (b \<longrightarrow> set c \<subseteq> set cube \<and> ind_cube A p' k c))"

lemma new_State_ok:
  assumes inv: "pdr_inv A N G p" and n: "new_State l i p = (s, p')"
  shows "pdr_inv A N G p'" "evolves A p p'" "s = Suc (state_count p)" "state_count p' = s"
    "heap p' s = Some \<lparr>latches = l, inputs = i, State_next = None, index = s, failed = 0, failed_depth = 0\<rparr>"
    "p' = p\<lparr>state_count := s, heap := (heap p)(s \<mapsto>
       \<lparr>latches = l, inputs = i, State_next = None, index = s, failed = 0, failed_depth = 0\<rparr>)\<rparr>"
proof -
  show s: "s = Suc (state_count p)"
    and p': "p' = p\<lparr>state_count := s, heap := (heap p)(s \<mapsto>
       \<lparr>latches = l, inputs = i, State_next = None, index = s, failed = 0, failed_depth = 0\<rparr>)\<rparr>"
    using n by (auto simp: new_State_def Let_def)
  show "state_count p' = s"
    "heap p' s = Some \<lparr>latches = l, inputs = i, State_next = None, index = s, failed = 0, failed_depth = 0\<rparr>"
    by (simp_all add: p')
  have "x \<le> s" if "heap p x \<noteq> None" for x using inv that s by (auto simp: pdr_inv_def intro: le_SucI)
  then show "pdr_inv A N G p'" using inv by (auto simp: p' pdr_inv_def encodes_def)
  show "evolves A p p'" by (auto simp: evolves_def p' s)
qed

lemma delete_State_ok:
  assumes "pdr_inv A N G p" "evolves A p0 p" "state_count p0 < s"
  shows "pdr_inv A N G (delete_State s p)" "evolves A p0 (delete_State s p)"
  using assms by (auto simp: delete_State_def pdr_inv_def encodes_def evolves_def)

lemma extract_evolves:
  assumes e: "ipasir_contract e" "eliminate_contract e" and inv: "pdr_inv A N G p"
    and s: "succ_ok A p s succ" "state_count p0 < s" "evolves A p0 p"
    and r: "extract_state_from_sat e j s succ f p = Some p'"
  shows "pdr_inv A N G p'" "evolves A p0 p'" "\<exists>st. heap p' s = Some st \<and> latch_cube A (latches st)"
proof -
  obtain st sl a m lf h where k: "p' = p\<lparr>satelite2 := m, aiger := a, lift := Some lf, heuristic_lit_cmp := h,
       heap := (heap p)(s \<mapsto> st\<lparr>inputs := sat_vals (solver (frames p ! nat j)) unprimed_first_dimacs (num_inputs A),
         latches := sl, State_next := succ\<rparr>)\<rparr>" "pdr_inv A N G p'" "latch_cube A sl"
    by (rule extract_ok [OF e inv s(1) r]) blast
  show "pdr_inv A N G p'" by (rule k(2))
  show "evolves A p0 p'" using s(2,3) by (auto simp: k(1) evolves_def)
  show "\<exists>st. heap p' s = Some st \<and> latch_cube A (latches st)" using k(3) by (auto simp: k(1))
qed

lemma Some_pair: "x \<noteq> None \<Longrightarrow> \<exists>a b. x = Some (a, b)"
  by auto

definition shuffle_contract :: "env \<Rightarrow> bool" where
  "shuffle_contract e = (\<forall>n q. set (random_shuffle e n q) = set q)"

definition mic_spec :: "env \<Rightarrow> Aiger \<Rightarrow> int \<Rightarrow> cnf \<Rightarrow> nat \<Rightarrow> bool" where
  "mic_spec e A N G n = (\<forall>cube k d p r. mic n e cube k d p = Some r \<longrightarrow> pdr_inv A N G p \<longrightarrow>
     ind_cube A p k cube \<longrightarrow> gen_ok A N G p k cube r)"

definition down_spec :: "env \<Rightarrow> Aiger \<Rightarrow> int \<Rightarrow> cnf \<Rightarrow> nat \<Rightarrow> bool" where
  "down_spec e A N G n = (\<forall>cube k d required cc jc p r. CTG_down n e cube k d required cc jc p = Some r \<longrightarrow>
     pdr_inv A N G p \<longrightarrow> latch_cube A cube \<longrightarrow> down_ok A N G p k cube r)"

lemma mic_loop_ok:
  assumes d: "down_spec e A N G n"
  shows "mic_loop n e ls k dp mf required cube p = Some r \<Longrightarrow> pdr_inv A N G p \<Longrightarrow>
    ind_cube A p k cube \<Longrightarrow> gen_ok A N G p k cube r"
proof (induction ls arbitrary: mf required cube p)
  case Nil
  then show ?case by (auto simp: gen_ok_def)
next
  case (Cons l ls)
  show ?case
  proof (cases "l \<in> set cube")
    case False
    then show ?thesis using Cons by simp
  next
    case True
    let ?cand = "filter (\<lambda>i. i \<noteq> l) cube"
    have "CTG_down n e ?cand k dp required 0 0 p \<noteq> None"
      using Cons.prems(1) by (rule contrapos_pn) (simp add: True)
    then obtain b c p1 where c: "CTG_down n e ?cand k dp required 0 0 p = Some (b, c, p1)" by auto
    have lc: "latch_cube A ?cand" using Cons.prems(3) latch_cube_mono [of A cube ?cand] by (simp add: ind_cube_def)
    have "down_ok A N G p k ?cand (b, c, p1)"
      using d c Cons.prems(2) lc unfolding down_spec_def by blast
    then have k: "pdr_inv A N G p1" "evolves A p p1" "b \<Longrightarrow> set c \<subseteq> set ?cand \<and> ind_cube A p1 k c"
      by (auto simp: down_ok_def)
    have kc: "ind_cube A p1 k cube" using ind_cube_evolves [OF Cons.prems(3) k(2)] .
    have fin: "gen_ok A N G p k cube r" if "gen_ok A N G p1 k cube' r" "set cube' \<subseteq> set cube" for cube'
      using that evolves_trans [OF k(2)] by (auto simp: gen_ok_def)
    show ?thesis
    proof (cases b)
      case True
      then have "mic_loop n e ls k dp 0 required c p1 = Some r" using Cons.prems(1) c \<open>l \<in> set cube\<close> by simp
      then have "gen_ok A N G p1 k c r" using Cons.IH k(1,3) True by blast
      then show ?thesis using fin [of c] k(3) True by auto
    next
      case False
      then have "(if option_ctg_tries < mf + 1 then Some (cube, p1)
          else mic_loop n e ls k dp (mf + 1) (insert l required) cube p1) = Some r"
        using Cons.prems(1) c \<open>l \<in> set cube\<close> by simp
      then consider "r = (cube, p1)" | "mic_loop n e ls k dp (mf + 1) (insert l required) cube p1 = Some r"
        by (cases "option_ctg_tries < mf + 1") simp_all
      then show ?thesis
      proof cases
        case 1
        then show ?thesis using k(1,2) kc by (simp add: gen_ok_def)
      next
        case 2
        then show ?thesis using fin [of cube] Cons.IH k(1) kc by blast
      qed
    qed
  qed
qed

lemma mic_Suc_ok:
  assumes d: "down_spec e A N G n" and sh: "shuffle_contract e"
  shows "mic_spec e A N G (Suc n)"
proof (unfold mic_spec_def, intro allI impI)
  fix cube k dp p r
  assume r: "mic (Suc n) e cube k dp p = Some r" and inv: "pdr_inv A N G p" and c: "ind_cube A p k cube"
  let ?c1 = "stable_sort_by Lit_CMP cube"
  have "\<exists>c2 x. set c2 = set cube \<and> mic_loop n e c2 k dp 0 {} c2 (p\<lparr>shuffles := x\<rparr>) = Some r"
  proof (cases "thread_index p \<le> 1")
    case True
    then obtain cs where cs: "heuristic_lit_cmp p = Some cs" using r by (cases "heuristic_lit_cmp p") auto
    let ?c2 = "stable_sort_by (heuristic_Lit_CMP cs) ?c1"
    have "mic_loop n e ?c2 k dp 0 {} ?c2 (p\<lparr>shuffles := shuffles p\<rparr>) = Some r"
      using r True cs by (simp add: Let_def)
    then show ?thesis by (intro exI [of _ ?c2] exI [of _ "shuffles p"]) (simp add: set_stable_sort_by)
  next
    case False
    let ?c2 = "random_shuffle e (shuffles p) ?c1"
    have "mic_loop n e ?c2 k dp 0 {} ?c2 (p\<lparr>shuffles := Suc (shuffles p)\<rparr>) = Some r"
      using r False by (simp add: Let_def)
    then show ?thesis
      using sh by (intro exI [of _ ?c2] exI [of _ "Suc (shuffles p)"]) (simp add: set_stable_sort_by shuffle_contract_def)
  qed
  then obtain c2 x where c2: "set c2 = set cube" "mic_loop n e c2 k dp 0 {} c2 (p\<lparr>shuffles := x\<rparr>) = Some r"
    by blast
  have "pdr_inv A N G (p\<lparr>shuffles := x\<rparr>)" using inv by (simp add: pdr_inv_def encodes_def)
  moreover have "ind_cube A (p\<lparr>shuffles := x\<rparr>) k c2" using ind_cube_set [OF c c2(1)] by (simp add: ind_cube_upd)
  ultimately have "gen_ok A N G (p\<lparr>shuffles := x\<rparr>) k c2 r" by (rule mic_loop_ok [OF d c2(2)])
  then show "gen_ok A N G p k cube r" using c2(1) by (simp add: gen_ok_def evolves_def)
qed

lemma join_cube_subset: "set (snd (join_cube s req c)) \<subseteq> set c"
  by (induction c) (auto split: prod.splits)

lemma push_mic_add:
  assumes e: "ipasir_contract e" and m: "mic_spec e A N G n" and inv: "pdr_inv A N G p"
    and c: "ind_cube A p (k - 1) (core p)"
    and r1: "push_from e (core p) k p = Some (i, p7)"
    and r2: "mic n e (core p7) (i - 1) d p7 = Some (q, p8)"
    and r3: "add_cube q i True False (p8\<lparr>core := q\<rparr>) = Some (q', p9)"
  shows "pdr_inv A N G p9" "evolves A p p9"
proof -
  note k = push_from_ok [OF e inv c r1]
  have "gen_ok A N G p7 (i - 1) (core p7) (q, p8)"
    using m r2 k(1,3,6) unfolding mic_spec_def by simp
  then have g: "pdr_inv A N G p8" "evolves A p7 p8" "ind_cube A p8 (i - 1) q" by (auto simp: gen_ok_def)
  have i: "1 \<le> i" using k(6) by (simp add: ind_cube_def)
  have inv8: "pdr_inv A N G (p8\<lparr>core := q\<rparr>)" using g(1) by (simp add: pdr_inv_def encodes_def)
  have q: "latch_cube A q" "init_disjoint A q" "rel_ind A (frames (p8\<lparr>core := q\<rparr>)) (nat i - 1) q q"
    using g(3) i by (auto simp: ind_cube_def nat_diff_distrib)
  note a = add_cube_ok [OF inv8 q(1,2) i q(3) r3]
  show "pdr_inv A N G p9" by (rule a(1))
  have "evolves A p8 (p8\<lparr>core := q\<rparr>)" by (simp add: evolves_def)
  then show "evolves A p p9"
    using same_cubes_evolves [OF k(2)] g(2) a(2) evolves_trans by metis
qed

lemma down_ok_trans:
  "evolves A p p' \<Longrightarrow> set c \<subseteq> set cube \<Longrightarrow> down_ok A N G p' k c r \<Longrightarrow> down_ok A N G p k cube r"
  using evolves_trans by (auto simp: down_ok_def split: prod.splits)

lemma CTG_query_ok:
  assumes e: "ipasir_contract e" "eliminate_contract e" and inv: "pdr_inv A N G p2" and cube: "latch_cube A cube"
    and n1: "new_State [] [] p2 = (s, p3)" and n2: "new_State cube [] p3 = (t, p4)"
    and x: "extract_state_from_sat e k s (Some t) k p4 = Some p5" and st: "heap p5 s = Some st"
    and c: "(if ctg_ct < option_ctg_tries \<and> 1 < k then do {
              (i0, q1) \<leftarrow> is_init e (latches st) p5;
              if i0 then Some (False, q1) else is_inductive e (k - 1) (latches st) True True q1
            } else Some (False, p5)) = Some (ctg, p6)"
  shows "pdr_inv A N G p6" "evolves A p2 p6" "ctg \<Longrightarrow> ind_cube A p6 (k - 1) (core p6)" "state_count p2 < s"
proof -
  note s = new_State_ok [OF inv n1]
  note t = new_State_ok [OF s(1) n2]
  have su: "succ_ok A p4 s (Some t)" using t(3,5) s(4) cube by (simp add: succ_ok_def)
  have ev4: "evolves A p2 p4" using evolves_trans [OF s(2) t(2)] .
  show sc: "state_count p2 < s" using s(3) by simp
  note x5 = extract_evolves [OF e t(1) su sc ev4 x]
  have lst: "latch_cube A (latches st)" using x5(3) st by simp
  have "pdr_inv A N G p6 \<and> evolves A p2 p6 \<and> (ctg \<longrightarrow> ind_cube A p6 (k - 1) (core p6))"
  proof (cases "ctg_ct < option_ctg_tries \<and> 1 < k")
    case False
    then show ?thesis using c x5 by auto
  next
    case True
    then have "is_init e (latches st) p5 \<noteq> None" using c by (cases "is_init e (latches st) p5") auto
    then obtain i0 q1 where q1: "is_init e (latches st) p5 = Some (i0, q1)" by auto
    obtain z where z: "q1 = p5\<lparr>init := Some z\<rparr>" "pdr_inv A N G q1" "i0 = (\<not> init_disjoint A (latches st))"
      by (rule is_init_ok [OF e(1) x5(1) lst q1])
    have ev: "evolves A p2 q1" using x5(2) z(1) by (simp add: evolves_def)
    show ?thesis
    proof (cases i0)
      case i: True
      then show ?thesis using c True q1 z(2) ev by simp
    next
      case i: False
      then have q: "is_inductive e (k - 1) (latches st) True True q1 = Some (ctg, p6)" using c True q1 by simp
      note k = is_inductive_ok [OF e(1) z(2) lst q]
      have id: "init_disjoint A (latches st)" using z(3) i by simp
      have "ctg \<longrightarrow> ind_cube A p6 (k - 1) (core p6)"
      proof
        assume ctg
        then have q': "is_inductive e (k - 1) (latches st) True True q1 = Some (True, p6)" using q by simp
        show "ind_cube A p6 (k - 1) (core p6)" by (rule is_inductive_core(1) [OF e(1) z(2) lst id q'])
      qed
      then show ?thesis using k(1) evolves_trans [OF ev same_cubes_evolves [OF k(2)]] by simp
    qed
  qed
  then show "pdr_inv A N G p6" "evolves A p2 p6" "ctg \<Longrightarrow> ind_cube A p6 (k - 1) (core p6)" by blast+
qed

text \<open>The part of an iteration of \<^verbatim>\<open>CTG_down\<close> after its query failed.\<close>

lemma CTG_step_ok:
  assumes e: "ipasir_contract e" "eliminate_contract e" and m: "mic_spec e A N G n"
    and dn: "down_spec e A N G n" and inv: "pdr_inv A N G p2" and cube: "latch_cube A cube"
    and n1: "new_State [] [] p2 = (s, p3)" and n2: "new_State cube [] p3 = (t, p4)"
    and x: "extract_state_from_sat e k s (Some t) k p4 = Some p5" and st: "heap p5 s = Some st"
    and c: "(if ctg_ct < option_ctg_tries \<and> 1 < k then do {
              (i0, q1) \<leftarrow> is_init e (latches st) p5;
              if i0 then Some (False, q1) else is_inductive e (k - 1) (latches st) True True q1
            } else Some (False, p5)) = Some (ctg, p6)"
    and r: "(if ctg then do {
           (i, p7) \<leftarrow> push_from e (core p6) k p6;
           (c, p8) \<leftarrow> mic n e (core p7) (i - 1) (rec_depth + 1) p7;
           (c', p9) \<leftarrow> add_cube c i True False (p8\<lparr>core := c\<rparr>);
           CTG_down n e cube k rec_depth required (ctg_ct + 1) join_ct (delete_State s (p9\<lparr>core := c'\<rparr>))
         }
         else if join_ct < option_max_joins then (case join_cube (latches st) required cube of
           (breaked, cube') \<Rightarrow>
           if breaked then Some (False, cube', delete_State s p6)
           else CTG_down n e cube' k rec_depth required 0 (join_ct + 1) (delete_State s p6))
         else Some (False, cube, delete_State s p6)) = Some r"
  shows "down_ok A N G p2 k cube r"
proof -
  note k6 = CTG_query_ok [OF e inv cube n1 n2 x st c] and sc = CTG_query_ok(4) [OF e inv cube n1 n2 x st c]
  show ?thesis
  proof (cases ctg)
    case True
    then have r: "do {
           (i, p7) \<leftarrow> push_from e (core p6) k p6;
           (c, p8) \<leftarrow> mic n e (core p7) (i - 1) (rec_depth + 1) p7;
           (c', p9) \<leftarrow> add_cube c i True False (p8\<lparr>core := c\<rparr>);
           CTG_down n e cube k rec_depth required (ctg_ct + 1) join_ct (delete_State s (p9\<lparr>core := c'\<rparr>))
         } = Some r" using r by simp
    then obtain i p7 c p8 c' p9 where p: "push_from e (core p6) k p6 = Some (i, p7)"
      "mic n e (core p7) (i - 1) (rec_depth + 1) p7 = Some (c, p8)"
      "add_cube c i True False (p8\<lparr>core := c\<rparr>) = Some (c', p9)"
      and r': "CTG_down n e cube k rec_depth required (ctg_ct + 1) join_ct (delete_State s (p9\<lparr>core := c'\<rparr>)) = Some r"
      by (auto simp: bind_eq_Some_conv simp del: CTG_down.simps mic.simps)
    note p9 = push_mic_add [OF e(1) m k6(1) k6(3) [OF True] p]
    have i9: "pdr_inv A N G (p9\<lparr>core := c'\<rparr>)" using p9(1) by (simp add: pdr_inv_def encodes_def)
    have e9: "evolves A p2 (p9\<lparr>core := c'\<rparr>)" using evolves_trans [OF k6(2) p9(2)] by (simp add: evolves_def)
    note d = delete_State_ok [OF i9 e9 sc]
    have "down_ok A N G (delete_State s (p9\<lparr>core := c'\<rparr>)) k cube r"
      using dn r' d(1) cube unfolding down_spec_def by blast
    then show ?thesis using down_ok_trans [OF d(2)] by blast
  next
    case nc: False
    note d = delete_State_ok [OF k6(1,2) sc]
    obtain b cube' where j: "join_cube (latches st) required cube = (b, cube')" by fastforce
    have cs: "set cube' \<subseteq> set cube" using join_cube_subset [of "latches st" required cube] j by simp
    have "r = (False, cube', delete_State s p6) \<or> r = (False, cube, delete_State s p6)
      \<or> CTG_down n e cube' k rec_depth required 0 (join_ct + 1) (delete_State s p6) = Some r"
      using r nc j by (cases "join_ct < option_max_joins"; cases b) (simp_all del: CTG_down.simps)
    then show ?thesis
    proof (elim disjE)
      assume "CTG_down n e cube' k rec_depth required 0 (join_ct + 1) (delete_State s p6) = Some r"
      then have "down_ok A N G (delete_State s p6) k cube' r"
        using dn d(1) latch_cube_mono [OF cube cs] unfolding down_spec_def by blast
      then show ?thesis using down_ok_trans [OF d(2) cs] by blast
    qed (use d in \<open>simp_all add: down_ok_def\<close>)
  qed
qed

lemma CTG_Suc_ok:
  assumes e: "ipasir_contract e" "eliminate_contract e" and m: "mic_spec e A N G n"
    and dn: "down_spec e A N G n"
  shows "down_spec e A N G (Suc n)"
proof (unfold down_spec_def, intro allI impI)
  fix cube k d required cc jc p r
  assume r: "CTG_down (Suc n) e cube k d required cc jc p = Some r" and inv: "pdr_inv A N G p"
    and cube: "latch_cube A cube"
  have "is_init e cube p \<noteq> None" using r by (rule contrapos_pn) simp
  then obtain ini p1 where i: "is_init e cube p = Some (ini, p1)" by auto
  obtain z where z: "p1 = p\<lparr>init := Some z\<rparr>" "pdr_inv A N G p1" "ini = (\<not> init_disjoint A cube)"
    by (rule is_init_ok [OF e(1) inv cube i])
  have ev1: "evolves A p p1" by (simp add: z(1) evolves_def)
  show "down_ok A N G p k cube r"
  proof (cases ini)
    case True
    then show ?thesis using r i z(2) ev1 by (auto simp: down_ok_def)
  next
    case ni: False
    have "is_inductive e k cube True True p1 \<noteq> None" using r by (rule contrapos_pn) (simp add: i ni)
    then obtain ind p2 where q: "is_inductive e k cube True True p1 = Some (ind, p2)" by auto
    note k = is_inductive_ok [OF e(1) z(2) cube q]
    have ev2: "evolves A p p2" using evolves_trans [OF ev1 same_cubes_evolves [OF k(2)]] .
    have id: "init_disjoint A cube" using z(3) ni by simp
    show ?thesis
    proof (cases ind)
      case True
      then have q': "is_inductive e k cube True True p1 = Some (True, p2)" using q by simp
      note c = is_inductive_core [OF e(1) z(2) cube id q']
      have "r = (True, if length (core p2) < length cube then core p2 else cube, p2)"
        using r i ni q True by simp
      then show ?thesis using c k(1) ev2 by (cases "length (core p2) < length cube") (auto simp: down_ok_def)
    next
      case nd: False
      show ?thesis
      proof (cases "option_ctg_max_depth < d")
        case True
        then show ?thesis using r i ni q nd k(1) ev2 by (auto simp: down_ok_def)
      next
        case False
        obtain s p3 where n1: "new_State [] [] p2 = (s, p3)" by fastforce
        obtain t p4 where n2: "new_State cube [] p3 = (t, p4)" by fastforce
        note eqs = i ni q nd False n1 n2
        have "extract_state_from_sat e k s (Some t) k p4 \<noteq> None"
          using r by (rule contrapos_pn) (simp add: eqs)
        then obtain p5 where x: "extract_state_from_sat e k s (Some t) k p4 = Some p5" by auto
        have "heap p5 s \<noteq> None" using r by (rule contrapos_pn) (simp add: eqs x)
        then obtain st where st: "heap p5 s = Some st" by auto
        let ?c = "if cc < option_ctg_tries \<and> 1 < k then do {
              (i0, q1) \<leftarrow> is_init e (latches st) p5;
              if i0 then Some (False, q1) else is_inductive e (k - 1) (latches st) True True q1
            } else Some (False, p5)"
        have "?c \<noteq> None" using r by (rule contrapos_pn) (simp only: CTG_down.simps eqs x st Let_def
            bind.bind_lunit prod.case if_True if_False bind.bind_lzero simp_thms option.distinct)
        from Some_pair [OF this] obtain ctg p6 where c: "?c = Some (ctg, p6)" by (elim exE)
        have "down_ok A N G p2 k cube r"
        proof (rule CTG_step_ok [OF e m dn k(1) cube n1 n2 x st c])
          show "(if ctg then do {
           (i, p7) \<leftarrow> push_from e (core p6) k p6;
           (c, p8) \<leftarrow> mic n e (core p7) (i - 1) (d + 1) p7;
           (c', p9) \<leftarrow> add_cube c i True False (p8\<lparr>core := c\<rparr>);
           CTG_down n e cube k d required (cc + 1) jc (delete_State s (p9\<lparr>core := c'\<rparr>))
         }
         else if jc < option_max_joins then (case join_cube (latches st) required cube of
           (breaked, cube') \<Rightarrow>
           if breaked then Some (False, cube', delete_State s p6)
           else CTG_down n e cube' k d required 0 (jc + 1) (delete_State s p6))
         else Some (False, cube, delete_State s p6)) = Some r"
            using r by (simp only: CTG_down.simps eqs x st c Let_def bind.bind_lunit prod.case if_True if_False simp_thms)
        qed
        then show ?thesis using down_ok_trans [OF ev2] by blast
      qed
    qed
  qed
qed

theorem generalisation_specs:
  assumes "ipasir_contract e" "eliminate_contract e" "shuffle_contract e"
  shows "mic_spec e A N G n \<and> down_spec e A N G n"
proof (induction n)
  case 0
  show ?case by (simp add: mic_spec_def down_spec_def)
next
  case (Suc n)
  then show ?case using mic_Suc_ok CTG_Suc_ok assms by blast
qed

lemma generalize_ok:
  assumes "ipasir_contract e" "eliminate_contract e" "shuffle_contract e" "pdr_inv A N G p"
    "ind_cube A p k cube" "generalize e cube k p = Some (c, p')"
  shows "pdr_inv A N G p'" "evolves A p p'" "set c \<subseteq> set cube" "ind_cube A p' k c"
proof -
  have "mic_spec e A N G (mic_fuel cube)" using generalisation_specs assms(1-3) by blast
  then have "gen_ok A N G p k cube (c, p')" using assms(4-6) unfolding mic_spec_def generalize_def by blast
  then show "pdr_inv A N G p'" "evolves A p p'" "set c \<subseteq> set cube" "ind_cube A p' k c"
    by (simp_all add: gen_ok_def)
qed

end
