(* ===== verification/PDR_Block.thy ===== *)
theory PDR_Block
  imports PDR_Gen
begin

text \<open>
  \<^verbatim>\<open>rec_block_cube\<close>: while obligations are pending, each of them names a state that can run
  into a bad state and that no calm state of its frame shares. The loop either empties the
  queue or returns false at an initial state with a step into such a state: a real
  counterexample.
\<close>

definition obl_ok :: "Aiger \<Rightarrow> PDR \<Rightarrow> Obligation \<Rightarrow> bool" where
  "obl_ok A p ob = (0 \<le> frame_k ob \<and> frame_k ob \<le> depth p
     \<and> (\<exists>st. heap p (obl_state ob) = Some st \<and> latch_cube A (latches st)
          \<and> blockable A (frames p) (nat (frame_k ob)) (latches st) \<and> doomed A (latches st)))"

definition block_inv :: "Aiger \<Rightarrow> int \<Rightarrow> cnf \<Rightarrow> PDR \<Rightarrow> bool" where
  "block_inv A N G p = (pdr_inv A N G p \<and> init_good A \<and> 1 \<le> depth p
     \<and> top_safe A (frames p) (nat (depth p) - 1) \<and> 1 \<le> earliest_strengthened_frame p
     \<and> (\<forall>ob\<in>set (obligation_queue p). obl_ok A p ob))"

text \<open>What may change between two states that keep the obligations valid.\<close>

definition keeps :: "Aiger \<Rightarrow> PDR \<Rightarrow> PDR \<Rightarrow> bool" where
  "keeps A p p' = (length (frames p') = length (frames p)
     \<and> (\<forall>j \<sigma>. in_frame A (frames p') j \<sigma> \<longrightarrow> in_frame A (frames p) j \<sigma>)
     \<and> (\<forall>x st. heap p x = Some st \<longrightarrow> (\<exists>st'. heap p' x = Some st' \<and> latches st' = latches st))
     \<and> (1 \<le> earliest_strengthened_frame p \<longrightarrow> 1 \<le> earliest_strengthened_frame p'))"

lemma keeps_trans: "keeps A p q \<Longrightarrow> keeps A q r \<Longrightarrow> keeps A p r"
  unfolding keeps_def by (intro conjI allI impI) (simp, blast, metis, blast)

lemma keeps_refl [simp]: "keeps A p p"
  by (simp add: keeps_def)

lemma evolves_keeps: "pdr_inv A N G p \<Longrightarrow> evolves A p p' \<Longrightarrow> keeps A p p'"
  unfolding keeps_def evolves_def pdr_inv_def by (metis option.distinct(1))

lemma keeps_obl: "keeps A p p' \<Longrightarrow> obl_ok A p ob \<Longrightarrow> obl_ok A p' ob"
proof -
  assume k: "keeps A p p'" and o: "obl_ok A p ob"
  obtain st where st: "heap p (obl_state ob) = Some st" "latch_cube A (latches st)"
    "blockable A (frames p) (nat (frame_k ob)) (latches st)" "doomed A (latches st)"
    using o by (auto simp: obl_ok_def)
  obtain st' where st': "heap p' (obl_state ob) = Some st'" "latches st' = latches st"
    using k st(1) unfolding keeps_def by blast
  have "blockable A (frames p') (nat (frame_k ob)) (latches st)"
    using st(3) k unfolding blockable_def keeps_def by blast
  moreover have "depth p' = depth p" using k by (simp add: keeps_def depth_def)
  ultimately show ?thesis using o st st' by (simp add: obl_ok_def)
qed

lemma keeps_block_inv:
  assumes b: "block_inv A N G p" and k: "keeps A p p'" and inv: "pdr_inv A N G p'"
    and q: "\<And>ob. ob \<in> set (obligation_queue p') \<Longrightarrow> ob \<in> set (obligation_queue p) \<or> obl_ok A p' ob"
  shows "block_inv A N G p'"
proof -
  have d: "depth p' = depth p" using k by (simp add: keeps_def depth_def)
  have "top_safe A (frames p') (nat (depth p) - 1)"
    using b k unfolding block_inv_def top_safe_def keeps_def by blast
  moreover have "obl_ok A p' ob" if "ob \<in> set (obligation_queue p')" for ob
    using q [OF that] keeps_obl [OF k] b by (auto simp: block_inv_def)
  ultimately show ?thesis using b inv d k by (auto simp: block_inv_def keeps_def)
qed

lemma keeps_block_inv_same:
  "block_inv A N G p \<Longrightarrow> keeps A p p' \<Longrightarrow> pdr_inv A N G p' \<Longrightarrow>
   obligation_queue p' = obligation_queue p \<Longrightarrow> block_inv A N G p'"
  by (erule keeps_block_inv) auto

lemma set_insert_obl: "ob \<in> set (obligation_queue (insert_obligation x p)) \<Longrightarrow>
  ob = x \<or> ob \<in> set (obligation_queue p)"
  using set_set_insert_subset by (fastforce simp: insert_obligation_def)

lemma upd_State_ok:
  assumes "pdr_inv A N G p" "upd_State x f p = Some p'" "\<And>s. latches (f s) = latches s"
  shows "pdr_inv A N G p'" "keeps A p p'" "obligation_queue p' = obligation_queue p" "core p' = core p"
    "\<exists>st. heap p x = Some st \<and> p' = p\<lparr>heap := (heap p)(x \<mapsto> f st)\<rparr>"
proof -
  obtain st where st: "heap p x = Some st" "p' = p\<lparr>heap := (heap p)(x \<mapsto> f st)\<rparr>"
    using assms(2) by (auto simp: upd_State_def bind_eq_Some_conv)
  then show "\<exists>st. heap p x = Some st \<and> p' = p\<lparr>heap := (heap p)(x \<mapsto> f st)\<rparr>" by blast
  show "obligation_queue p' = obligation_queue p" "core p' = core p" by (simp_all add: st(2))
  show "keeps A p p'" using st assms(3) by (auto simp: keeps_def)
  have "x \<le> state_count p" using assms(1) st(1) by (simp add: pdr_inv_def)
  then show "pdr_inv A N G p'" using assms(1) by (simp add: st(2) pdr_inv_def encodes_def)
qed

lemma punish_ok:
  assumes "pdr_inv A N G p" "punish x c p = Some p'"
  shows "pdr_inv A N G p'" "keeps A p p'" "obligation_queue p' = obligation_queue p" "core p' = core p"
    "frames p' = frames p"
proof -
  have "pdr_inv A N G p' \<and> keeps A p p' \<and> obligation_queue p' = obligation_queue p \<and> core p' = core p
    \<and> frames p' = frames p"
  proof (cases "\<exists>y. x = Some y \<and> use_punishment \<and> 10 < length c")
    case True
    then obtain y where "upd_State y (\<lambda>s. s\<lparr>failed := failed s +
                (if 30 < length c then 5 else if 20 < length c then 3 else 1)\<rparr>) p = Some p'"
      using assms(2) by (auto simp: punish_def)
    from upd_State_ok [OF assms(1) this] show ?thesis by auto
  next
    case False
    then show ?thesis using assms by (auto simp: punish_def split: option.splits if_splits)
  qed
  then show "pdr_inv A N G p'" "keeps A p p'" "obligation_queue p' = obligation_queue p" "core p' = core p"
    "frames p' = frames p" by blast+
qed

lemma set_failed_depth_ok:
  assumes "pdr_inv A N G p" "set_failed_depth x d p = Some p'"
  shows "pdr_inv A N G p' \<and> keeps A p p' \<and> obligation_queue p' = obligation_queue p"
proof (cases x)
  case None
  then show ?thesis using assms by (simp add: set_failed_depth_def)
next
  case (Some y)
  then have "upd_State y (\<lambda>s. s\<lparr>failed_depth := d\<rparr>) p = Some p'" using assms by (simp add: set_failed_depth_def)
  from upd_State_ok [OF assms(1) this] show ?thesis by auto
qed

lemma keeps_blockable: "keeps A p p' \<Longrightarrow> blockable A (frames p) k q \<Longrightarrow> blockable A (frames p') k q"
  unfolding blockable_def keeps_def by blast

lemma blocked_blockable:
  assumes "q \<in> blocked (frames p) k" "set q \<subseteq> set ls" "1 \<le> k"
  shows "blockable A (frames p) k ls"
  using assms cube_true_mono [OF assms(2)] by (auto simp: blockable_def in_frame_def avoids_def)

lemma block_obligation_ok:
  assumes e: "ipasir_contract e" "eliminate_contract e" "shuffle_contract e"
    and b: "block_inv A N G p" and q: "obligation_queue p = ob # rest"
    and st: "heap p (obl_state ob) = Some st"
    and c: "ind_cube A p (frame_k ob) (core p)" "set (core p) \<subseteq> set (latches st)"
    and r: "block_obligation e ob p = Some p'"
  shows "block_inv A N G p'"
proof -
  let ?p0 = "p\<lparr>obligation_queue := tl (obligation_queue p)\<rparr>"
  have inv: "pdr_inv A N G p" and ob: "obl_ok A p ob" using b q by (auto simp: block_inv_def)
  have inv0: "pdr_inv A N G ?p0" using inv by (simp add: pdr_inv_def encodes_def)
  have "generalize e (core p) (frame_k ob) ?p0 \<noteq> None"
    using r by (rule contrapos_pn) (simp add: block_obligation_def)
  then obtain cc p1 where g: "generalize e (core p) (frame_k ob) ?p0 = Some (cc, p1)" by auto
  note p1 = generalize_ok [OF e inv0 _ g]
  have c0: "ind_cube A ?p0 (frame_k ob) (core p)" using c by (simp add: ind_cube_upd)
  note p1 = generalize_ok [OF e inv0 c0 g]
  have k0: "keeps A p ?p0" by (simp add: keeps_def)
  have k1: "keeps A p p1" using keeps_trans [OF k0 evolves_keeps [OF inv0 p1(2)]] .
  obtain st1 where st1: "heap p1 (obl_state ob) = Some st1" "latches st1 = latches st"
    using k1 st unfolding keeps_def by blast
  have "punish (State_next st1) cc p1 \<noteq> None"
    using r by (rule contrapos_pn) (simp add: block_obligation_def g st1(1))
  then obtain p2 where pu: "punish (State_next st1) cc p1 = Some p2" by auto
  note p2 = punish_ok [OF p1(1) pu]
  have "push_from e cc (frame_k ob + 1) p2 \<noteq> None"
    using r by (rule contrapos_pn) (simp add: block_obligation_def g st1(1) pu)
  then obtain k p3 where ps: "push_from e cc (frame_k ob + 1) p2 = Some (k, p3)" by auto
  have c2: "ind_cube A p2 (frame_k ob + 1 - 1) cc" using p1(4) p2(5) by (simp add: ind_cube_def)
  note p3 = push_from_ok [OF e(1) p2(1) c2 ps]
  have "vec_at (frames p3) k \<noteq> None"
    using r by (rule contrapos_pn) (simp add: block_obligation_def g st1(1) pu ps)
  then obtain f where f: "vec_at (frames p3) k = Some f" by auto
  have "add_cube cc k True False p3 \<noteq> None"
    using r by (rule contrapos_pn) (simp add: block_obligation_def g st1(1) pu ps f Let_def)
  then obtain qq p4 where ad: "add_cube cc k True False p3 = Some (qq, p4)" by auto
  have k1': "1 \<le> k" using p3(4) ob by (simp add: obl_ok_def)
  have ic: "latch_cube A cc" "init_disjoint A cc" "rel_ind A (frames p3) (nat k - 1) cc cc"
    using p3(6) k1' by (auto simp: ind_cube_def nat_diff_distrib)
  note p4 = add_cube_ok [OF p3(1) ic(1,2) k1' ic(3) ad]
  have k4: "keeps A p p4"
    using k1 p2(2) evolves_keeps [OF p2(1) same_cubes_evolves [OF p3(2)]] evolves_keeps [OF p3(1) p4(2)]
      keeps_trans by blast
  have q4: "obligation_queue p4 = rest"
    using p4(2) same_cubesD(6) [OF p3(2)] p2(3) p1(2) q by (simp add: evolves_def)
  let ?ob = "Obligation_new (obl_state ob) k (obl_depth ob) (thread_index p4)"
  have p': "p' = (if k \<le> depth p4 \<and> (has_included (latches st1) (cubes f) \<or> \<not> use_pr p3)
      then insert_obligation ?ob p4 else p4)"
    using r by (simp add: block_obligation_def g st1(1) pu ps f ad Let_def split: if_splits)
  obtain st4 where st4: "heap p4 (obl_state ob) = Some st4" "latches st4 = latches st"
    using k4 st unfolding keeps_def by blast
  have sub: "set qq \<subseteq> set (latches st)" using p4(3) p1(3) c(2) by blast
  have bl: "blockable A (frames p4) (nat k) (latches st)"
    using blocked_blockable [OF p4(6) sub] k1' by simp
  have new: "obl_ok A p4 ?ob" if "k \<le> depth p4"
    using that ob st st4 bl k1' by (auto simp: obl_ok_def Obligation_new_def)
  have b4: "block_inv A N G p4" using keeps_block_inv [OF b k4 p4(1)] q4 q by auto
  show ?thesis
  proof (cases "k \<le> depth p4 \<and> (has_included (latches st1) (cubes f) \<or> \<not> use_pr p3)")
    case True
    then have p': "p' = insert_obligation ?ob p4" using p' by simp
    have ki: "keeps A p4 p'" "pdr_inv A N G p'"
      using p4(1) by (auto simp: p' insert_obligation_def keeps_def pdr_inv_def encodes_def)
    have "obl_ok A p' ?ob" using keeps_obl [OF ki(1)] new True by blast
    then show ?thesis using keeps_block_inv [OF b4 ki] set_insert_obl p' by blast
  next
    case False
    then have "p' = p4" using p' by (simp only: if_False)
    then show ?thesis using b4 by simp
  qed
qed

lemma frame_emax:
  assumes "pdr_inv A N G p" "j < length (frames p)"
  shows "leaves_le A (emax (solver (frames p ! j)))"
  using frames_solver [OF pdr_invD(5) [OF assms(1)] assms(2)] pdr_invD(6) [OF assms(1)]
  by (auto simp: solver_ok_def leaves_le_def)

text \<open>A predecessor found by a failed query becomes an obligation one level down.\<close>

lemma cti_ok:
  assumes e: "ipasir_contract e" "eliminate_contract e" and bv: "bad_valid A"
    and b: "block_inv A N G p" and ob: "obl_ok A p ob" "1 \<le> frame_k ob"
    and n: "new_State [] [] p = (s, p3)"
    and x: "extract_state_from_sat e (frame_k ob) s (Some (obl_state ob)) (frame_k ob) p3 = Some p4"
  shows "block_inv A N G (insert_obligation
     (Obligation_new s (frame_k ob - 1) (obl_depth ob + 1) (thread_index p4)) p4)"
proof -
  have inv: "pdr_inv A N G p" using b by (simp add: block_inv_def)
  note wf = pdr_invD(7) [OF inv]
  note s = new_State_ok [OF inv n]
  have k3: "keeps A p p3" using evolves_keeps [OF inv s(2)] .
  have o3: "obl_ok A p3 ob" using keeps_obl [OF k3 ob(1)] .
  have b3: "block_inv A N G p3" using keeps_block_inv [OF b k3 s(1)] s(2) by (simp add: evolves_def)
  obtain st where st: "heap p3 (obl_state ob) = Some st" "latch_cube A (latches st)"
    "blockable A (frames p3) (nat (frame_k ob)) (latches st)" "doomed A (latches st)"
    using o3 by (auto simp: obl_ok_def)
  have ne: "obl_state ob \<noteq> s"
  proof
    assume "obl_state ob = s"
    then have "heap p s \<noteq> None" using ob(1) by (auto simp: obl_ok_def)
    then have "s \<le> state_count p" using inv by (simp add: pdr_inv_def)
    then show False using s(3) by simp
  qed
  have su: "succ_ok A p3 s (Some (obl_state ob))" using st ne by (simp add: succ_ok_def)
  let ?sat = "solver (frames p3 ! nat (frame_k ob))"
  let ?ins = "sat_vals ?sat unprimed_first_dimacs (num_inputs A)"
  let ?pin = "unprime_vals A (sat_vals ?sat (primed_first_dimacs A) (num_inputs A))"
  obtain sst sl a m lf h where k: "0 \<le> frame_k ob" "nat (frame_k ob) < length (frames p3)"
    "heap p3 s = Some sst"
    "p4 = p3\<lparr>satelite2 := m, aiger := a, lift := Some lf, heuristic_lit_cmp := h,
       heap := (heap p3)(s \<mapsto> sst\<lparr>inputs := ?ins, latches := sl, State_next := Some (obl_state ob)\<rparr>)\<rparr>"
    "pdr_inv A N G p4" "latch_cube A sl"
    "lifted A sl ?ins ?pin (succ_goal A p3 (Some (obl_state ob)))"
    by (rule extract_ok [OF e s(1) su x])
  have gl: "succ_goal A p3 (Some (obl_state ob)) = (\<lambda>\<sigma>'. cube_true \<sigma>' (latches st))"
    using st(1) by (simp add: succ_goal_def fun_eq_iff)
  note li = k(7) [unfolded gl]
  note il = sat_vals_inputs [OF wf frame_emax [OF s(1) k(2)]]
  have fr: "frames p4 = frames p3" by (simp add: k(4))
  note ok3 = pdr_invD(5) [OF s(1)]
  have dm: "doomed A sl"
    using lifted_doomed [OF wf bv li k(6) il] st(4) by (simp add: doomed_def)
  have "frame_k ob \<le> depth p3" using o3 by (simp add: obl_ok_def)
  then have ts: "top_safe A (frames p3) (nat (frame_k ob) - 1)"
    using top_safe_mono [OF ok3, of "nat (depth p3) - 1" "nat (frame_k ob) - 1"] b3
    by (simp add: block_inv_def diff_le_mono nat_mono)
  have sk: "nat (frame_k ob) = Suc (nat (frame_k ob) - 1)" using ob(2) by simp
  have "blockable A (frames p3) (nat (frame_k ob) - 1) sl"
  proof (rule pred_blockable [OF wf bv ok3 li k(6) il _ ts])
    show "blockable A (frames p3) (Suc (nat (frame_k ob) - 1)) (latches st)" using st(3) sk by simp
  qed
  then have bl: "blockable A (frames p4) (nat (frame_k ob - 1)) sl"
    using fr ob(2) by (simp add: nat_diff_distrib)
  let ?ob = "Obligation_new s (frame_k ob - 1) (obl_depth ob + 1) (thread_index p4)"
  let ?p = "insert_obligation ?ob p4"
  have inv': "pdr_inv A N G ?p" using k(5) by (simp add: insert_obligation_def pdr_inv_def encodes_def)
  have keep: "keeps A p ?p"
    using s(2,3) inv by (auto simp: k(4) insert_obligation_def keeps_def evolves_def pdr_inv_def)
  have dp: "depth ?p = depth p" using keep by (simp add: keeps_def depth_def)
  have "obl_ok A ?p ?ob"
    using ob dp bl dm k(6) by (auto simp: obl_ok_def Obligation_new_def insert_obligation_def k(4))
  moreover have "obligation_queue p4 = obligation_queue p" using s(2) by (simp add: k(4) evolves_def)
  ultimately show ?thesis using keeps_block_inv [OF b keep inv'] set_insert_obl [of _ ?ob p4] by metis
qed

lemma frame_0_cex:
  assumes A: "enc_inv A" and G: "step_cnf A N G" and good: "init_good A" and sat: "sat_cnf \<alpha> (frame_cnf A G 0)"
    and ls: "latch_cube A ls" "cube_true \<alpha> (map (plit A) ls)" "doomed A ls"
  shows "unsafe A (bad A)"
proof -
  obtain \<sigma> \<sigma>' where s: "vstep A \<sigma> \<sigma>'" "init_ok A \<sigma>" "agrees A \<alpha> \<sigma> \<sigma>'"
    by (rule frame_0_sound [OF A G good sat])
  have "cube_true \<sigma>' ls" using agrees_cube(2) [OF A s(3) ls(1)] ls(2) by simp
  then obtain n where n: "goes_bad A n \<sigma>'" using ls(3) by (auto simp: doomed_def)
  have "reach A 0 \<sigma>" using vstep_valid [OF s(1)] s(2) by simp
  moreover have "next_ok A \<sigma> \<sigma>'" using s(1) by (simp add: vstep_def tstep_def)
  ultimately show ?thesis
    unfolding unsafe_def by (rule reach_goes_bad [OF enc_invD(2) [OF A] n])
qed

lemma read_RESULT_ok:
  assumes "block_inv A N G p" "read_RESULT e p = (x, p')"
  shows "block_inv A N G p'" "heap p' = heap p" "obligation_queue p' = obligation_queue p"
proof -
  have p': "p' = p\<lparr>RESULT := x, polls := Suc (polls p)\<rparr>" using assms(2) by (auto simp: read_RESULT_def Let_def)
  show "heap p' = heap p" "obligation_queue p' = obligation_queue p" by (simp_all add: p')
  have "keeps A p p'" "pdr_inv A N G p'"
    using assms(1) by (auto simp: p' keeps_def block_inv_def pdr_inv_def encodes_def)
  then show "block_inv A N G p'" by (rule keeps_block_inv_same [OF assms(1)]) (simp add: p')
qed

lemma rec_block_step_ok:
  assumes e: "ipasir_contract e" "eliminate_contract e" "shuffle_contract e" and bv: "bad_valid A"
    and b: "block_inv A N G p" and r: "rec_block_step e p = Some (x, p')"
  shows "x \<noteq> Some False \<Longrightarrow> block_inv A N G p'" "x = Some False \<Longrightarrow> unsafe A (bad A)"
proof -
  have "(x \<noteq> Some False \<longrightarrow> block_inv A N G p') \<and> (x = Some False \<longrightarrow> unsafe A (bad A))"
  proof (cases "obligation_queue p")
    case Nil
    then show ?thesis using r b by (auto simp: rec_block_step_def)
  next
    case (Cons ob rest)
    obtain rr p1 where rr: "read_RESULT e p = (rr, p1)" by fastforce
    note p1 = read_RESULT_ok [OF b rr]
    have inv1: "pdr_inv A N G p1" using p1(1) by (simp add: block_inv_def)
    have ob1: "obl_ok A p1 ob" using p1(1,3) Cons by (simp add: block_inv_def)
    obtain st where st: "heap p1 (obl_state ob) = Some st" "latch_cube A (latches st)"
      "blockable A (frames p1) (nat (frame_k ob)) (latches st)" "doomed A (latches st)"
      using ob1 by (auto simp: obl_ok_def)
    note eqs = rec_block_step_def Cons rr st(1)
    show ?thesis
    proof (cases "rr = 0")
      case False
      then show ?thesis using r p1 by (auto simp: eqs)
    next
      case z: True
      have "is_inductive e (frame_k ob) (latches st) True True p1 \<noteq> None"
        using r by (rule contrapos_pn) (simp add: eqs z)
      then obtain ind p2 where q: "is_inductive e (frame_k ob) (latches st) True True p1 = Some (ind, p2)" by auto
      note k = is_inductive_ok [OF e(1) inv1 st(2) q]
      have kp: "keeps A p1 p2" using evolves_keeps [OF inv1 same_cubes_evolves [OF k(2)]] .
      have b2: "block_inv A N G p2" using keeps_block_inv [OF p1(1) kp k(1)] same_cubesD(6) [OF k(2)] by simp
      have ob2: "obl_ok A p2 ob" using keeps_obl [OF kp ob1] .
      have q2: "obligation_queue p2 = ob # rest" using same_cubesD(6) [OF k(2)] p1(3) Cons by simp
      have st2: "heap p2 (obl_state ob) = Some st" using same_cubesD(4) [OF k(2)] st(1) by simp
      have drop: "block_inv A N G (p2\<lparr>obligation_queue := rest\<rparr>)"
        using keeps_block_inv [OF b2, of "p2\<lparr>obligation_queue := rest\<rparr>"] b2 q2
        by (simp add: keeps_def block_inv_def pdr_inv_def encodes_def)
      show ?thesis
      proof (cases ind)
        case True
        then have q': "is_inductive e (frame_k ob) (latches st) True True p1 = Some (True, p2)" using q by simp
        have id: "init_disjoint A (latches st)"
          using blockable_init_disjoint [OF pdr_invD(7,5) [OF inv1] _ st(3)] p1(1) by (simp add: block_inv_def)
        note c = is_inductive_core [OF e(1) inv1 st(2) id q']
        have "block_obligation e ob p2 \<noteq> None" using r by (rule contrapos_pn) (simp add: eqs z q True)
        then obtain p3 where bo: "block_obligation e ob p2 = Some p3" by auto
        have "x = None" "p' = p3" using r by (simp_all add: eqs z q True bo)
        then show ?thesis using block_obligation_ok [OF e b2 q2 st2 c(1,2) bo] by simp
      next
        case nd: False
        let ?d = "obl_depth ob + frame_k ob"
        consider (a) "failed_depth st \<noteq> 0 \<and> failed_depth st \<le> ?d"
          | (c) "\<not> (failed_depth st \<noteq> 0 \<and> failed_depth st \<le> ?d)" "5 \<le> failed st \<and> depth p2 < ?d"
          | (d) "\<not> (failed_depth st \<noteq> 0 \<and> failed_depth st \<le> ?d)" "\<not> (5 \<le> failed st \<and> depth p2 < ?d)"
          by blast
        then show ?thesis
        proof cases
          case a
          obtain p3 where p3: "set_failed_depth (State_next st) (failed_depth st) (p2\<lparr>obligation_queue := rest\<rparr>) = Some p3"
            "x = None" "p' = p3"
            using r a nd by (auto simp: eqs z q bind_eq_Some_conv)
          have "pdr_inv A N G (p2\<lparr>obligation_queue := rest\<rparr>)" using drop by (simp add: block_inv_def)
          note f3 = set_failed_depth_ok [OF this p3(1)]
          have "block_inv A N G p3" by (rule keeps_block_inv_same [OF drop]) (use f3 in simp_all)
          then show ?thesis using p3 by simp
        next
          case c
          obtain p3 p4 where p3: "set_failed_depth (Some (obl_state ob)) ?d (p2\<lparr>obligation_queue := rest\<rparr>) = Some p3"
            "set_failed_depth (State_next st) ?d p3 = Some p4" "x = None" "p' = p4"
            using r c nd by (auto simp: eqs z q bind_eq_Some_conv)
          have i: "pdr_inv A N G (p2\<lparr>obligation_queue := rest\<rparr>)" using drop by (simp add: block_inv_def)
          note f3 = set_failed_depth_ok [OF i p3(1)]
          have b3: "block_inv A N G p3" by (rule keeps_block_inv_same [OF drop]) (use f3 in simp_all)
          have "pdr_inv A N G p3" using f3 by simp
          note f4 = set_failed_depth_ok [OF this p3(2)]
          have "block_inv A N G p4" by (rule keeps_block_inv_same [OF b3]) (use f4 in simp_all)
          then show ?thesis using p3(3,4) by simp
        next
          case d
          show ?thesis
          proof (cases "frame_k ob = 0")
            case True
            have "x = Some False"
              using r d by (auto simp: eqs z True q [unfolded True] nd bind_eq_Some_conv)
            obtain \<alpha> where \<alpha>: "sat_cnf \<alpha> (frame_cnf A G 0)" "cube_true \<alpha> (map (plit A) (latches st))"
              using k(8) nd True by auto
            have "init_good A" using b by (simp add: block_inv_def)
            then have "unsafe A (bad A)"
              using frame_0_cex [OF pdr_invD(1,2) [OF inv1] _ \<alpha>(1) st(2) \<alpha>(2) st(4)] by blast
            then show ?thesis using \<open>x = Some False\<close> by simp
          next
            case False
            obtain s p3 where n: "new_State [] [] p2 = (s, p3)" by fastforce
            have "extract_state_from_sat e (frame_k ob) s (Some (obl_state ob)) (frame_k ob) p3 \<noteq> None"
              using r by (rule contrapos_pn) (use d in \<open>auto simp: eqs z q nd False n\<close>)
            then obtain p4 where p4: "extract_state_from_sat e (frame_k ob) s (Some (obl_state ob)) (frame_k ob) p3 = Some p4"
              by auto
            have xp: "x = None" "p' = insert_obligation
                (Obligation_new s (frame_k ob - 1) (obl_depth ob + 1) (thread_index p4)) p4"
              using r d by (auto simp: eqs z q nd False n p4)
            have "1 \<le> frame_k ob" using ob2 False by (simp add: obl_ok_def)
            then show ?thesis using cti_ok [OF e(1,2) bv b2 ob2 _ n p4] xp by simp
          qed
        qed
      qed
    qed
  qed
  then show "x \<noteq> Some False \<Longrightarrow> block_inv A N G p'" "x = Some False \<Longrightarrow> unsafe A (bad A)" by blast+
qed

text \<open>Partial correctness of the loop, from an invariant of its step.\<close>

lemma rec_block_cube_rule:
  assumes r: "rec_block_cube e p = Some y" and I: "I p"
    and step: "\<And>p x p'. I p \<Longrightarrow> rec_block_step e p = Some (x, p') \<Longrightarrow>
      (case x of None \<Rightarrow> I p' | Some b \<Rightarrow> Q b p')"
  shows "Q (fst y) (snd y)"
proof -
  have "I p \<longrightarrow> e' = e \<longrightarrow> Q (fst y) (snd y)" if "rec_block_cube e' p = Some y" for e' p y
  proof (rule rec_block_cube.raw_induct [OF _ that])
    fix rec e' p y
    assume IH: "\<And>e' p y. rec e' p = Some y \<Longrightarrow> I p \<longrightarrow> e' = e \<longrightarrow> Q (fst y) (snd y)"
      and b: "do { (r, p1) \<leftarrow> rec_block_step e' p; case r of None \<Rightarrow> rec e' p1 | Some b \<Rightarrow> Some (b, p1) } = Some y"
    show "I p \<longrightarrow> e' = e \<longrightarrow> Q (fst y) (snd y)"
    proof (intro impI)
      assume i: "I p" and e: "e' = e"
      obtain x p1 where x: "rec_block_step e p = Some (x, p1)"
        "(case x of None \<Rightarrow> rec e p1 | Some b \<Rightarrow> Some (b, p1)) = Some y"
        using b e by (auto simp: bind_eq_Some_conv)
      show "Q (fst y) (snd y)" using step [OF i x(1)] x(2) IH by (cases x) auto
    qed
  qed
  then show ?thesis using r I by blast
qed

lemma rec_block_cube_ok:
  assumes e: "ipasir_contract e" "eliminate_contract e" "shuffle_contract e" and bv: "bad_valid A"
    and i: "block_inv A N G p" and r: "rec_block_cube e p = Some (b, p')"
  shows "b \<Longrightarrow> block_inv A N G p'" "\<not> b \<Longrightarrow> unsafe A (bad A)"
proof -
  let ?Q = "\<lambda>b p'. (b \<longrightarrow> block_inv A N G p') \<and> (\<not> b \<longrightarrow> unsafe A (bad A))"
  have "?Q (fst (b, p')) (snd (b, p'))"
  proof (rule rec_block_cube_rule [where I = "block_inv A N G", OF r i])
    fix p x p'
    assume "block_inv A N G p" "rec_block_step e p = Some (x, p')"
    from rec_block_step_ok [OF e bv this]
    show "case x of None \<Rightarrow> block_inv A N G p' | Some b \<Rightarrow> ?Q b p'" by (auto split: option.splits)
  qed
  then show "b \<Longrightarrow> block_inv A N G p'" "\<not> b \<Longrightarrow> unsafe A (bad A)" by simp_all
qed

end
