(* ===== verification/PDR_Prop.thy ===== *)
theory PDR_Prop
  imports PDR_Block
begin

text \<open>
  \<^verbatim>\<open>get_pre_of_bad\<close> and \<^verbatim>\<open>propagate\<close>: the query for a step from the top frame into a bad state,
  and the search for a frame that equals its successor. Such a frame is an inductive set
  of states that contains the initial states and no bad state: the circuit is safe.
\<close>

section \<open>Queries without activation variable\<close>

text \<open>CaDiCaL without a time limit or terminator always decides.\<close>

definition ipasir_complete :: "env \<Rightarrow> bool" where
  "ipasir_complete e = (\<forall>s. ipasir_answer e s \<noteq> NoAnswer)"

lemma plain_query:
  assumes e: "ipasir_contract e" and s: "solver_ok B N Q s" and B: "base_ok N B"
    and l: "l \<noteq> 0" "\<bar>l\<bar> \<le> N" and Q: "\<forall>q\<in>Q. cube_le N q"
    and q: "CaDiCaL_solve e (CaDiCaL_assume l s) = (r, s')"
  shows "solver_ok B N Q s'"
    "r = SAT \<Longrightarrow> \<exists>\<alpha>. answer s' = Sat \<alpha> \<and> sat_cnf \<alpha> B \<and> lit_val \<alpha> l"
    "r = UNSAT \<Longrightarrow> sat_cnf \<alpha> B \<Longrightarrow> avoids \<alpha> Q \<Longrightarrow> \<not> lit_val \<alpha> l"
proof -
  let ?u = "CaDiCaL_assume l s"
  have u: "clauses ?u = clauses s" "assumed ?u = [l]" "nonzero (clauses ?u)" "0 \<notin> set (assumed ?u)"
    using s l by (auto simp: CaDiCaL_assume_def solver_ok_def)
  show "solver_ok B N Q s'"
    using s solve_state [OF q] by (auto simp: CaDiCaL_assume_def solver_ok_def)
  show "\<exists>\<alpha>. answer s' = Sat \<alpha> \<and> sat_cnf \<alpha> B \<and> lit_val \<alpha> l" if sat: "r = SAT"
  proof -
    obtain \<alpha> where \<alpha>: "answer s' = Sat \<alpha>" "sat_cnf \<alpha> (clauses ?u)" "cube_true \<alpha> (assumed ?u)"
      using solve_Sat [OF e u(3,4) q sat] by blast
    moreover have "sat_cnf \<alpha> B" using \<alpha>(2) s u(1) by (auto simp: solver_ok_def sat_cnf_set)
    ultimately show ?thesis using u(2) by (simp add: cube_true_set)
  qed
  show "\<not> lit_val \<alpha> l" if us: "r = UNSAT" "sat_cnf \<alpha> B" "avoids \<alpha> Q"
  proof
    assume lv: "lit_val \<alpha> l"
    obtain core where core: "set core \<subseteq> set (assumed ?u)"
      "\<And>\<beta>. sat_cnf \<beta> (clauses ?u) \<Longrightarrow> cube_true \<beta> core \<Longrightarrow> False"
      using solve_Unsat [OF e u(3,4) q us(1)] by blast
    define \<beta> where "\<beta> = (\<lambda>v. v \<le> N \<and> \<alpha> v)"
    have low: "\<beta> v = \<alpha> v" if "0 \<le> v" "v \<le> N" for v using that by (simp add: \<beta>_def)
    have "sat_cnf \<beta> (clauses s)"
      using guarded_extend [OF s B us(2,3) Q low] by (auto simp: \<beta>_def)
    moreover have "lit_val \<beta> l" using lv lit_val_cong [of \<beta> l \<alpha>] low l by simp
    ultimately show False using core u by (auto simp: cube_true_set)
  qed
qed

lemma solve_complete:
  assumes "ipasir_complete e" "CaDiCaL_solve e s = (r, s')" "r \<noteq> SAT"
  shows "r = UNSAT"
  using assms by (auto simp: CaDiCaL_solve_def Let_def ipasir_complete_def split: answer.splits)

lemma bad_prime_lit:
  assumes "enc_inv A" "step_cnf A N G"
  shows "bad_prime A \<noteq> 0" "\<bar>bad_prime A\<bar> \<le> N"
proof -
  have "has_prime A \<bar>bad A\<bar>" using assms(1) by (simp add: enc_inv_def)
  from lit_val_plit(2,3) [OF enc_invD(1) [OF assms(1)] this]
  show "bad_prime A \<noteq> 0" "\<bar>bad_prime A\<bar> \<le> N"
    using assms(2) enc_invD(4) [OF assms(1)] by (auto simp: step_cnf_def)
qed

lemma frame_cubes_le:
  assumes "pdr_inv A N G p"
  shows "\<forall>q\<in>(if j = 0 then {} else blocked (frames p) j). cube_le N q"
  using latch_cube_le(1) [OF pdr_invD(1,6) [OF assms]] frames_latch [OF pdr_invD(5) [OF assms]] by auto

lemma get_pre_of_bad_ok:
  assumes e: "ipasir_contract e" "eliminate_contract e" and bv: "bad_valid A"
    and inv: "pdr_inv A N G p" and d: "1 \<le> depth p" and top: "top_safe A (frames p) (nat (depth p) - 1)"
    and r: "get_pre_of_bad e s p = Some (b, p')"
  shows "pdr_inv A N G p'" "map cubes (frames p') = map cubes (frames p)"
    "obligation_queue p' = obligation_queue p" "earliest_strengthened_frame p' = earliest_strengthened_frame p"
    "b \<Longrightarrow> \<exists>st. heap p' s = Some st \<and> latch_cube A (latches st) \<and> doomed A (latches st)
        \<and> blockable A (frames p') (nat (depth p) - 1) (latches st)"
    "\<not> b \<Longrightarrow> ipasir_complete e \<Longrightarrow> top_safe A (frames p') (nat (depth p))"
    "\<not> b \<Longrightarrow> \<forall>x st. heap p x = Some st \<longrightarrow> x \<noteq> s \<longrightarrow> heap p' x = Some st"
proof -
  note A = pdr_invD(1) [OF inv] and G = pdr_invD(2) [OF inv] and wf = pdr_invD(7) [OF inv]
  have "heap p s \<noteq> None" using r by (cases "heap p s") (simp_all add: get_pre_of_bad_def upd_State_def)
  then obtain st0 where st0: "heap p s = Some st0" by auto
  let ?p0 = "p\<lparr>heap := (heap p)(s \<mapsto> State_clear st0)\<rparr>"
  have u: "upd_State s State_clear p = Some ?p0" using st0 by (simp add: upd_State_def)
  have sle: "s \<le> state_count p" using inv st0 by (simp add: pdr_inv_def)
  have inv0: "pdr_inv A N G ?p0" using inv sle by (simp add: pdr_inv_def encodes_def)
  let ?D = "depth p" and ?n = "nat (depth p)"
  have n: "?n < length (frames p)" "?n \<noteq> 0" using d by (auto simp: depth_def)
  have dp0: "depth (p\<lparr>heap := h\<rparr>) = depth p" for h by (simp add: depth_def)
  have v: "vec_at (frames p) (depth p) = Some (frames p ! ?n)" using d by (simp add: vec_at_def depth_def)
  let ?s = "solver (frames p ! ?n)"
  obtain res s' where q: "CaDiCaL_solve e (CaDiCaL_assume (bad_prime A) ?s) = (res, s')" by fastforce
  have bp: "bad_prime (aiger ?p0) = bad_prime A" using grow_circ(9) [OF inv] by simp
  note pq = plain_query [OF e(1) frames_solver [OF pdr_invD(5) [OF inv] n(1)] frame_cnf_ok [OF A G]
      bad_prime_lit [OF A G] frame_cubes_le [OF inv] q]
  let ?p1 = "set_solver ?D s' ?p0"
  have i1: "pdr_inv A N G ?p1" "blocked (frames ?p1) = blocked (frames p)"
    "in_frame A (frames ?p1) = in_frame A (frames p)" "length (frames ?p1) = length (frames p)"
    using set_solver_inv [OF inv0, of ?D s'] d n pq(1) by simp_all
  have m1: "map cubes (frames ?p1) = map cubes (frames p)"
    using n by (simp add: set_solver_def map_update list_update_same_conv)
  have "pdr_inv A N G p' \<and> map cubes (frames p') = map cubes (frames p) \<and> obligation_queue p' = obligation_queue p
    \<and> earliest_strengthened_frame p' = earliest_strengthened_frame p
    \<and> (b \<longrightarrow> (\<exists>st. heap p' s = Some st \<and> latch_cube A (latches st) \<and> doomed A (latches st)
        \<and> blockable A (frames p') (nat (depth p) - 1) (latches st)))
    \<and> (\<not> b \<longrightarrow> ipasir_complete e \<longrightarrow> top_safe A (frames p') (nat (depth p)))
    \<and> (\<not> b \<longrightarrow> (\<forall>x st. heap p x = Some st \<longrightarrow> x \<noteq> s \<longrightarrow> heap p' x = Some st))"
  proof (cases "res = SAT")
    case False
    then have bp': "b = False" "p' = ?p1"
      using r q by (auto simp: get_pre_of_bad_def u dp0 v bp [simplified] Let_def)
    have "top_safe A (frames p) ?n" if c: "ipasir_complete e"
      unfolding top_safe_def
    proof (intro allI impI)
      fix \<sigma> \<sigma>'
      assume R: "in_frame A (frames p) ?n \<sigma>" and st: "vstep A \<sigma> \<sigma>'"
      have us: "res = UNSAT" using solve_complete [OF c q False] .
      obtain \<alpha> where \<alpha>: "sat_cnf \<alpha> (frame_cnf A G ?n)" "agrees A \<alpha> \<sigma> \<sigma>'"
      proof (rule frame_model [OF A G st])
        show "?n = 0 \<Longrightarrow> init_ok A \<sigma>" using n(2) by simp
      qed
      have "avoids \<alpha> (blocked (frames p) ?n)"
        using avoids_agrees [OF A \<alpha>(2) frames_latch [OF pdr_invD(5) [OF inv]]] R n(2) by (simp add: in_frame_def)
      then have "\<not> lit_val \<alpha> (bad_prime A)" using pq(3) [OF us \<alpha>(1)] n(2) by simp
      then show "\<not> lit_val \<sigma>' (bad A)" using \<alpha>(2) by (simp add: agrees_def)
    qed
    then have "ipasir_complete e \<longrightarrow> top_safe A (frames ?p1) ?n" by (simp add: top_safe_def i1(3))
    then show ?thesis using bp' i1(1) m1 by (simp add: set_solver_def)
  next
    case True
    let ?a = "aiger p"
    let ?ins = "unprime_vals ?a (sat_vals s' (primed_first_dimacs ?a) (num_inputs ?a))"
    let ?ls = "unprime_vals ?a (sat_vals s' (primed_first_dimacs ?a + num_inputs ?a) (num_latches ?a))"
    obtain bs p2 where n2: "new_State ?ls ?ins ?p1 = (bs, p2)" by fastforce
    note s2 = new_State_ok [OF i1(1) n2]
    have a1: "aiger ?p1 = ?a" by (simp add: set_solver_def)
    have "extract_state_from_sat e ?D s None ?D p2 \<noteq> None"
      using r by (rule contrapos_pn) (simp add: get_pre_of_bad_def u dp0 v bp [simplified] q True Let_def n2 a1)
    then obtain p3 where x: "extract_state_from_sat e ?D s None ?D p2 = Some p3" by auto
    have b4: "b" "upd_State s (\<lambda>st. st\<lparr>State_next := Some bs\<rparr>) p3 = Some p'"
      using r by (auto simp: get_pre_of_bad_def u dp0 v bp [simplified] q True Let_def n2 a1 x bind_eq_Some_conv)
    have su: "succ_ok A p2 s None" by (simp add: succ_ok_def)
    let ?sat = "solver (frames p2 ! nat ?D)"
    let ?i = "sat_vals ?sat unprimed_first_dimacs (num_inputs A)"
    let ?pi = "unprime_vals A (sat_vals ?sat (primed_first_dimacs A) (num_inputs A))"
    obtain sst sl a m lf h where k: "0 \<le> ?D" "nat ?D < length (frames p2)" "heap p2 s = Some sst"
      "p3 = p2\<lparr>satelite2 := m, aiger := a, lift := Some lf, heuristic_lit_cmp := h,
         heap := (heap p2)(s \<mapsto> sst\<lparr>inputs := ?i, latches := sl, State_next := None\<rparr>)\<rparr>"
      "pdr_inv A N G p3" "latch_cube A sl" "lifted A sl ?i ?pi (succ_goal A p2 None)"
      by (rule extract_ok [OF e s2(1) su x])
    have gl: "succ_goal A p2 None = (\<lambda>\<sigma>'. lit_val \<sigma>' (bad A))" by (simp add: succ_goal_def fun_eq_iff)
    note li = k(7) [unfolded gl]
    note il = sat_vals_inputs [OF wf frame_emax [OF s2(1) k(2)]]
    have fr: "frames p3 = frames ?p1" by (simp add: k(4) s2(6))
    have dm: "doomed A sl"
    proof (rule lifted_doomed [OF wf bv li k(6) il])
      fix \<sigma>'
      assume "valid A \<sigma>'" "lit_val \<sigma>' (bad A)"
      then have "goes_bad A 0 \<sigma>'" by (auto simp: same_latches_def)
      then show "\<exists>n. goes_bad A n \<sigma>'" by blast
    qed
    have bl: "blockable A (frames p3) (?n - 1) sl"
    proof (rule lifted_blockable [OF wf bv pdr_invD(5) [OF k(5)] li k(6) il])
      fix \<tau> \<sigma>'
      assume "in_frame A (frames p3) (?n - 1) \<tau>" "vstep A \<tau> \<sigma>'"
      then show "\<not> lit_val \<sigma>' (bad A)" using top unfolding top_safe_def fr i1(3) by blast
    qed
    note p' = upd_State_ok [OF k(5) b4(2)]
    have "p' = p3\<lparr>heap := (heap p3)(s \<mapsto> (the (heap p3 s))\<lparr>State_next := Some bs\<rparr>)\<rparr>" using p'(5) by auto
    then have "heap p' s = Some (sst\<lparr>inputs := ?i, latches := sl, State_next := Some bs\<rparr>)" "frames p' = frames p3"
      "earliest_strengthened_frame p' = earliest_strengthened_frame p"
      by (simp_all add: k(4) s2(6) set_solver_def)
    then show ?thesis using p'(1,3) b4(1) k(6) dm bl fr m1 by (simp add: k(4) s2(6) set_solver_def)
  qed
  then show "pdr_inv A N G p'" "map cubes (frames p') = map cubes (frames p)"
    "obligation_queue p' = obligation_queue p" "earliest_strengthened_frame p' = earliest_strengthened_frame p"
    "b \<Longrightarrow> \<exists>st. heap p' s = Some st \<and> latch_cube A (latches st) \<and> doomed A (latches st)
        \<and> blockable A (frames p') (nat (depth p) - 1) (latches st)"
    "\<not> b \<Longrightarrow> ipasir_complete e \<Longrightarrow> top_safe A (frames p') (nat (depth p))"
    "\<not> b \<Longrightarrow> \<forall>x st. heap p x = Some st \<longrightarrow> x \<noteq> s \<longrightarrow> heap p' x = Some st"
    by blast+
qed

section \<open>Frames as invariants\<close>

text \<open>
  An interface to transition systems: the states reached after n steps, and the proof
  rule for inductive sets of states.
\<close>

locale trans_sys =
  fixes R :: "nat \<Rightarrow> 's \<Rightarrow> bool" and Init :: "'s \<Rightarrow> bool" and Next :: "'s \<Rightarrow> 's \<Rightarrow> bool"
  assumes R_0: "R 0 s \<Longrightarrow> Init s"
    and R_Suc: "R (Suc n) s' \<Longrightarrow> \<exists>s. R n s \<and> Next s s'"
begin

lemma inductive_invariant:
  assumes "\<And>s. Init s \<Longrightarrow> I s" and "\<And>s s'. I s \<Longrightarrow> Next s s' \<Longrightarrow> I s'"
  shows "R n s \<Longrightarrow> I s"
  using assms R_0 R_Suc by (induction n arbitrary: s) blast+

end

text \<open>
  The contract of a sequence of frames: every frame holds the initial states and the
  successors of its predecessor's good states. A frame equal to its successor, with no
  step into a bad state, proves the system safe.
\<close>

locale frame_seq = trans_sys R Init Next
  for R :: "nat \<Rightarrow> 's \<Rightarrow> bool" and Init :: "'s \<Rightarrow> bool" and Next :: "'s \<Rightarrow> 's \<Rightarrow> bool" +
  fixes Bad :: "'s \<Rightarrow> bool" and ok :: "'f \<Rightarrow> bool" and F :: "'f \<Rightarrow> nat \<Rightarrow> 's \<Rightarrow> bool"
  assumes F_init: "ok fs \<Longrightarrow> Init s \<Longrightarrow> F fs i s"
    and F_step: "ok fs \<Longrightarrow> F fs i s \<Longrightarrow> \<not> Bad s \<Longrightarrow> Next s s' \<Longrightarrow> F fs (Suc i) s'"
begin

lemma fixpoint_safe:
  assumes "ok fs" and eq: "\<And>s. F fs (Suc i) s \<Longrightarrow> F fs i s"
    and good: "\<And>s. Init s \<Longrightarrow> \<not> Bad s"
    and top: "\<And>s s'. F fs i s \<Longrightarrow> \<not> Bad s \<Longrightarrow> Next s s' \<Longrightarrow> \<not> Bad s'"
  shows "R n s \<Longrightarrow> \<not> Bad s"
proof -
  have "F fs i s \<and> \<not> Bad s" if r: "R n s"
  proof (rule inductive_invariant [OF _ _ r])
    show "F fs i t \<and> \<not> Bad t" if "Init t" for t using F_init good assms(1) that by blast
    show "F fs i t' \<and> \<not> Bad t'" if "F fs i t \<and> \<not> Bad t" "Next t t'" for t t'
      using F_step eq top assms(1) that by blast
  qed
  then show "R n s \<Longrightarrow> \<not> Bad s" by blast
qed

text \<open>Frame n over-approximates the states reached in n steps, as long as none of them is bad.\<close>

lemma reached_in_frame:
  assumes "ok fs" and "\<And>m s. m < n \<Longrightarrow> R m s \<Longrightarrow> \<not> Bad s"
  shows "R n s \<Longrightarrow> F fs n s"
  using assms
proof (induction n arbitrary: s)
  case 0
  then show ?case using R_0 F_init by blast
next
  case (Suc n)
  then obtain t where "R n t" "Next t s" using R_Suc by blast
  then show ?case using Suc F_step by (metis less_Suc_eq)
qed

end

interpretation circuit: trans_sys "reach A" "\<lambda>\<sigma>. valid A \<sigma> \<and> init_ok A \<sigma>"
  "\<lambda>\<sigma> \<sigma>'. valid A \<sigma> \<and> valid A \<sigma>' \<and> next_ok A \<sigma> \<sigma>'" for A
proof
  have v: "reach A n \<sigma> \<Longrightarrow> valid A \<sigma>" for n \<sigma> by (induction rule: reach.induct)
  show "valid A \<sigma> \<and> init_ok A \<sigma>" if "reach A 0 \<sigma>" for \<sigma> using that by simp
  show "\<exists>\<sigma>. reach A n \<sigma> \<and> valid A \<sigma> \<and> valid A \<sigma>' \<and> next_ok A \<sigma> \<sigma>'" if "reach A (Suc n) \<sigma>'" for n \<sigma>'
    using that v by (auto simp: reach_Suc)
qed

interpretation pdr_frames: frame_seq "reach A" "\<lambda>\<sigma>. valid A \<sigma> \<and> init_ok A \<sigma>"
  "\<lambda>\<sigma> \<sigma>'. valid A \<sigma> \<and> valid A \<sigma>' \<and> next_ok A \<sigma> \<sigma>'" "\<lambda>\<sigma>. lit_val \<sigma> (bad A)"
  "frames_ok A N G" "in_frame A" for A N G
proof
  show "in_frame A fs i \<sigma>" if "frames_ok A N G fs" "valid A \<sigma> \<and> init_ok A \<sigma>" for fs \<sigma> i
    using that init_in_frame by blast
  show "in_frame A fs (Suc i) \<sigma>'" if "frames_ok A N G fs" "in_frame A fs i \<sigma>" "\<not> lit_val \<sigma> (bad A)"
    "valid A \<sigma> \<and> valid A \<sigma>' \<and> next_ok A \<sigma> \<sigma>'" for fs i \<sigma> \<sigma>'
    using consecution [OF that(1,2)] that(3,4) by (simp add: vstep_def tstep_def valid_def)
qed

lemma empty_frame_safe:
  assumes ok: "frames_ok A N G fs" and i: "1 \<le> i" and e: "cubes (fs ! i) = []"
    and top: "top_safe A fs i" and good: "init_good A"
  shows "\<not> unsafe A (bad A)"
proof -
  have "blocked fs i \<subseteq> blocked fs (Suc i)" using e by (force simp: blocked_def Suc_le_eq le_less)
  then have "in_frame A fs i \<sigma>" if "in_frame A fs (Suc i) \<sigma>" for \<sigma>
    using that i by (auto simp: in_frame_def avoids_def)
  then have "\<not> lit_val \<sigma> (bad A)" if "reach A n \<sigma>" for n \<sigma>
    using pdr_frames.fixpoint_safe [OF ok, of i n \<sigma>] top good that
    by (simp add: top_safe_def vstep_def tstep_def valid_def init_good_def)
  then show ?thesis by (auto simp: unsafe_def unsafe_at_def)
qed

section \<open>Moving a cube up\<close>

lemma blocked_remove:
  fixes c :: Cube
  assumes "k < length fs"
  defines "fs' \<equiv> fs[k := (fs ! k)\<lparr>cubes := filter (\<lambda>x. x \<noteq> c) (cubes (fs ! k))\<rparr>]"
  shows "blocked fs' j \<subseteq> blocked fs j" "blocked fs j \<subseteq> insert c (blocked fs' j)"
    "k < j \<Longrightarrow> blocked fs' j = blocked fs j"
proof -
  have s: "set (cubes (fs' ! i)) = (if i = k then set (cubes (fs ! i)) - {c} else set (cubes (fs ! i)))" for i
    using assms by auto
  have l: "length fs' = length fs" by (simp add: fs'_def)
  show "blocked fs' j \<subseteq> blocked fs j" "blocked fs j \<subseteq> insert c (blocked fs' j)"
    "k < j \<Longrightarrow> blocked fs' j = blocked fs j"
    by (auto simp: blocked_def s l split: if_splits)
qed

text \<open>A cube may leave its frame when a part of it is blocked in the next one.\<close>

lemma frames_ok_remove:
  assumes ok: "frames_ok A N G fs" and k: "1 \<le> k" "k < length fs"
    and q: "q \<in> blocked fs (Suc k)" "set q \<subseteq> set c"
  defines "fs' \<equiv> fs[k := (fs ! k)\<lparr>cubes := filter (\<lambda>x. x \<noteq> c) (cubes (fs ! k))\<rparr>]"
  shows "frames_ok A N G fs'" "covers fs fs'"
proof -
  note b = blocked_remove [OF k(2), where c = c, folded fs'_def]
  have q': "q \<in> blocked fs' j" if "j \<le> k" for j
  proof -
    have "q \<in> blocked fs' (Suc k)" using q(1) b(3) [of "Suc k"] by simp
    moreover have "blocked fs' (Suc k) \<subseteq> blocked fs' j" using that by (force simp: blocked_def)
    ultimately show ?thesis by blast
  qed
  show c: "covers fs fs'"
    unfolding covers_def
  proof (intro allI impI ballI)
    fix j r
    assume r: "r \<in> blocked fs j"
    show "\<exists>r'\<in>blocked fs' j. set r' \<subseteq> set r"
    proof (cases "r \<in> blocked fs' j")
      case False
      then have "r = c" "j \<le> k" using r b(2,3) [of j] by (auto simp: not_le [symmetric])
      then show ?thesis using q' q(2) by blast
    qed blast
  qed
  show "frames_ok A N G fs'"
  proof (rule frames_ok_change [OF ok _ _ _ c])
    show "length fs' = length fs" by (simp add: fs'_def)
    show "solver (fs' ! j) = solver (fs ! j)" for j
      using k(2) by (cases "j = k") (simp_all add: fs'_def)
    show "cubes (fs' ! 0) = []" if "0 < length fs"
      using ok k that by (auto simp: fs'_def frames_ok_def frame_ok_def)
    show "cube_ok A fs' j r" if j: "j < length fs" and r: "r \<in> set (cubes (fs' ! j))" for j r
    proof -
      have "r \<in> set (cubes (fs ! j))" using r k(2) by (cases "j = k") (auto simp: fs'_def)
      then have "cube_ok A fs j r" using ok j by (auto simp: frames_ok_def frame_ok_def)
      then show ?thesis using cube_ok_mono c by blast
    qed
  qed
qed

lemma frame_cube:
  assumes "frames_ok A N G fs" "i < length fs" "c \<in> set (cubes (fs ! i))"
  shows "latch_cube A c" "init_disjoint A c"
  using assms by (auto simp: frames_ok_def frame_ok_def cube_ok_def)

lemma propagate_cube_ok:
  assumes e: "ipasir_contract e" and inv: "pdr_inv A N G p" and i: "1 \<le> i"
    and c: "latch_cube A c" "init_disjoint A c" and r: "propagate_cube e i c p = Some p'"
  shows "pdr_inv A N G p'" "keeps A p p'" "obligation_queue p' = obligation_queue p"
proof -
  have "is_inductive e i c True True p \<noteq> None"
    using r by (rule contrapos_pn) (simp add: propagate_cube_def)
  then obtain b p1 where x: "is_inductive e i c True True p = Some (b, p1)" by auto
  note p1 = is_inductive_ok [OF e inv c(1) x]
  note ev = same_cubes_evolves [OF p1(2)] and s1 = same_cubesD [OF p1(2)]
  have "pdr_inv A N G p' \<and> keeps A p p' \<and> obligation_queue p' = obligation_queue p"
  proof (cases b)
    case False
    then have "p' = p1" using r x by (simp add: propagate_cube_def)
    then show ?thesis using p1(1) evolves_keeps [OF inv ev] s1(6) by simp
  next
    case True
    have core: "set (core p1) \<subseteq> set c" "rel_ind A (frames p) (nat i) c (core p1)"
      "init_disjoint A (core p1)" using p1(5) True c by simp_all
    have lc: "latch_cube A (core p1)" using latch_cube_mono [OF c(1) core(1)] .
    have ri: "rel_ind A (frames p1) (nat (i + 1) - 1) (core p1) (core p1)"
      using core(2) cube_true_mono [OF core(1)] i
      unfolding rel_ind_def s1(3) by (auto simp: nat_add_distrib)
    have "add_cube (core p1) (i + 1) (length (core p1) < length c) True p1 \<noteq> None"
      using r True x by (cases "add_cube (core p1) (i + 1) (length (core p1) < length c) True p1")
        (auto simp: propagate_cube_def)
    then obtain q p2 where a: "add_cube (core p1) (i + 1) (length (core p1) < length c) True p1 = Some (q, p2)"
      by auto
    have i1: "1 \<le> i + 1" using i by simp
    note p2 = add_cube_ok [OF p1(1) lc core(3) i1 ri a]
    have il: "nat i < length (frames p2)" using p1(4) s1(1) p2(2) by (simp add: evolves_def)
    then have v: "vec_at (frames p2) i = Some (frames p2 ! nat i)" using i by (simp add: vec_at_Some)
    let ?fs = "(frames p2)[nat i := (frames p2 ! nat i)\<lparr>cubes := filter (\<lambda>x. x \<noteq> c) (cubes (frames p2 ! nat i))\<rparr>]"
    have p': "p' = p2\<lparr>core := q, frames := ?fs\<rparr>"
      using r True x a v by (simp add: propagate_cube_def set_cubes_def)
    have "q \<in> blocked (frames p2) (Suc (nat i))" using p2(6) i by simp
    moreover have "set q \<subseteq> set c" using p2(3) core(1) by simp
    ultimately have f: "frames_ok A N G ?fs" "covers (frames p2) ?fs"
      using frames_ok_remove [OF pdr_invD(5) [OF p2(1)], of "nat i" q c] i il by simp_all
    have "pdr_inv A N G p'" using p2(1) f(1) by (simp add: p' pdr_inv_def encodes_def)
    moreover have "keeps A p2 p'" using covers_in_frame [OF f(2)] by (simp add: p' keeps_def)
    moreover have "keeps A p p2"
      using keeps_trans [OF evolves_keeps [OF inv ev] evolves_keeps [OF p1(1) p2(2)]] .
    moreover have "obligation_queue p2 = obligation_queue p" using p2(2) s1(6) by (simp add: evolves_def)
    ultimately show ?thesis using keeps_trans by (auto simp: p')
  qed
  then show "pdr_inv A N G p'" "keeps A p p'" "obligation_queue p' = obligation_queue p" by blast+
qed

lemma keeps_top_safe: "keeps A p p' \<Longrightarrow> top_safe A (frames p) k \<Longrightarrow> top_safe A (frames p') k"
  unfolding keeps_def top_safe_def by blast

lemma propagate_frames_ok:
  assumes e: "ipasir_contract e" and good: "init_good A"
    and "pdr_inv A N G p" "\<forall>i\<in>set is. 1 \<le> i \<and> top_safe A (frames p) (nat i)"
    and "propagate_frames e is p = Some (b, p')"
  shows "(b \<longrightarrow> \<not> unsafe A (bad A))
    \<and> (\<not> b \<longrightarrow> pdr_inv A N G p' \<and> keeps A p p' \<and> obligation_queue p' = obligation_queue p)"
  using assms(3-)
proof (induction "is" arbitrary: p)
  case Nil
  then show ?case by simp
next
  case (Cons i "is")
  have "vec_at (frames p) i \<noteq> None" using Cons.prems(3) by (rule contrapos_pn) simp
  then obtain f where f: "vec_at (frames p) i = Some f" by auto
  then have fi: "nat i < length (frames p)" "f = frames p ! nat i" by (auto simp: vec_at_Some nat_less_iff)
  have "fold_opt (propagate_cube e i) (cubes f) p \<noteq> None"
    using Cons.prems(3) f by (cases "fold_opt (propagate_cube e i) (cubes f) p") auto
  then obtain p1 where x: "fold_opt (propagate_cube e i) (cubes f) p = Some p1" by auto
  have p1: "pdr_inv A N G p1 \<and> keeps A p p1 \<and> obligation_queue p1 = obligation_queue p"
  proof (rule fold_opt_inv [OF x])
    fix c t t'
    assume c: "c \<in> set (cubes f)" and t: "pdr_inv A N G t \<and> keeps A p t \<and> obligation_queue t = obligation_queue p"
      and s: "propagate_cube e i c t = Some t'"
    have "latch_cube A c" "init_disjoint A c"
      using frame_cube [OF pdr_invD(5) [OF Cons.prems(1)] fi(1)] c fi(2) by simp_all
    with propagate_cube_ok [OF e _ _ _ _ s, of A N G] t Cons.prems(2)
    show "pdr_inv A N G t' \<and> keeps A p t' \<and> obligation_queue t' = obligation_queue p"
      using keeps_trans by auto
  qed (use Cons.prems in simp)
  have l1: "nat i < length (frames p1)" using p1 fi(1) by (simp add: keeps_def)
  then have v: "vec_at (frames p1) i = Some (frames p1 ! nat i)" using Cons.prems(2) by (simp add: vec_at_Some)
  show ?case
  proof (cases "cubes (frames p1 ! nat i) = []")
    case True
    have "top_safe A (frames p1) (nat i)" using keeps_top_safe p1 Cons.prems(2) by auto
    then have "\<not> unsafe A (bad A)"
      using empty_frame_safe [OF pdr_invD(5) _ True _ good, of N G] p1 Cons.prems(2) by (simp add: Suc_le_eq)
    moreover have b using Cons.prems(3) f x v True by (auto simp: bind_eq_Some_conv)
    ultimately show ?thesis by simp
  next
    case False
    then have r: "propagate_frames e is p1 = Some (b, p')" using Cons.prems(3) f x v by simp
    have "\<forall>i\<in>set is. 1 \<le> i \<and> top_safe A (frames p1) (nat i)" using Cons.prems(2) keeps_top_safe p1 by auto
    from Cons.IH [OF _ this r] p1 show ?thesis using keeps_trans by auto
  qed
qed

lemma propagate_ok:
  assumes e: "ipasir_contract e" and good: "init_good A" and inv: "pdr_inv A N G p"
    and "1 \<le> depth p" "1 \<le> earliest_strengthened_frame p" "top_safe A (frames p) (nat (depth p))"
    and r: "propagate e p = Some (b, p')"
  shows "b \<Longrightarrow> \<not> unsafe A (bad A)"
    "\<not> b \<Longrightarrow> pdr_inv A N G p' \<and> keeps A p p' \<and> obligation_queue p' = obligation_queue p"
proof -
  have "1 \<le> start_k p" using assms(4,5) by (simp add: start_k_def)
  then have "\<forall>i\<in>set [start_k p..depth p]. 1 \<le> i \<and> top_safe A (frames p) (nat i)"
    using top_safe_mono [OF pdr_invD(5) [OF inv] assms(6)] by auto
  note propagate_frames_ok [OF e good inv this r [unfolded propagate_def]]
  then show "b \<Longrightarrow> \<not> unsafe A (bad A)"
    "\<not> b \<Longrightarrow> pdr_inv A N G p' \<and> keeps A p p' \<and> obligation_queue p' = obligation_queue p" by blast+
qed

end
