(* ===== verification/PDR_Sound.thy ===== *)
theory PDR_Sound
  imports PDR_Prop
begin

text \<open>
  \<^verbatim>\<open>PDR::check\<close>: the encoding of the first frames, the two bounded checks, the main loop, and
  the theorems on the value it returns.
\<close>

section \<open>Opening frames\<close>

text \<open>The formula mentions its largest variable, so every solver that holds it knows it.\<close>

definition tight :: "int \<Rightarrow> cnf \<Rightarrow> bool" where
  "tight N G = (N \<le> fold lit_bound G 0)"

definition fresh_pdr :: "Aiger \<Rightarrow> PDR \<Rightarrow> bool" where
  "fresh_pdr A p = (enc_inv A \<and> aiger p = A \<and> satelite p = None \<and> satelite2 p = None
     \<and> \<not> satelite_unsat p \<and> frames p = [] \<and> init p = None \<and> lift p = None \<and> heap p = Map.empty)"

lemma add_cnf_append: "add_cnf (F @ G) s = add_cnf G (add_cnf F s)"
  by (simp add: add_cnf_def)

lemma add_cnf_if: "(if b then add_clause c (add_cnf F s) else add_cnf F s) = add_cnf (F @ (if b then [c] else [])) s"
  by (simp add: add_cnf_def)

lemma encode_translation_again:
  assumes "encodes G p"
  shows "encode_translation e s p = Some (add_cnf G s, p)"
proof -
  obtain m G0 where m: "satelite p = Some m" "\<forall>s. adds (simplified_cnf m) s = add_cnf G0 s"
    "G = G0 @ (if satelite_unsat p then [[1]] else [])" using assms by (auto simp: encodes_def)
  then show ?thesis by (auto simp: encode_translation_def add_cnf_if [symmetric])
qed

lemma no_step_bad_constraint: "wf_aig A \<Longrightarrow> bad A \<in> set (constraints A) \<Longrightarrow> \<not> tstep A True \<sigma> \<sigma>'"
  by (auto simp: tstep_def constr_ok_def cube_true_set)

lemma encode_translation_first:
  assumes e: "eliminate_contract e" and f: "fresh_pdr A p"
    and r: "encode_translation e s p = Some (s', p1)"
  obtains N G a m where "step_cnf A N G" "tight N G" "s' = add_cnf G s" "encodes G p1" "grow A a"
    "p1 = p\<lparr>aiger := a, satelite := Some m, satelite_unsat := bad A \<in> set (constraints A)\<rparr>"
proof -
  have A: "enc_inv A" and fp: "aiger p = A" "satelite p = None" "\<not> satelite_unsat p"
    using f by (auto simp: fresh_pdr_def)
  note wf = enc_invD(2) [OF A]
  let ?u = "bad A \<in> set (constraints A)"
  obtain m U a where b: "build_satelite A = Some (m, ?u, a)" "built A U a m" "units U True A"
    using build_satelite_ok [OF A] by blast
  let ?p1 = "p\<lparr>aiger := a, satelite := Some (simplify e m), satelite_unsat := ?u\<rparr>"
  let ?N = "ms_nVars m" and ?G = "trans_cnf e m @ (if ?u then [[1]] else [])"
  have z: "s' = add_cnf ?G s" "p1 = ?p1"
    using r fp b(1) by (auto simp: encode_translation_def adds_simplified trans_cnf_def [symmetric]
        add_cnf_if [symmetric] Let_def)
  note t = trans_cnf_ok [OF e A b(2,3)]
  have len: "int (length (variables A)) \<le> ?N + 1" using b(2) by (auto simp: built_def)
  have lv: "leaves_le A ?N" using enc_invD(1) [OF A] len by (auto simp: prime_inv_def leaves_le_def)
  have N1: "1 \<le> ?N" using lv wf_aigD(1,2,6) [OF wf] by (auto simp: leaves_le_def)
  have nz: "nonzero ?G" "lits_le ?N ?G" using t(1,2) N1 by (auto simp: nonzero_def lits_le_def)
  have ns: "\<not> tstep A True \<sigma> \<sigma>'" if ?u for \<sigma> \<sigma>' using no_step_bad_constraint [OF wf that] .
  have "enc_complete A True ?G" using t(3) ns by (cases ?u) (auto simp: enc_complete_def)
  moreover have "(\<exists>\<sigma> \<sigma>'. tstep A True \<sigma> \<sigma>') \<longrightarrow> enc_sound A True ?G" using t(4) ns by (cases ?u) auto
  ultimately have st: "step_cnf A ?N ?G" using nz lv len N1 by (simp add: step_cnf_def base_ok_def)
  have "[?N, - ?N] \<in> set ?G" by (simp add: trans_cnf_def)
  then have ti: "tight ?N ?G"
    using fold_lit_bound_lits [of ?G 0] N1 by (force simp: lits_le_def tight_def)
  have en: "encodes ?G p1"
    using t(1) by (auto simp: z(2) encodes_def adds_simplified trans_cnf_def [symmetric])
  have "grow A a" using b(2) by (simp add: built_def)
  then show thesis using that [OF st ti z(1) en _ z(2)] by blast
qed

lemma fresh_solver_ok:
  assumes B: "base_ok N B" and t: "N \<le> fold lit_bound B 0"
  shows "solver_ok B N Q (add_cnf B CaDiCaL_new)"
proof -
  let ?s = "add_cnf B CaDiCaL_new"
  have nz: "nonzero B" "lits_le N B" "0 \<le> N" using B by (auto simp: base_ok_def)
  have s: "clauses ?s = B" "pending ?s = []" "assumed ?s = []" "nv ?s = fold lit_bound B 0"
    "emax ?s = fold lit_bound B 0"
    using add_cnf_eq [OF nz(1), of CaDiCaL_new] by (simp_all add: CaDiCaL_new_def)
  have "guarded B N Q c" if "c \<in> set B" for c
  proof -
    have "l \<le> N" if "l \<in> set c" for l
      using nz(2) \<open>c \<in> set B\<close> that unfolding lits_le_def by (meson abs_le_D1)
    then show ?thesis using that by (simp add: guarded_def)
  qed
  then show ?thesis using s nz t lits_le_mono [OF nz(2) t] by (simp add: solver_ok_def)
qed

lemma fold_lit_bound_append: "n \<le> fold lit_bound F k \<Longrightarrow> n \<le> fold lit_bound (F @ G) k"
  using fold_lit_bound_ge [of "fold lit_bound F k" G] by simp

lemma frame_solver_ok:
  assumes "enc_inv A" "step_cnf A N G" "tight N G"
  shows "solver_ok (frame_cnf A G j) N Q (add_cnf (frame_cnf A G j) CaDiCaL_new)"
  using fresh_solver_ok [OF frame_cnf_ok [OF assms(1,2)]] fold_lit_bound_append [OF assms(3) [unfolded tight_def]]
  by (simp only: frame_cnf_def)

lemma blocked_snoc: "cubes f = [] \<Longrightarrow> blocked (fs @ [f]) j = blocked fs j"
  by (force simp: blocked_def nth_append less_Suc_eq)

lemma frames_ok_snoc:
  assumes ok: "frames_ok A N G fs" and f: "cubes f = []"
    "solver_ok (frame_cnf A G (length fs)) N {} (solver f)"
  shows "frames_ok A N G (fs @ [f])" "in_frame A (fs @ [f]) = in_frame A fs"
proof -
  note b = blocked_snoc [OF f(1), of fs]
  show i: "in_frame A (fs @ [f]) = in_frame A fs" by (simp add: fun_eq_iff in_frame_def b)
  have "frame_ok A N G (fs @ [f]) j" if j: "j < length fs" for j
  proof -
    have n: "(fs @ [f]) ! j = fs ! j" using j by (simp add: nth_append)
    have "frame_ok A N G fs j" using ok j by (simp add: frames_ok_def)
    then show ?thesis unfolding frame_ok_def cube_ok_def b i n .
  qed
  moreover have "frame_ok A N G (fs @ [f]) (length fs)"
  proof -
    have "blocked fs (length fs) = {}" by (simp add: blocked_def)
    then show ?thesis using f by (cases "fs = []") (simp_all add: frame_ok_def b)
  qed
  ultimately show "frames_ok A N G (fs @ [f])" by (auto simp: frames_ok_def less_Suc_eq)
qed

lemma new_frame_ok:
  assumes inv: "pdr_inv A N G p" and t: "tight N G" and ne: "frames p \<noteq> []"
    and r: "new_frame e p = Some p'"
  obtains f where "p' = p\<lparr>frames := frames p @ [f]\<rparr>" "pdr_inv A N G p'"
    "in_frame A (frames p') = in_frame A (frames p)"
proof -
  let ?f = "Frame_new\<lparr>solver := add_cnf (frame_cnf A G (length (frames p))) CaDiCaL_new\<rparr>"
  have p': "p' = p\<lparr>frames := frames p @ [?f]\<rparr>"
    using r ne encode_translation_again [OF pdr_invD(4) [OF inv]] grow_circ(10) [OF inv]
    by (simp add: new_frame_def Frame_new_def frame_cnf_def add_cnf_append)
  have f: "cubes ?f = []" "solver_ok (frame_cnf A G (length (frames p))) N {} (solver ?f)"
    using frame_solver_ok [OF pdr_invD(1,2) [OF inv] t] by (simp_all add: Frame_new_def)
  note k = frames_ok_snoc [OF pdr_invD(5) [OF inv] f]
  have "pdr_inv A N G p'" using inv k(1) by (simp add: p' pdr_inv_def encodes_def)
  then show thesis using that [OF p'] k(2) by (simp add: p')
qed
section \<open>The bounded checks\<close>

lemma bad_cnf_nonzero: "wf_aig A \<Longrightarrow> nonzero (bad_cnf A)"
  using wf_gate_in coi_subset by (fastforce simp: bad_cnf_def nonzero_def gate_clauses_def and_clauses_def gate_in_def)

lemma solve_clauses:
  assumes "nonzero F" "CaDiCaL_solve e (CaDiCaL_assume l (add_cnf F CaDiCaL_new)) = (res, s)" "l \<noteq> 0"
    and e: "ipasir_contract e"
  shows "res = SAT \<Longrightarrow> \<exists>\<alpha>. sat_cnf \<alpha> F \<and> lit_val \<alpha> l"
    "res \<noteq> SAT \<Longrightarrow> ipasir_complete e \<Longrightarrow> sat_cnf \<alpha> F \<Longrightarrow> \<not> lit_val \<alpha> l"
proof -
  let ?u = "CaDiCaL_assume l (add_cnf F CaDiCaL_new)"
  have u: "clauses ?u = F" "assumed ?u = [l]"
    using add_cnf_eq [OF assms(1), of CaDiCaL_new] by (simp_all add: CaDiCaL_assume_def CaDiCaL_new_def)
  have nz: "nonzero (clauses ?u)" "0 \<notin> set (assumed ?u)" using u assms by simp_all
  show "\<exists>\<alpha>. sat_cnf \<alpha> F \<and> lit_val \<alpha> l" if "res = SAT"
    using solve_Sat [OF e nz assms(2) that] u by (metis cube_true_set list.set_intros(1))
  show "\<not> lit_val \<alpha> l" if us: "res \<noteq> SAT" "ipasir_complete e" "sat_cnf \<alpha> F"
  proof
    assume l: "lit_val \<alpha> l"
    obtain core where core: "set core \<subseteq> set (assumed ?u)"
      "\<And>\<alpha>. sat_cnf \<alpha> (clauses ?u) \<Longrightarrow> cube_true \<alpha> core \<Longrightarrow> False"
      using solve_Unsat [OF e nz assms(2) solve_complete [OF us(2) assms(2) us(1)]] by blast
    have "cube_true \<alpha> core" using core(1) l u(2) by (auto simp: cube_true_set)
    then show False using core(2) us(3) u(1) by simp
  qed
qed

lemma check_BMC0_ok:
  assumes e: "ipasir_contract e" "eliminate_contract e" and f: "fresh_pdr A p"
    and r: "check_BMC0 e p = Some (b, p')"
  shows "\<not> b \<Longrightarrow> unsafe A (bad A)"
    "b \<Longrightarrow> ipasir_complete e \<Longrightarrow> init_good A"
    "b \<Longrightarrow> \<exists>N G. pdr_inv A N G p' \<and> tight N G \<and> length (frames p') = 1"
proof -
  have A: "enc_inv A" and fp: "aiger p = A" "frames p = []" using f by (auto simp: fresh_pdr_def)
  note wf = enc_invD(2) [OF A]
  let ?F = "init_cnf A @ bad_cnf A"
  have nz: "nonzero ?F" using init_cnf_lits(1) [OF wf] bad_cnf_nonzero [OF wf] by (auto simp: nonzero_def)
  have bz: "bad A \<noteq> 0" using wf_aigD(7) [OF wf] by (auto simp: lit_in_def)
  obtain res s where q: "CaDiCaL_solve e (CaDiCaL_assume (bad A) (add_cnf ?F CaDiCaL_new)) = (res, s)"
    by fastforce
  note sc = solve_clauses [OF nz q bz e(1)]
  have en: "encode_bad_state A (encode_init_condition A CaDiCaL_new) = Some (add_cnf ?F CaDiCaL_new)"
    by (simp add: encode_bad_state_ok [OF wf] encode_init_condition_def add_cnf_append)
  note eqs = check_BMC0_def fp en q
  have b: "b = (res \<noteq> SAT)" using r by (auto simp: eqs Let_def bind_eq_Some_conv split: if_splits prod.splits)
  show "unsafe A (bad A)" if nb: "\<not> b"
  proof -
    obtain \<alpha> where \<alpha>: "sat_cnf \<alpha> (init_cnf A)" "sat_cnf \<alpha> (bad_cnf A)" "lit_val \<alpha> (bad A)"
      using sc(1) nb b by (auto simp: sat_simps)
    have "\<not> \<alpha> 1" using init_cnf_sem [OF wf] \<alpha>(1) by blast
    then have "lit_val (completed A \<alpha>) (bad A)" using bad_cnf_sound [OF wf \<alpha>(2)] \<alpha>(3) by simp
    moreover have "reach A 0 (completed A \<alpha>)" using init_cnf_sound [OF wf \<alpha>(1)] by simp
    ultimately show ?thesis unfolding unsafe_def unsafe_at_def by blast
  qed
  show "init_good A" if bb: b and c: "ipasir_complete e"
    unfolding init_good_def
  proof (intro allI impI)
    fix \<sigma>
    assume "valid A \<sigma>" "init_ok A \<sigma>"
    then have "sat_cnf \<sigma> ?F"
      using init_cnf_complete [OF wf] bad_cnf_complete [OF wf] by (simp add: sat_simps valid_def)
    then show "\<not> lit_val \<sigma> (bad A)" using sc(2) bb b c by simp
  qed
  show "\<exists>N G. pdr_inv A N G p' \<and> tight N G \<and> length (frames p') = 1" if bb: b
  proof -
    have "new_frame e p \<noteq> None" using r by (rule contrapos_pn) (use bb b in \<open>simp add: eqs Let_def\<close>)
    then have "encode_translation e CaDiCaL_new p \<noteq> None"
      by (rule contrapos_nn) (simp add: new_frame_def Frame_new_def)
    then obtain s1 p1 where t: "encode_translation e CaDiCaL_new p = Some (s1, p1)" by auto
    obtain N G a m where k: "step_cnf A N G" "tight N G" "s1 = add_cnf G CaDiCaL_new" "encodes G p1" "grow A a"
      "p1 = p\<lparr>aiger := a, satelite := Some m, satelite_unsat := bad A \<in> set (constraints A)\<rparr>"
      by (rule encode_translation_first [OF e(2) f t])
    let ?fr = "Frame_new\<lparr>solver := add_cnf (frame_cnf A G 0) CaDiCaL_new\<rparr>"
    have ic: "init_cnf a = init_cnf A" "constraints_prime a = constraints_prime A"
      using circD [OF growD(1) [OF k(5)]] growD(4) [OF k(5)] by (simp_all add: init_cnf_def)
    let ?f0 = "Frame_new\<lparr>solver := add_cnf (map (\<lambda>l. [l]) (constraints_prime A)) (add_cnf G CaDiCaL_new)\<rparr>"
    have nf: "new_frame e p = Some (p1\<lparr>frames := [?f0]\<rparr>)"
      using t by (simp add: new_frame_def Frame_new_def k(3,6) ic fp(2))
    have "p' = set_solver 0 (encode_init_condition (aiger p1) (solver ?f0)) (p1\<lparr>frames := [?f0]\<rparr>)"
      using r bb b nf by (simp add: eqs vec_at_def)
    then have "p' = p1\<lparr>frames := [?fr]\<rparr>"
      by (simp add: set_solver_def k(6) ic frame_cnf_def add_cnf_append encode_init_condition_def)
    moreover have "frames_ok A N G [?fr]"
      using frames_ok_snoc(1) [of A N G "[]" ?fr] frame_solver_ok [OF A k(1,2)]
      by (simp add: frames_ok_def Frame_new_def)
    ultimately show ?thesis
      using A k(1,2,4,5) f by (intro exI [of _ N] exI [of _ G]) (simp add: pdr_inv_def fresh_pdr_def k(6) encodes_def)
  qed
qed

lemma check_BMC1_ok:
  assumes e: "ipasir_contract e" and inv: "pdr_inv A N G p" and t: "tight N G" and good: "init_good A"
    and r: "check_BMC1 e p = Some (b, p')"
  shows "\<not> b \<Longrightarrow> unsafe A (bad A)"
    "b \<Longrightarrow> pdr_inv A N G p' \<and> length (frames p') = 2 \<and> (ipasir_complete e \<longrightarrow> top_safe A (frames p') 0)"
proof -
  note A = pdr_invD(1) [OF inv] and G = pdr_invD(2) [OF inv]
  have len: "length (frames p) = 1" using r by (auto simp: check_BMC1_def split: if_splits)
  let ?F = "init_cnf A @ G @ map (\<lambda>l. [l]) (constraints_prime A)"
  have fz: "sat_cnf \<alpha> ?F = sat_cnf \<alpha> (frame_cnf A G 0)" for \<alpha>
    by (auto simp: frame_cnf_def sat_simps)
  have nz: "nonzero ?F" using frame_cnf_ok [OF A G, of 0] by (auto simp: base_ok_def frame_cnf_def nonzero_def)
  obtain res s where q: "CaDiCaL_solve e (CaDiCaL_assume (bad_prime A) (add_cnf ?F CaDiCaL_new)) = (res, s)"
    by fastforce
  note sc = solve_clauses [OF nz q bad_prime_lit(1) [OF A G] e]
  have ep: "encode_init_condition (aiger p) CaDiCaL_new = add_cnf (init_cnf A) CaDiCaL_new"
    using grow_circ(11) [OF inv] by (simp add: encode_init_condition_def)
  have qq: "CaDiCaL_solve e (CaDiCaL_assume (bad_prime (aiger p))
      (add_cnf (map (\<lambda>l. [l]) (constraints_prime (aiger p))) (add_cnf G (add_cnf (init_cnf A) CaDiCaL_new)))) = (res, s)"
    using q grow_circ(9,10) [OF inv] by (simp add: add_cnf_append)
  note eqs = check_BMC1_def len ep encode_translation_again [OF pdr_invD(4) [OF inv]] qq
  have b: "b = (res \<noteq> SAT)"
  proof (cases "res = SAT")
    case True
    then show ?thesis using r by (simp add: eqs new_State_def upd_State_def Let_def)
  next
    case False
    then show ?thesis using r by (cases "new_frame e p") (simp_all add: eqs)
  qed
  show "unsafe A (bad A)" if nb: "\<not> b"
  proof -
    obtain \<alpha> where \<alpha>: "sat_cnf \<alpha> (frame_cnf A G 0)" "lit_val \<alpha> (bad_prime A)"
      using sc(1) nb b fz by blast
    obtain \<sigma> \<sigma>' where s: "vstep A \<sigma> \<sigma>'" "init_ok A \<sigma>" "agrees A \<alpha> \<sigma> \<sigma>'"
      by (rule frame_0_sound [OF A G good \<alpha>(1)])
    have "reach A (Suc 0) \<sigma>'"
      using s(1,2) vstep_valid [OF s(1)] by (auto intro!: reach_step reach_init simp: vstep_def tstep_def)
    moreover have "lit_val \<sigma>' (bad A)" using s(3) \<alpha>(2) by (simp add: agrees_def)
    ultimately show ?thesis by (auto simp: unsafe_def unsafe_at_def)
  qed
  show "pdr_inv A N G p' \<and> length (frames p') = 2 \<and> (ipasir_complete e \<longrightarrow> top_safe A (frames p') 0)" if bb: b
  proof -
    have "new_frame e p \<noteq> None" using r by (rule contrapos_pn) (use bb b in \<open>simp add: eqs Let_def\<close>)
    then have nf: "new_frame e p = Some p'" using r bb b by (auto simp: eqs Let_def)
    have ne: "frames p \<noteq> []" using len by auto
    obtain f where k: "p' = p\<lparr>frames := frames p @ [f]\<rparr>" "pdr_inv A N G p'"
      "in_frame A (frames p') = in_frame A (frames p)"
      by (rule new_frame_ok [OF inv t ne nf])
    have "top_safe A (frames p) 0" if c: "ipasir_complete e"
      unfolding top_safe_def
    proof (intro allI impI)
      fix \<sigma> \<sigma>'
      assume "in_frame A (frames p) 0 \<sigma>" and st: "vstep A \<sigma> \<sigma>'"
      then have i: "init_ok A \<sigma>" by (simp add: in_frame_def)
      obtain \<alpha> where \<alpha>: "sat_cnf \<alpha> (frame_cnf A G 0)" "agrees A \<alpha> \<sigma> \<sigma>'"
        by (rule frame_model [OF A G st, of 0]) (use i in auto)
      then have "\<not> lit_val \<alpha> (bad_prime A)" using sc(2) bb b c fz by blast
      then show "\<not> lit_val \<sigma>' (bad A)" using \<alpha>(2) by (simp add: agrees_def)
    qed
    then show ?thesis using k(2) len by (simp add: top_safe_def k(3)) (simp add: k(1) len)
  qed
qed
section \<open>The main loop\<close>

definition loop_inv :: "Aiger \<Rightarrow> int \<Rightarrow> cnf \<Rightarrow> PDR \<Rightarrow> bool" where
  "loop_inv A N G p = (pdr_inv A N G p \<and> tight N G \<and> init_good A \<and> 1 \<le> depth p
     \<and> top_safe A (frames p) (nat (depth p) - 1) \<and> 1 \<le> earliest_strengthened_frame p)"

lemma pdr_inv_cong:
  assumes "pdr_inv A N G p" "aiger p' = aiger p" "satelite p' = satelite p" "satelite_unsat p' = satelite_unsat p"
    "frames p' = frames p" "init p' = init p" "lift p' = lift p" "satelite2 p' = satelite2 p"
    "\<And>x. heap p' x \<noteq> None \<Longrightarrow> heap p x \<noteq> None" "state_count p' = state_count p"
  shows "pdr_inv A N G p'"
  using assms unfolding pdr_inv_def encodes_def by simp

lemma delete_states:
  "\<exists>h. fold delete_State xs p = p\<lparr>heap := h\<rparr> \<and> (\<forall>x. h x \<noteq> None \<longrightarrow> heap p x \<noteq> None)"
proof (induction xs arbitrary: p)
  case Nil
  then show ?case by (intro exI [of _ "heap p"]) simp
next
  case (Cons y xs)
  obtain h where h: "fold delete_State xs (delete_State y p) = (delete_State y p)\<lparr>heap := h\<rparr>"
    "\<forall>x. h x \<noteq> None \<longrightarrow> heap (delete_State y p) x \<noteq> None" using Cons.IH by blast
  have "heap p x \<noteq> None" if "h x \<noteq> None" for x
  proof -
    have "((heap p)(y := None)) x \<noteq> None" using h(2) that by (simp add: delete_State_def)
    then show ?thesis by (cases "x = y") simp_all
  qed
  moreover have "fold delete_State (y # xs) p = p\<lparr>heap := h\<rparr>" using h(1) by (simp add: delete_State_def)
  ultimately show ?case by blast
qed

lemma loop_inv_deleted:
  assumes "block_inv A N G p" "tight N G"
  shows "loop_inv A N G (fold delete_State (states p) p)"
proof -
  obtain h where h: "fold delete_State (states p) p = p\<lparr>heap := h\<rparr>" "\<forall>x. h x \<noteq> None \<longrightarrow> heap p x \<noteq> None"
    using delete_states by blast
  have "pdr_inv A N G (p\<lparr>heap := h\<rparr>)"
    by (rule pdr_inv_cong [of A N G p]) (use assms h(2) in \<open>simp_all add: block_inv_def\<close>)
  then show ?thesis using assms by (simp add: h(1) loop_inv_def block_inv_def depth_def)
qed

lemma loop_inv_read:
  assumes "loop_inv A N G p" "read_RESULT e p = (x, p')"
  shows "loop_inv A N G p'"
proof -
  have p': "p' = p\<lparr>RESULT := x, polls := Suc (polls p)\<rparr>" using assms(2) by (auto simp: read_RESULT_def Let_def)
  have "pdr_inv A N G p'" by (rule pdr_inv_cong [of A N G p]) (use assms(1) in \<open>simp_all add: p' loop_inv_def\<close>)
  then show ?thesis using assms(1) by (simp add: p' loop_inv_def depth_def)
qed

lemma loop_inv_new_State:
  assumes "loop_inv A N G p" "new_State l i p = (s, p')"
  shows "loop_inv A N G p'" "heap p' s \<noteq> None"
  using new_State_ok [of A N G p l i s p'] assms by (auto simp: loop_inv_def evolves_def depth_def)

lemma loop_inv_open:
  assumes inv: "pdr_inv A N G p" and t: "tight N G" and good: "init_good A" and d: "0 \<le> depth p"
    and top: "top_safe A (frames p) (nat (depth p))" and r: "new_frame e p = Some p'"
  shows "loop_inv A N G (open_top p')"
proof -
  have ne: "frames p \<noteq> []" using d by (auto simp: depth_def)
  obtain f where k: "p' = p\<lparr>frames := frames p @ [f]\<rparr>" "pdr_inv A N G p'"
    "in_frame A (frames p') = in_frame A (frames p)"
    by (rule new_frame_ok [OF inv t ne r])
  have dd: "depth p' = depth p + 1" by (simp add: k(1) depth_def)
  have "pdr_inv A N G (open_top p')" by (rule pdr_inv_cong [OF k(2)]) (simp_all add: open_top_def)
  moreover have "top_safe A (frames p') (nat (depth p') - 1)" using top d by (simp add: top_safe_def k(3) dd nat_add_distrib)
  ultimately show ?thesis using t good d dd by (simp add: loop_inv_def open_top_def depth_def)
qed

text \<open>One iteration: it keeps the invariant, or it returns a right answer.\<close>

definition loop_post :: "Aiger \<Rightarrow> int \<Rightarrow> bool" where
  "loop_post A r = (r = 0 \<or> r = 10 \<and> unsafe A (bad A) \<or> r = 20 \<and> \<not> unsafe A (bad A))"

lemma check_step_ok:
  assumes e: "ipasir_contract e" "eliminate_contract e" "shuffle_contract e" "ipasir_complete e"
    and bv: "bad_valid A" and i: "loop_inv A N G p" and r: "check_step e p = Some (x, p')"
  shows "case x of Continue \<Rightarrow> loop_inv A N G p' | Return v \<Rightarrow> loop_post A v | Break v \<Rightarrow> loop_post A v"
proof -
  obtain rr p0 where rr: "read_RESULT e p = (rr, p0)" by fastforce
  note i0 = loop_inv_read [OF i rr]
  show ?thesis
  proof (cases "rr = 0")
    case False
    then have "x = Return 0" using r rr by (simp add: check_step_def)
    then show ?thesis by (simp add: loop_post_def)
  next
    case z: True
    obtain s p2 where n: "new_State [] [] p0 = (s, p2)" by fastforce
    note i2 = loop_inv_new_State [OF i0 n]
    have l2: "pdr_inv A N G p2" "tight N G" "init_good A" "1 \<le> depth p2" "1 \<le> earliest_strengthened_frame p2"
      "top_safe A (frames p2) (nat (depth p2) - 1)"
      using i2(1) by (simp_all add: loop_inv_def)
    note eqs = check_step_def rr z restart_def n
    have "get_pre_of_bad e s p2 \<noteq> None" using r by (rule contrapos_pn) (simp add: eqs)
    then obtain fl p3 where g: "get_pre_of_bad e s p2 = Some (fl, p3)" by auto
    note k = get_pre_of_bad_ok [OF e(1,2) bv l2(1,4,6) g]
    have len: "length (frames p3) = length (frames p2)" using k(2) by (metis length_map)
    then have dp: "depth p3 = depth p2" by (simp add: depth_def)
    have fr: "blocked (frames p3) = blocked (frames p2)"
    proof -
      have "cubes (frames p3 ! j) = cubes (frames p2 ! j)" if "j < length (frames p2)" for j
        using k(2) len that by (metis nth_map)
      then show ?thesis by (simp add: fun_eq_iff blocked_def len)
    qed
    then have inf: "in_frame A (frames p3) = in_frame A (frames p2)" by (simp add: fun_eq_iff in_frame_def)
    have top: "top_safe A (frames p3) (nat (depth p3) - 1)" using l2(6) by (simp add: top_safe_def inf dp)
    show ?thesis
    proof (cases fl)
      case True
      define ob where "ob = Obligation_new s (depth p3 - 1) 1 (thread_index p3)"
      let ?p3 = "p3\<lparr>obligation_queue := [], top_frame_cannot_reach_bad := False\<rparr>"
      define p4 where "p4 = insert_obligation ob ?p3"
      have p4: "set (obligation_queue p4) \<subseteq> {ob}"
        using set_insert_obl [of _ ob ?p3] by (auto simp: p4_def)
      have fl4: "frames p4 = frames p3" "heap p4 = heap p3"
        "earliest_strengthened_frame p4 = earliest_strengthened_frame p3"
        by (simp_all add: p4_def insert_obligation_def)
      have d4: "depth p4 = depth p3" by (simp add: depth_def fl4)
      have "pdr_inv A N G p4" by (rule pdr_inv_cong [OF k(1)]) (simp_all add: p4_def insert_obligation_def)
      moreover obtain st where st: "heap p3 s = Some st" "latch_cube A (latches st)" "doomed A (latches st)"
        "blockable A (frames p3) (nat (depth p2) - 1) (latches st)" using k(5) True by blast
      have "obl_state ob = s" "frame_k ob = depth p3 - 1" by (simp_all add: ob_def Obligation_new_def)
      then have "obl_ok A p4 ob"
        using st l2(4) dp by (simp add: obl_ok_def fl4 d4 nat_diff_distrib)
      ultimately have b4: "block_inv A N G p4"
        using l2 top k(4) p4 dp by (auto simp: block_inv_def fl4 d4)
      have "rec_block_cube e p4 \<noteq> None"
        using r by (rule contrapos_pn) (simp add: eqs g True p4_def ob_def)
      then obtain ok p5 where rb: "rec_block_cube e p4 = Some (ok, p5)" by auto
      note rk = rec_block_cube_ok [OF e(1-3) bv b4 rb]
      show ?thesis
      proof (cases ok)
        case True
        then have "x = Continue" "p' = fold delete_State (states p5) p5" using r \<open>fl\<close> by (simp_all add: eqs g rb [unfolded p4_def ob_def])
        then show ?thesis using loop_inv_deleted [OF rk(1) l2(2)] True by simp
      next
        case False
        have "report_cex e p5 \<noteq> None"
          using r by (rule contrapos_pn) (simp add: eqs g \<open>fl\<close> rb [unfolded p4_def ob_def] False)
        then have "x = Break 10" using r \<open>fl\<close> False by (auto simp: eqs g rb [unfolded p4_def ob_def])
        then show ?thesis using rk(2) False by (simp add: loop_post_def)
      qed
    next
      case False
      have qe: "obligation_queue p3 = []" using r False by (auto simp: eqs g split: if_splits)
      have ts: "top_safe A (frames p3) (nat (depth p3))" using k(6) False e(4) dp by simp
      have "propagate e p3 \<noteq> None" using r by (rule contrapos_pn) (simp add: eqs g False qe)
      then obtain ok p4 where pr: "propagate e p3 = Some (ok, p4)" by auto
      have l3: "1 \<le> depth p3" "1 \<le> earliest_strengthened_frame p3" using l2 dp k(4) by simp_all
      note pk = propagate_ok [OF e(1) l2(3) k(1) l3 ts pr]
      show ?thesis
      proof (cases ok)
        case True
        then have "x = Break 20" using r False qe by (simp add: eqs g pr)
        then show ?thesis using pk(1) True by (simp add: loop_post_def)
      next
        case no: False
        have "new_frame e p4 \<noteq> None" using r by (rule contrapos_pn) (simp add: eqs g False qe pr no)
        then obtain p5 where nf: "new_frame e p4 = Some p5" by auto
        have x: "x = Continue" "p' = open_top p5" using r False qe no by (simp_all add: eqs g pr nf)
        have d4: "depth p4 = depth p3" using pk(2) no by (simp add: keeps_def depth_def)
        then have "top_safe A (frames p4) (nat (depth p4))" using keeps_top_safe [of A p3 p4] ts pk(2) no by simp
        then have "loop_inv A N G (open_top p5)"
          using loop_inv_open [OF _ l2(2,3) _ _ nf] pk(2) no d4 l3 by simp
        then show ?thesis using x by simp
      qed
    qed
  qed
qed

lemma check_loop_rule:
  assumes r: "check_loop e p = Some y" and I: "I p"
    and step: "\<And>p x p'. I p \<Longrightarrow> check_step e p = Some (x, p') \<Longrightarrow>
      (case x of Continue \<Rightarrow> I p' | Return v \<Rightarrow> Q v | Break v \<Rightarrow> Q v)"
  shows "Q (fst y)"
proof -
  have "I p \<longrightarrow> e' = e \<longrightarrow> Q (fst y)" if "check_loop e' p = Some y" for e' p y
  proof (rule check_loop.raw_induct [OF _ that])
    fix rec e' p y
    assume IH: "\<And>e' p y. rec e' p = Some y \<Longrightarrow> I p \<longrightarrow> e' = e \<longrightarrow> Q (fst y)"
      and b: "do { (x, p1) \<leftarrow> check_step e' p; case x of Continue \<Rightarrow> rec e' p1
        | Return r \<Rightarrow> Some (r, p1) | Break r \<Rightarrow> Some (r, p1\<lparr>frames := []\<rparr>) } = Some y"
    show "I p \<longrightarrow> e' = e \<longrightarrow> Q (fst y)"
    proof (intro impI)
      assume i: "I p" and e: "e' = e"
      obtain x p1 where x: "check_step e p = Some (x, p1)"
        "(case x of Continue \<Rightarrow> rec e p1 | Return r \<Rightarrow> Some (r, p1) | Break r \<Rightarrow> Some (r, p1\<lparr>frames := []\<rparr>)) = Some y"
        using b e by (auto simp: bind_eq_Some_conv)
      show "Q (fst y)" using step [OF i x(1)] x(2) IH by (cases x) auto
    qed
  qed
  then show ?thesis using r I by blast
qed
section \<open>PDR::check returns the right answer\<close>

lemma circ_reach:
  assumes "circ A = circ C"
  shows "reach A n \<sigma> = reach C n \<sigma>"
  by (induction n arbitrary: \<sigma>) (simp_all add: circ_sem(4,5,8) [OF assms] reach_Suc)

lemma circ_unsafe: "circ A = circ C \<Longrightarrow> unsafe A (bad A) = unsafe C (bad C)"
  using circ_reach [of A C] circD(9) [of A C] by (simp add: unsafe_def unsafe_at_def)

lemma circ_bad_valid: "circ A = circ C \<Longrightarrow> bad_valid A = bad_valid C"
  using circ_sem(2,3) [of A C] circD(9) [of A C] by (simp add: bad_valid_def)

lemma check_ok:
  assumes e: "ipasir_contract e" "eliminate_contract e" "shuffle_contract e" "ipasir_complete e"
    and C: "loaded C" and bv: "bad_valid C" and r: "check e (PDR_new C t acc pr ao) = Some (v, p')"
  shows "loop_post C v"
proof -
  obtain A where A: "PDR_translate_to_dimacs C = Some A" "enc_inv A" "circ A = circ C"
    using PDR_translate_ok C unfolding loaded_def by blast
  have post: "loop_post C x = loop_post A x" for x using circ_unsafe [OF A(3)] by (simp add: loop_post_def)
  have bvA: "bad_valid A" using circ_bad_valid [OF A(3)] bv by simp
  let ?p = "PDR_new C t acc pr ao"
  let ?q = "initialize_heuristic (?p\<lparr>satelite := None, aiger := A\<rparr>)"
  have i: "initialize ?p = Some ?q" using A(1) by (simp add: initialize_def simplify_aiger_def PDR_new_def Let_def)
  have f: "fresh_pdr A ?q" using A(2) by (simp add: fresh_pdr_def initialize_heuristic_def PDR_new_def Let_def)
  have "check_BMC0 e ?q \<noteq> None" using r by (rule contrapos_pn) (simp add: check_def i)
  then obtain b0 p1 where b0: "check_BMC0 e ?q = Some (b0, p1)" by auto
  note k0 = check_BMC0_ok [OF e(1,2) f b0]
  show ?thesis
  proof (cases b0)
    case False
    have "report_cex e p1 \<noteq> None" using r by (rule contrapos_pn) (simp add: check_def i b0 False)
    then have "v = 10" using r by (auto simp: check_def i b0 False)
    then show ?thesis unfolding post using k0(1) False by (simp add: loop_post_def)
  next
    case True
    have good: "init_good A" using k0(2) True e(4) by blast
    obtain N G where k1: "pdr_inv A N G p1" "tight N G" "length (frames p1) = 1" using k0(3) True by blast
    have "check_BMC1 e p1 \<noteq> None" using r by (rule contrapos_pn) (simp add: check_def i b0 True)
    then obtain b1 p2 where b1: "check_BMC1 e p1 = Some (b1, p2)" by auto
    note k2 = check_BMC1_ok [OF e(1) k1(1,2) good b1]
    show ?thesis
    proof (cases b1)
      case False
      have "report_cex e p2 \<noteq> None" using r by (rule contrapos_pn) (simp add: check_def i b0 True b1 False)
      then have "v = 10" using r by (auto simp: check_def i b0 True b1 False)
      then show ?thesis unfolding post using k2(1) False by (simp add: loop_post_def)
    next
      case t1: True
      have inv2: "pdr_inv A N G p2" "length (frames p2) = 2" "top_safe A (frames p2) 0"
        using k2(2) t1 e(4) by simp_all
      have d2: "depth p2 = 0" using inv2(2) by (simp add: depth_def)
      have "new_frame e p2 \<noteq> None" using r by (rule contrapos_pn) (simp add: check_def i b0 True b1 t1)
      then obtain p3 where nf: "new_frame e p2 = Some p3" by auto
      have li: "loop_inv A N G (open_top p3)"
        using loop_inv_open [OF inv2(1) k1(2) good _ _ nf] d2 inv2(3) by simp
      have cl: "check_loop e (open_top p3) = Some (v, p')"
        using r by (auto simp: check_def i b0 True b1 t1 nf split: if_splits)
      have "loop_post A (fst (v, p'))"
        by (rule check_loop_rule [where I = "loop_inv A N G", OF cl li]) (rule check_step_ok [OF e bvA])
      then show ?thesis by (simp add: post)
    qed
  qed
qed

end
