(* ===== verification/RefSolver.thy ===== *)
theory RefSolver
  imports SatSolver
begin

text \<open>
  An executable SAT procedure that keeps both contracts of \<open>SatSolver\<close>: splitting on the
  literals of the formula, unit clauses first, with the whole assumption list as core and
  no preprocessing. It is not part of the program; it shows that the contracts can be
  met and lets concrete runs of the model checker be evaluated.
\<close>

definition ref_set :: "int \<Rightarrow> cnf \<Rightarrow> cnf" where
  "ref_set l F = map (removeAll (- l)) (filter (\<lambda>c. l \<notin> set c) F)"

definition ref_pick :: "cnf \<Rightarrow> int" where
  "ref_pick F = (case find (\<lambda>c. length c = 1) F of Some c \<Rightarrow> hd c | None \<Rightarrow> hd (hd F))"

definition cnf_size :: "cnf \<Rightarrow> nat" where
  "cnf_size F = sum_list (map length F)"

lemma cnf_size_map_le: "(\<And>c. length (f c) \<le> length c) \<Longrightarrow> cnf_size (map f F) \<le> cnf_size F"
  by (induction F) (auto simp: cnf_size_def intro: add_mono)

lemma ref_set_le: "cnf_size (ref_set l F) \<le> cnf_size F"
proof -
  have "cnf_size (ref_set l F) \<le> cnf_size (filter (\<lambda>c. l \<notin> set c) F)"
    unfolding ref_set_def by (rule cnf_size_map_le) (simp add: length_removeAll_less_eq)
  also have "\<dots> \<le> cnf_size F"
    by (induction F) (auto simp: cnf_size_def)
  finally show ?thesis .
qed

lemma ref_set_Cons:
  "ref_set l (c # F) = (if l \<in> set c then ref_set l F else removeAll (- l) c # ref_set l F)"
  by (simp add: ref_set_def)

lemma cnf_size_Cons: "cnf_size (c # F) = length c + cnf_size F"
  by (simp add: cnf_size_def)

lemma ref_set_less: "c \<in> set F \<Longrightarrow> l \<in> set c \<or> - l \<in> set c \<Longrightarrow> cnf_size (ref_set l F) < cnf_size F"
proof (induction F)
  case (Cons d F)
  have le: "cnf_size (ref_set l F) \<le> cnf_size F" by (rule ref_set_le)
  show ?case
  proof (cases "l \<in> set d \<or> - l \<in> set d")
    case True
    then have "0 < length d" by auto
    then show ?thesis
      using True le length_removeAll_less [of "- l" d]
      by (cases "l \<in> set d"; cases d) (simp_all add: ref_set_Cons cnf_size_Cons add_less_le_mono)
  next
    case False
    then have "cnf_size (ref_set l F) < cnf_size F" using Cons by auto
    with False show ?thesis by (simp add: ref_set_Cons cnf_size_Cons)
  qed
qed simp

lemma ref_pick_mem:
  assumes "F \<noteq> []" and "[] \<notin> set F"
  shows "\<exists>c\<in>set F. ref_pick F \<in> set c"
proof (cases "find (\<lambda>c. length c = 1) F")
  case None
  then have "hd F \<in> set F" "hd F \<noteq> []" using assms by (cases F; auto)+
  then show ?thesis using None by (auto simp: ref_pick_def intro!: bexI [of _ "hd F"])
next
  case (Some c)
  then have "c \<in> set F" "c \<noteq> []" using assms
    by (auto simp: find_Some_iff)
  then show ?thesis using Some by (auto simp: ref_pick_def intro!: bexI [of _ c])
qed

function ref_search :: "cnf \<Rightarrow> int list option" where
  "ref_search F =
     (if F = [] then Some []
      else if [] \<in> set F then None
      else (case ref_search (ref_set (ref_pick F) F) of
              Some m \<Rightarrow> Some (ref_pick F # m)
            | None \<Rightarrow> (case ref_search (ref_set (- ref_pick F) F) of
                         Some m \<Rightarrow> Some (- ref_pick F # m)
                       | None \<Rightarrow> None)))"
  by pat_completeness auto
termination
proof (relation "measure cnf_size", goal_cases)
  case (2 F)
  then show ?case using ref_pick_mem ref_set_less by (metis in_measure)
next
  case (3 F)
  then show ?case using ref_pick_mem ref_set_less by (metis in_measure add.inverse_inverse)
qed simp

declare ref_search.simps [simp del]

definition ref_assign :: "int list \<Rightarrow> assignment" where
  "ref_assign m = (\<lambda>v. v \<in> set m)"

definition lit_vars :: "cnf \<Rightarrow> int set" where
  "lit_vars F = (\<Union>c\<in>set F. abs ` set c)"

lemma lit_vars_ref_set: "lit_vars (ref_set l F) \<subseteq> lit_vars F - {\<bar>l\<bar>}"
proof -
  have "\<bar>k\<bar> \<noteq> \<bar>l\<bar>" if "c \<in> set F" "l \<notin> set c" "k \<in> set c" "k \<noteq> - l" for c k
    using that by (metis abs_eq_iff)
  then show ?thesis by (auto simp: lit_vars_def ref_set_def)
qed

text \<open>A formula is satisfiable under a literal exactly when its reduct is.\<close>

lemma sat_ref_set:
  assumes "lit_val \<alpha> l" and "l \<noteq> 0"
  shows "sat_cnf \<alpha> (ref_set l F) = sat_cnf \<alpha> F"
proof -
  have "sat_clause \<alpha> (removeAll (- l) c) = sat_clause \<alpha> c" for c
    using assms by (auto simp: sat_clause_set sat_simps)
  moreover have "sat_clause \<alpha> c" if "l \<in> set c" for c
    using that assms by (auto simp: sat_clause_set)
  ultimately show ?thesis by (auto simp: sat_cnf_set ref_set_def)
qed

lemma nonzero_ref_set: "nonzero F \<Longrightarrow> nonzero (ref_set l F)"
  by (auto simp: nonzero_def ref_set_def)

lemma ref_pick_nonzero: "nonzero F \<Longrightarrow> F \<noteq> [] \<Longrightarrow> [] \<notin> set F \<Longrightarrow> ref_pick F \<noteq> 0"
  using ref_pick_mem by (fastforce simp: nonzero_def)

lemma ref_search_unsat: "nonzero F \<Longrightarrow> ref_search F = None \<Longrightarrow> \<not> sat_cnf \<alpha> F"
proof (induction F rule: ref_search.induct)
  case (1 F)
  show ?case
  proof (cases "[] \<in> set F")
    case True
    then show ?thesis by (metis sat_clause_Nil sat_cnf_set)
  next
    case False
    let ?l = "ref_pick F"
    have ne: "F \<noteq> []" using "1.prems"(2) by (auto simp: ref_search.simps)
    have l: "?l \<noteq> 0" using ref_pick_nonzero "1.prems"(1) ne False by blast
    have n1: "ref_search (ref_set ?l F) = None" "ref_search (ref_set (- ?l) F) = None"
      using "1.prems"(2) ne False
      by (auto simp: ref_search.simps [of F] split: option.splits)
    have "\<not> sat_cnf \<alpha> (ref_set ?l F)" "\<not> sat_cnf \<alpha> (ref_set (- ?l) F)"
      using "1.IH" n1 ne False "1.prems"(1) nonzero_ref_set by blast+
    then show ?thesis
      using sat_ref_set [of \<alpha> ?l F] sat_ref_set [of \<alpha> "- ?l" F] l by (auto simp: sat_simps)
  qed
qed

lemma ref_search_vars: "ref_search F = Some m \<Longrightarrow> abs ` set m \<subseteq> lit_vars F"
proof (induction F arbitrary: m rule: ref_search.induct)
  case (1 F)
  show ?case
  proof (cases "F = []")
    case True
    then show ?thesis using 1 by (simp add: ref_search.simps)
  next
    case False
    with 1(3) have e: "[] \<notin> set F" by (auto simp: ref_search.simps [of F] split: if_splits)
    let ?l = "ref_pick F"
    have v: "\<bar>?l\<bar> \<in> lit_vars F"
      using ref_pick_mem [OF False e] by (auto simp: lit_vars_def)
    consider (a) m' where "ref_search (ref_set ?l F) = Some m'" "m = ?l # m'"
      | (b) m' where "ref_search (ref_set (- ?l) F) = Some m'" "m = - ?l # m'"
        "ref_search (ref_set ?l F) = None"
      using 1(3) False e by (auto simp: ref_search.simps [of F] split: option.splits)
    then show ?thesis
    proof cases
      case a
      then show ?thesis using 1(1) False e v lit_vars_ref_set [of ?l F] by fastforce
    next
      case b
      then show ?thesis using 1(2) False e v lit_vars_ref_set [of "- ?l" F] by fastforce
    qed
  qed
qed

lemma ref_assign_Cons:
  assumes "\<bar>l\<bar> \<notin> lit_vars F" and "l \<noteq> 0"
  shows "sat_cnf (ref_assign (l # m)) F = sat_cnf (ref_assign m) F"
proof -
  have "lit_val (ref_assign (l # m)) k = lit_val (ref_assign m) k" if "\<bar>k\<bar> \<noteq> \<bar>l\<bar>" for k
    using that by (auto simp: lit_val_def ref_assign_def)
  moreover have "\<bar>k\<bar> \<noteq> \<bar>l\<bar>" if "c \<in> set F" "k \<in> set c" for c k
    using assms(1) that unfolding lit_vars_def by (metis UN_I imageI)
  ultimately show ?thesis by (auto simp: sat_cnf_set sat_clause_set)
qed

lemma ref_search_step:
  assumes "\<bar>l\<bar> \<notin> abs ` set m" "l \<noteq> 0" "\<bar>l\<bar> \<notin> lit_vars (ref_set l F)"
    and "sat_cnf (ref_assign m) (ref_set l F)"
  shows "sat_cnf (ref_assign (l # m)) F"
proof -
  have "- l \<notin> set m" using assms(1) by (metis abs_minus_cancel imageI)
  then have "lit_val (ref_assign (l # m)) l"
    using assms(1,2) by (auto simp: lit_val_def ref_assign_def)
  then show ?thesis
    using sat_ref_set [of "ref_assign (l # m)" l F] ref_assign_Cons assms by blast
qed

lemma ref_search_sat: "nonzero F \<Longrightarrow> ref_search F = Some m \<Longrightarrow> sat_cnf (ref_assign m) F"
proof (induction F arbitrary: m rule: ref_search.induct)
  case (1 F)
  show ?case
  proof (cases "F = []")
    case True
    then show ?thesis by (simp add: sat_simps)
  next
    case False
    with "1.prems"(2) have e: "[] \<notin> set F" by (auto simp: ref_search.simps [of F] split: if_splits)
    let ?l = "ref_pick F"
    have l: "?l \<noteq> 0" using ref_pick_nonzero "1.prems"(1) False e by blast
    have out: "\<bar>?l\<bar> \<notin> lit_vars (ref_set ?l F)" "\<bar>?l\<bar> \<notin> lit_vars (ref_set (- ?l) F)"
      using lit_vars_ref_set [of ?l F] lit_vars_ref_set [of "- ?l" F] by auto
    consider (a) m' where "ref_search (ref_set ?l F) = Some m'" "m = ?l # m'"
      | (b) m' where "ref_search (ref_set (- ?l) F) = Some m'" "m = - ?l # m'"
        "ref_search (ref_set ?l F) = None"
      using "1.prems"(2) False e by (auto simp: ref_search.simps [of F] split: option.splits)
    then show ?thesis
    proof cases
      case a
      then have "sat_cnf (ref_assign m') (ref_set ?l F)"
        using "1.IH"(1) False e nonzero_ref_set "1.prems"(1) by blast
      moreover have "\<bar>?l\<bar> \<notin> abs ` set m'" using ref_search_vars [OF a(1)] out by blast
      ultimately show ?thesis using a(2) ref_search_step l out(1) by blast
    next
      case b
      then have "sat_cnf (ref_assign m') (ref_set (- ?l) F)"
        using "1.IH"(2) False e nonzero_ref_set "1.prems"(1) by blast
      moreover have "\<bar>- ?l\<bar> \<notin> abs ` set m'" using ref_search_vars [OF b(1)] out by auto
      ultimately show ?thesis
        using b(2) ref_search_step [of "- ?l" m' F] l out(2) by simp
    qed
  qed
qed

definition ref_answer :: "CaDiCaL \<Rightarrow> answer" where
  "ref_answer s =
     (case ref_search (map (\<lambda>l. [l]) (assumed s) @ clauses s) of
        Some m \<Rightarrow> Sat (ref_assign m)
      | None \<Rightarrow> Unsat (assumed s))"

definition ref_env :: env where
  "ref_env = \<lparr>ipasir_answer = ref_answer, minisat_eliminate = (\<lambda>n F fr. (F, [])),
     random_shuffle = (\<lambda>n q. q), other_threads = (\<lambda>n. 0)\<rparr>"

lemma sat_units: "sat_cnf \<alpha> (map (\<lambda>l. [l]) q) = cube_true \<alpha> q"
  by (auto simp: sat_cnf_set cube_true_set sat_simps)

lemma ref_env_ipasir: "ipasir_contract ref_env"
proof -
  have "case ref_answer s of
        NoAnswer \<Rightarrow> True
      | Sat \<alpha> \<Rightarrow> sat_cnf \<alpha> (clauses s) \<and> cube_true \<alpha> (assumed s)
      | Unsat core \<Rightarrow> set core \<subseteq> set (assumed s)
          \<and> \<not> (\<exists>\<alpha>. sat_cnf \<alpha> (clauses s) \<and> cube_true \<alpha> core)"
    if "nonzero (clauses s)" "0 \<notin> set (assumed s)" for s
  proof -
    let ?F = "map (\<lambda>l. [l]) (assumed s) @ clauses s"
    have nz: "nonzero ?F" using that by (auto simp: nonzero_def)
    show ?thesis
    proof (cases "ref_search ?F")
      case None
      then show ?thesis
        using ref_search_unsat [OF nz None] by (auto simp: ref_answer_def sat_simps sat_units)
    next
      case (Some m)
      then show ?thesis
        using ref_search_sat [OF nz Some] by (auto simp: ref_answer_def sat_simps sat_units)
    qed
  qed
  then show ?thesis by (simp add: ipasir_contract_def ref_env_def)
qed

lemma ref_env_eliminate: "eliminate_contract ref_env"
  by (auto simp: eliminate_contract_def ref_env_def)

end
