(* ===== verification/PDR_Runs.thy ===== *)
theory PDR_Runs
  imports PDR_Sound RefSolver
begin

text \<open>
  Concrete runs of \<^verbatim>\<open>PDR::check\<close>, evaluated in the logic with the reference solver, and the main
  theorems on its result with these runs as witnesses. The congruence rules make the
  simplifier evaluate arguments first and leave the rest of a computation alone until its
  argument is a value.
\<close>

section \<open>Evaluating the model\<close>

lemma bind_weak: "m = m' \<Longrightarrow> Option.bind m f = Option.bind m' f"
  by simp

lemma let_weak: "m = m' \<Longrightarrow> Let m f = Let m' f"
  by simp

lemma fold_weak: "xs = ys \<Longrightarrow> s = t \<Longrightarrow> fold f xs s = fold f ys t"
  by simp

lemma fold_opt_weak: "xs = ys \<Longrightarrow> s = t \<Longrightarrow> fold_opt f xs s = fold_opt f ys t"
  by simp

lemma map_weak: "xs = ys \<Longrightarrow> map f xs = map f ys"
  by simp

lemma filter_weak: "xs = ys \<Longrightarrow> filter f xs = filter f ys"
  by simp

lemma map_option_weak: "x = y \<Longrightarrow> map_option f x = map_option f y"
  by simp

lemma sort_weak: "xs = ys \<Longrightarrow> stable_sort_by f xs = stable_sort_by f ys"
  by simp

lemmas run_congs = bind_weak let_weak fold_weak fold_opt_weak map_weak filter_weak map_option_weak
  sort_weak prod.case_cong_weak option.case_cong_weak list.case_cong_weak

lemmas run_defs = upto.simps [of 0] upto.simps [of 1] ref_search.simps Let_def check_loop.simps
  and_clauses_def set_has_def stable_sort_by_def vec_at_def use_heuristic_def
  use_earliest_strengthened_frame_def use_punishment_def restart_def dimacs_to_aiger_def
  Variable_named_def Aiger_new_def unprimed_first_dimacs_def SAT_def UNSAT_def CaDiCaL_new_def
  ipasir_add_def CaDiCaL_add_def CaDiCaL_assume_def CaDiCaL_solve_def CaDiCaL_failed_def
  CaDiCaL_val_def CaDiCaL_max_var_def CaDiCaL_set_clear_act_def CaDiCaL_clear_act_def
  SATSolver_set_clear_act_def SATSolver_clear_act_def adds_def add_clause_def add_cnf_def
  assumes_all_def minisatSimp_new_def var_enlarge_to_def minisatSimp_add_def set_frozen_def
  simplify_def ms_adds_def ms_add_clause_def ms_add_cnf_def ref_set_def ref_pick_def
  ref_assign_def ref_answer_def ref_env_def prime_var_def prime_lit_def
  PDR_translate_to_dimacs_def gate_clauses_def init_cnf_def encode_init_condition_def
  encode_bad_state_def freeze_leaves_def freeze_constraints_def encode_latches_def
  prime_lit_set_def lit_set_def build_satelite_def build_satelite2_def round_even_def to_float_def
  to_double_def State_clear_def Obligation_new_def index_of_def Obligation_less_def Lit_CMP_def
  heuristic_Lit_CMP_def Cube_CMP_def abs_compare_def Frame_new_def PDR_new_def depth_def
  cube_is_null_def state_is_null_def new_State_def upd_State_def delete_State_def read_RESULT_def
  set_solver_def set_cubes_def initialize_heuristic_def updateLitOrder_def encode_translation_def
  encode_lift_def new_frame_def is_init_def is_inductive_def add_to_frame_def add_cube_def
  sat_vals_def unprime_vals_def input_assumptions_def shift_assumption_def load_lift_def
  extract_state_from_sat_def get_pre_of_bad_def option_ctg_tries_def option_ctg_max_depth_def
  option_max_joins_def push_from_def mic_fuel_def generalize_def newline_def state_chars_def
  return_input_def return_latch_def return_state_def show_state_def return_lit_def
  return_litvec_def show_lit_def show_litvec_def show_PO_def log_witness_def witness_text_def
  show_witness_def aag_latch_def aag_text_def show_aag_def cert_and_def cert_cube_def
  cert_cubes_def build_certificate_def propagate_cube_def finish_proof_def start_k_def
  propagate_def insert_obligation_def punish_def block_obligation_def set_failed_depth_def
  cex_found_def rec_block_step_def clear_po_def simplify_aiger_def initialize_def check_BMC0_def
  check_BMC1_def report_cex_def open_top_def check_step_def check_def

section \<open>Two circuits with one latch\<close>

text \<open>The latch starts at 0 and keeps its value, or flips; bad is the latch itself.\<close>

definition one_latch :: "int \<Rightarrow> Aiger" where
  "one_latch nx = Aiger_new\<lparr>num_latches := 1, nexts := [nx], init_state := [- 2], allbad := [2],
     bad := 2, primed_first_dimacs := 3,
     variables := [\<lparr>dimacs_var = 0, vname = ''NULL''\<rparr>, \<lparr>dimacs_var = 1, vname = ''False''\<rparr>,
                   \<lparr>dimacs_var = 2, vname = ''l0''\<rparr>]\<rparr>"

lemma one_latch_keeps: "map_option fst (check ref_env (PDR_new (one_latch 2) 0 True True True)) = Some 20"
  by (simp add: one_latch_def run_defs cong: run_congs)

lemma one_latch_flips: "map_option fst (check ref_env (PDR_new (one_latch (- 2)) 0 True True True)) = Some 10"
  by (simp add: one_latch_def run_defs cong: run_congs)
section \<open>PDR::check is right\<close>

lemma ref_env_more: "ipasir_complete ref_env" "shuffle_contract ref_env"
  by (auto simp: ipasir_complete_def shuffle_contract_def ref_env_def ref_answer_def split: option.splits)

lemma one_latch_loaded: "nx = 2 \<or> nx = - 2 \<Longrightarrow> loaded (one_latch nx)" "bad_valid (one_latch nx)"
  by (auto simp: loaded_def one_latch_def Aiger_new_def wf_aig_def wf_ands_def lit_in_def is_latch_def
      bad_valid_def constr_ok_def)

lemma run_result: "map_option fst x = Some v \<Longrightarrow> \<exists>p. x = Some (v, p)"
  by auto

text \<open>
  C1. When \<^verbatim>\<open>PDR::check\<close> returns 20, the circuit is safe: no assignment that the circuit can
  reach, from a reset state and with all constraints holding at every step, makes the bad
  literal true. The hypotheses are the IPASIR contract of CaDiCaL and that it decides every
  query, the contract of MiniSat's preprocessing, that \<^verbatim>\<open>random_shuffle\<close> permutes, a loaded
  circuit, and \<open>bad_valid\<close>: every assignment of the circuit's variables that makes the bad literal true
  meets the constraints. Every circuit without constraints is \<open>bad_valid\<close> (\<open>no_constraints_bad_valid\<close>);
  for others the claim can fail, as lifting ignores the constraints of the lifted state.
\<close>

theorem check_safe:
  assumes "ipasir_contract e" "eliminate_contract e" "shuffle_contract e" "ipasir_complete e"
    and "loaded C" "bad_valid C" "check e (PDR_new C t acc pr ao) = Some (20, p')"
  shows "\<not> unsafe C (bad C)"
  using check_ok [OF assms] by (simp add: loop_post_def)

theorem check_safe_witness:
  "(\<exists>p'. check ref_env (PDR_new (one_latch 2) 0 True True True) = Some (20, p'))
   \<and> \<not> unsafe (one_latch 2) (bad (one_latch 2))"
proof -
  obtain p' where r: "check ref_env (PDR_new (one_latch 2) 0 True True True) = Some (20, p')"
    using run_result [OF one_latch_keeps] by blast
  show ?thesis
    using r check_safe [OF ref_env_ipasir ref_env_eliminate ref_env_more(2,1) _ _ r] one_latch_loaded by simp
qed

text \<open>
  C2. When \<^verbatim>\<open>PDR::check\<close> returns 10, the circuit is unsafe: some reachable assignment makes
  the bad literal true. This covers the counterexamples of length 0 and 1 and those found
  by blocking proof obligations down to the initial states. The hypotheses are those of
  \<^verbatim>\<open>20\<close>, \<open>bad_valid\<close> among them: without it a safe circuit with constraints may be answered 10.
\<close>

theorem check_unsafe:
  assumes "ipasir_contract e" "eliminate_contract e" "shuffle_contract e" "ipasir_complete e"
    and "loaded C" "bad_valid C" "check e (PDR_new C t acc pr ao) = Some (10, p')"
  shows "unsafe C (bad C)"
  using check_ok [OF assms] by (simp add: loop_post_def)

theorem check_unsafe_witness:
  "(\<exists>p'. check ref_env (PDR_new (one_latch (- 2)) 0 True True True) = Some (10, p'))
   \<and> unsafe (one_latch (- 2)) (bad (one_latch (- 2)))"
proof -
  obtain p' where r: "check ref_env (PDR_new (one_latch (- 2)) 0 True True True) = Some (10, p')"
    using run_result [OF one_latch_flips] by blast
  show ?thesis
    using r check_unsafe [OF ref_env_ipasir ref_env_eliminate ref_env_more(2,1) _ _ r] one_latch_loaded by simp
qed

end
