(* ===== verification/PDR_Frames.thy ===== *)
theory PDR_Frames
  imports PDR_Runs
begin

text \<open>
  The states the main loop of \<^verbatim>\<open>PDR::check\<close> passes through, and what their frames mean for the circuit.
\<close>

definition pdr_start :: "env \<Rightarrow> PDR \<Rightarrow> PDR option" where
  "pdr_start e p = do {
     p0 \<leftarrow> initialize p;
     (ok0, p1) \<leftarrow> check_BMC0 e p0;
     (ok1, p2) \<leftarrow> (if ok0 then check_BMC1 e p1 else None);
     p3 \<leftarrow> (if ok1 then new_frame e p2 else None);
     Some (open_top p3)
   }"

inductive pdr_loop :: "env \<Rightarrow> PDR \<Rightarrow> PDR \<Rightarrow> bool" for e q where
  loop_start: "pdr_start e q = Some p \<Longrightarrow> pdr_loop e q p"
| loop_step: "pdr_loop e q p \<Longrightarrow> check_step e p = Some (Continue, p') \<Longrightarrow> pdr_loop e q p'"

lemma pdr_start_inv:
  assumes e: "ipasir_contract e" "eliminate_contract e" "ipasir_complete e"
    and C: "loaded C" and r: "pdr_start e (PDR_new C t acc pr ao) = Some p"
  shows "\<exists>A N G. circ A = circ C \<and> loop_inv A N G p"
proof -
  obtain A where A: "PDR_translate_to_dimacs C = Some A" "enc_inv A" "circ A = circ C"
    using PDR_translate_ok C unfolding loaded_def by blast
  let ?p = "PDR_new C t acc pr ao"
  let ?q = "initialize_heuristic (?p\<lparr>satelite := None, aiger := A\<rparr>)"
  have i: "initialize ?p = Some ?q" using A(1) by (simp add: initialize_def simplify_aiger_def PDR_new_def Let_def)
  have f: "fresh_pdr A ?q" using A(2) by (simp add: fresh_pdr_def initialize_heuristic_def PDR_new_def Let_def)
  obtain p1 p2 p3 where s: "check_BMC0 e ?q = Some (True, p1)" "check_BMC1 e p1 = Some (True, p2)"
      "new_frame e p2 = Some p3" "p = open_top p3"
    using r i by (auto simp: pdr_start_def bind_eq_Some_conv split: if_splits)
  note k0 = check_BMC0_ok [OF e(1,2) f s(1)]
  have good: "init_good A" using k0(2) e(3) by blast
  obtain N G where k1: "pdr_inv A N G p1" "tight N G" "length (frames p1) = 1" using k0(3) by blast
  note k2 = check_BMC1_ok [OF e(1) k1(1,2) good s(2)]
  have inv2: "pdr_inv A N G p2" "length (frames p2) = 2" "top_safe A (frames p2) 0" using k2(2) e(3) by simp_all
  have "depth p2 = 0" using inv2(2) by (simp add: depth_def)
  then have "loop_inv A N G p" using loop_inv_open [OF inv2(1) k1(2) good _ _ s(3)] inv2(3) s(4) by simp
  then show ?thesis using A(3) by blast
qed

lemma pdr_loop_inv:
  assumes e: "ipasir_contract e" "eliminate_contract e" "shuffle_contract e" "ipasir_complete e"
    and C: "loaded C" "bad_valid C" and r: "pdr_loop e (PDR_new C t acc pr ao) p"
  shows "\<exists>A N G. circ A = circ C \<and> loop_inv A N G p"
  using r
proof induction
  case (loop_start p)
  then show ?case using pdr_start_inv [OF e(1,2,4) C(1)] by blast
next
  case (loop_step p p')
  then obtain A N G where A: "circ A = circ C" "loop_inv A N G p" by blast
  have "bad_valid A" using circ_bad_valid [OF A(1)] C(2) by simp
  then have "loop_inv A N G p'" using check_step_ok [OF e _ A(2) loop_step(2)] by simp
  then show ?case using A(1) by blast
qed

text \<open>Up to the depth, the states reached in n steps are in frame n and not bad.\<close>

lemma loop_inv_reached:
  assumes inv: "loop_inv A N G p" and n: "int n \<le> depth p" and r: "reach A n \<sigma>"
  shows "in_frame A (frames p) n \<sigma> \<and> \<not> lit_val \<sigma> (bad A)"
proof -
  let ?fs = "frames p"
  have ok: "frames_ok A N G ?fs" and good: "init_good A" and d: "1 \<le> depth p"
    and top: "top_safe A ?fs (nat (depth p) - 1)"
    using inv pdr_invD(5) by (auto simp: loop_inv_def)
  show ?thesis using r n
  proof (induction n arbitrary: \<sigma>)
    case 0
    then show ?case using good pdr_frames.F_init [OF ok, of \<sigma> 0] by (simp add: init_good_def)
  next
    case (Suc n)
    then obtain \<tau> where t: "reach A n \<tau>" "valid A \<tau>" "valid A \<sigma>" "next_ok A \<tau> \<sigma>"
      using circuit.R_Suc by blast
    have IH: "in_frame A ?fs n \<tau>" "\<not> lit_val \<tau> (bad A)" using Suc.IH [OF t(1)] Suc.prems(2) by auto
    have "in_frame A ?fs (nat (depth p) - 1) \<tau>"
    proof (cases "n = 0")
      case True
      then show ?thesis using t(1) pdr_frames.F_init [OF ok] by simp
    next
      case False
      then have le: "n \<le> nat (depth p) - 1" "nat (depth p) - 1 \<noteq> 0" using Suc.prems(2) by auto
      then have "blocked ?fs (nat (depth p) - 1) \<subseteq> blocked ?fs n"
        unfolding blocked_def by (intro UN_mono) auto
      then show ?thesis using IH(1) False le by (auto simp: in_frame_def avoids_def)
    qed
    then have "\<not> lit_val \<sigma> (bad A)" using top IH(2) t by (simp add: top_safe_def vstep_def tstep_def valid_def)
    moreover have "in_frame A ?fs (Suc n) \<sigma>" using pdr_frames.F_step [OF ok IH] t by blast
    ultimately show ?case by blast
  qed
qed

text \<open>
  C4. The frames over-approximate reachability throughout the main loop of \<^verbatim>\<open>PDR::check\<close>: whenever the
  loop is entered again, no assignment that the circuit reaches within n steps, for n up to
  the depth, is in a cube of frame n or of a later frame, and none is bad. This needs \<open>bad_valid\<close>, that
  the constraints hold wherever the bad literal does (always so without constraints): the cube
  lifted from another circuit can hold reachable states.
\<close>

theorem pdr_frames_overapproximate:
  assumes "ipasir_contract e" "eliminate_contract e" "shuffle_contract e" "ipasir_complete e"
    and "loaded C" "bad_valid C" and "pdr_loop e (PDR_new C t acc pr ao) p"
    and "reach C n \<sigma>" "int n \<le> depth p"
  shows "\<not> lit_val \<sigma> (bad C) \<and> (\<forall>j\<in>{n..<length (frames p)}. \<forall>c\<in>set (cubes (frames p ! j)). \<not> cube_true \<sigma> c)"
proof -
  obtain A N G where A: "circ A = circ C" "loop_inv A N G p" using pdr_loop_inv [OF assms(1-7)] by blast
  have r: "reach A n \<sigma>" "bad A = bad C" using assms(8) circ_reach [OF A(1)] circD(9) [OF A(1)] by auto
  have inf: "in_frame A (frames p) n \<sigma>" "\<not> lit_val \<sigma> (bad A)" using loop_inv_reached [OF A(2) assms(9) r(1)] by auto
  have ok: "frames_ok A N G (frames p)" using A(2) pdr_invD(5) by (auto simp: loop_inv_def)
  have "\<not> cube_true \<sigma> c" if "n \<le> j" "j < length (frames p)" "c \<in> set (cubes (frames p ! j))" for j c
  proof (cases "n = 0")
    case True
    then have "in_frame A (frames p) 1 \<sigma>" using r(1) pdr_frames.F_init [OF ok] by simp
    moreover have "j \<noteq> 0"
    proof
      assume "j = 0"
      moreover have "frame_ok A N G (frames p) j" using ok that(2) by (simp add: frames_ok_def)
      ultimately show False using that(3) by (simp add: frame_ok_def)
    qed
    ultimately show ?thesis using that by (auto simp: in_frame_def avoids_def blocked_def)
  next
    case False
    then show ?thesis using inf(1) that by (auto simp: in_frame_def avoids_def blocked_def)
  qed
  then show ?thesis using inf(2) r(2) by auto
qed

lemma one_latch_start: "map_option depth (pdr_start ref_env (PDR_new (one_latch 2) 0 True True True)) = Some 1"
  by (simp add: pdr_start_def one_latch_def run_defs cong: run_congs)

theorem pdr_frames_overapproximate_witness:
  "(\<exists>p. pdr_loop ref_env (PDR_new (one_latch 2) 0 True True True) p \<and> depth p = 1) \<and> \<not> lit_val (\<lambda>v. False) (bad (one_latch 2))"
proof -
  let ?C = "one_latch 2" and ?s = "\<lambda>v::int. False"
  obtain p where p: "pdr_start ref_env (PDR_new ?C 0 True True True) = Some p" "depth p = 1" using one_latch_start by auto
  then have l: "pdr_loop ref_env (PDR_new ?C 0 True True True) p" by (auto intro: loop_start)
  have r: "reach ?C 0 ?s" by (rule reach_init) (auto simp: one_latch_def Aiger_new_def init_ok_def valid_def gates_ok_def
      constr_ok_def cube_true_def lit_val_def)
  show ?thesis
    using pdr_frames_overapproximate [OF ref_env_ipasir ref_env_eliminate ref_env_more(2,1) _ one_latch_loaded(2) l r]
      one_latch_loaded(1) p l by auto
qed

end
