(* ===== verification/PDR_Fuel.thy ===== *)
theory PDR_Fuel
  imports PDR_Frames
begin

text \<open>
  The recursion of \<^verbatim>\<open>mic\<close> and \<^verbatim>\<open>CTG_down\<close> ends within the fuel \<open>mic_fuel\<close> that \<open>generalize\<close> gives it: more fuel
  never changes the result. Two facts bound it: at the second level of recursion
  \<^verbatim>\<open>CTG_down\<close> does not iterate, and at the first a join drops a literal of the cube, because the
  counterexample was found with the cube excluded.
\<close>

section \<open>The second level\<close>

lemma CTG_down_deep:
  assumes "option_ctg_max_depth < d"
  shows "CTG_down (Suc n) e cube k d required cc jc p = CTG_down (Suc m) e cube k d required cc jc p"
  by (simp add: assms cong: if_cong)

lemma mic_loop_deep:
  assumes "option_ctg_max_depth < d"
  shows "mic_loop (Suc n) e ls k d mf required cube p = mic_loop (Suc m) e ls k d mf required cube p"
proof (induction ls arbitrary: mf required cube p)
  case (Cons l ls)
  then show ?case
    using CTG_down_deep [OF assms, of n e _ k _ _ _ _ m] by (simp del: CTG_down.simps cong: if_cong)
qed simp

lemma mic_deep:
  assumes "option_ctg_max_depth < d"
  shows "mic (Suc (Suc n)) e cube k d p = mic (Suc (Suc m)) e cube k d p"
proof -
  have eq: "mic_loop (Suc n) e ls k d mf required c q = mic_loop (Suc m) e ls k d mf required c q" for ls mf required c q
    using mic_loop_deep [OF assms] .
  show ?thesis unfolding mic.simps eq ..
qed

section \<open>Joins\<close>

lemma join_cube_in: "join_cube s req c = (False, c') \<Longrightarrow> set c' \<subseteq> set s"
  by (induction c arbitrary: c') (auto split: if_splits prod.splits)

lemma join_cube_shrinks:
  assumes "join_cube s req c = (False, c')" "\<not> set c \<subseteq> set s"
  shows "card (set c') < card (set c)"
proof (rule psubset_card_mono)
  show "set c' \<subset> set c" using join_cube_in [OF assms(1)] join_cube_subset [of s req c] assms by auto
qed simp

text \<open>A state read from the model of a failed query lies outside the cube.\<close>

lemma failed_query_outside:
  assumes e: "ipasir_contract e" "eliminate_contract e" and inv: "pdr_inv A N G p1" and cube: "latch_cube A cube"
    and q: "is_inductive e k cube True True p1 = Some (False, p2)"
    and n1: "new_State [] [] p2 = (s, p3)" and n2: "new_State cube [] p3 = (t, p4)"
    and x: "extract_state_from_sat e k s (Some t) k p4 = Some p5" and st: "heap p5 s = Some st"
  shows "\<not> set cube \<subseteq> set (latches st)"
proof
  assume sub: "set cube \<subseteq> set (latches st)"
  note k = is_inductive_ok [OF e(1) inv cube q]
  obtain \<alpha> where \<alpha>: "answer (solver (frames p2 ! nat k)) = Sat \<alpha>" "\<not> cube_true \<alpha> cube" using k(8) by auto
  note s3 = new_State_ok [OF k(1) n1]
  note t4 = new_State_ok [OF s3(1) n2]
  have su: "succ_ok A p4 s (Some t)" using t4(3,5) s3(4) cube by (simp add: succ_ok_def)
  have fr: "frames p4 = frames p2" by (simp add: s3(6) t4(6))
  let ?sat = "solver (frames p4 ! nat k)"
  obtain st' sl a m lf h where p5: "nat k < length (frames p4)"
      "p5 = p4\<lparr>satelite2 := m, aiger := a, lift := Some lf, heuristic_lit_cmp := h,
       heap := (heap p4)(s \<mapsto> st'\<lparr>inputs := sat_vals ?sat unprimed_first_dimacs (num_inputs A),
         latches := sl, State_next := Some t\<rparr>)\<rparr>"
      "set sl \<subseteq> set (sat_vals ?sat (unprimed_first_dimacs + num_inputs A) (num_latches A))"
    by (rule extract_ok [OF e t4(1) su x]) blast
  have sl: "latches st = sl" using st by (auto simp: p5(2))
  have em: "leaves_le A (emax ?sat)" using p5(1) frame_emax [OF t4(1)] by simp
  note wf = pdr_invD(7) [OF inv] 
  note w = wf_aigD(1,2,6) [OF wf]
  have "lit_val \<alpha> l" if "l \<in> set cube" for l
  proof -
    have "l \<in> set (sat_vals ?sat (unprimed_first_dimacs + num_inputs A) (num_latches A))" using that sub sl p5(3) by blast
    moreover have "sat_vals ?sat (unprimed_first_dimacs + num_inputs A) (num_latches A)
        = map (\<lambda>i. if \<alpha> (unprimed_first_dimacs + num_inputs A + i) then unprimed_first_dimacs + num_inputs A + i
             else - (unprimed_first_dimacs + num_inputs A + i)) [0..num_latches A - 1]"
      using sat_vals_eq [of "unprimed_first_dimacs + num_inputs A" "num_latches A" ?sat \<alpha>] \<alpha>(1) em w fr
      by (simp add: leaves_le_def unprimed_first_dimacs_def)
    ultimately have "l \<in> (\<lambda>i. if \<alpha> (unprimed_first_dimacs + num_inputs A + i) then unprimed_first_dimacs + num_inputs A + i
             else - (unprimed_first_dimacs + num_inputs A + i)) ` set [0..num_latches A - 1]" by simp
    then obtain i where i: "l = (if \<alpha> (unprimed_first_dimacs + num_inputs A + i) then unprimed_first_dimacs + num_inputs A + i
             else - (unprimed_first_dimacs + num_inputs A + i))" "i \<in> set [0..num_latches A - 1]" by (rule imageE)
    have "0 < unprimed_first_dimacs + num_inputs A + i" using i(2) w by (simp add: unprimed_first_dimacs_def)
    then obtain v where "0 < v" "l = (if \<alpha> v then v else - v)" using i(1) by blast
    then show ?thesis by (cases "\<alpha> v") (simp_all add: lit_val_def)
  qed
  then show False using \<alpha>(2) by (simp add: cube_true_set)
qed


section \<open>The first level\<close>

text \<open>The part of an iteration after its query failed, as a function of the fuel left.\<close>

definition CTG_rest where
  "CTG_rest n e cube k d required cc jc s st ctg p6 = (if ctg then do {
           (i, p7) \<leftarrow> push_from e (core p6) k p6;
           (c, p8) \<leftarrow> mic n e (core p7) (i - 1) (d + 1) p7;
           (c', p9) \<leftarrow> add_cube c i True False (p8\<lparr>core := c\<rparr>);
           CTG_down n e cube k d required (cc + 1) jc (delete_State s (p9\<lparr>core := c'\<rparr>))
         }
         else if jc < option_max_joins then (case join_cube (latches st) required cube of
           (breaked, cube') \<Rightarrow>
           if breaked then Some (False, cube', delete_State s p6)
           else CTG_down n e cube' k d required 0 (jc + 1) (delete_State s p6))
         else Some (False, cube, delete_State s p6))"

lemma CTG_down_cong:
  assumes e: "ipasir_contract e" "eliminate_contract e" and inv: "pdr_inv A N G p" and cube: "latch_cube A cube"
    and same: "\<And>p1 p2 s p3 t p4 p5 st ctg p6. pdr_inv A N G p1 \<Longrightarrow> is_inductive e k cube True True p1 = Some (False, p2) \<Longrightarrow>
      pdr_inv A N G p2 \<Longrightarrow> new_State [] [] p2 = (s, p3) \<Longrightarrow> new_State cube [] p3 = (t, p4) \<Longrightarrow>
      extract_state_from_sat e k s (Some t) k p4 = Some p5 \<Longrightarrow> heap p5 s = Some st \<Longrightarrow>
      (if cc < option_ctg_tries \<and> 1 < k then do {
              (i0, q1) \<leftarrow> is_init e (latches st) p5;
              if i0 then Some (False, q1) else is_inductive e (k - 1) (latches st) True True q1
            } else Some (False, p5)) = Some (ctg, p6) \<Longrightarrow>
      CTG_rest n e cube k d required cc jc s st ctg p6 = CTG_rest m e cube k d required cc jc s st ctg p6"
  shows "CTG_down (Suc n) e cube k d required cc jc p = CTG_down (Suc m) e cube k d required cc jc p"
proof (cases "is_init e cube p")
  case None
  then show ?thesis by simp
next
  case (Some ip)
  obtain ini p1 where ip: "ip = (ini, p1)" by (cases ip)
  note i = Some [unfolded ip]
  obtain z where z: "pdr_inv A N G p1" by (rule is_init_ok [OF e(1) inv cube i])
  show ?thesis
  proof (cases "ini \<or> is_inductive e k cube True True p1 = None")
    case True
    then show ?thesis using i by (cases ini) simp_all
  next
    case False
    then obtain ind p2 where q: "is_inductive e k cube True True p1 = Some (ind, p2)" by fastforce
    have ni: "\<not> ini" using False by simp
    show ?thesis
    proof (cases "ind \<or> option_ctg_max_depth < d")
      case True
      then show ?thesis using i ni q by (cases ind) simp_all
    next
      case go: False
      then have q': "is_inductive e k cube True True p1 = Some (False, p2)" using q by simp
      note k = is_inductive_ok(1) [OF e(1) z cube q']
      obtain s p3 where n1: "new_State [] [] p2 = (s, p3)" by fastforce
      obtain t p4 where n2: "new_State cube [] p3 = (t, p4)" by fastforce
      have nd: "\<not> ind" "\<not> option_ctg_max_depth < d" using go by simp_all
      note eqs = i ni q nd n1 n2
      show ?thesis
      proof (cases "extract_state_from_sat e k s (Some t) k p4")
        case None
        then show ?thesis by (simp add: eqs)
      next
        case x: (Some p5)
        show ?thesis
        proof (cases "heap p5 s")
          case None
          then show ?thesis by (simp add: eqs x)
        next
          case st: (Some st)
          let ?c = "if cc < option_ctg_tries \<and> 1 < k then do {
              (i0, q1) \<leftarrow> is_init e (latches st) p5;
              if i0 then Some (False, q1) else is_inductive e (k - 1) (latches st) True True q1
            } else Some (False, p5)"
          have body: "CTG_down (Suc j) e cube k d required cc jc p
              = Option.bind ?c (\<lambda>(ctg, p6). CTG_rest j e cube k d required cc jc s st ctg p6)" for j
            unfolding CTG_rest_def
            by (simp only: CTG_down.simps eqs x st Let_def bind.bind_lunit prod.case if_True if_False simp_thms)
          have "CTG_rest n e cube k d required cc jc s st ctg p6 = CTG_rest m e cube k d required cc jc s st ctg p6"
            if "?c = Some (ctg, p6)" for ctg p6
            using same [OF z q' k n1 n2 x st that] .
          then show ?thesis unfolding body by (cases ?c) auto
        qed
      qed
    qed
  qed
qed


lemma CTG_down_fuel:
  assumes e: "ipasir_contract e" "eliminate_contract e" "shuffle_contract e"
  shows "pdr_inv A N G p \<Longrightarrow> latch_cube A cube \<Longrightarrow> 0 \<le> cc \<Longrightarrow> 4 * card (set cube) + nat (3 - cc) + 3 \<le> n \<Longrightarrow>
    CTG_down n e cube k 1 required cc jc p = CTG_down (Suc n) e cube k 1 required cc jc p"
proof (induction n arbitrary: p cube cc jc)
  case 0
  then show ?case by simp
next
  case (Suc n)
  have deep: "option_ctg_max_depth < 1 + 1" by (simp add: option_ctg_max_depth_def)
  show ?case
  proof (rule CTG_down_cong [OF e(1,2) Suc.prems(1,2)])
    fix p1 p2 s p3 t p4 p5 st ctg p6
    assume inv1: "pdr_inv A N G p1" and q: "is_inductive e k cube True True p1 = Some (False, p2)" and inv2: "pdr_inv A N G p2"
      and n1: "new_State [] [] p2 = (s, p3)" and n2: "new_State cube [] p3 = (t, p4)"
      and x: "extract_state_from_sat e k s (Some t) k p4 = Some p5" and st: "heap p5 s = Some st"
      and c: "(if cc < option_ctg_tries \<and> 1 < k then do {
              (i0, q1) \<leftarrow> is_init e (latches st) p5;
              if i0 then Some (False, q1) else is_inductive e (k - 1) (latches st) True True q1
            } else Some (False, p5)) = Some (ctg, p6)"
    note k6 = CTG_query_ok [OF e(1,2) inv2 Suc.prems(2) n1 n2 x st c]
    have out: "\<not> set cube \<subseteq> set (latches st)" using failed_query_outside [OF e(1,2) inv1 Suc.prems(2) q n1 n2 x st] .
    show "CTG_rest n e cube k 1 required cc jc s st ctg p6 = CTG_rest (Suc n) e cube k 1 required cc jc s st ctg p6"
    proof (cases ctg)
      case True
      then have cc: "cc < 3" using c by (auto simp: option_ctg_tries_def split: if_splits)
      then obtain m where m: "n = Suc (Suc m)" using Suc.prems(4) by (cases n; cases "n - 1") auto
      have mic: "mic n e q' j (1 + 1) p' = mic (Suc n) e q' j (1 + 1) p'" for q' j p'
        unfolding m using mic_deep [OF deep] .
      have "CTG_down n e cube k 1 required (cc + 1) jc (delete_State s (p9\<lparr>core := c'\<rparr>))
          = CTG_down (Suc n) e cube k 1 required (cc + 1) jc (delete_State s (p9\<lparr>core := c'\<rparr>))"
        if p: "push_from e (core p6) k p6 = Some (i, p7)" "mic (Suc n) e (core p7) (i - 1) (1 + 1) p7 = Some (c, p8)"
          "add_cube c i True False (p8\<lparr>core := c\<rparr>) = Some (c', p9)" for i p7 c p8 c' p9
      proof -
        have ms: "mic_spec e A N G (Suc n)" using generalisation_specs [OF e] by blast
        note p9 = push_mic_add [OF e(1) ms k6(1) k6(3) [OF True] p]
        have i9: "pdr_inv A N G (p9\<lparr>core := c'\<rparr>)" using p9(1) by (simp add: pdr_inv_def encodes_def)
        have e9: "evolves A p2 (p9\<lparr>core := c'\<rparr>)" using evolves_trans [OF k6(2) p9(2)] by (simp add: evolves_def)
        have "4 * card (set cube) + nat (3 - (cc + 1)) + 3 \<le> n" using Suc.prems(4) cc by simp
        then show ?thesis using Suc.IH [OF delete_State_ok(1) [OF i9 e9 k6(4)] Suc.prems(2)] Suc.prems(3) by simp
      qed
      note same = this
      show ?thesis
      proof (cases "push_from e (core p6) k p6")
        case None
        then show ?thesis unfolding CTG_rest_def if_P [OF True] by simp
      next
        case r1: (Some ip)
        obtain i p7 where ip: "ip = (i, p7)" by (cases ip)
        show ?thesis
        proof (cases "mic (Suc n) e (core p7) (i - 1) (1 + 1) p7")
          case None
          then show ?thesis unfolding CTG_rest_def if_P [OF True] mic r1 ip by (simp del: mic.simps)
        next
          case r2: (Some cp)
          obtain c p8 where cp: "cp = (c, p8)" by (cases cp)
          show ?thesis
          proof (cases "add_cube c i True False (p8\<lparr>core := c\<rparr>)")
            case None
            then show ?thesis unfolding CTG_rest_def if_P [OF True] mic r1 ip bind.bind_lunit prod.case r2 cp by simp
          next
            case r3: (Some cp')
            obtain c' p9 where cp': "cp' = (c', p9)" by (cases cp')
            show ?thesis
              unfolding CTG_rest_def if_P [OF True] mic r1 ip bind.bind_lunit prod.case r2 cp r3 cp'
              by (rule same [OF r1 [unfolded ip] r2 [unfolded cp] r3 [unfolded cp']])
          qed
        qed
      qed
    next
      case False
      obtain b cube' where j: "join_cube (latches st) required cube = (b, cube')" by fastforce
      have "CTG_down n e cube' k 1 required 0 (jc + 1) (delete_State s p6)
          = CTG_down (Suc n) e cube' k 1 required 0 (jc + 1) (delete_State s p6)" if "\<not> b"
      proof -
        have l: "card (set cube') < card (set cube)" using join_cube_shrinks [of "latches st" required cube cube'] j that out by simp
        have cs: "set cube' \<subseteq> set cube" using join_cube_subset [of "latches st" required cube] j by simp
        have "4 * card (set cube') + nat (3 - 0) + 3 \<le> n" using Suc.prems(4) l by simp
        then show ?thesis using Suc.IH [OF delete_State_ok(1) [OF k6(1,2,4)] latch_cube_mono [OF Suc.prems(2) cs], of 0] by simp
      qed
      then show ?thesis unfolding CTG_rest_def if_not_P [OF False] j prod.case by (simp del: CTG_down.simps)
    qed
  qed
qed


lemma mic_loop_fuel:
  assumes e: "ipasir_contract e" "eliminate_contract e" "shuffle_contract e"
  shows "pdr_inv A N G p \<Longrightarrow> latch_cube A cube \<Longrightarrow> 4 * card (set cube) + 2 \<le> n \<Longrightarrow>
    mic_loop n e ls k 1 mf required cube p = mic_loop (Suc n) e ls k 1 mf required cube p"
proof (induction ls arbitrary: p cube mf required)
  case (Cons l ls)
  show ?case
  proof (cases "l \<in> set cube")
    case False
    then show ?thesis using Cons by simp
  next
    case True
    let ?cand = "filter (\<lambda>i. i \<noteq> l) cube"
    have card: "card (set ?cand) < card (set cube)" by (rule psubset_card_mono) (use True in auto)
    have lc: "latch_cube A ?cand" using latch_cube_mono [OF Cons.prems(2), of ?cand] by simp
    have same: "CTG_down n e ?cand k 1 required 0 0 p = CTG_down (Suc n) e ?cand k 1 required 0 0 p"
      using CTG_down_fuel [OF e Cons.prems(1) lc, of 0 n] Cons.prems(3) card by simp
    show ?thesis
    proof (cases "CTG_down (Suc n) e ?cand k 1 required 0 0 p")
      case None
      then show ?thesis using True same by (simp del: CTG_down.simps)
    next
      case (Some r)
      obtain b c p1 where r: "r = (b, c, p1)" by (cases r)
      have "down_spec e A N G (Suc n)" using generalisation_specs [OF e] by blast
      then have "down_ok A N G p k ?cand (b, c, p1)" using Some r Cons.prems(1) lc unfolding down_spec_def by blast
      then have k: "pdr_inv A N G p1" "b \<Longrightarrow> set c \<subseteq> set ?cand" by (auto simp: down_ok_def)
      have cc: "latch_cube A c" "card (set c) \<le> card (set cube)" if b
        using latch_cube_mono [OF lc k(2) [OF that]] card_mono [OF _ k(2) [OF that]] card by auto
      have "mic_loop n e ls k 1 0 required c p1 = mic_loop (Suc n) e ls k 1 0 required c p1" if b
        using Cons.IH [OF k(1) cc(1) [OF that]] cc(2) [OF that] Cons.prems(3) by simp
      moreover have "mic_loop n e ls k 1 (mf + 1) (insert l required) cube p1
          = mic_loop (Suc n) e ls k 1 (mf + 1) (insert l required) cube p1"
        using Cons.IH [OF k(1) Cons.prems(2,3)] .
      ultimately show ?thesis using True same Some r by (cases b) (simp_all del: CTG_down.simps)
    qed
  qed
qed simp

lemma mic_fuel_Suc:
  assumes e: "ipasir_contract e" "eliminate_contract e" "shuffle_contract e"
    and inv: "pdr_inv A N G p" and cube: "latch_cube A cube" and n: "4 * length cube + 3 \<le> n"
  shows "mic n e cube k 1 p = mic (Suc n) e cube k 1 p"
proof -
  obtain m where m: "n = Suc m" "4 * length cube + 2 \<le> m" using n by (cases n) auto
  have c: "4 * card (set cube) + 2 \<le> m" using m(2) card_length [of cube] by simp
  have same: "mic_loop m e c2 k 1 0 {} c2 (p\<lparr>shuffles := y\<rparr>) = mic_loop (Suc m) e c2 k 1 0 {} c2 (p\<lparr>shuffles := y\<rparr>)"
    if "set c2 = set cube" for c2 y
  proof (rule mic_loop_fuel [OF e])
    show "pdr_inv A N G (p\<lparr>shuffles := y\<rparr>)" using inv by (simp add: pdr_inv_def encodes_def)
    show "latch_cube A c2" "4 * card (set c2) + 2 \<le> m" using cube c that by (simp_all add: latch_cube_def)
  qed
  let ?c1 = "stable_sort_by Lit_CMP cube"
  show ?thesis
  proof (cases "thread_index p \<le> 1")
    case True
    have "mic_loop m e c2 k 1 0 {} c2 p = mic_loop (Suc m) e c2 k 1 0 {} c2 p" if "set c2 = set cube" for c2
      using same [OF that, of "shuffles p"] by simp
    then show ?thesis using True m(1)
      by (cases "heuristic_lit_cmp p") (simp_all add: set_stable_sort_by del: mic_loop.simps)
  next
    case False
    have "set (random_shuffle e (shuffles p) ?c1) = set cube" using e(3) by (simp add: shuffle_contract_def set_stable_sort_by)
    then show ?thesis using same False m(1) by (simp del: mic_loop.simps)
  qed
qed

text \<open>
  C11. The fuel of \<^verbatim>\<open>generalize\<close> is enough: with any larger amount of fuel \<^verbatim>\<open>mic\<close> gives the same result, so the
  recursion of \<^verbatim>\<open>mic\<close> and \<^verbatim>\<open>CTG_down\<close> and the loop inside \<^verbatim>\<open>CTG_down\<close> end by themselves. The bound is four
  rounds for every literal of the cube.
\<close>

theorem generalize_terminates:
  assumes "ipasir_contract e" "eliminate_contract e" "shuffle_contract e"
    and "pdr_inv A N G p" "latch_cube A cube" "mic_fuel cube \<le> n"
  shows "mic n e cube k 1 p = generalize e cube k p"
  using assms(6)
proof (induction n rule: dec_induct)
  case base
  then show ?case by (simp add: generalize_def)
next
  case (step m)
  have "4 * length cube + 3 \<le> m" using step(1) by (simp add: mic_fuel_def)
  then show ?case using mic_fuel_Suc [OF assms(1-5)] step(3) by simp
qed


theorem generalize_terminates_witness:
  "\<exists>p. pdr_start ref_env (PDR_new (one_latch 2) 0 True True True) = Some p
    \<and> mic 100 ref_env [2] 0 1 p = generalize ref_env [2] 0 p"
proof -
  obtain p where p: "pdr_start ref_env (PDR_new (one_latch 2) 0 True True True) = Some p" using one_latch_start by auto
  obtain A N G where A: "circ A = circ (one_latch 2)" "loop_inv A N G p"
    using pdr_start_inv [OF ref_env_ipasir ref_env_eliminate ref_env_more(1) _ p] one_latch_loaded(1) by auto
  have "latch_cube A [2]" using circD [OF A(1)] by (simp add: latch_cube_def is_latch_def one_latch_def Aiger_new_def)
  moreover have "pdr_inv A N G p" using A(2) by (simp add: loop_inv_def)
  ultimately show ?thesis
    using p generalize_terminates [OF ref_env_ipasir ref_env_eliminate ref_env_more(2), of A N G p "[2]" 100 0]
    by (simp add: mic_fuel_def)
qed

end
