(* ===== verification/AigerFile.thy ===== *)
theory AigerFile
  imports Aig "HOL-Library.Word"
begin

unbundle bit_operations_syntax

text \<open>
  The file side of \<^verbatim>\<open>src/aig.cpp\<close>: numbers in decimal (\<^verbatim>\<open>read_literal\<close>), the variable-length
  binary code of the gates (\<^verbatim>\<open>encode\<close>, \<^verbatim>\<open>decode\<close>) and the parser \<^verbatim>\<open>load_aiger_from_file\<close>. A file
  is the list of its bytes; the parser's buffer is the file with a final 0 byte and its
  pointer is a position. \<open>None\<close> is a failed \<^verbatim>\<open>assert\<close>, a read outside the buffer, a signed
  overflow or a shift by 32 or more.
\<close>

section \<open>Numbers\<close>

abbreviation lf :: char where
  "lf \<equiv> CHR 0x0A"

text \<open>The first loop of \<^verbatim>\<open>read_literal\<close>: the position of the first digit, or of a line end.\<close>

fun skip_to_digit :: "string \<Rightarrow> nat \<Rightarrow> (bool \<times> nat) option" where
  "skip_to_digit [] n = None"
| "skip_to_digit (c # cs) n =
     (if isdigit c then Some (True, n)
      else if c = lf then Some (False, n)
      else skip_to_digit cs (Suc n))"

fun read_digits :: "string \<Rightarrow> nat \<Rightarrow> int \<Rightarrow> (int \<times> nat) option" where
  "read_digits [] n r = None"
| "read_digits (c # cs) n r =
     (if isdigit c then
        let r' = r * 10 + (int (of_char c) - 48)
        in if r' \<le> INT_MAX then read_digits cs (Suc n) r' else None
      else Some (r, n))"

definition read_literal :: "string \<Rightarrow> nat \<Rightarrow> (int \<times> nat) option" where
  "read_literal buf p = do {
     (found, q) \<leftarrow> skip_to_digit (drop p buf) p;
     if found then read_digits (drop q buf) q 0 else Some (- 1, q)
   }"

section \<open>The variable-length code\<close>

fun decode_loop :: "string \<Rightarrow> nat \<Rightarrow> 32 word \<Rightarrow> nat \<Rightarrow> (32 word \<times> nat) option" where
  "decode_loop [] p x i = None"
| "decode_loop (ch # cs) p x i =
     (if 32 \<le> 7 * i then None
      else if (of_char ch :: 32 word) AND 0x80 \<noteq> 0
      then decode_loop cs (Suc p) (x OR push_bit (7 * i) (of_char ch AND 0x7f)) (Suc i)
      else Some (x OR push_bit (7 * i) (of_char ch), Suc p))"

definition decode :: "string \<Rightarrow> nat \<Rightarrow> (32 word \<times> nat) option" where
  "decode buf p = decode_loop (drop p buf) p 0 0"

text \<open>\<^verbatim>\<open>encode\<close> appends to its first argument.\<close>

lemma drop_bit_7_less:
  assumes "(x :: 32 word) AND NOT 0x7f \<noteq> 0"
  shows "unat (drop_bit 7 x) < unat x"
proof -
  have "x \<noteq> 0" using assms by auto
  then have "0 < unat x" by (simp add: unat_gt_0)
  moreover have "unat (drop_bit 7 x) = unat x div 128" by (simp add: unat_drop_bit_eq drop_bit_eq_div [of 7 "unat x"])
  ultimately show ?thesis by simp
qed

function encode :: "string \<Rightarrow> 32 word \<Rightarrow> string" where
  "encode str x =
     (if x AND NOT 0x7f \<noteq> 0
      then encode (str @ [char_of (unat ((x AND 0x7f) OR 0x80))]) (drop_bit 7 x)
      else str @ [char_of (unat x)])"
  by pat_completeness auto
termination
  by (relation "measure (unat \<circ> snd)") (simp_all add: drop_bit_7_less)

declare encode.simps [simp del]

lemma encode_append: "encode str x = str @ encode [] x"
proof (induction "unat x" arbitrary: str x rule: less_induct)
  case less
  show ?case
  proof (cases "x AND NOT 0x7f = 0")
    case True
    then show ?thesis by (simp add: encode.simps [of _ x])
  next
    case False
    note IH = less [OF drop_bit_7_less [OF False]]
    let ?c = "[char_of (unat ((x AND 0x7f) OR 0x80))]"
    have "encode str x = (str @ ?c) @ encode [] (drop_bit 7 x)"
      using False IH [of "str @ ?c"] by (simp only: encode.simps [of str x] if_True simp_thms)
    moreover have "encode [] x = ?c @ encode [] (drop_bit 7 x)"
      using False IH [of ?c] by (simp only: encode.simps [of "[]" x] if_True simp_thms append_Nil)
    ultimately show ?thesis by simp
  qed
qed

lemma of_char_of_unat:
  assumes "(w :: 32 word) < 256"
  shows "of_char (char_of (unat w)) = w"
proof -
  have "unat w < 256" using assms by (simp add: word_less_nat_alt)
  then have "(of_char (char_of (unat w)) :: nat) = unat w" by (simp add: of_char_of)
  then have "(of_nat (of_char (char_of (unat w)) :: nat) :: 32 word) = w" by simp
  then show ?thesis by (simp only: of_nat_of_char)
qed

lemma masks: "bit (0x7f :: int) n = (n < 7)" "bit (0x80 :: int) n = (n = 7)"
proof -
  have "(0x7f :: int) = mask 7" by (simp add: mask_eq_exp_minus_1)
  then show "bit (0x7f :: int) n = (n < 7)" by (simp only: bit_mask_iff) auto
  have "(0x80 :: int) = 2 ^ 7" by simp
  then show "bit (0x80 :: int) n = (n = 7)" by (simp only: bit_exp_iff) auto
qed

lemma byte_less:
  assumes "\<And>n. 8 \<le> n \<Longrightarrow> \<not> bit (w :: 32 word) n"
  shows "w < 256"
proof -
  have "take_bit 8 w = w" by (rule bit_eqI) (use assms not_le in \<open>auto simp: bit_take_bit_iff\<close>)
  then have "unat w = take_bit 8 (unat w)" by (metis unsigned_take_bit_eq)
  then have "unat w = unat w mod 2 ^ 8" by (simp only: take_bit_eq_mod)
  then show ?thesis by (simp add: word_less_nat_alt)
qed

lemma high_byte:
  fixes x :: "32 word"
  defines "w \<equiv> (x AND 0x7f) OR 0x80"
  shows "w AND 0x80 \<noteq> 0" "w AND 0x7f = x AND 0x7f" "w < 256"
proof -
  have "bit (w AND 0x80) 7" by (simp add: w_def masks bit_simps)
  then show "w AND 0x80 \<noteq> 0" by auto
  show "w AND 0x7f = x AND 0x7f" by (rule bit_eqI) (auto simp: w_def masks bit_simps)
  show "w < 256" by (rule byte_less) (auto simp: w_def masks bit_simps)
qed

lemma low_byte:
  assumes "(x :: 32 word) AND NOT 0x7f = 0"
  shows "x < 256" "x AND 0x80 = 0"
proof -
  have b: "\<not> bit x n" if "7 \<le> n" for n
  proof
    assume "bit x n"
    then have "n < 32" using bit_imp_le_length by force
    then have "bit (x AND NOT 0x7f) n" using \<open>bit x n\<close> that by (simp add: masks bit_simps)
    then show False using assms by simp
  qed
  show "x < 256" by (rule byte_less) (use b in simp)
  show "x AND 0x80 = 0" by (rule bit_eqI) (use b in \<open>auto simp: masks bit_simps\<close>)
qed

lemma word_ge_128:
  assumes "(x :: 32 word) AND NOT 0x7f \<noteq> 0"
  shows "128 \<le> unat x"
proof (rule ccontr)
  assume "\<not> 128 \<le> unat x"
  then have "take_bit 7 (unat x) = unat x" by (simp add: take_bit_eq_mod)
  then have "take_bit 7 x = x" by (metis unsigned_take_bit_eq word_unat_eq_iff)
  then have "\<not> bit x n" if "7 \<le> n" for n using that by (metis bit_take_bit_iff not_le)
  then have "x AND NOT 0x7f = 0" by (intro bit_eqI) (auto simp: masks bit_simps not_less [symmetric])
  then show False using assms by simp
qed

lemma decode_encode_loop:
  assumes "unat y < 2 ^ (32 - 7 * i)" "7 * i < 32"
  shows "decode_loop (encode [] y @ rest) p x i
       = Some (x OR push_bit (7 * i) y, p + length (encode [] y))"
  using assms
proof (induction "unat y" arbitrary: y i x p rule: less_induct)
  case less
  show ?case
  proof (cases "y AND NOT 0x7f = 0")
    case True
    then have "encode [] y = [char_of (unat y)]" by (simp add: encode.simps [of _ y])
    then show ?thesis using low_byte [OF True] less.prems by (simp add: of_char_of_unat)
  next
    case False
    let ?w = "(y AND 0x7f) OR 0x80" and ?y = "drop_bit 7 y" and ?x = "x OR push_bit (7 * i) (y AND 0x7f)"
    have e: "encode [] y = char_of (unat ?w) # encode [] ?y"
      using False encode_append [of "[char_of (unat ?w)]" ?y] by (simp add: encode.simps [of "[]" y])
    have y: "unat ?y = unat y div 128" by (simp add: unat_drop_bit_eq drop_bit_eq_div [of 7 "unat y"])
    have "7 * i + 7 < 32"
    proof (rule ccontr)
      assume "\<not> 7 * i + 7 < 32"
      then have "32 - 7 * i \<le> 7" by simp
      then have "(2::nat) ^ (32 - 7 * i) \<le> 2 ^ 7" by (rule power_increasing) simp
      then have "(2::nat) ^ (32 - 7 * i) \<le> 128" by simp
      then show False using less.prems(1) word_ge_128 [OF False] by linarith
    qed
    moreover have "unat ?y < 2 ^ (32 - 7 * Suc i)"
    proof -
      have "32 - 7 * i = (32 - 7 * Suc i) + 7" using \<open>7 * i + 7 < 32\<close> by simp
      then have "(2::nat) ^ (32 - 7 * i) = 2 ^ (32 - 7 * Suc i) * 2 ^ 7" by (simp only: power_add)
      then have "unat y < 2 ^ (32 - 7 * Suc i) * 2 ^ 7" using less.prems(1) by (simp only:)
      then have "unat y div 2 ^ 7 < 2 ^ (32 - 7 * Suc i)" by (rule less_mult_imp_div_less)
      then show ?thesis unfolding y by simp
    qed
    ultimately have "decode_loop (encode [] ?y @ rest) (Suc p) ?x (Suc i)
        = Some (?x OR push_bit (7 * Suc i) ?y, Suc p + length (encode [] ?y))"
      using less.hyps [OF drop_bit_7_less [OF False]] by simp
    moreover have "?x OR push_bit (7 * Suc i) ?y = x OR push_bit (7 * i) y"
    proof -
      have "y = (y AND 0x7f) OR push_bit 7 ?y"
      proof (rule bit_eqI)
        fix n
        show "bit y n = bit ((y AND 0x7f) OR push_bit 7 ?y) n"
          by (cases "n < 7") (auto simp: masks bit_simps dest: bit_imp_le_length)
      qed
      then have "push_bit (7 * i) y = push_bit (7 * i) (y AND 0x7f) OR push_bit (7 * i) (push_bit 7 ?y)"
        by (metis push_bit_or)
      moreover have "push_bit (7 * i) (push_bit 7 ?y) = push_bit (7 * Suc i) ?y"
        by (simp only: push_bit_push_bit mult_Suc_right add.commute)
      ultimately show ?thesis by (simp only: or.assoc)
    qed
    ultimately show ?thesis using less.prems high_byte [of y] by (simp add: e of_char_of_unat)
  qed
qed

section \<open>load_aiger_from_file\<close>

text \<open>A value of type \<^verbatim>\<open>int\<close> stored where an \<^verbatim>\<open>unsigned\<close> is expected.\<close>

definition unsigned_of_int :: "int \<Rightarrow> int" where
  "unsigned_of_int x = x mod 4294967296"

definition in_int :: "int \<Rightarrow> int option" where
  "in_int x = (if INT_MIN \<le> x \<and> x \<le> INT_MAX then Some x else None)"

definition byte_at :: "string \<Rightarrow> nat \<Rightarrow> char option" where
  "byte_at buf p = (if p < length buf then Some (buf ! p) else None)"

text \<open>\<^verbatim>\<open>read_literal(&fbuf); fbuf++;\<close>: to the next line.\<close>

definition next_line :: "string \<Rightarrow> nat \<Rightarrow> nat option" where
  "next_line buf p = do { (v, q) \<leftarrow> read_literal buf p; Some (Suc q) }"

definition read_header :: "string \<Rightarrow> Aiger \<Rightarrow> (bool \<times> Aiger \<times> nat) option" where
  "read_header buf a = do {
     c0 \<leftarrow> byte_at buf 0;
     c1 \<leftarrow> byte_at buf 1;
     c2 \<leftarrow> byte_at buf 2;
     if c0 = CHR ''a'' \<and> (c1 = CHR ''i'' \<or> c1 = CHR ''a'') \<and> c2 = CHR ''g'' then do {
       (M, p1) \<leftarrow> read_literal buf 2;
       (I, p2) \<leftarrow> read_literal buf p1;
       (L, p3) \<leftarrow> read_literal buf p2;
       (O', p4) \<leftarrow> read_literal buf p3;
       (A, p5) \<leftarrow> read_literal buf p4;
       (B, p6) \<leftarrow> read_literal buf p5;
       (C, p7) \<leftarrow> read_literal buf p6;
       (J, p8) \<leftarrow> read_literal buf p7;
       (F, p9) \<leftarrow> read_literal buf p8;
       IL \<leftarrow> in_int (I + L);
       ILA \<leftarrow> in_int (IL + A);
       if M = ILA then
         Some (c1 = CHR ''i'',
           a\<lparr>max_var := M, num_inputs := I, num_outputs := O', num_latches := L, num_ands := A,
             num_bads := max B 0, num_constraints := max C 0, num_justice := max J 0,
             num_fairness := max F 0, binaryMode := (c1 = CHR ''i'')\<rparr>, p9)
       else None
     }
     else None
   }"

text \<open>One literal per line: inputs, outputs, bad states and constraints.\<close>

definition read_lit_line :: "string \<Rightarrow> int \<Rightarrow> int list \<times> nat \<Rightarrow> (int list \<times> nat) option" where
  "read_lit_line buf i s = (case s of (xs, p) \<Rightarrow> do {
     p1 \<leftarrow> next_line buf p;
     (l, p2) \<leftarrow> read_literal buf p1;
     Some (xs @ [unsigned_of_int l], p2)
   })"

definition read_lit_lines :: "string \<Rightarrow> int \<Rightarrow> nat \<Rightarrow> (int list \<times> nat) option" where
  "read_lit_lines buf n p = fold_opt (read_lit_line buf) [0..n - 1] ([], p)"

definition read_inputs :: "string \<Rightarrow> bool \<Rightarrow> int \<Rightarrow> nat \<Rightarrow> (int list \<times> nat) option" where
  "read_inputs buf binary n p =
     (if binary then do { xs \<leftarrow> those (map (\<lambda>i. in_int (2 * i)) [1..n]); Some (xs, p) } else read_lit_lines buf n p)"

definition read_latch_line ::
  "string \<Rightarrow> bool \<Rightarrow> int \<Rightarrow> int \<Rightarrow> Aiger_latch list \<times> nat \<Rightarrow> (Aiger_latch list \<times> nat) option" where
  "read_latch_line buf binary ni i s = (case s of (xs, p) \<Rightarrow> do {
     p1 \<leftarrow> next_line buf p;
     (l, p2) \<leftarrow> (if binary then do { x \<leftarrow> in_int (2 * (ni + 1 + i)); Some (x, p1) } else read_literal buf p1);
     (n, p3) \<leftarrow> read_literal buf p2;
     (d, p4) \<leftarrow> read_literal buf p3;
     Some (xs @ [\<lparr>al_l = unsigned_of_int l, al_next = unsigned_of_int n,
                  al_default_val = max d 0\<rparr>], p4)
   })"

definition read_latches ::
  "string \<Rightarrow> bool \<Rightarrow> int \<Rightarrow> int \<Rightarrow> nat \<Rightarrow> (Aiger_latch list \<times> nat) option" where
  "read_latches buf binary ni n p = fold_opt (read_latch_line buf binary ni) [0..n - 1] ([], p)"

text \<open>Gates: two differences in the binary format, three literals in the textual one.\<close>

definition read_and_binary ::
  "string \<Rightarrow> int \<Rightarrow> int \<Rightarrow> Aiger_and list \<times> nat \<Rightarrow> (Aiger_and list \<times> nat) option" where
  "read_and_binary buf nil i s = (case s of (xs, p) \<Rightarrow> do {
     out' \<leftarrow> in_int (2 * (nil + i + 1));
     (d1, p1) \<leftarrow> decode buf p;
     x1 \<leftarrow> in_int (out' - sint d1);
     (d2, p2) \<leftarrow> decode buf p1;
     x2 \<leftarrow> in_int (x1 - sint d2);
     Some (xs @ [\<lparr>ag_o = unsigned_of_int out', ag_i1 = unsigned_of_int x1, ag_i2 = unsigned_of_int x2\<rparr>], p2)
   })"

definition read_and_line ::
  "string \<Rightarrow> int \<Rightarrow> Aiger_and list \<times> nat \<Rightarrow> (Aiger_and list \<times> nat) option" where
  "read_and_line buf i s = (case s of (xs, p) \<Rightarrow> do {
     p1 \<leftarrow> next_line buf p;
     (x0, p2) \<leftarrow> read_literal buf p1;
     (x1, p3) \<leftarrow> read_literal buf p2;
     (x2, p4) \<leftarrow> read_literal buf p3;
     Some (xs @ [\<lparr>ag_o = unsigned_of_int x0, ag_i1 = unsigned_of_int x1, ag_i2 = unsigned_of_int x2\<rparr>], p4)
   })"

definition read_ands ::
  "string \<Rightarrow> bool \<Rightarrow> int \<Rightarrow> int \<Rightarrow> nat \<Rightarrow> (Aiger_and list \<times> nat) option" where
  "read_ands buf binary nil n p =
     (if binary then do {
        p1 \<leftarrow> next_line buf p;
        fold_opt (read_and_binary buf nil) [0..n - 1] ([], p1)
      }
      else fold_opt (read_and_line buf) [0..n - 1] ([], p))"

text \<open>The rest of a line, and the position of its end.\<close>

fun rest_of_line :: "string \<Rightarrow> nat \<Rightarrow> (string \<times> nat) option" where
  "rest_of_line [] p = None"
| "rest_of_line (c # cs) p =
     (if c = lf then Some ([], p)
      else do { (s, q) \<leftarrow> rest_of_line cs (Suc p); Some (c # s, q) })"

lemma skip_to_digit_le: "skip_to_digit cs p = Some (b, q) \<Longrightarrow> p \<le> q"
  by (induction cs arbitrary: p) (fastforce split: if_splits)+

lemma read_digits_le: "read_digits cs p r = Some (v, q) \<Longrightarrow> p \<le> q"
  by (induction cs arbitrary: p r) (fastforce split: if_splits simp: Let_def)+

lemma read_literal_le: "read_literal buf p = Some (v, q) \<Longrightarrow> p \<le> q"
  by (auto simp: read_literal_def bind_eq_Some_conv split: if_splits
      dest!: skip_to_digit_le read_digits_le)

lemma rest_of_line_le: "rest_of_line cs p = Some (t, q) \<Longrightarrow> p \<le> q \<and> q < p + length cs"
  by (induction cs arbitrary: p t) (fastforce split: if_splits simp: bind_eq_Some_conv)+

text \<open>
  The symbol table: lines that start with i, l or o; c starts the comment. Every line moves the
  pointer forward within the buffer, so that the loop ends.
\<close>

function read_symbols ::
  "string \<Rightarrow> nat \<Rightarrow> (int \<rightharpoonup> string) \<Rightarrow> ((int \<rightharpoonup> string) \<times> bool \<times> nat) option" where
  "read_symbols buf p m = do {
     c \<leftarrow> byte_at buf (Suc p);
     if c = CHR ''i'' \<or> c = CHR ''l'' \<or> c = CHR ''o'' then do {
       (v, p2) \<leftarrow> read_literal buf (Suc p);
       (t, p3) \<leftarrow> rest_of_line (drop (Suc p2) buf) (Suc p2);
       read_symbols buf p3 (m(unsigned_of_int v \<mapsto> t))
     }
     else if c = CHR ''c'' then Some (m, True, Suc (Suc p))
     else Some (m, False, Suc p)
   }"
  by pat_completeness auto
termination
  by (relation "measure (\<lambda>(buf, p, m). length buf - p)")
     (auto simp: byte_at_def split: if_splits dest!: read_literal_le rest_of_line_le)

declare read_symbols.simps [simp del]

text \<open>
  After the gates the pointer is behind the last gate (binary) or at the end of its line
  (textual). \<open>len\<close> is the length of the file.
\<close>

definition read_symbol_table ::
  "string \<Rightarrow> int \<Rightarrow> bool \<Rightarrow> nat \<Rightarrow> ((int \<rightharpoonup> string) \<times> bool \<times> nat) option" where
  "read_symbol_table buf len binary p = do {
     p1 \<leftarrow> (if binary then Some p else do { (s, q) \<leftarrow> rest_of_line (drop p buf) p; Some q });
     if int p1 < len - 1
     then (if binary then
             (if 0 < p1 then read_symbols buf (p1 - 1) Map.empty else None)
           else read_symbols buf p1 Map.empty)
     else Some (Map.empty, False, p1)
   }"

definition read_comment :: "string \<Rightarrow> bool \<Rightarrow> nat \<Rightarrow> string option" where
  "read_comment buf has p =
     (if has then do {
        c \<leftarrow> byte_at buf p;
        if c = lf then Some (takeWhile (\<lambda>c. c \<noteq> CHR 0x00) (drop (Suc p) buf)) else None
      }
      else Some [])"

definition load_aiger_from_file ::
  "string \<Rightarrow> int \<Rightarrow> bool \<Rightarrow> bool \<Rightarrow> bool \<Rightarrow> bool \<Rightarrow> Aiger option" where
  "load_aiger_from_file file pi witness certificate findbug log' = do {
     let a0 = Aiger_new\<lparr>propertyIndex := pi, output_witness := witness,
       output_certificate := certificate, find_bug_only := findbug, moreinfo_for_bmc := log'\<rparr>;
     let buf = file @ [CHR 0x00];
     (binary, a, p0) \<leftarrow> read_header buf a0;
     (ins, p1) \<leftarrow> read_inputs buf binary (num_inputs a) p0;
     (ls, p2) \<leftarrow> read_latches buf binary (num_inputs a) (num_latches a) p1;
     (os, p3) \<leftarrow> read_lit_lines buf (num_outputs a) p2;
     (bs, p4) \<leftarrow> read_lit_lines buf (num_bads a) p3;
     (cs, p5) \<leftarrow> read_lit_lines buf (num_constraints a) p4;
     (gs, p6) \<leftarrow> read_ands buf binary (num_inputs a + num_latches a) (num_ands a) p5;
     (m, has, p7) \<leftarrow> read_symbol_table buf (int (length file)) binary p6;
     com \<leftarrow> read_comment buf has p7;
     Some (a\<lparr>Aiger_inputs := ins, Aiger_outputs := os, Aiger_bads := bs, Aiger_constraints := cs,
             Aiger_latches := ls, Aiger_ands := gs, symbols := m, comments := com\<rparr>)
   }"

section \<open>Properties\<close>

text \<open>
  C13. Decoding what \<^verbatim>\<open>encode\<close> wrote, at any place of a buffer, gives back the number and moves
  the pointer behind its last byte, for every 32-bit number.
\<close>

theorem decode_encode:
  "decode (pre @ encode [] x @ rest) (length pre) = Some (x, length pre + length (encode [] x))"
proof -
  have "unat x < 2 ^ (32 - 7 * 0)" using unsigned_less [of x] by simp
  then show ?thesis using decode_encode_loop [of x 0 rest "length pre" 0] by (simp add: decode_def)
qed

lemma encode_length:
  assumes "unat y < 2 ^ (7 * k)" "0 < k"
  shows "length (encode [] y) \<le> k"
  using assms
proof (induction k arbitrary: y)
  case (Suc k)
  show ?case
  proof (cases "y AND NOT 0x7f = 0")
    case True
    then show ?thesis by (simp add: encode.simps [of _ y])
  next
    case False
    let ?y = "drop_bit 7 y"
    have y: "unat ?y = unat y div 2 ^ 7" by (simp add: unat_drop_bit_eq drop_bit_eq_div [of 7 "unat y"])
    have "(2::nat) ^ (7 * Suc k) = 2 ^ (7 * k) * 2 ^ 7" by (simp add: power_add)
    then have "unat y < 2 ^ (7 * k) * 2 ^ 7" using Suc.prems(1) by (simp only:)
    then have "unat ?y < 2 ^ (7 * k)" unfolding y by (rule less_mult_imp_div_less)
    moreover have "0 < k" using word_ge_128 [OF False] Suc.prems(1) by (cases k) simp_all
    ultimately have "length (encode [] ?y) \<le> k" using Suc.IH by blast
    then show ?thesis
      using False encode_append [of "[char_of (unat ((y AND 0x7f) OR 0x80))]" ?y]
      by (simp add: encode.simps [of "[]" y])
  qed
qed simp

definition high_bit :: "char \<Rightarrow> bool" where
  "high_bit c = ((of_char c :: 32 word) AND 0x80 \<noteq> 0)"

lemma encode_high_bits: "encode [] y \<noteq> [] \<and> list_all high_bit (butlast (encode [] y)) \<and> \<not> high_bit (last (encode [] y))"
proof (induction "unat y" arbitrary: y rule: less_induct)
  case less
  show ?case
  proof (cases "y AND NOT 0x7f = 0")
    case True
    then have "encode [] y = [char_of (unat y)]" by (simp add: encode.simps [of _ y])
    then show ?thesis using low_byte [OF True] by (simp add: high_bit_def of_char_of_unat)
  next
    case False
    let ?w = "(y AND 0x7f) OR 0x80" and ?y = "drop_bit 7 y"
    have e: "encode [] y = char_of (unat ?w) # encode [] ?y"
      using False encode_append [of "[char_of (unat ?w)]" ?y] by (simp add: encode.simps [of "[]" y])
    have "high_bit (char_of (unat ?w))" using high_byte [of y] by (simp add: high_bit_def of_char_of_unat)
    then show ?thesis unfolding e using less [OF drop_bit_7_less [OF False]] by simp
  qed
qed

text \<open>
  C14. \<^verbatim>\<open>encode\<close> terminates and appends between one and five bytes for every 32-bit number, all but the
  last with the high bit set, so that the code of a number ends at its first byte without it.
\<close>

theorem encode_bounds:
  "\<exists>bs. encode str x = str @ bs \<and> 1 \<le> length bs \<and> length bs \<le> 5
    \<and> list_all high_bit (butlast bs) \<and> \<not> high_bit (last bs)"
proof -
  have "unat x < 2 ^ 32" using unsigned_less [of x] by simp
  then have "unat x < 2 ^ (7 * 5)" by (rule less_trans) simp
  then have "length (encode [] x) \<le> 5" by (rule encode_length) simp
  moreover have "1 \<le> length (encode [] x)" using encode_high_bits [of x] by (cases "encode [] x") auto
  ultimately show ?thesis using encode_append [of str x] encode_high_bits [of x] by blast
qed

lemma digit_char: "d < 10 \<Longrightarrow> (of_char (char_of (48 + d)) :: nat) = 48 + d"
  by (simp add: of_char_of)

lemma isdigit_show: "\<forall>c\<in>set (show_nat n). isdigit c"
proof (induction n rule: show_nat.induct)
  case (1 n)
  then show ?case
    by (subst show_nat.simps) (auto simp: isdigit_def digit_char)
qed

lemma read_digits_show:
  assumes "int n \<le> INT_MAX"
  shows "read_digits (show_nat n @ cs) p 0 = read_digits cs (p + length (show_nat n)) (int n)"
  using assms
proof (induction n arbitrary: cs rule: show_nat.induct)
  case (1 n)
  show ?case
  proof (cases "n < 10")
    case True
    then show ?thesis using "1.prems" by (simp add: show_nat.simps [of n] digit_char isdigit_def Let_def)
  next
    case False
    let ?d = "char_of (48 + n mod 10)"
    have s: "show_nat n = show_nat (n div 10) @ [?d]" using False by (simp add: show_nat.simps [of n])
    have "int (n div 10) \<le> INT_MAX" using "1.prems" by linarith
    then have "read_digits (show_nat (n div 10) @ ?d # cs) p 0
        = read_digits (?d # cs) (p + length (show_nat (n div 10))) (int (n div 10))"
      using "1.IH" False by blast
    moreover have "int (n div 10) * 10 + (int (48 + n mod 10) - 48) = int n" by (simp add: zdiv_int zmod_int)
    moreover have "n mod 10 \<le> 9" "n mod 10 < 10" using mod_less_divisor [of 10 n] by linarith+
    ultimately show ?thesis using "1.prems" by (simp add: s digit_char isdigit_def Let_def)
  qed
qed

lemma skip_to_digit_none: "\<forall>c\<in>set ds. \<not> isdigit c \<and> c \<noteq> lf \<Longrightarrow>
  skip_to_digit (ds @ cs) p = skip_to_digit cs (p + length ds)"
  by (induction ds arbitrary: p) auto

lemma show_nat_Cons: "\<exists>c cs. show_nat n = c # cs \<and> isdigit c"
proof -
  have "show_nat n \<noteq> []" by (subst show_nat.simps) auto
  then show ?thesis using isdigit_show [of n] by (cases "show_nat n") auto
qed

text \<open>
  C15. \<^verbatim>\<open>read_literal\<close> reads back a printed number: it skips what is neither digit nor line end,
  returns the number and stops at the first byte behind it.
\<close>

theorem read_literal_show:
  assumes "int n \<le> INT_MAX" "\<forall>c\<in>set ds. \<not> isdigit c \<and> c \<noteq> lf" "\<not> isdigit c"
  shows "read_literal (pre @ ds @ show_nat n @ c # cs) (length pre)
       = Some (int n, length pre + length ds + length (show_nat n))"
proof -
  obtain d es where s: "show_nat n = d # es" "isdigit d" using show_nat_Cons by blast
  have "skip_to_digit (ds @ show_nat n @ c # cs) (length pre) = Some (True, length pre + length ds)"
    using skip_to_digit_none [OF assms(2)] s by simp
  moreover have "read_digits (show_nat n @ c # cs) (length pre + length ds) 0
      = Some (int n, length pre + length ds + length (show_nat n))"
    using read_digits_show [OF assms(1)] assms(3) by simp
  ultimately show ?thesis by (simp add: read_literal_def)
qed

theorem read_literal_show_witness:
  "read_literal (''a'' @ '' '' @ show_nat 42 @ CHR 0x0A # []) (length ''a'') = Some (42, 4)"
  using read_literal_show [of 42 "'' ''" lf "''a''" "[]"]
  by (simp add: INT_MAX_def isdigit_def show_nat.simps)

lemma read_literal_line_end:
  "\<forall>c\<in>set ds. \<not> isdigit c \<and> c \<noteq> lf \<Longrightarrow>
   read_literal (pre @ ds @ lf # cs) (length pre) = Some (- 1, length pre + length ds)"
  by (simp add: read_literal_def skip_to_digit_none isdigit_def)

lemma rest_of_line_text: "lf \<notin> set t \<Longrightarrow> rest_of_line (t @ lf # cs) p = Some (t, p + length t)"
  by (induction t arbitrary: p) auto

text \<open>A line of the symbol table: kind, number, name.\<close>

definition symbol_line :: "char \<times> nat \<times> string \<Rightarrow> string" where
  "symbol_line = (\<lambda>(k, n, t). k # show_nat n @ CHR '' '' # t @ [lf])"

definition symbol_ok :: "char \<times> nat \<times> string \<Rightarrow> bool" where
  "symbol_ok = (\<lambda>(k, n, t). (k = CHR ''i'' \<or> k = CHR ''l'' \<or> k = CHR ''o'') \<and> int n \<le> INT_MAX \<and> lf \<notin> set t)"

definition symbol_put :: "(int \<rightharpoonup> string) \<Rightarrow> char \<times> nat \<times> string \<Rightarrow> (int \<rightharpoonup> string)" where
  "symbol_put m = (\<lambda>(k, n, t). m(int n \<mapsto> t))"

lemma read_symbols_line:
  assumes "symbol_ok s" "Suc p = length pre"
  shows "read_symbols (pre @ symbol_line s @ cs) p m
    = read_symbols (pre @ symbol_line s @ cs) (p + length (symbol_line s)) (symbol_put m s)"
proof -
  obtain k n t where s: "s = (k, n, t)" by (cases s)
  let ?buf = "pre @ symbol_line s @ cs" and ?q = "length pre + Suc (length (show_nat n))"
  have k: "k = CHR ''i'' \<or> k = CHR ''l'' \<or> k = CHR ''o''" "int n \<le> INT_MAX" "lf \<notin> set t" using assms(1) by (simp_all add: symbol_ok_def s)
  have "\<not> isdigit k" "k \<noteq> lf" "\<not> isdigit (CHR '' '')" using k(1) by (auto simp: isdigit_def)
  then have "read_literal (pre @ [k] @ show_nat n @ CHR '' '' # (t @ lf # cs)) (length pre) = Some (int n, length pre + length [k] + length (show_nat n))"
    using k(2) by (intro read_literal_show) simp_all
  then have l: "read_literal ?buf (Suc p) = Some (int n, ?q)" by (simp add: symbol_line_def s assms(2))
  have b: "byte_at ?buf (Suc p) = Some k" by (simp add: byte_at_def symbol_line_def nth_append s assms(2))
  have d: "drop (Suc ?q) ?buf = t @ lf # cs" by (simp add: symbol_line_def s)
  have r: "rest_of_line (drop (Suc ?q) ?buf) (Suc ?q) = Some (t, Suc ?q + length t)" unfolding d by (rule rest_of_line_text [OF k(3)])
  have u: "m(unsigned_of_int (int n) \<mapsto> t) = symbol_put m s" using k(2) by (simp add: unsigned_of_int_def INT_MAX_def symbol_put_def s)
  have e: "Suc ?q + length t = p + length (symbol_line s)" by (simp add: symbol_line_def s assms(2) [symmetric])
  have "read_symbols ?buf p m = read_symbols ?buf (Suc ?q + length t) (m(unsigned_of_int (int n) \<mapsto> t))"
    using k(1) by (subst read_symbols.simps) (simp only: b l r bind.bind_lunit if_True prod.case)
  then show ?thesis unfolding u e .
qed

text \<open>
  C16. Reading back a symbol table: when the buffer holds the lines of symbols of inputs, latches and
  outputs, with numbers up to \<^verbatim>\<open>INT_MAX\<close> and names without a line end, the loop ends behind the last
  line with a map that has every name under its number, later lines overwriting earlier ones, and it
  tells whether a comment follows. The map is keyed by the number alone, as in the source, so the
  name of an input is lost when a latch or an output has the same number.
\<close>

theorem read_symbols_lines:
  assumes "list_all symbol_ok ss" "Suc p = length pre" "c \<noteq> CHR ''i''" "c \<noteq> CHR ''l''" "c \<noteq> CHR ''o''"
  shows "read_symbols (pre @ concat (map symbol_line ss) @ c # cs) p m
    = Some (foldl symbol_put m ss, c = CHR ''c'',
        length pre + length (concat (map symbol_line ss)) + (if c = CHR ''c'' then 1 else 0))"
  using assms(1,2)
proof (induction ss arbitrary: pre p m)
  case Nil
  then show ?case using assms(3-) by (subst read_symbols.simps) (simp add: byte_at_def nth_append)
next
  case (Cons s ss)
  have "read_symbols (pre @ concat (map symbol_line (s # ss)) @ c # cs) p m
    = read_symbols ((pre @ symbol_line s) @ concat (map symbol_line ss) @ c # cs) (p + length (symbol_line s)) (symbol_put m s)"
    using read_symbols_line [of s p pre "concat (map symbol_line ss) @ c # cs" m] Cons.prems by simp
  then show ?case using Cons.IH [of "p + length (symbol_line s)" "pre @ symbol_line s" "symbol_put m s"] Cons.prems by simp
qed

theorem read_symbols_lines_witness:
  "read_symbols (''x'' @ ''i0 go'' @ [lf] @ ''l1 run'' @ [lf] @ ''c'' @ [lf]) 0 Map.empty = Some ([0 \<mapsto> ''go'', 1 \<mapsto> ''run''], True, 15)"
proof -
  let ?ss = "[(CHR ''i'', 0, ''go''), (CHR ''l'', 1, ''run'')]"
  have "show_nat 0 = ''0''" "show_nat 1 = ''1''" by code_simp+
  then have l: "concat (map symbol_line ?ss) = ''i0 go'' @ [lf] @ ''l1 run'' @ [lf]" by (simp add: symbol_line_def)
  have ok: "list_all symbol_ok ?ss" by (simp add: symbol_ok_def INT_MAX_def)
  have "foldl symbol_put Map.empty ?ss = [0 \<mapsto> ''go'', 1 \<mapsto> ''run'']" by (simp add: symbol_put_def)
  moreover have "length ''x'' + length (''i0 go'' @ [lf] @ ''l1 run'' @ [lf]) + 1 = 15" by simp
  moreover have "Suc 0 = length ''x''" by simp
  note read_symbols_lines [OF ok this, of "CHR ''c''" "[lf]" Map.empty, unfolded l]
  ultimately show ?thesis by (simp only: append_Cons append_Nil append_assoc char.inject simp_thms if_True)
qed

section \<open>From a file to a well formed circuit\<close>

text \<open>
  What the translation relies on: the literals of the file stay within its variables, and
  every gate reads smaller literals than its own.
\<close>

definition lits_fit :: "Aiger \<Rightarrow> int list \<Rightarrow> bool" where
  "lits_fit a ls = (\<forall>l\<in>set ls. 0 \<le> l \<and> l < 2 * (num_inputs a + num_latches a + num_ands a) + 2)"

definition file_ok :: "Aiger \<Rightarrow> bool" where
  "file_ok a = (0 \<le> num_inputs a \<and> 0 \<le> num_latches a \<and> 0 \<le> num_ands a
     \<and> 2 * (num_inputs a + num_latches a + num_ands a) + 2 \<le> 2147483648
     \<and> lits_fit a (map al_next (Aiger_latches a)) \<and> lits_fit a (Aiger_constraints a)
     \<and> lits_fit a (Aiger_bads a) \<and> lits_fit a (Aiger_outputs a)
     \<and> (\<forall>g\<in>set (Aiger_ands a). 0 \<le> ag_i1 g \<and> ag_i1 g < ag_o g \<and> 0 \<le> ag_i2 g \<and> ag_i2 g < ag_o g))"

text \<open>The members \<^verbatim>\<open>translate_to_dimacs\<close> fills are empty before it runs.\<close>

definition untranslated :: "Aiger \<Rightarrow> bool" where
  "untranslated a = (variables a = [] \<and> ands a = [] \<and> nexts a = [] \<and> init_state a = []
     \<and> constraints a = [] \<and> constraints_prime a = [] \<and> allbad a = [] \<and> map_to_prime a = Map.empty)"

lemma load_lits_ok:
  assumes "load_lits xs n = Some ys" "\<forall>x\<in>set xs. 0 \<le> x \<and> x < 2 * k + 2" "2 * k + 2 \<le> 2147483648"
  shows "\<forall>l\<in>set ys. l \<noteq> 0 \<and> \<bar>l\<bar> < k + 2"
proof
  fix l
  assume "l \<in> set ys"
  then obtain i where i: "i < length ys" "l = ys ! i" by (metis in_set_conv_nth)
  have "length ys = length [0..n - 1]"
    "(do { x \<leftarrow> vec_at xs ([0..n - 1] ! i); Some (aiger_to_dimacs (int_of_unsigned x)) }) = Some l"
    using assms(1) i by (auto simp: load_lits_def those_Some_conv)
  then obtain x where x: "x \<in> set xs" "l = aiger_to_dimacs (int_of_unsigned x)"
    by (auto simp: bind_eq_Some_conv vec_at_Some) (metis nat_less_iff nth_mem)
  then have "0 \<le> x" "x < 2 * k + 2" "int_of_unsigned x = x" using assms(2,3) by (auto simp: int_of_unsigned_def)
  then show "l \<noteq> 0 \<and> \<bar>l\<bar> < k + 2" using x(2) aiger_to_dimacs_nonzero aiger_to_dimacs_abs by simp
qed

lemma upto_nth: "i < length [1..n] \<Longrightarrow> [1..n] ! i = int i + 1"
  by (simp add: nth_upto)

lemma those_upto:
  assumes "those (map f [1..n]) = Some ys" "k < length ys"
  shows "f (int k + 1) = Some (ys ! k)"
proof -
  have "k < length [1..n]" "f ([1..n] ! k) = Some (ys ! k)" using assms unfolding those_Some_conv by simp_all
  then show ?thesis by (simp only: upto_nth)
qed

lemma load_ands_ok:
  assumes "load_ands a = Some va" "file_ok a"
  shows "int (length va) = num_ands a" "wf_ands (first_and a) (map snd va)"
proof -
  let ?xs = "[1..num_ands a]"
  have l: "length va = length ?xs" using assms(1) by (simp add: load_ands_def those_Some_conv)
  then show "int (length va) = num_ands a" using assms(2) by (simp add: file_ok_def)
  have "out (map snd va ! k) = first_and a + int k
      \<and> i1 (map snd va ! k) \<noteq> 0 \<and> \<bar>i1 (map snd va ! k)\<bar> < out (map snd va ! k)
      \<and> i2 (map snd va ! k) \<noteq> 0 \<and> \<bar>i2 (map snd va ! k)\<bar> < out (map snd va ! k)" if k: "k < length va" for k
  proof -
    let ?i = "int k + 1"
    have "(do { x \<leftarrow> vec_at (Aiger_ands a) (?i - 1);
       if 2 * (num_inputs a + num_latches a + ?i) = ag_o x
       then let o' = 1 + num_inputs a + num_latches a + ?i
         in Some (Variable_named o' (CHR ''a'') (?i - 1) False,
                  mkAnd o' (aiger_to_dimacs (int_of_unsigned (ag_i1 x)))
                           (aiger_to_dimacs (int_of_unsigned (ag_i2 x))))
       else None }) = Some (va ! k)"
      using those_upto [OF assms(1) [unfolded load_ands_def] k] .
    then obtain x where x: "x \<in> set (Aiger_ands a)" "2 * (num_inputs a + num_latches a + ?i) = ag_o x"
      "snd (va ! k) = mkAnd (1 + num_inputs a + num_latches a + ?i)
         (aiger_to_dimacs (int_of_unsigned (ag_i1 x))) (aiger_to_dimacs (int_of_unsigned (ag_i2 x)))"
      by (cases "va ! k") (auto simp: bind_eq_Some_conv vec_at_Some Let_def split: if_splits intro: nth_mem)
    have b: "0 \<le> ag_i1 x" "ag_i1 x < ag_o x" "0 \<le> ag_i2 x" "ag_i2 x < ag_o x"
      using assms(2) x(1) by (auto simp: file_ok_def)
    have "ag_o x < 2147483648" using x(2) k l assms(2) by (auto simp: file_ok_def)
    then have "int_of_unsigned (ag_i1 x) = ag_i1 x" "int_of_unsigned (ag_i2 x) = ag_i2 x"
      using b by (auto simp: int_of_unsigned_def)
    moreover have "y div 2 < num_inputs a + num_latches a + ?i" if "y < ag_o x" for y
      using that x(2) by presburger
    note this [OF b(2)] this [OF b(4)]
    ultimately show ?thesis
      using x(2,3) k b aiger_to_dimacs_nonzero [of "ag_i1 x"] aiger_to_dimacs_nonzero [of "ag_i2 x"]
        aiger_to_dimacs_abs [of "ag_i1 x"] aiger_to_dimacs_abs [of "ag_i2 x"] by simp
  qed
  then show "wf_ands (first_and a) (map snd va)" unfolding wf_ands_def length_map by blast
qed

lemma load_nexts_ok:
  assumes "load_nexts a = Some nx" "file_ok a"
  shows "int (length nx) = num_latches a"
    "\<forall>l\<in>set (map fst nx). l \<noteq> 0 \<and> \<bar>l\<bar> < num_inputs a + num_latches a + num_ands a + 2"
    "\<forall>l\<in>set (concat (map snd nx)). is_latch a \<bar>l\<bar>"
proof -
  let ?xs = "[1..num_latches a]" and ?n = "num_inputs a + num_latches a + num_ands a"
  have len: "length nx = length ?xs" using assms(1) by (simp add: load_nexts_def those_Some_conv)
  then show "int (length nx) = num_latches a" using assms(2) by (simp add: file_ok_def)
  have "fst (nx ! k) \<noteq> 0 \<and> \<bar>fst (nx ! k)\<bar> < ?n + 2 \<and> (\<forall>l\<in>set (snd (nx ! k)). is_latch a \<bar>l\<bar>)"
    if k: "k < length nx" for k
  proof -
    let ?i = "int k + 1"
    have "(do { al \<leftarrow> vec_at (Aiger_latches a) (?i - 1);
       let l = 1 + num_inputs a + ?i in
       if (l - 1) * 2 = al_l al
       then Some (aiger_to_dimacs (int_of_unsigned (al_next al)),
                  (if al_default_val al = 0 then [- l]
                   else if al_default_val al = 1 then [l] else []))
       else None }) = Some (nx ! k)"
      using those_upto [OF assms(1) [unfolded load_nexts_def] k] .
    then obtain al where al: "al \<in> set (Aiger_latches a)"
      "fst (nx ! k) = aiger_to_dimacs (int_of_unsigned (al_next al))"
      "set (snd (nx ! k)) \<subseteq> {num_inputs a + int k + 2, - (num_inputs a + int k + 2)}"
      by (cases "nx ! k") (auto simp: bind_eq_Some_conv vec_at_Some Let_def split: if_splits intro: nth_mem)
    have b: "0 \<le> al_next al" "al_next al < 2 * ?n + 2"
      using assms(2) al(1) by (auto simp: file_ok_def lits_fit_def)
    then have "int_of_unsigned (al_next al) = al_next al" using assms(2) by (auto simp: int_of_unsigned_def file_ok_def)
    moreover have "is_latch a \<bar>l\<bar>" if "l \<in> set (snd (nx ! k))" for l
      using al(3) that k len assms(2) by (auto simp: is_latch_def file_ok_def)
    ultimately show ?thesis
      using al(2) b aiger_to_dimacs_nonzero [of "al_next al"] aiger_to_dimacs_abs [of "al_next al"] by auto
  qed
  then have "fst x \<noteq> 0 \<and> \<bar>fst x\<bar> < ?n + 2 \<and> (\<forall>l\<in>set (snd x). is_latch a \<bar>l\<bar>)" if "x \<in> set nx" for x
    using that by (metis in_set_conv_nth)
  then show "\<forall>l\<in>set (map fst nx). l \<noteq> 0 \<and> \<bar>l\<bar> < ?n + 2" "\<forall>l\<in>set (concat (map snd nx)). is_latch a \<bar>l\<bar>"
    by auto
qed

lemma load_bad_ok:
  assumes "load_bad xs n a = Some a'" "allbad a = []" "\<forall>x\<in>set xs. 0 \<le> x \<and> x < 2 * k + 2" "2 * k + 2 \<le> 2147483648"
  shows "\<exists>p b bs. a' = a\<lparr>propertyIndex := p, allbad := bs, bad := b, num_property := n\<rparr>
    \<and> b \<in> set bs \<and> (\<forall>l\<in>set bs. l \<noteq> 0 \<and> \<bar>l\<bar> < k + 2)"
proof -
  let ?p = "if n \<le> propertyIndex a then 0 else propertyIndex a"
  obtain bs b where b: "load_lits xs n = Some bs" "vec_at bs ?p = Some b"
    "a' = a\<lparr>propertyIndex := ?p, allbad := bs, bad := b, num_property := n\<rparr>"
    using assms(1,2) by (auto simp: load_bad_def bind_eq_Some_conv Let_def)
  have "b \<in> set bs" using b(2) by (auto simp: vec_at_Some nat_less_iff split: if_splits intro!: nth_mem)
  then show ?thesis using load_lits_ok [OF b(1) assms(3,4)] b(3) by blast
qed

lemma load_vars_length:
  assumes "file_ok a"
  shows "load_inputs a = Some vi \<Longrightarrow> int (length vi) = num_inputs a"
    "load_latches a = Some vl \<Longrightarrow> int (length vl) = num_latches a"
  using assms by (auto simp: load_inputs_def load_latches_def those_Some_conv file_ok_def)

lemma translate_loaded:
  assumes a: "file_ok a" "untranslated a" and t: "translate_to_dimacs a = Some C"
  shows "loaded C \<and> bad C \<in> set (allbad C)"
proof -
  let ?n = "num_inputs a + num_latches a + num_ands a"
  obtain vi vl va nx cs where v: "load_inputs a = Some vi" "load_latches a = Some vl" "load_ands a = Some va"
    "load_nexts a = Some nx" "load_lits (Aiger_constraints a) (num_constraints a) = Some cs"
    using t by (auto simp: translate_to_dimacs_def bind_eq_Some_conv)
  let ?vs = "[\<lparr>dimacs_var = 0, vname = ''NULL''\<rparr>, \<lparr>dimacs_var = 1, vname = ''False''\<rparr>] @ vi @ vl @ map fst va"
  let ?a = "a\<lparr>variables := ?vs, ands := map snd va, nexts := map fst nx, init_state := concat (map snd nx),
    constraints := cs\<rparr>"
  have u: "variables a = []" "ands a = []" "nexts a = []" "init_state a = []" "constraints a = []"
    "constraints_prime a = []" "allbad a = []" "map_to_prime a = Map.empty"
    using a(2) by (simp_all add: untranslated_def)
  obtain xs n a2 where b: "load_bad xs n ?a = Some a2" "\<forall>x\<in>set xs. 0 \<le> x \<and> x < 2 * ?n + 2"
    "C = a2\<lparr>primed_first_dimacs := int (length (variables a2))\<rparr>"
    using t a(1) v u by (auto simp: translate_to_dimacs_def bind_eq_Some_conv Let_def file_ok_def lits_fit_def
        split: if_splits)
  have k: "2 * ?n + 2 \<le> 2147483648" using a(1) by (simp add: file_ok_def)
  obtain p bd bs where a2: "a2 = ?a\<lparr>propertyIndex := p, allbad := bs, bad := bd, num_property := n\<rparr>"
    "bd \<in> set bs" "\<forall>l\<in>set bs. l \<noteq> 0 \<and> \<bar>l\<bar> < ?n + 2"
    using load_bad_ok [OF b(1) _ b(2) k] u by auto
  have cs: "\<forall>l\<in>set cs. l \<noteq> 0 \<and> \<bar>l\<bar> < ?n + 2"
    using load_lits_ok [OF v(5) _ k] a(1) by (simp add: file_ok_def lits_fit_def)
  note va = load_ands_ok [OF v(3) a(1)] and nx = load_nexts_ok [OF v(4) a(1)]
  have "int (length ?vs) = ?n + 2" using load_vars_length [OF a(1)] v va(1) by simp
  moreover have "lit_in C l" if "l \<noteq> 0 \<and> \<bar>l\<bar> < ?n + 2" for l
    using that va(1) by (simp add: lit_in_def b(3) a2(1))
  ultimately show ?thesis
    using va nx cs a2(2,3) a(1) u by (auto simp: loaded_def wf_aig_def b(3) a2(1) file_ok_def is_latch_def)
qed

lemma load_untranslated:
  assumes "load_aiger_from_file file pi w c fb lg = Some a"
  shows "untranslated a"
proof -
  have h: "untranslated a'" if "read_header buf a0 = Some (b, a', p)" "untranslated a0" for buf a0 b a' p
    using that by (auto simp: read_header_def bind_eq_Some_conv untranslated_def split: if_splits)
  show ?thesis
    using assms by (auto simp: load_aiger_from_file_def bind_eq_Some_conv Let_def dest!: h)
      (auto simp: untranslated_def Aiger_new_def)
qed

definition toggle_file :: string where
  "toggle_file = ''aag 1 0 1 0 0 1'' @ [lf] @ ''2 3'' @ [lf] @ ''2'' @ [lf]"

lemma toggle_load:
  "map_option (\<lambda>a. (num_latches a, Aiger_latches a, Aiger_bads a, file_ok a)) (load_aiger_from_file toggle_file 0 True False False False)
   = Some (1, [\<lparr>al_l = 2, al_next = 3, al_default_val = 0\<rparr>], [2], True)"
  by code_simp

lemma toggle_translate: "\<exists>a C. load_aiger_from_file toggle_file 0 True False False False = Some a \<and> file_ok a
  \<and> translate_to_dimacs a = Some C"
proof -
  have "Option.bind (load_aiger_from_file toggle_file 0 True False False False) translate_to_dimacs \<noteq> None"
    by code_simp
  then show ?thesis using toggle_load by (auto simp: bind_eq_Some_conv)
qed

end
