(* ===== verification/BMC.thy ===== *)
theory BMC
  imports PDR_Encode
begin

text \<open>
  \<^verbatim>\<open>src/BMC.hpp\<close> and \<^verbatim>\<open>src/BMC.cpp\<close>: bounded model checking. The circuit is unfolded frame by
  frame into a second circuit (\<^verbatim>\<open>UnfoldAiger\<close>) whose nodes are shared between frames:
  \<^verbatim>\<open>Aig_And\<close> simplifies a gate, the hash table finds an equal one. After each frame the cone of
  the bad literal and the constraints goes to the SAT solver. \<open>None\<close> is a failed \<^verbatim>\<open>assert\<close> or
  an access outside a vector.
\<close>

section \<open>The unfolded circuit\<close>

record Node =
  node_type :: int
  fathers :: int
  child1 :: int
  child2 :: int
  activate :: bool

definition mkNode :: "int \<Rightarrow> int \<Rightarrow> int \<Rightarrow> int \<Rightarrow> Node" where
  "mkNode t f c1 c2 = \<lparr>node_type = t, fathers = f, child1 = c1, child2 = c2, activate = True\<rparr>"

text \<open>
  The hash table is a vector of vectors; here a function from the index with its current
  size, outside of which an access is undefined.
\<close>

record UnfoldAiger =
  u_inputs :: "int list"
  u_outputs :: "int list"
  u_constraints :: "int list"
  u_init :: "int list"
  u_ands :: "And list"
  nodes :: "Node list"
  hash_table :: "int \<Rightarrow> And list"
  hash_size :: int

definition UnfoldAiger_new :: UnfoldAiger where
  "UnfoldAiger_new = \<lparr>u_inputs = [], u_outputs = [], u_constraints = [], u_init = [], u_ands = [],
     nodes = [], hash_table = (\<lambda>_. []), hash_size = 0\<rparr>"

definition asize :: "UnfoldAiger \<Rightarrow> int" where
  "asize u = int (length (u_ands u))"

definition isize :: "UnfoldAiger \<Rightarrow> int" where
  "isize u = int (length (u_inputs u))"

definition osize :: "UnfoldAiger \<Rightarrow> int" where
  "osize u = int (length (u_outputs u))"

definition nsize :: "UnfoldAiger \<Rightarrow> int" where
  "nsize u = int (length (nodes u))"

definition push_node :: "Node \<Rightarrow> UnfoldAiger \<Rightarrow> UnfoldAiger" where
  "push_node n u = u\<lparr>nodes := nodes u @ [n]\<rparr>"

definition upd_node :: "int \<Rightarrow> (Node \<Rightarrow> Node) \<Rightarrow> Node list \<Rightarrow> Node list option" where
  "upd_node i f ns = do { n \<leftarrow> vec_at ns i; Some (ns[nat i := f n]) }"

definition more_fathers :: "int \<Rightarrow> int \<Rightarrow> Node list \<Rightarrow> Node list option" where
  "more_fathers d i ns = upd_node i (\<lambda>n. n\<lparr>fathers := fathers n + d\<rparr>) ns"

text \<open>\<^verbatim>\<open>CleanupFrame\<close>: gates without father are switched off, from the last to the first.\<close>

definition cleanup_node :: "int \<Rightarrow> Node list \<Rightarrow> Node list option" where
  "cleanup_node i ns = do {
     n \<leftarrow> vec_at ns i;
     if fathers n = 0 \<and> node_type n = 3 then do {
       ns1 \<leftarrow> upd_node i (\<lambda>n. n\<lparr>activate := False\<rparr>) ns;
       ns2 \<leftarrow> more_fathers (- 1) \<bar>child1 n\<bar> ns1;
       more_fathers (- 1) \<bar>child2 n\<bar> ns2
     }
     else Some ns
   }"

definition CleanupFrame :: "UnfoldAiger \<Rightarrow> UnfoldAiger option" where
  "CleanupFrame u = do {
     ns \<leftarrow> fold_opt cleanup_node (rev [0..nsize u - 1]) (nodes u);
     Some (u\<lparr>nodes := ns,
       u_ands := map (\<lambda>i. mkAnd (int i) (child1 (ns ! i)) (child2 (ns ! i)))
         (filter (\<lambda>i. node_type (ns ! i) = 3 \<and> activate (ns ! i)) [0..<length ns])\<rparr>)
   }"

section \<open>The object\<close>

text \<open>
  The vectors \<^verbatim>\<open>hash_table\<close> and \<^verbatim>\<open>lit_has_insert\<close> are created with 99999999 entries. Where a
  member has the name of a member of \<^verbatim>\<open>PDR\<close> it is prefixed.
\<close>

record BMC =
  b_aiger :: Aiger
  uaiger :: UnfoldAiger
  nframes :: int
  max_nodes :: int
  vals :: "int list"
  bmcSolver :: CaDiCaL
  bmc_frame_k :: int
  max_index_of_ands_added_to_solver :: int
  lit_has_insert :: "int \<Rightarrow> bool"
  insert_size :: int
  b_thread_index :: int
  max_thread_index :: int
  b_RESULT :: int
  b_polls :: nat
  b_cout :: string

definition BMC_new :: "Aiger \<Rightarrow> int \<Rightarrow> int \<Rightarrow> int \<Rightarrow> BMC" where
  "BMC_new a nf index mx =
     \<lparr>b_aiger = a, uaiger = UnfoldAiger_new, nframes = nf, max_nodes = INT_MAX, vals = [],
      bmcSolver = CaDiCaL_new, bmc_frame_k = 0, max_index_of_ands_added_to_solver = 0,
      lit_has_insert = (\<lambda>_. False), insert_size = 0, b_thread_index = index,
      max_thread_index = mx, b_RESULT = 0, b_polls = 0, b_cout = []\<rparr>"

definition b_read_RESULT :: "env \<Rightarrow> BMC \<Rightarrow> int \<times> BMC" where
  "b_read_RESULT e b =
     (let r = (if b_RESULT b \<noteq> 0 then b_RESULT b else other_threads e (b_polls b))
      in (r, b\<lparr>b_RESULT := r, b_polls := Suc (b_polls b)\<rparr>))"

text \<open>The macro \<^verbatim>\<open>value\<close>: from a literal of the circuit to a literal of the unfolding.\<close>

definition val_of :: "int list \<Rightarrow> int \<Rightarrow> int option" where
  "val_of vs rc = (if 0 < rc then vec_at vs rc else map_option uminus (vec_at vs (- rc)))"

text \<open>\<^verbatim>\<open>values[i] = x\<close>.\<close>

definition vec_set :: "'a list \<Rightarrow> int \<Rightarrow> 'a \<Rightarrow> 'a list option" where
  "vec_set xs i x = (if 0 \<le> i \<and> i < int (length xs) then Some (xs[nat i := x]) else None)"

text \<open>The two literals below a literal: the inputs of its gate, or itself and true.\<close>

definition fans :: "Aiger \<Rightarrow> int \<Rightarrow> (int \<times> int) option" where
  "fans a p = (let first = num_inputs a + num_latches a + 2 in
     if first \<le> \<bar>p\<bar> then do { g \<leftarrow> vec_at (ands a) (\<bar>p\<bar> - first); Some (i1 g, i2 g) }
     else Some (\<bar>p\<bar>, - 1))"

text \<open>
  \<^verbatim>\<open>Aig_And\<close>: the conjunction of two literals when it needs no new gate, 0 otherwise. Its body
  either returns a literal of the unfolding or calls itself on two other literals; the first
  argument of the recursion bounds its depth.
\<close>

datatype and_case = Done int | Again int int

definition grand_cases ::
  "int \<Rightarrow> int \<Rightarrow> int \<Rightarrow> int \<Rightarrow> int \<times> int \<Rightarrow> int \<times> int \<Rightarrow> int \<times> int \<Rightarrow> int \<times> int \<Rightarrow> and_case" where
  "grand_cases p0 p1 v0 v1 fa fb fc fd =
     (case fa of (pfana, va) \<Rightarrow> case fb of (pfanb, vb) \<Rightarrow> case fc of (pfanc, vc) \<Rightarrow> case fd of (pfand, vd) \<Rightarrow>
      if p0 < 0 \<and> (va = - v1 \<or> vb = - v1) then Done v1
      else if p0 < 0 \<and> vb = v1 then Again (- pfana) pfanb
      else if p0 < 0 \<and> va = v1 then Again (- pfanb) pfana
      else if 0 < p0 \<and> (va = - v1 \<or> vb = - v1) then Done 1
      else if 0 < p0 \<and> (va = v1 \<or> vb = v1) then Done v0
      else if p1 < 0 \<and> (vc = - v0 \<or> vd = - v0) then Done v0
      else if p1 < 0 \<and> vd = v0 then Again (- pfanc) pfand
      else if p1 < 0 \<and> vc = v0 then Again (- pfand) pfanc
      else if 0 < p1 \<and> (vc = - v0 \<or> vd = - v0) then Done 1
      else if 0 < p1 \<and> (vc = v0 \<or> vd = v0) then Done v1
      else Done 0)"

definition Aig_And_body :: "Aiger \<Rightarrow> int list \<Rightarrow> int \<Rightarrow> int \<Rightarrow> and_case option" where
  "Aig_And_body a vs p0 p1 = do {
     let first = num_inputs a + num_latches a + 2;
     v0 \<leftarrow> val_of vs p0;
     v1 \<leftarrow> val_of vs p1;
     if v0 = v1 then Some (Done v0)
     else if v0 = - v1 then Some (Done 1)
     else if \<bar>v0\<bar> = 1 then Some (Done (if v0 = - 1 then v1 else 1))
     else if \<bar>v1\<bar> = 1 then Some (Done (if v1 = - 1 then v0 else 1))
     else do {
       (pfana, pfanb) \<leftarrow> fans a p0;
       va \<leftarrow> val_of vs pfana;
       vb \<leftarrow> val_of vs pfanb;
       (pfanc, pfand) \<leftarrow> fans a p1;
       vc \<leftarrow> val_of vs pfanc;
       vd \<leftarrow> val_of vs pfand;
       Some (if first \<le> \<bar>p0\<bar> \<or> first \<le> \<bar>p1\<bar>
             then grand_cases p0 p1 v0 v1 (pfana, va) (pfanb, vb) (pfanc, vc) (pfand, vd)
             else Done 0)
     }
   }"

fun Aig_And :: "nat \<Rightarrow> Aiger \<Rightarrow> int list \<Rightarrow> int \<Rightarrow> int \<Rightarrow> int option" where
  "Aig_And 0 a vs p0 p1 = None"
| "Aig_And (Suc n) a vs p0 p1 =
     (case Aig_And_body a vs p0 p1 of
        None \<Rightarrow> None
      | Some (Done v) \<Rightarrow> Some v
      | Some (Again q0 q1) \<Rightarrow> Aig_And n a vs q0 q1)"

section \<open>BMC::unfold\<close>

definition unfold_input :: "int \<Rightarrow> BMC \<Rightarrow> BMC option" where
  "unfold_input i b = do {
     let u = push_node (mkNode 2 0 0 0) (uaiger b);
     vs \<leftarrow> vec_set (vals b) (i + 2) (nsize u - 1);
     Some (b\<lparr>uaiger := u\<lparr>u_inputs := u_inputs u @ [nsize u - 1]\<rparr>, vals := vs\<rparr>)
   }"

text \<open>The last gate with these children in the list, 0 if there is none.\<close>

definition hash_find :: "int \<Rightarrow> int \<Rightarrow> And list \<Rightarrow> int" where
  "hash_find x1 x2 gs = fold (\<lambda>g r.
     if i1 g = x1 \<and> i2 g = x2 then out g
     else if i2 g = x1 \<and> i1 g = x2 then out g else r) gs 0"

definition new_gate :: "int \<Rightarrow> int \<Rightarrow> UnfoldAiger \<Rightarrow> (int \<times> UnfoldAiger) option" where
  "new_gate x1 x2 u = do {
     let u1 = push_node (mkNode 3 0 x1 x2) u;
     ns1 \<leftarrow> more_fathers 1 \<bar>x1\<bar> (nodes u1);
     ns2 \<leftarrow> more_fathers 1 \<bar>x2\<bar> ns1;
     let o' = nsize u1 - 1;
     let g = mkAnd o' x1 x2;
     if \<bar>x1\<bar> < hash_size u \<and> \<bar>x2\<bar> < hash_size u then
       let h1 = (hash_table u)(\<bar>x1\<bar> := hash_table u \<bar>x1\<bar> @ [g]) in
       Some (o', u1\<lparr>nodes := ns2, u_ands := u_ands u @ [g],
                     hash_table := h1(\<bar>x2\<bar> := h1 \<bar>x2\<bar> @ [g])\<rparr>)
     else None
   }"

definition unfold_and :: "int \<Rightarrow> BMC \<Rightarrow> BMC option" where
  "unfold_and i b = do {
     let a = b_aiger b;
     g \<leftarrow> vec_at (ands a) i;
     if out g \<noteq> i + num_inputs a + num_latches a + 2 then None
     else do {
       vs0 \<leftarrow> vec_set (vals b) (out g) 0;
       v \<leftarrow> Aig_And (Suc (length vs0)) a vs0 (i1 g) (i2 g);
       if v \<noteq> 0 then do {
         vs \<leftarrow> vec_set vs0 (out g) v;
         Some (b\<lparr>vals := vs\<rparr>)
       }
       else do {
         x1 \<leftarrow> val_of vs0 (i1 g);
         x2 \<leftarrow> val_of vs0 (i2 g);
         let u = uaiger b;
         if hash_size u \<le> \<bar>x1\<bar> then None
         else do {
           let h = hash_find x1 x2 (hash_table u \<bar>x1\<bar>);
           if h \<noteq> 0 then do {
             vs \<leftarrow> vec_set vs0 (out g) h;
             Some (b\<lparr>vals := vs\<rparr>)
           }
           else do {
             (o', u') \<leftarrow> new_gate x1 x2 u;
             vs \<leftarrow> vec_set vs0 (out g) o';
             Some (b\<lparr>uaiger := u', vals := vs\<rparr>)
           }
         }
       }
     }
   }"

text \<open>The bad literal of this object: its own property with \<^verbatim>\<open>-findbug\<close>, else the chosen one.\<close>

definition bmc_bad :: "BMC \<Rightarrow> int option" where
  "bmc_bad b = (let a = b_aiger b in
     vec_at (allbad a) (if find_bug_only a then b_thread_index b else propertyIndex a))"

definition unfold_latches :: "BMC \<Rightarrow> BMC option" where
  "unfold_latches b = do {
     let a = b_aiger b;
     if 999999 < num_latches a then None
     else do {
       tmp \<leftarrow> those (map (\<lambda>i. do { nx \<leftarrow> vec_at (nexts a) i; val_of (vals b) nx }) [0..num_latches a - 1]);
       vs \<leftarrow> fold_opt (\<lambda>(i, x) vs. vec_set vs (i + num_inputs a + 2) x)
              (zip [0..num_latches a - 1] tmp) (vals b);
       Some (b\<lparr>vals := vs\<rparr>)
     }
   }"

definition unfold :: "BMC \<Rightarrow> BMC option" where
  "unfold b = do {
     let a = b_aiger b;
     b1 \<leftarrow> fold_opt unfold_input [0..num_inputs a - 1] b;
     b2 \<leftarrow> fold_opt unfold_and [0..num_ands a - 1] b1;
     cs \<leftarrow> those (map (val_of (vals b2)) (constraints a));
     bd \<leftarrow> bmc_bad b2;
     newbad \<leftarrow> val_of (vals b2) bd;
     ns \<leftarrow> more_fathers 1 \<bar>newbad\<bar> (nodes (uaiger b2));
     let u = uaiger b2;
     unfold_latches (b2\<lparr>uaiger := u\<lparr>u_constraints := u_constraints u @ cs,
       u_outputs := u_outputs u @ [newbad], nodes := ns\<rparr>\<rparr>)
   }"

section \<open>BMC::initialize\<close>

text \<open>\<^verbatim>\<open>BMC::encode_init_condition\<close>, for the only call, in which the argument is \<^verbatim>\<open>bmcSolver\<close> itself.\<close>

definition BMC_encode_init_condition :: "Aiger \<Rightarrow> CaDiCaL \<Rightarrow> CaDiCaL" where
  "BMC_encode_init_condition a s =
     add_cnf (concat (map gate_clauses (coi (rev (ands a)) (abs ` set (constraints a)))))
       (add_cnf (map (\<lambda>l. [l]) (constraints a))
         (add_cnf (map (\<lambda>l. [l]) (init_state a)) (add_clause [- 1] s)))"

definition init_value :: "int \<Rightarrow> int list \<Rightarrow> int list option" where
  "init_value l vs =
     (if 0 < l then vec_set vs l (- 1) else if l < 0 then vec_set vs (- l) 1 else Some vs)"

definition init_latch :: "int \<Rightarrow> BMC \<Rightarrow> BMC option" where
  "init_latch i b = do {
     let u = push_node (mkNode 2 0 0 0) (uaiger b);
     let v = i + num_inputs (b_aiger b) + 2;
     x \<leftarrow> vec_at (vals b) v;
     vs \<leftarrow> (if x = 0 then vec_set (vals b) v (nsize u - 1) else Some (vals b));
     Some (b\<lparr>uaiger := u, vals := vs\<rparr>)
   }"

definition bmc_initialize :: "BMC \<Rightarrow> BMC option" where
  "bmc_initialize b = do {
     let a = b_aiger b;
     let dropped = BMC_encode_init_condition a CaDiCaL_new;
     let u = push_node (mkNode 1 0 0 0) (push_node (mkNode 0 0 0 0)
               (UnfoldAiger_new\<lparr>hash_size := 99999999\<rparr>));
     vs1 \<leftarrow> vec_set (replicate (length (variables a)) 0) 1 1;
     vs2 \<leftarrow> fold_opt init_value (init_state a) vs1;
     fold_opt init_latch [0..num_latches a - 1]
       (b\<lparr>uaiger := u, vals := vs2, bmcSolver := add_clause [- 1] CaDiCaL_new,
          lit_has_insert := (\<lambda>_. False), insert_size := 99999999, bmc_frame_k := 0\<rparr>)
   }"

section \<open>BMC::solve\_one\_frame\<close>

text \<open>One step of the loop over the gates, downwards: the cone of influence of \<open>S\<close>.\<close>

definition coi_gate ::
  "int \<times> And \<Rightarrow> int set \<times> (int \<Rightarrow> bool) \<times> CaDiCaL \<Rightarrow> int set \<times> (int \<Rightarrow> bool) \<times> CaDiCaL" where
  "coi_gate ig st = (case ig of (i, g) \<Rightarrow> case st of (S, ins, s) \<Rightarrow>
     if ins i \<or> out g \<notin> S then (S, ins, s)
     else ((S - {out g}) \<union> {\<bar>i1 g\<bar>, \<bar>i2 g\<bar>}, ins(i := True), add_cnf (gate_clauses g) s))"

definition add_frame_clauses :: "BMC \<Rightarrow> BMC option" where
  "add_frame_clauses b = do {
     let u = uaiger b;
     let n = length (constraints (b_aiger b));
     bad' \<leftarrow> vec_at (u_outputs u) (osize u - 1);
     let cs = drop (length (u_constraints u) - n) (u_constraints u);
     let s1 = add_cnf (map (\<lambda>l. [l]) cs) (bmcSolver b);
     let isz = max (insert_size b) (asize u);
     let hsz = max (hash_size u) (nsize u + num_ands (b_aiger b) * 3);
     let (S, ins, s2) = fold coi_gate (rev (zip [0..asize u - 1] (u_ands u)))
           ({\<bar>bad'\<bar>} \<union> abs ` set cs, lit_has_insert b, s1);
     Some (b\<lparr>uaiger := u\<lparr>hash_size := hsz\<rparr>, bmcSolver := s2, lit_has_insert := ins, insert_size := isz,
             max_index_of_ands_added_to_solver := asize u - 1\<rparr>)
   }"

definition frame_log :: "BMC \<Rightarrow> int \<Rightarrow> int \<Rightarrow> string" where
  "frame_log b bad' res =
     (if moreinfo_for_bmc (b_aiger b)
      then ''frames = '' @ show_int (bmc_frame_k b) @ '', bad = '' @ show_int bad'
           @ '', res = '' @ show_int res @ newline else [])"

definition solve_one_frame :: "env \<Rightarrow> BMC \<Rightarrow> (int \<times> BMC) option" where
  "solve_one_frame e b = do {
     b1 \<leftarrow> add_frame_clauses b;
     bad' \<leftarrow> vec_at (u_outputs (uaiger b1)) (osize (uaiger b1) - 1);
     if max_thread_index b1 = 0 then None
     else if max_thread_index b1 \<noteq> 1 \<and> bmc_frame_k b1 mod max_thread_index b1 \<noteq> b_thread_index b1
     then Some (20, b1\<lparr>bmcSolver := add_clause [- bad'] (bmcSolver b1)\<rparr>)
     else do {
       let (result, s) = CaDiCaL_solve e (CaDiCaL_assume bad' (bmcSolver b1));
       if result = 20 then
         Some (20, b1\<lparr>bmcSolver := add_clause [- bad'] s, b_cout := b_cout b1 @ frame_log b1 bad' result\<rparr>)
       else if result = 10 then
         Some (10, b1\<lparr>bmcSolver := s, b_cout := b_cout b1 @ frame_log b1 bad' result\<rparr>)
       else Some (0, b1\<lparr>bmcSolver := s\<rparr>)
     }
   }"

section \<open>BMC::check\<close>

text \<open>
  The witness: the initial values of the latches, then one line of inputs per frame. Node
  \<^verbatim>\<open>2 + i\<close> of the unfolding is latch i of frame 0.
\<close>

definition value_char :: "int \<Rightarrow> char" where
  "value_char v = (if v = 0 then CHR ''x'' else if v < 0 then CHR ''0'' else CHR ''1'')"

definition bmc_init_chars :: "Aiger \<Rightarrow> char list option" where
  "bmc_init_chars a = fold_opt (\<lambda>l cs. vec_set cs \<bar>l\<bar> (if 0 < l then CHR ''1'' else CHR ''0''))
     (init_state a) (replicate (nat (num_inputs a + num_latches a + 2)) (CHR ''x''))"

definition bmc_latch_char :: "Aiger \<Rightarrow> CaDiCaL \<Rightarrow> char list \<Rightarrow> int \<Rightarrow> char option" where
  "bmc_latch_char a s cs i = do {
     c \<leftarrow> vec_at cs (unprimed_first_dimacs + num_inputs a + i);
     Some (if c = CHR ''x'' then value_char (CaDiCaL_val (unprimed_first_dimacs + i) s) else c)
   }"

definition bmc_inputs_text :: "int \<Rightarrow> CaDiCaL \<Rightarrow> int list \<Rightarrow> string" where
  "bmc_inputs_text n s us = concat (map (\<lambda>(k, i).
     value_char (CaDiCaL_val i s) # (if k mod n = 0 then newline else []))
     (zip [1..int (length us)] us))"

definition bmc_witness :: "BMC \<Rightarrow> string option" where
  "bmc_witness b = do {
     let a = b_aiger b;
     cs \<leftarrow> bmc_init_chars a;
     ls \<leftarrow> those (map (bmc_latch_char a (bmcSolver b) cs) [0..num_latches a - 1]);
     Some (''1'' @ newline @ ''b0'' @ newline @ ls @ newline
       @ bmc_inputs_text (num_inputs a) (bmcSolver b) (u_inputs (uaiger b)) @ ''.'' @ newline)
   }"

definition show_statistics :: "UnfoldAiger \<Rightarrow> string" where
  "show_statistics u = ''inputs size = '' @ show_int (isize u) @ ''  ''
     @ ''ouputs size = '' @ show_int (osize u) @ ''  '' @ ''ands size = '' @ show_int (asize u) @ ''  ''
     @ ''nodes size = '' @ show_int (nsize u) @ ''  '' @ newline"

text \<open>The block under the lock: the first thread with a result reports it.\<close>

definition bmc_report :: "env \<Rightarrow> BMC \<Rightarrow> BMC option" where
  "bmc_report e b = do {
     let (r, b1) = b_read_RESULT e b;
     if r = 0 then do {
       w \<leftarrow> (if output_witness (b_aiger b1) then bmc_witness b1 else Some []);
       Some (b1\<lparr>b_RESULT := 10, b_cout := b_cout b1
         @ (if moreinfo_for_bmc (b_aiger b1)
            then show_statistics (uaiger b1) @ ''Output was asserted in frame.'' @ newline else [])
         @ w\<rparr>)
     }
     else Some b1
   }"

text \<open>Unfolding changes the unfolded circuit and the values, nothing else.\<close>

definition only_unfolded :: "BMC \<Rightarrow> BMC \<Rightarrow> bool" where
  "only_unfolded b b' =
     (b_aiger b' = b_aiger b \<and> nframes b' = nframes b \<and> max_nodes b' = max_nodes b
      \<and> bmcSolver b' = bmcSolver b \<and> bmc_frame_k b' = bmc_frame_k b
      \<and> max_index_of_ands_added_to_solver b' = max_index_of_ands_added_to_solver b
      \<and> lit_has_insert b' = lit_has_insert b \<and> insert_size b' = insert_size b
      \<and> b_thread_index b' = b_thread_index b \<and> max_thread_index b' = max_thread_index b
      \<and> b_RESULT b' = b_RESULT b \<and> b_polls b' = b_polls b \<and> b_cout b' = b_cout b)"

lemma only_unfolded_refl [simp]: "only_unfolded b b"
  by (simp add: only_unfolded_def)

lemma only_unfolded_trans: "only_unfolded a b \<Longrightarrow> only_unfolded b c \<Longrightarrow> only_unfolded a c"
  by (simp add: only_unfolded_def)

lemma only_unfolded_fold:
  assumes "fold_opt f xs b = Some b'" and "\<And>x t t'. f x t = Some t' \<Longrightarrow> only_unfolded t t'"
  shows "only_unfolded b b'"
  using assms(1) by (rule fold_opt_inv) (auto intro: only_unfolded_trans assms(2))

lemma unfold_input_only: "unfold_input i b = Some b' \<Longrightarrow> only_unfolded b b'"
  by (auto simp: unfold_input_def only_unfolded_def Let_def bind_eq_Some_conv)

lemma unfold_and_only: "unfold_and i b = Some b' \<Longrightarrow> only_unfolded b b'"
  by (auto simp: unfold_and_def only_unfolded_def Let_def bind_eq_Some_conv simp del: Aig_And.simps
      split: if_splits)

lemma unfold_latches_only: "unfold_latches b = Some b' \<Longrightarrow> only_unfolded b b'"
  by (auto simp: unfold_latches_def only_unfolded_def Let_def bind_eq_Some_conv split: if_splits)

lemma unfold_only:
  assumes "unfold b = Some b'"
  shows "only_unfolded b b'"
proof -
  obtain b1 b2 u where b: "fold_opt unfold_input [0..num_inputs (b_aiger b) - 1] b = Some b1"
      "fold_opt unfold_and [0..num_ands (b_aiger b) - 1] b1 = Some b2"
      "unfold_latches (b2\<lparr>uaiger := u\<rparr>) = Some b'"
    using assms by (auto simp: unfold_def Let_def bind_eq_Some_conv)
  have "only_unfolded b b1" by (rule only_unfolded_fold [OF b(1)]) (rule unfold_input_only)
  moreover have "only_unfolded b1 b2" by (rule only_unfolded_fold [OF b(2)]) (rule unfold_and_only)
  moreover have "only_unfolded b2 (b2\<lparr>uaiger := u\<rparr>)" by (simp add: only_unfolded_def)
  ultimately show ?thesis
    using unfold_latches_only [OF b(3)] by (blast intro: only_unfolded_trans)
qed

lemma solve_one_frame_keeps:
  assumes "solve_one_frame e b = Some (r, b')"
  shows "nframes b' = nframes b" "bmc_frame_k b' = bmc_frame_k b"
proof -
  obtain b1 where "add_frame_clauses b = Some b1"
    "nframes b' = nframes b1" "bmc_frame_k b' = bmc_frame_k b1"
    using assms by (auto simp: solve_one_frame_def Let_def bind_eq_Some_conv split: if_splits prod.splits)
  moreover obtain u s ins sz mi where "b1 = b\<lparr>uaiger := u, bmcSolver := s, lit_has_insert := ins,
      insert_size := sz, max_index_of_ands_added_to_solver := mi\<rparr>"
    using calculation(1) by (auto simp: add_frame_clauses_def Let_def bind_eq_Some_conv case_prod_beta)
  ultimately show "nframes b' = nframes b" "bmc_frame_k b' = bmc_frame_k b"
    by simp_all
qed

text \<open>One iteration of the loop: \<open>Inl\<close> when it returns.\<close>

definition bmc_step :: "env \<Rightarrow> BMC \<Rightarrow> (int \<times> BMC + BMC) option" where
  "bmc_step e b = do {
     let (r, b0) = b_read_RESULT e b;
     if r \<noteq> 0 then Some (Inl (0, b0))
     else do {
       b1 \<leftarrow> unfold b0;
       (res, b2) \<leftarrow> solve_one_frame e b1;
       if res = 10 then do { b3 \<leftarrow> bmc_report e b2; Some (Inl (10, b3)) }
       else do {
         bad' \<leftarrow> vec_at (u_outputs (uaiger b2)) (osize (uaiger b2) - 1);
         if res = 0 \<or> max_nodes b2 < \<bar>bad'\<bar> then Some (Inl (0, b2))
         else if bmc_frame_k b2 = INT_MAX then None
         else Some (Inr (b2\<lparr>bmc_frame_k := bmc_frame_k b2 + 1\<rparr>))
       }
     }
   }"

lemma bmc_step_counts:
  assumes "bmc_step e b = Some (Inr b')"
  shows "nframes b' = nframes b" "bmc_frame_k b' = bmc_frame_k b + 1"
proof -
  obtain b0 b1 b2 where b: "b0 = snd (b_read_RESULT e b)" "unfold b0 = Some b1"
    "\<exists>r. solve_one_frame e b1 = Some (r, b2)" "b' = b2\<lparr>bmc_frame_k := bmc_frame_k b2 + 1\<rparr>"
    using assms by (auto simp: bmc_step_def Let_def bind_eq_Some_conv split: if_splits prod.splits)
  show "nframes b' = nframes b" "bmc_frame_k b' = bmc_frame_k b + 1"
    using b(1,4) solve_one_frame_keeps [of e b1 _ b2] b(3) unfold_only [OF b(2)]
    by (auto simp: only_unfolded_def b_read_RESULT_def Let_def)
qed

function bmc_loop :: "env \<Rightarrow> BMC \<Rightarrow> (int \<times> BMC) option" where
  "bmc_loop e b =
     (if nframes b < bmc_frame_k b then Some (0, b)
      else case bmc_step e b of
        None \<Rightarrow> None
      | Some (Inl rb) \<Rightarrow> Some rb
      | Some (Inr b') \<Rightarrow> bmc_loop e b')"
  by auto

termination
  by (relation "measure (\<lambda>(e, b). nat (nframes b + 1 - bmc_frame_k b))") (auto simp: bmc_step_counts)

declare bmc_loop.simps [simp del]

definition bmc_check :: "env \<Rightarrow> BMC \<Rightarrow> (int \<times> BMC) option" where
  "bmc_check e b = do {
     b1 \<leftarrow> bmc_initialize b;
     bmc_loop e (b1\<lparr>bmc_frame_k := 1\<rparr>)
   }"

end
