(* ===== verification/BMC_Unfold.thy ===== *)
theory BMC_Unfold
  imports BMC
begin

text \<open>
  What the unfolding of \<^verbatim>\<open>src/BMC.cpp\<close> means. Every literal of the circuit has, in the current
  frame, a literal of the unfolded circuit; under an assignment that satisfies the unfolded
  gates these literals have the values the circuit computes. After k frames the
  assignments of the unfolded circuit are exactly the runs of the circuit of k steps.
\<close>

section \<open>Values of a frame\<close>

definition sem :: "int list \<Rightarrow> assignment \<Rightarrow> assignment" where
  "sem vs \<tau> v = lit_val \<tau> (vs ! nat v)"

definition vals_ok :: "Aiger \<Rightarrow> int \<Rightarrow> nat \<Rightarrow> int list \<Rightarrow> bool" where
  "vals_ok C N i vs = (first_and C + int (length (ands C)) \<le> int (length vs) \<and> vs ! 1 = 1 \<and> 1 < N
     \<and> i \<le> length (ands C)
     \<and> (\<forall>v. 1 \<le> v \<longrightarrow> v < first_and C + int i \<longrightarrow> vs ! nat v \<noteq> 0 \<and> \<bar>vs ! nat v\<bar> < N))"

definition sim :: "Aiger \<Rightarrow> nat \<Rightarrow> int list \<Rightarrow> assignment \<Rightarrow> bool" where
  "sim C i vs \<tau> = (\<not> \<tau> 1 \<and> (\<forall>j<i. gate_ok (sem vs \<tau>) (ands C ! j)))"

abbreviation below :: "Aiger \<Rightarrow> nat \<Rightarrow> int \<Rightarrow> bool" where
  "below C i l \<equiv> l \<noteq> 0 \<and> \<bar>l\<bar> < first_and C + int i"

text \<open>\<open>x\<close> is the literal of the unfolding for \<open>l\<close>; \<open>x\<close> and \<open>y\<close> are the literals below \<open>p\<close>.\<close>

definition lit_ok :: "int \<Rightarrow> int list \<Rightarrow> int \<Rightarrow> int \<Rightarrow> bool" where
  "lit_ok N vs l x = (x \<noteq> 0 \<and> \<bar>x\<bar> < N \<and> x = (if 0 < l then vs ! nat l else - (vs ! nat (- l)))
     \<and> (\<forall>\<tau>. lit_val \<tau> x = lit_val (sem vs \<tau>) l))"

definition fan_ok :: "Aiger \<Rightarrow> nat \<Rightarrow> int list \<Rightarrow> int \<Rightarrow> int \<Rightarrow> int \<Rightarrow> bool" where
  "fan_ok C i vs p x y = (below C i x \<and> below C i y
     \<and> (if first_and C \<le> \<bar>p\<bar> then \<bar>x\<bar> < \<bar>p\<bar> \<and> \<bar>y\<bar> < \<bar>p\<bar> else (x, y) = (\<bar>p\<bar>, - 1) \<or> (x, y) = (- 1, \<bar>p\<bar>))
     \<and> (\<forall>\<tau>. sim C i vs \<tau> \<longrightarrow>
          lit_val (sem vs \<tau>) \<bar>p\<bar> = (lit_val (sem vs \<tau>) x \<and> lit_val (sem vs \<tau>) y)))"

lemma fan_ok_swap: "fan_ok C i vs p x y \<Longrightarrow> fan_ok C i vs p y x"
  by (auto simp: fan_ok_def)

lemma val_of_ok:
  assumes "vals_ok C N i vs" and "below C i l"
  shows "\<exists>x. val_of vs l = Some x \<and> lit_ok N vs l x"
proof -
  define x where "x = (if 0 < l then vs ! nat l else - (vs ! nat (- l)))"
  have n: "vs ! nat \<bar>l\<bar> \<noteq> 0" "\<bar>vs ! nat \<bar>l\<bar>\<bar> < N" "\<bar>l\<bar> < int (length vs)"
    using assms by (auto simp: vals_ok_def)
  have "val_of vs l = Some x"
    using assms n(3) by (auto simp: val_of_def vec_at_def x_def)
  moreover have "\<bar>x\<bar> = \<bar>vs ! nat \<bar>l\<bar>\<bar>" "x \<noteq> 0"
    using n(1) assms(2) by (auto simp: x_def split: if_splits)
  moreover have "lit_val \<tau> x = lit_val (sem vs \<tau>) l" for \<tau>
    using assms(2) n(1) by (auto simp: x_def lit_val_def sem_def split: if_splits)
  ultimately show ?thesis using n(2) x_def by (simp add: lit_ok_def)
qed

lemma sem_1: "vals_ok C N i vs \<Longrightarrow> \<not> \<tau> 1 \<Longrightarrow> \<not> sem vs \<tau> 1"
  by (simp add: sem_def vals_ok_def lit_val_def)

lemma fans_ok:
  assumes "wf_aig C" "vals_ok C N i vs" "below C i p"
  shows "\<exists>x y. fans C p = Some (x, y) \<and> fan_ok C i vs p x y"
proof (cases "first_and C \<le> \<bar>p\<bar>")
  case True
  define j where "j = nat (\<bar>p\<bar> - first_and C)"
  have j: "j < i" "j < length (ands C)" "int j = \<bar>p\<bar> - first_and C"
    using True assms(2,3) by (auto simp: j_def vals_ok_def)
  have w: "out (ands C ! j) = \<bar>p\<bar>" "i1 (ands C ! j) \<noteq> 0" "\<bar>i1 (ands C ! j)\<bar> < \<bar>p\<bar>"
    "i2 (ands C ! j) \<noteq> 0" "\<bar>i2 (ands C ! j)\<bar> < \<bar>p\<bar>"
    using wf_aigD(5) [OF assms(1)] j(2,3) by (auto simp: wf_ands_def)
  have f: "fans C p = Some (i1 (ands C ! j), i2 (ands C ! j))"
    using True j(2) by (simp add: fans_def vec_at_def j_def Let_def nat_less_iff)
  have "gate_ok (sem vs \<tau>) (ands C ! j)" if "sim C i vs \<tau>" for \<tau>
    using that j(1) by (simp add: sim_def)
  then have "fan_ok C i vs p (i1 (ands C ! j)) (i2 (ands C ! j))"
    using w True assms(3) by (auto simp: fan_ok_def gate_ok_def lit_val_pos)
  then show ?thesis using f by blast
next
  case False
  have "lit_val (sem vs \<tau>) (- 1)" if "sim C i vs \<tau>" for \<tau>
    using sem_1 [OF assms(2)] that by (simp add: sim_def lit_val_def)
  moreover have "0 \<le> num_inputs C" "0 \<le> num_latches C" using wf_aigD [OF assms(1)] by auto
  ultimately show ?thesis using False assms(3) by (auto simp: fans_def fan_ok_def)
qed

text \<open>The cases, for \<open>p0\<close> and for \<open>p1\<close>, without the order in which they are tried.\<close>

lemma if_eq_or: "((if P then x else y) = r) = (P \<and> r = x \<or> \<not> P \<and> y = r)"
  by auto

definition grand :: "int \<Rightarrow> int \<Rightarrow> int \<Rightarrow> int \<Rightarrow> int \<Rightarrow> int \<Rightarrow> int \<Rightarrow> and_case \<Rightarrow> bool" where
  "grand p v w x vx y vy r =
     (p < 0 \<and> vx = - w \<and> r = Done w \<or> p < 0 \<and> vy = w \<and> r = Again (- x) y
      \<or> 0 < p \<and> vx = - w \<and> r = Done 1 \<or> 0 < p \<and> vx = w \<and> r = Done v)"

lemma grand_cases_cases:
  assumes "grand_cases p0 p1 v0 v1 (pa, va) (pb, vb) (pc, vc) (pd, vd) = r"
  shows "r = Done 0 \<or> grand p0 v0 v1 pa va pb vb r \<or> grand p0 v0 v1 pb vb pa va r
    \<or> grand p1 v1 v0 pc vc pd vd r \<or> grand p1 v1 v0 pd vd pc vc r"
  using assms unfolding grand_cases_def prod.case if_eq_or grand_def by (elim disjE conjE) simp_all

lemma grand_sem:
  assumes "p \<noteq> 0" "w \<noteq> 0" "x \<noteq> 0" "lit_val \<tau> v = lit_val \<sigma> p" "lit_val \<tau> w = lit_val \<sigma> q"
    "lit_val \<tau> vx = lit_val \<sigma> x" "lit_val \<tau> vy = lit_val \<sigma> y"
    "lit_val \<sigma> \<bar>p\<bar> = (lit_val \<sigma> x \<and> lit_val \<sigma> y)" "\<not> \<tau> 1"
    and r: "grand p v w x vx y vy r"
  shows "case r of Done z \<Rightarrow> lit_val \<tau> z = (lit_val \<sigma> p \<and> lit_val \<sigma> q)
     | Again z z' \<Rightarrow> (lit_val \<sigma> z \<and> lit_val \<sigma> z') = (lit_val \<sigma> p \<and> lit_val \<sigma> q)"
proof -
  have n: "lit_val \<tau> (- w) = (\<not> lit_val \<tau> w)" "lit_val \<sigma> (- x) = (\<not> lit_val \<sigma> x)" "\<not> lit_val \<tau> 1"
    using assms(2,3,9) by (simp_all add: lit_val_uminus lit_val_pos)
  have p: "p < 0 \<Longrightarrow> lit_val \<sigma> p = (\<not> (lit_val \<sigma> x \<and> lit_val \<sigma> y))"
    "0 < p \<Longrightarrow> lit_val \<sigma> p = (lit_val \<sigma> x \<and> lit_val \<sigma> y)"
    using assms(8) by (auto simp: lit_val_def)
  show ?thesis using r unfolding grand_def
  proof (elim disjE conjE)
    assume "p < 0" "vx = - w" "r = Done w"
    then show ?thesis using p(1) n assms(4-7) by auto
  next
    assume "p < 0" "vy = w" "r = Again (- x) y"
    then show ?thesis using p(1) n assms(4-7) by auto
  next
    assume "0 < p" "vx = - w" "r = Done 1"
    then show ?thesis using p(2) n assms(4-7) by auto
  next
    assume "0 < p" "vx = w" "r = Done v"
    then show ?thesis using p(2) n assms(4-7) by auto
  qed
qed

section \<open>Aig\_And\<close>

definition and_ok :: "Aiger \<Rightarrow> int \<Rightarrow> nat \<Rightarrow> int list \<Rightarrow> int \<Rightarrow> int \<Rightarrow> int \<Rightarrow> bool" where
  "and_ok C N i vs p q r = (r = 0 \<or> \<bar>r\<bar> < N \<and>
     (\<forall>\<tau>. sim C i vs \<tau> \<longrightarrow> lit_val \<tau> r = (lit_val (sem vs \<tau>) p \<and> lit_val (sem vs \<tau>) q)))"

definition again_ok :: "Aiger \<Rightarrow> nat \<Rightarrow> int list \<Rightarrow> int \<Rightarrow> int \<Rightarrow> int \<Rightarrow> int \<Rightarrow> bool" where
  "again_ok C i vs p q p' q' = (below C i p' \<and> below C i q' \<and> max \<bar>p'\<bar> \<bar>q'\<bar> < max \<bar>p\<bar> \<bar>q\<bar>
     \<and> (\<forall>\<tau>. sim C i vs \<tau> \<longrightarrow> (lit_val (sem vs \<tau>) p' \<and> lit_val (sem vs \<tau>) q')
         = (lit_val (sem vs \<tau>) p \<and> lit_val (sem vs \<tau>) q)))"

definition body_ok :: "Aiger \<Rightarrow> int \<Rightarrow> nat \<Rightarrow> int list \<Rightarrow> int \<Rightarrow> int \<Rightarrow> and_case \<Rightarrow> bool" where
  "body_ok C N i vs p q r =
     (case r of Done z \<Rightarrow> and_ok C N i vs p q z | Again p' q' \<Rightarrow> again_ok C i vs p q p' q')"

lemma body_ok_swap: "body_ok C N i vs p q r = body_ok C N i vs q p r"
  by (cases r) (auto simp: body_ok_def and_ok_def again_ok_def max.commute conj_commute)

lemma body_ok_Done: "body_ok C N i vs p q (Done z) = and_ok C N i vs p q z"
  by (simp add: body_ok_def)

lemma lit_okD: "lit_ok N vs l x \<Longrightarrow> x \<noteq> 0" "lit_ok N vs l x \<Longrightarrow> \<bar>x\<bar> < N"
  "lit_ok N vs l x \<Longrightarrow> lit_val \<tau> x = lit_val (sem vs \<tau>) l"
  unfolding lit_ok_def by blast+

lemma grand_ok:
  assumes g: "grand p v w x vx y vy r" and f: "fan_ok C i vs p x y" and p: "p \<noteq> 0"
    and l: "lit_ok N vs p v" "lit_ok N vs q w" "lit_ok N vs x vx" "lit_ok N vs y vy"
    and nt: "v \<noteq> w" "v \<noteq> - w" "\<bar>w\<bar> \<noteq> 1" and vs: "vals_ok C N i vs"
  shows "body_ok C N i vs p q r"
proof -
  have sem: "case r of Done z \<Rightarrow> lit_val \<tau> z = (lit_val (sem vs \<tau>) p \<and> lit_val (sem vs \<tau>) q)
     | Again z z' \<Rightarrow> (lit_val (sem vs \<tau>) z \<and> lit_val (sem vs \<tau>) z')
         = (lit_val (sem vs \<tau>) p \<and> lit_val (sem vs \<tau>) q)"
    if "sim C i vs \<tau>" for \<tau>
    using that p f g by (intro grand_sem [where x = x and y = y and w = w and v = v and vx = vx and vy = vy])
      (auto simp: lit_okD [OF l(1)] lit_okD [OF l(2)] lit_okD [OF l(3)] lit_okD [OF l(4)] fan_ok_def sim_def)
  show ?thesis
  proof (cases r)
    case (Done z)
    have "\<bar>z\<bar> < N" using g Done lit_okD(2) [OF l(1)] lit_okD(2) [OF l(2)] vs
      by (auto simp: grand_def vals_ok_def)
    then show ?thesis using sem Done by (simp add: body_ok_def and_ok_def)
  next
    case (Again z z')
    then have a: "p < 0" "vy = w" "z = - x" "z' = y" using g by (auto simp: grand_def)
    have "first_and C \<le> \<bar>p\<bar>"
    proof (rule ccontr)
      assume "\<not> ?thesis"
      then have "y = - 1 \<or> y = \<bar>p\<bar>" using f by (auto simp: fan_ok_def)
      then show False
      proof
        assume "y = - 1"
        then have "vy = - 1" using l(4) vs by (simp add: lit_ok_def vals_ok_def)
        then show False using a nt by simp
      next
        assume "y = \<bar>p\<bar>"
        then have "vy = - v" using l(1,4) a(1) by (simp add: lit_ok_def)
        then show False using a nt by simp
      qed
    qed
    then have "\<bar>x\<bar> < \<bar>p\<bar>" "\<bar>y\<bar> < \<bar>p\<bar>" "below C i x" "below C i y" using f by (auto simp: fan_ok_def)
    then have "again_ok C i vs p q z z'" using sem Again a by (auto simp: again_ok_def)
    then show ?thesis using Again by (simp add: body_ok_def)
  qed
qed

lemma Aig_And_body_ok:
  assumes wf: "wf_aig C" and vs: "vals_ok C N i vs" and p: "below C i p" and q: "below C i q"
  shows "\<exists>r. Aig_And_body C vs p q = Some r \<and> body_ok C N i vs p q r"
proof -
  obtain v where v: "val_of vs p = Some v" "lit_ok N vs p v" using val_of_ok [OF vs p] by blast
  obtain w where w: "val_of vs q = Some w" "lit_ok N vs q w" using val_of_ok [OF vs q] by blast
  obtain pa pb where f: "fans C p = Some (pa, pb)" "fan_ok C i vs p pa pb" using fans_ok [OF wf vs p] by blast
  obtain pc pd where g: "fans C q = Some (pc, pd)" "fan_ok C i vs q pc pd" using fans_ok [OF wf vs q] by blast
  have b: "below C i pa" "below C i pb" "below C i pc" "below C i pd"
    using f(2) g(2) by (auto simp: fan_ok_def)
  obtain va where va: "val_of vs pa = Some va" "lit_ok N vs pa va" using val_of_ok [OF vs b(1)] by blast
  obtain vb where vb: "val_of vs pb = Some vb" "lit_ok N vs pb vb" using val_of_ok [OF vs b(2)] by blast
  obtain vc where vc: "val_of vs pc = Some vc" "lit_ok N vs pc vc" using val_of_ok [OF vs b(3)] by blast
  obtain vd where vd: "val_of vs pd = Some vd" "lit_ok N vs pd vd" using val_of_ok [OF vs b(4)] by blast
  have one: "lit_val \<tau> (- 1)" "\<not> lit_val \<tau> 1" if "sim C i vs \<tau>" for \<tau>
    using that by (auto simp: sim_def lit_val_def)
  have neg: "lit_val \<tau> (- w) = (\<not> lit_val \<tau> w)" for \<tau> using lit_okD(1) [OF w(2)] by (rule lit_val_uminus)
  have N: "1 < N" using vs by (simp add: vals_ok_def)
  consider "v = w" | "v = - w" | "v \<noteq> w" "v \<noteq> - w" "\<bar>v\<bar> = 1" | "v \<noteq> w" "v \<noteq> - w" "\<bar>v\<bar> \<noteq> 1" "\<bar>w\<bar> = 1"
    | (hard) "v \<noteq> w" "v \<noteq> - w" "\<bar>v\<bar> \<noteq> 1" "\<bar>w\<bar> \<noteq> 1" by blast
  then show ?thesis
  proof cases
    case hard
    define r where "r = (if first_and C \<le> \<bar>p\<bar> \<or> first_and C \<le> \<bar>q\<bar>
      then grand_cases p q v w (pa, va) (pb, vb) (pc, vc) (pd, vd) else Done 0)"
    have "Aig_And_body C vs p q = Some r"
      using hard v(1) w(1) f(1) g(1) va(1) vb(1) vc(1) vd(1) by (simp add: Aig_And_body_def r_def Let_def)
    moreover have "body_ok C N i vs p q r"
    proof -
      note o1 = grand_ok [OF _ _ _ v(2) w(2) _ _ hard(1,2,4) vs]
      have h: "w \<noteq> v" "w \<noteq> - v" using hard by auto
      note o2 = grand_ok [OF _ _ _ w(2) v(2) _ _ h hard(3) vs]
      have "r = Done 0 \<or> grand p v w pa va pb vb r \<or> grand p v w pb vb pa va r
          \<or> grand q w v pc vc pd vd r \<or> grand q w v pd vd pc vc r"
        using grand_cases_cases unfolding r_def by presburger
      then show ?thesis
      proof (elim disjE)
        assume "r = Done 0" then show ?thesis by (simp add: body_ok_def and_ok_def)
      next
        assume "grand p v w pa va pb vb r"
        then show ?thesis using o1 f(2) p va(2) vb(2) by blast
      next
        assume "grand p v w pb vb pa va r"
        then show ?thesis using o1 fan_ok_swap [OF f(2)] p va(2) vb(2) by blast
      next
        assume "grand q w v pc vc pd vd r"
        then show ?thesis using o2 g(2) q vc(2) vd(2) body_ok_swap by blast
      next
        assume "grand q w v pd vd pc vc r"
        then show ?thesis using o2 fan_ok_swap [OF g(2)] q vc(2) vd(2) body_ok_swap by blast
      qed
    qed
    ultimately show ?thesis by blast
  qed (use v(1) w(1) neg one lit_okD [OF v(2)] lit_okD [OF w(2)] N in
        \<open>auto simp: Aig_And_body_def body_ok_Done and_ok_def abs_if split: if_splits\<close>)
qed

text \<open>The recursion goes down in the circuit, so the number of variables bounds its depth.\<close>

lemma Aig_And_ok:
  assumes wf: "wf_aig C" and vs: "vals_ok C N i vs" and "below C i p" and "below C i q"
    and "max \<bar>p\<bar> \<bar>q\<bar> < int n"
  shows "\<exists>r. Aig_And n C vs p q = Some r \<and> and_ok C N i vs p q r"
  using assms(3-)
proof (induction n arbitrary: p q)
  case (Suc n)
  obtain r where r: "Aig_And_body C vs p q = Some r" "body_ok C N i vs p q r"
    using Aig_And_body_ok [OF wf vs] Suc.prems by blast
  show ?case
  proof (cases r)
    case (Done z)
    then show ?thesis using r by (simp add: body_ok_def)
  next
    case (Again p' q')
    then have a: "again_ok C i vs p q p' q'" using r(2) by (simp add: body_ok_def)
    then obtain z where "Aig_And n C vs p' q' = Some z" "and_ok C N i vs p' q' z"
      using Suc.IH [of p' q'] Suc.prems(3) by (auto simp: again_ok_def)
    then show ?thesis using r(1) Again a by (auto simp: and_ok_def again_ok_def)
  qed
qed simp

section \<open>The unfolded circuit\<close>

definition uok :: "assignment \<Rightarrow> UnfoldAiger \<Rightarrow> bool" where
  "uok \<tau> u = (\<not> \<tau> 1 \<and> (\<forall>g\<in>set (u_ands u). gate_ok \<tau> g))"

definition node_gate :: "int \<Rightarrow> And \<Rightarrow> bool" where
  "node_gate N g = (2 \<le> out g \<and> out g < N \<and> i1 g \<noteq> 0 \<and> \<bar>i1 g\<bar> < out g \<and> i2 g \<noteq> 0 \<and> \<bar>i2 g\<bar> < out g)"

definition u_wf :: "UnfoldAiger \<Rightarrow> bool" where
  "u_wf u = (2 \<le> nsize u \<and> sorted_wrt (<) (map out (u_ands u))
     \<and> (\<forall>g\<in>set (u_ands u). node_gate (nsize u) g) \<and> (\<forall>k. set (hash_table u k) \<subseteq> set (u_ands u)))"

text \<open>Gates are only appended, and every assignment of the old circuit extends to the new one.\<close>

definition u_grow :: "UnfoldAiger \<Rightarrow> UnfoldAiger \<Rightarrow> bool" where
  "u_grow u u' = ((\<exists>gs. u_ands u' = u_ands u @ gs \<and> (\<forall>g\<in>set gs. nsize u \<le> out g)) \<and> nsize u \<le> nsize u'
     \<and> u_outputs u' = u_outputs u \<and> u_constraints u' = u_constraints u \<and> hash_size u' = hash_size u
     \<and> (\<forall>\<tau>. uok \<tau> u \<longrightarrow> (\<exists>\<tau>'. uok \<tau>' u' \<and> (\<forall>v<nsize u. \<tau>' v = \<tau> v))))"

lemma u_grow_refl [simp]: "u_grow u u"
  by (auto simp: u_grow_def)

lemma u_grow_trans: "u_grow u u' \<Longrightarrow> u_grow u' u'' \<Longrightarrow> u_grow u u''"
proof -
  assume a: "u_grow u u'" and b: "u_grow u' u''"
  have c: "\<exists>\<tau>''. uok \<tau>'' u'' \<and> (\<forall>v<nsize u. \<tau>'' v = \<tau> v)" if t: "uok \<tau> u" for \<tau>
  proof -
    obtain \<tau>' where t': "uok \<tau>' u'" "\<forall>v<nsize u. \<tau>' v = \<tau> v" using a t by (auto simp: u_grow_def)
    moreover obtain \<tau>'' where "uok \<tau>'' u''" "\<forall>v<nsize u'. \<tau>'' v = \<tau>' v" using b t'(1) by (auto simp: u_grow_def)
    moreover have "nsize u \<le> nsize u'" using a by (simp add: u_grow_def)
    ultimately show ?thesis by (intro exI [of _ \<tau>'']) auto
  qed
  moreover obtain gs gs' where "u_ands u' = u_ands u @ gs" "\<forall>g\<in>set gs. nsize u \<le> out g"
      "u_ands u'' = u_ands u' @ gs'" "\<forall>g\<in>set gs'. nsize u' \<le> out g"
    using a b by (auto simp: u_grow_def)
  moreover have "nsize u \<le> nsize u'" using a by (simp add: u_grow_def)
  ultimately have "\<exists>gs. u_ands u'' = u_ands u @ gs \<and> (\<forall>g\<in>set gs. nsize u \<le> out g)"
    by (intro exI [of _ "gs @ gs'"]) fastforce
  then show ?thesis using a b c by (auto simp: u_grow_def)
qed

lemma u_grow_uok: "u_grow u u' \<Longrightarrow> uok \<tau> u' \<Longrightarrow> uok \<tau> u"
  by (auto simp: u_grow_def uok_def)

lemma hash_find_mem:
  assumes "hash_find x y gs \<noteq> 0"
  shows "\<exists>g\<in>set gs. out g = hash_find x y gs \<and> (i1 g = x \<and> i2 g = y \<or> i2 g = x \<and> i1 g = y)"
  using assms by (induction gs rule: rev_induct) (auto simp: hash_find_def split: if_splits)

lemma more_fathers_ok:
  assumes "0 \<le> i" "i < int (length ns)"
  shows "\<exists>ns'. more_fathers d i ns = Some ns' \<and> length ns' = length ns"
  using assms by (simp add: more_fathers_def upd_node_def vec_at_def)

lemma new_gate_ok:
  assumes "u_wf u" "x \<noteq> 0" "\<bar>x\<bar> < nsize u" "y \<noteq> 0" "\<bar>y\<bar> < nsize u" "nsize u \<le> hash_size u"
  obtains u' where "new_gate x y u = Some (nsize u, u')" "u_wf u'" "u_grow u u'" "nsize u' = nsize u + 1"
    "mkAnd (nsize u) x y \<in> set (u_ands u')"
proof -
  let ?g = "mkAnd (nsize u) x y"
  define u1 where "u1 = push_node (mkNode 3 0 x y) u"
  have n1: "int (length (nodes u1)) = nsize u + 1" by (simp add: u1_def push_node_def nsize_def)
  obtain ns1 where ns1: "more_fathers 1 \<bar>x\<bar> (nodes u1) = Some ns1" "length ns1 = length (nodes u1)"
    using more_fathers_ok [of "\<bar>x\<bar>" "nodes u1" 1] assms(3) n1 by auto
  obtain ns2 where ns2: "more_fathers 1 \<bar>y\<bar> ns1 = Some ns2" "length ns2 = length (nodes u1)"
    using more_fathers_ok [of "\<bar>y\<bar>" ns1 1] assms(5) n1 ns1(2) by auto
  define h1 where "h1 = (hash_table u)(\<bar>x\<bar> := hash_table u \<bar>x\<bar> @ [?g])"
  define u' where "u' = u1\<lparr>nodes := ns2, u_ands := u_ands u @ [?g], hash_table := h1(\<bar>y\<bar> := h1 \<bar>y\<bar> @ [?g])\<rparr>"
  have n: "nsize u' = nsize u + 1" using n1 ns2(2) by (simp add: u'_def nsize_def)
  have "new_gate x y u = Some (nsize u, u')"
    using assms(3,5,6) ns1(1) ns2(1) n1
    by (simp add: new_gate_def u'_def u1_def [symmetric] h1_def Let_def) (simp add: nsize_def)
  moreover have "u_wf u'"
  proof -
    have g: "node_gate N' g" if "node_gate N g" "N \<le> N'" for N N' g using that by (simp add: node_gate_def)
    have "set (hash_table u' k) \<subseteq> insert ?g (set (u_ands u))" for k
      using assms(1) by (auto simp: u'_def h1_def u_wf_def)
    then show ?thesis
      using assms(1-5) n g [of "nsize u" _ "nsize u + 1"]
      by (auto simp: u_wf_def u'_def sorted_wrt_append) (auto simp: node_gate_def)
  qed
  moreover have "u_grow u u'"
  proof -
    have "\<exists>\<tau>'. uok \<tau>' u' \<and> (\<forall>v<nsize u. \<tau>' v = \<tau> v)" if t: "uok \<tau> u" for \<tau>
    proof (intro exI conjI)
      let ?t = "gate_eval \<tau> ?g"
      show same: "\<forall>v<nsize u. ?t v = \<tau> v" by (simp add: gate_eval_def)
      have l: "lit_val ?t l = lit_val \<tau> l" if "\<bar>l\<bar> < nsize u" for l
        using that same by (intro lit_val_cong) simp
      have "gate_ok ?t h" if "h \<in> set (u_ands u)" for h
      proof -
        have "node_gate (nsize u) h" using that assms(1) by (simp add: u_wf_def)
        moreover have "gate_ok \<tau> h" using t that by (simp add: uok_def)
        ultimately show ?thesis using same by (simp add: gate_ok_def node_gate_def l)
      qed
      moreover have "gate_ok ?t ?g" using assms(3,5) by (simp add: gate_ok_def l) (simp add: gate_eval_def)
      moreover have "\<not> ?t 1" using t assms(1) same by (simp add: uok_def u_wf_def)
      ultimately show "uok ?t u'" by (auto simp: uok_def u'_def)
    qed
    then show ?thesis using n by (simp add: u_grow_def u'_def u1_def push_node_def)
  qed
  ultimately show thesis using that n by (simp add: u'_def)
qed

section \<open>The gates of a frame\<close>

definition stage :: "Aiger \<Rightarrow> nat \<Rightarrow> BMC \<Rightarrow> bool" where
  "stage C i b = (b_aiger b = C \<and> u_wf (uaiger b) \<and> vals_ok C (nsize (uaiger b)) i (vals b)
     \<and> (\<forall>\<tau>. uok \<tau> (uaiger b) \<longrightarrow> sim C i (vals b) \<tau>))"

text \<open>What a loop over gates or inputs leaves as it was: the values of the variables before \<open>f\<close>.\<close>

definition kept :: "int \<Rightarrow> nat \<Rightarrow> BMC \<Rightarrow> BMC \<Rightarrow> bool" where
  "kept f m b b' = (u_grow (uaiger b) (uaiger b') \<and> only_unfolded b b'
     \<and> length (vals b') = length (vals b) \<and> (\<forall>v. 1 \<le> v \<longrightarrow> v < f \<longrightarrow> vals b' ! nat v = vals b ! nat v)
     \<and> nsize (uaiger b') \<le> nsize (uaiger b) + int m)"

lemma kept_refl: "kept f m b b"
  by (simp add: kept_def)

lemma kept_trans: "kept f m b b' \<Longrightarrow> kept f n b' b'' \<Longrightarrow> kept f (m + n) b b''"
  using u_grow_trans only_unfolded_trans by (simp add: kept_def) fastforce

lemma vec_set_ok: "0 \<le> i \<Longrightarrow> i < int (length xs) \<Longrightarrow> vec_set xs i x = Some (xs[nat i := x])"
  by (simp add: vec_set_def)

lemma gate_ok_agree:
  assumes "gate_ok \<sigma> g" "\<And>v. 1 \<le> v \<Longrightarrow> v \<le> out g \<Longrightarrow> \<sigma> v = \<sigma>' v"
    "i1 g \<noteq> 0" "\<bar>i1 g\<bar> < out g" "i2 g \<noteq> 0" "\<bar>i2 g\<bar> < out g"
  shows "gate_ok \<sigma>' g"
proof -
  have "lit_val \<sigma> (i1 g) = lit_val \<sigma>' (i1 g)" "lit_val \<sigma> (i2 g) = lit_val \<sigma>' (i2 g)" "\<sigma> (out g) = \<sigma>' (out g)"
    using assms by (auto intro!: lit_val_cong assms(2))
  then show ?thesis using assms(1) by (simp add: gate_ok_def)
qed

lemma wf_gate:
  assumes "wf_aig C" "i < length (ands C)"
  shows "out (ands C ! i) = first_and C + int i" "below C i (i1 (ands C ! i))" "below C i (i2 (ands C ! i))"
  using wf_aigD(5) [OF assms(1)] assms(2) by (auto simp: wf_ands_def)

lemma sim_cong:
  assumes wf: "wf_aig C" and i: "i \<le> length (ands C)" and s: "sim C i vs \<tau>"
    and e: "\<And>x. 1 \<le> x \<Longrightarrow> x < first_and C + int i \<Longrightarrow> vs' ! nat x = vs ! nat x"
  shows "sim C i vs' \<tau>"
proof -
  have "gate_ok (sem vs' \<tau>) (ands C ! j)" if j: "j < i" for j
  proof (rule gate_ok_agree [of "sem vs \<tau>" "ands C ! j"])
    have l: "j < length (ands C)" using j i by simp
    note w = wf_gate [OF wf l]
    show "gate_ok (sem vs \<tau>) (ands C ! j)" using s j by (simp add: sim_def)
    show "sem vs \<tau> v = sem vs' \<tau> v" if "1 \<le> v" "v \<le> out (ands C ! j)" for v
      using that j w(1) e [of v] by (simp add: sem_def)
    show "i1 (ands C ! j) \<noteq> 0" "i2 (ands C ! j) \<noteq> 0" using w(2,3) by simp_all
    show "\<bar>i1 (ands C ! j)\<bar> < out (ands C ! j)" "\<bar>i2 (ands C ! j)\<bar> < out (ands C ! j)"
      using w by simp_all
  qed
  then show ?thesis using s by (simp add: sim_def)
qed

text \<open>The new value of a gate: any literal of the grown circuit that has the value of the gate.\<close>

lemma stage_next:
  assumes wf: "wf_aig C" and st: "stage C i b" and i: "i < length (ands C)"
    and u: "u_wf u'" "u_grow (uaiger b) u'" "nsize u' \<le> nsize (uaiger b) + 1"
    and r: "r \<noteq> 0" "\<bar>r\<bar> < nsize u'"
    and v: "\<And>\<tau>. uok \<tau> u' \<Longrightarrow> lit_val \<tau> r =
      (lit_val (sem (vals b) \<tau>) (i1 (ands C ! i)) \<and> lit_val (sem (vals b) \<tau>) (i2 (ands C ! i)))"
    and b': "b' = b\<lparr>uaiger := u', vals := (vals b)[nat (out (ands C ! i)) := r]\<rparr>"
  shows "stage C (Suc i) b' \<and> kept (first_and C) 1 b b'"
proof -
  let ?g = "ands C ! i" and ?vs = "vals b" and ?vs' = "vals b'"
  note g = wf_gate [OF wf i]
  have nn: "0 \<le> num_inputs C" "0 \<le> num_latches C" using wf_aigD [OF wf] by auto
  have old: "?vs' ! nat x = ?vs ! nat x" if "1 \<le> x" "x < first_and C + int i" for x
    using that g(1) b' by (simp add: nth_list_update nat_eq_iff)
  have vo: "vals_ok C (nsize (uaiger b)) i ?vs" and b: "b_aiger b = C" "u_wf (uaiger b)"
    using st by (auto simp: stage_def)
  have new: "?vs' ! nat (out ?g) = r" proof -
    have "nat (out ?g) < length ?vs" using vo i g(1) nn by (simp add: vals_ok_def nat_less_iff)
    then show ?thesis using b' by simp
  qed
  have vals': "vals_ok C (nsize u') (Suc i) ?vs'"
  proof -
    have "?vs' ! nat x \<noteq> 0 \<and> \<bar>?vs' ! nat x\<bar> < nsize u'" if "1 \<le> x" "x < first_and C + int (Suc i)" for x
    proof (cases "x = out ?g")
      case True then show ?thesis using new r by simp
    next
      case False
      then have "x < first_and C + int i" using that g(1) by simp
      then show ?thesis using old that(1) vo u(2) by (fastforce simp: vals_ok_def u_grow_def)
    qed
    moreover have "?vs' ! 1 = 1" using old [of 1] vo nn by (simp add: vals_ok_def)
    ultimately show ?thesis using vo i u(1) b' by (simp add: vals_ok_def u_wf_def)
  qed
  moreover have "sim C (Suc i) ?vs' \<tau>" if t: "uok \<tau> u'" for \<tau>
  proof -
    have s: "sim C i ?vs \<tau>" using st u_grow_uok [OF u(2) t] by (simp add: stage_def)
    have same: "sem ?vs \<tau> x = sem ?vs' \<tau> x" if "1 \<le> x" "x < first_and C + int i" for x
      using old that by (simp add: sem_def)
    have "sim C i ?vs' \<tau>" using old i by (intro sim_cong [OF wf _ s]) simp_all
    moreover have "gate_ok (sem ?vs' \<tau>) ?g"
    proof -
      have "lit_val (sem ?vs \<tau>) l = lit_val (sem ?vs' \<tau>) l" if "below C i l" for l
        using that by (intro lit_val_cong same) auto
      then show ?thesis using v [OF t] g new by (simp add: gate_ok_def sem_def)
    qed
    ultimately show ?thesis by (auto simp: sim_def less_Suc_eq)
  qed
  ultimately have "stage C (Suc i) b'" using b u(1) b' by (simp add: stage_def)
  moreover have "kept (first_and C) 1 b b'"
    using u(2,3) old b' by (auto simp: kept_def only_unfolded_def)
  ultimately show ?thesis by blast
qed

lemma unfold_and_ok:
  assumes wf: "wf_aig C" and st: "stage C i b" and i: "i < length (ands C)"
    and h: "nsize (uaiger b) \<le> hash_size (uaiger b)"
  shows "\<exists>b'. unfold_and (int i) b = Some b' \<and> stage C (Suc i) b' \<and> kept (first_and C) 1 b b'"
proof -
  let ?g = "ands C ! i" and ?u = "uaiger b"
  note g = wf_gate [OF wf i]
  have nn: "0 \<le> num_inputs C" "0 \<le> num_latches C" using wf_aigD [OF wf] by auto
  define vs0 where "vs0 = (vals b)[nat (out ?g) := 0]"
  have st': "stage C i (b\<lparr>vals := vs0\<rparr>)"
  proof -
    have e: "vs0 ! nat x = vals b ! nat x" if "1 \<le> x" "x < first_and C + int i" for x
      using that g(1) by (simp add: vs0_def nth_list_update nat_eq_iff)
    have "vs0 ! 1 = vals b ! 1" using e [of 1] nn by simp
    moreover have "length vs0 = length (vals b)" by (simp add: vs0_def)
    ultimately have v: "vals_ok C (nsize ?u) i vs0"
      using st unfolding stage_def vals_ok_def by (simp add: e)
    have "sim C i vs0 \<tau>" if "sim C i (vals b) \<tau>" for \<tau>
      using e i by (intro sim_cong [OF wf _ that]) simp_all
    then show ?thesis using st v by (auto simp: stage_def)
  qed
  have v: "vals_ok C (nsize ?u) i vs0" and wfu: "u_wf ?u" using st' by (auto simp: stage_def)
  have len: "0 \<le> out ?g" "out ?g < int (length vs0)" "length vs0 = length (vals b)"
    using v g(1) nn i by (auto simp: vals_ok_def vs0_def)
  have at: "vec_at (ands C) (int i) = Some ?g" using i by (simp add: vec_at_def)
  have bC: "b_aiger b = C" using st by (simp add: stage_def)
  obtain r where r: "Aig_And (Suc (length vs0)) C vs0 (i1 ?g) (i2 ?g) = Some r" "and_ok C (nsize ?u) i vs0 (i1 ?g) (i2 ?g) r"
    using Aig_And_ok [OF wf v g(2,3), of "Suc (length vs0)"] g len by fastforce
  obtain x where x: "val_of vs0 (i1 ?g) = Some x" "lit_ok (nsize ?u) vs0 (i1 ?g) x" using val_of_ok [OF v g(2)] by blast
  obtain y where y: "val_of vs0 (i2 ?g) = Some y" "lit_ok (nsize ?u) vs0 (i2 ?g) y" using val_of_ok [OF v g(3)] by blast
  have hx: "\<not> hash_size ?u \<le> \<bar>x\<bar>" using lit_okD(2) [OF x(2)] h by simp
  define k where "k = hash_find x y (hash_table ?u \<bar>x\<bar>)"
  define b0 where "b0 = b\<lparr>vals := vs0\<rparr>"
  note next0 = stage_next [OF wf st' i, folded b0_def]
  have res: "\<exists>b'. unfold_and (int i) b = Some b' \<and> stage C (Suc i) b' \<and> kept (first_and C) 1 b b'"
    if "unfold_and (int i) b = Some b'" "stage C (Suc i) b' \<and> kept (first_and C) 1 b0 b'" for b'
  proof -
    have "kept (first_and C) 1 b b'"
      using that(2) g(1) by (auto simp: kept_def b0_def vs0_def only_unfolded_def nat_eq_iff)
    then show ?thesis using that by blast
  qed
  have set2: "vec_set (vals b) (out ?g) 0 = Some vs0" "\<And>z. vec_set vs0 (out ?g) z = Some (vs0[nat (out ?g) := z])"
    using len by (simp_all add: vec_set_ok vs0_def)
  have o: "out ?g = int i + num_inputs C + num_latches C + 2" using g(1) by simp
  note run = unfold_and_def bC at set2 [unfolded o] r(1) x(1) y(1) hx k_def [symmetric] Let_def o
  consider "r \<noteq> 0" | "r = 0" "k \<noteq> 0" | "r = 0" "k = 0" by blast
  then show ?thesis
  proof cases
    case 1
    have "unfold_and (int i) b = Some (b\<lparr>vals := vs0[nat (out ?g) := r]\<rparr>)"
      using 1 by (simp add: run del: Aig_And.simps)
    then show ?thesis
    proof (rule res)
      show "stage C (Suc i) (b\<lparr>vals := vs0[nat (out ?g) := r]\<rparr>) \<and> kept (first_and C) 1 b0 (b\<lparr>vals := vs0[nat (out ?g) := r]\<rparr>)"
        by (rule next0 [of ?u r])
           (use 1 r(2) wfu st' in \<open>auto simp: and_ok_def b0_def stage_def\<close>)
    qed
  next
    case 2
    have "unfold_and (int i) b = Some (b\<lparr>vals := vs0[nat (out ?g) := k]\<rparr>)"
      using 2 by (simp add: run del: Aig_And.simps)
    then show ?thesis
    proof (rule res)
      obtain h' where h': "h' \<in> set (hash_table ?u \<bar>x\<bar>)" "out h' = k" "i1 h' = x \<and> i2 h' = y \<or> i2 h' = x \<and> i1 h' = y"
        using hash_find_mem [of x y] 2(2) unfolding k_def by metis
      then have m: "h' \<in> set (u_ands ?u)" using wfu by (auto simp: u_wf_def)
      then have n: "2 \<le> k" "k < nsize ?u" using wfu h'(2) by (auto simp: u_wf_def node_gate_def)
      have "lit_val \<tau> k = (lit_val (sem vs0 \<tau>) (i1 ?g) \<and> lit_val (sem vs0 \<tau>) (i2 ?g))" if "uok \<tau> ?u" for \<tau>
      proof -
        have "gate_ok \<tau> h'" using that m by (simp add: uok_def)
        then have "\<tau> k = (lit_val \<tau> x \<and> lit_val \<tau> y)" using h'(2,3) by (auto simp: gate_ok_def)
        then show ?thesis using n lit_okD(3) [OF x(2)] lit_okD(3) [OF y(2)] by (simp add: lit_val_pos)
      qed
      then show "stage C (Suc i) (b\<lparr>vals := vs0[nat (out ?g) := k]\<rparr>) \<and> kept (first_and C) 1 b0 (b\<lparr>vals := vs0[nat (out ?g) := k]\<rparr>)"
        by (intro next0 [of ?u k]) (use n wfu in \<open>auto simp: b0_def\<close>)
    qed
  next
    case 3
    obtain u' where u': "new_gate x y ?u = Some (nsize ?u, u')" "u_wf u'" "u_grow ?u u'" "nsize u' = nsize ?u + 1"
        "mkAnd (nsize ?u) x y \<in> set (u_ands u')"
      using new_gate_ok [OF wfu lit_okD(1,2) [OF x(2)] lit_okD(1,2) [OF y(2)] h] by blast
    have "unfold_and (int i) b = Some (b\<lparr>uaiger := u', vals := vs0[nat (out ?g) := nsize ?u]\<rparr>)"
      using 3 by (simp add: run u'(1) del: Aig_And.simps)
    then show ?thesis
    proof (rule res)
      have "2 \<le> nsize ?u" using wfu by (simp add: u_wf_def)
      moreover have "lit_val \<tau> (nsize ?u) = (lit_val (sem vs0 \<tau>) (i1 ?g) \<and> lit_val (sem vs0 \<tau>) (i2 ?g))" if "uok \<tau> u'" for \<tau>
      proof -
        have "gate_ok \<tau> (mkAnd (nsize ?u) x y)" using that u'(5) by (simp add: uok_def)
        then show ?thesis using \<open>2 \<le> nsize ?u\<close> lit_okD(3) [OF x(2)] lit_okD(3) [OF y(2)]
          by (simp add: gate_ok_def lit_val_pos)
      qed
      ultimately show "stage C (Suc i) (b\<lparr>uaiger := u', vals := vs0[nat (out ?g) := nsize ?u]\<rparr>)
          \<and> kept (first_and C) 1 b0 (b\<lparr>uaiger := u', vals := vs0[nat (out ?g) := nsize ?u]\<rparr>)"
        by (intro next0 [of u' "nsize ?u"]) (use u' in \<open>auto simp: b0_def\<close>)
    qed
  qed
qed

section \<open>One frame\<close>

lemma fold_opt_upto:
  assumes "P 0 s" and "\<And>m t. m < n \<Longrightarrow> P m t \<Longrightarrow> \<exists>t'. f (int m) t = Some t' \<and> P (Suc m) t'"
  shows "\<exists>s'. fold_opt f [0..int n - 1] s = Some s' \<and> P n s'"
  using assms(2)
proof (induction n)
  case 0
  then show ?case using assms(1) by simp
next
  case (Suc n)
  obtain t where t: "fold_opt f [0..int n - 1] s = Some t" "P n t" using Suc by auto
  moreover obtain t' where "f (int n) t = Some t'" "P (Suc n) t'" using Suc.prems [of n] t(2) by auto
  moreover have "[0..int (Suc n) - 1] = [0..int n - 1] @ [int n]" by (simp add: upto_rec2)
  ultimately show ?case by (simp add: fold_opt_append)
qed

lemma fold_opt_map: "fold_opt f (map h xs) s = fold_opt (\<lambda>x. f (h x)) xs s"
  by (induction xs arbitrary: s) (auto split: bind_splits)

text \<open>Between two frames the constant and the latches have values.\<close>

definition entry :: "Aiger \<Rightarrow> BMC \<Rightarrow> bool" where
  "entry C b = (b_aiger b = C \<and> u_wf (uaiger b) \<and> vals b ! 1 = 1
     \<and> first_and C + int (length (ands C)) \<le> int (length (vals b))
     \<and> (\<forall>v. is_latch C v \<longrightarrow> vals b ! nat v \<noteq> 0 \<and> \<bar>vals b ! nat v\<bar> < nsize (uaiger b)))"

lemma nsize_push [simp]: "nsize (push_node n u) = nsize u + 1"
  by (simp add: push_node_def nsize_def)

lemma push_node_wf: "u_wf u \<Longrightarrow> u_wf (push_node n u)"
  unfolding u_wf_def nsize_push by (auto simp: push_node_def node_gate_def)

lemma u_wf_inputs [simp]: "u_wf (u\<lparr>u_inputs := xs\<rparr>) = u_wf u"
  by (simp add: u_wf_def nsize_def)

definition inputs_read :: "Aiger \<Rightarrow> BMC \<Rightarrow> nat \<Rightarrow> BMC \<Rightarrow> bool" where
  "inputs_read C b m b' = (only_unfolded b b' \<and> u_wf (uaiger b') \<and> length (vals b') = length (vals b)
     \<and> u_ands (uaiger b') = u_ands (uaiger b) \<and> u_outputs (uaiger b') = u_outputs (uaiger b)
     \<and> u_constraints (uaiger b') = u_constraints (uaiger b) \<and> hash_size (uaiger b') = hash_size (uaiger b)
     \<and> nsize (uaiger b') = nsize (uaiger b) + int m
     \<and> (\<forall>v. 2 \<le> v \<longrightarrow> v < 2 + int m \<longrightarrow> vals b' ! nat v = nsize (uaiger b) + v - 2)
     \<and> (\<forall>v. v = 1 \<or> is_latch C v \<longrightarrow> vals b' ! nat v = vals b ! nat v))"

lemma unfold_inputs_ok:
  assumes wf: "wf_aig C" and en: "entry C b"
  shows "\<exists>b'. fold_opt unfold_input [0..num_inputs C - 1] b = Some b'
    \<and> inputs_read C b (nat (num_inputs C)) b'"
proof -
  have nn: "0 \<le> num_inputs C" "0 \<le> num_latches C" using wf_aigD [OF wf] by auto
  have "\<exists>b'. fold_opt unfold_input [0..int (nat (num_inputs C)) - 1] b = Some b'
      \<and> inputs_read C b (nat (num_inputs C)) b'"
  proof (rule fold_opt_upto)
    show "inputs_read C b 0 b" using en by (auto simp: inputs_read_def entry_def)
    fix m t
    assume m: "m < nat (num_inputs C)" and t: "inputs_read C b m t"
    let ?u = "push_node (mkNode 2 0 0 0) (uaiger t)"
    have n: "nsize ?u = nsize (uaiger t) + 1" by (simp add: push_node_def nsize_def)
    have l: "0 \<le> int m + 2" "int m + 2 < int (length (vals t))"
      using m t en nn by (auto simp: inputs_read_def entry_def)
    define t' where "t' = t\<lparr>uaiger := ?u\<lparr>u_inputs := u_inputs ?u @ [nsize ?u - 1]\<rparr>,
      vals := (vals t)[nat (int m + 2) := nsize ?u - 1]\<rparr>"
    have "unfold_input (int m) t = Some t'"
      using l by (simp add: unfold_input_def vec_set_ok t'_def Let_def)
    moreover have "inputs_read C b (Suc m) t'"
    proof -
      have "u_wf (uaiger t')" using t push_node_wf by (simp add: inputs_read_def t'_def)
      moreover have "nsize (uaiger t') = nsize (uaiger b) + int (Suc m)"
        using n t by (simp add: t'_def inputs_read_def nsize_def)
      moreover have "vals t' ! nat v = nsize (uaiger b) + v - 2" if "2 \<le> v" "v < 2 + int (Suc m)" for v
      proof (cases "v = int m + 2")
        case True
        then show ?thesis using n t l by (simp add: t'_def inputs_read_def nat_less_iff)
      next
        case False
        then have "vals t' ! nat v = vals t ! nat v" using that by (simp add: t'_def nth_list_update nat_eq_iff)
        then show ?thesis using t that False by (simp add: inputs_read_def)
      qed
      moreover have "vals t' ! nat v = vals b ! nat v" if v: "v = 1 \<or> is_latch C v" for v
      proof -
        have "nat (int m + 2) \<noteq> nat v" using v m nn by (auto simp: is_latch_def)
        then have "vals t' ! nat v = vals t ! nat v" by (simp add: t'_def)
        then show ?thesis using t v unfolding inputs_read_def by metis
      qed
      ultimately show ?thesis
        using t by (simp add: inputs_read_def only_unfolded_def) (simp add: t'_def push_node_def)
    qed
    ultimately show "\<exists>t'. unfold_input (int m) t = Some t' \<and> inputs_read C b (Suc m) t'" by blast
  qed
  then show ?thesis using nn by simp
qed

lemma inputs_read_stage:
  assumes wf: "wf_aig C" and en: "entry C b" and r: "inputs_read C b (nat (num_inputs C)) b'"
  shows "stage C 0 b'"
proof -
  have nn: "0 \<le> num_inputs C" "0 \<le> num_latches C" using wf_aigD [OF wf] by auto
  have N: "2 \<le> nsize (uaiger b)" using en by (simp add: entry_def u_wf_def)
  have "vals b' ! nat v \<noteq> 0 \<and> \<bar>vals b' ! nat v\<bar> < nsize (uaiger b')" if "1 \<le> v" "v < first_and C + int 0" for v
  proof -
    consider "v = 1" | "2 \<le> v" "v < 2 + num_inputs C" | "is_latch C v"
      using \<open>1 \<le> v\<close> \<open>v < first_and C + int 0\<close> unfolding is_latch_def by linarith
    then show ?thesis
    proof cases
      case 1 then show ?thesis using r en N nn by (simp add: inputs_read_def entry_def)
    next
      case 2 then show ?thesis using r N nn by (simp add: inputs_read_def)
    next
      case 3 then show ?thesis using r en nn by (fastforce simp: inputs_read_def entry_def)
    qed
  qed
  moreover have "vals b' ! 1 = 1" using r en by (simp add: inputs_read_def entry_def)
  ultimately have "vals_ok C (nsize (uaiger b')) 0 (vals b')"
    using r en N nn by (simp add: vals_ok_def inputs_read_def entry_def)
  then show ?thesis
    using r en by (simp add: stage_def inputs_read_def entry_def only_unfolded_def sim_def uok_def)
qed

lemma unfold_ands_ok:
  assumes wf: "wf_aig C" and st: "stage C 0 b"
    and h: "nsize (uaiger b) + int (length (ands C)) \<le> hash_size (uaiger b)"
  shows "\<exists>b'. fold_opt unfold_and [0..num_ands C - 1] b = Some b' \<and> stage C (length (ands C)) b'
    \<and> kept (first_and C) (length (ands C)) b b'"
proof -
  have "\<exists>b'. fold_opt unfold_and [0..int (length (ands C)) - 1] b = Some b'
     \<and> (stage C (length (ands C)) b' \<and> kept (first_and C) (length (ands C)) b b')"
  proof (rule fold_opt_upto)
    show "stage C 0 b \<and> kept (first_and C) 0 b b" using st kept_refl by simp
    fix m t
    assume m: "m < length (ands C)" and t: "stage C m t \<and> kept (first_and C) m b t"
    then have "nsize (uaiger t) \<le> hash_size (uaiger t)" using h by (simp add: kept_def u_grow_def)
    then obtain t' where "unfold_and (int m) t = Some t'" "stage C (Suc m) t'" "kept (first_and C) 1 t t'"
      using unfold_and_ok [OF wf _ m] t by blast
    then show "\<exists>t'. unfold_and (int m) t = Some t' \<and> (stage C (Suc m) t' \<and> kept (first_and C) (Suc m) b t')"
      using kept_trans [of _ m b t 1 t'] t by auto
  qed
  then show ?thesis using wf_aigD(4) [OF wf] by simp
qed

text \<open>
  One frame: under its assignments \<open>vs\<close> gives the gates of the circuit their values, the latches
  their values on entry and, by the choice of the assignment, the inputs any value.
\<close>

definition frame_sim :: "Aiger \<Rightarrow> int \<Rightarrow> int list \<Rightarrow> BMC \<Rightarrow> BMC \<Rightarrow> bool" where
  "frame_sim C B vs b b' = (\<exists>o' cs.
     u_outputs (uaiger b') = u_outputs (uaiger b) @ [o'] \<and> lit_ok (nsize (uaiger b')) vs B o'
     \<and> u_constraints (uaiger b') = u_constraints (uaiger b) @ cs
     \<and> list_all2 (lit_ok (nsize (uaiger b')) vs) (constraints C) cs
     \<and> (\<forall>i<length (nexts C). lit_ok (nsize (uaiger b')) vs (nexts C ! i) (vals b' ! nat (latch_var C i)))
     \<and> (\<forall>v. is_latch C v \<longrightarrow> vs ! nat v = vals b ! nat v)
     \<and> (\<forall>\<tau>. uok \<tau> (uaiger b') \<longrightarrow> uok \<tau> (uaiger b) \<and> gates_ok C (sem vs \<tau>))
     \<and> (\<forall>\<tau> \<sigma>. uok \<tau> (uaiger b) \<longrightarrow> (\<exists>\<tau>'. uok \<tau>' (uaiger b') \<and> (\<forall>v<nsize (uaiger b). \<tau>' v = \<tau> v)
          \<and> (\<forall>v. 2 \<le> v \<longrightarrow> v < num_inputs C + 2 \<longrightarrow> sem vs \<tau>' v = \<sigma> v))))"

lemma unfold_latches_ok:
  assumes wf: "wf_aig C" and C: "b_aiger b = C" and v: "vals_ok C N (length (ands C)) (vals b)"
    and n: "num_latches C \<le> 999999"
  shows "\<exists>vs. unfold_latches b = Some (b\<lparr>vals := vs\<rparr>) \<and> length vs = length (vals b)
    \<and> (\<forall>i<length (nexts C). lit_ok N (vals b) (nexts C ! i) (vs ! nat (latch_var C i))) \<and> vs ! 1 = 1"
proof -
  have nn: "0 \<le> num_inputs C" "num_latches C = int (length (nexts C))" using wf_aigD [OF wf] by auto
  define tmp where "tmp = map (\<lambda>l. the (val_of (vals b) l)) (nexts C)"
  have val: "val_of (vals b) (nexts C ! i) = Some (tmp ! i) \<and> lit_ok N (vals b) (nexts C ! i) (tmp ! i)"
    if "i < length (nexts C)" for i
  proof -
    have "below C (length (ands C)) (nexts C ! i)"
      using lit_in_simps(2) [OF wf] that by (simp add: lit_in_def)
    then show ?thesis using val_of_ok [OF v] that by (fastforce simp: tmp_def)
  qed
  have len: "length (map (\<lambda>i. i) [0..num_latches C - 1]) = length tmp" using nn by (simp add: tmp_def)
  have those: "those (map (\<lambda>i. do { nx \<leftarrow> vec_at (nexts C) i; val_of (vals b) nx }) [0..num_latches C - 1]) = Some tmp"
    unfolding those_Some_conv using nn val by (simp add: tmp_def vec_at_def)
  have z: "zip [0..num_latches C - 1] tmp = map (\<lambda>i. (i, tmp ! nat i)) [0..num_latches C - 1]"
    using nn by (intro nth_equalityI) (auto simp: tmp_def)
  let ?P = "\<lambda>m vs. length vs = length (vals b) \<and> vs ! 1 = 1
    \<and> (\<forall>i<m. vs ! nat (latch_var C i) = tmp ! i)"
  have "\<exists>vs. fold_opt (\<lambda>i vs. vec_set vs (i + num_inputs C + 2) (tmp ! nat i))
      [0..int (length (nexts C)) - 1] (vals b) = Some vs \<and> ?P (length (nexts C)) vs"
  proof (rule fold_opt_upto)
    show "?P 0 (vals b)" using v by (simp add: vals_ok_def)
    fix m t
    assume m: "m < length (nexts C)" and t: "?P m t"
    have "int m + num_inputs C + 2 < int (length t)" using v t m nn by (simp add: vals_ok_def)
    then have e: "vec_set t (int m + num_inputs C + 2) (tmp ! nat (int m)) = Some (t[nat (int m + num_inputs C + 2) := tmp ! m])"
      and l: "nat (int m + num_inputs C + 2) < length t"
      using nn by (simp_all add: vec_set_ok nat_less_iff)
    have "(t[nat (int m + num_inputs C + 2) := tmp ! m]) ! nat (latch_var C i) = tmp ! i" if "i < Suc m" for i
      using that t l nn by (cases "i = m") (auto simp: nth_list_update nat_eq_iff)
    moreover have "nat (int m + num_inputs C + 2) \<noteq> 1" using nn by simp
    ultimately show "\<exists>t'. vec_set t (int m + num_inputs C + 2) (tmp ! nat (int m)) = Some t' \<and> ?P (Suc m) t'"
      using e t by simp
  qed
  then obtain vs where vs: "fold_opt (\<lambda>i vs. vec_set vs (i + num_inputs C + 2) (tmp ! nat i))
      [0..num_latches C - 1] (vals b) = Some vs" "?P (length (nexts C)) vs" using nn by auto
  then have "unfold_latches b = Some (b\<lparr>vals := vs\<rparr>)"
    using n C those by (simp add: unfold_latches_def z fold_opt_map)
  then show ?thesis using vs(2) val by auto
qed

lemma bmc_bad_cong: "only_unfolded b b' \<Longrightarrow> bmc_bad b' = bmc_bad b"
  by (simp add: bmc_bad_def only_unfolded_def Let_def)

lemma uok_cong: "u_ands u = u_ands u' \<Longrightarrow> uok \<tau> u = uok \<tau> u'"
  by (simp add: uok_def)

lemma uok_agree:
  assumes "u_wf u" "uok \<tau> u" "\<And>v. v < nsize u \<Longrightarrow> \<tau>' v = \<tau> v"
  shows "uok \<tau>' u"
proof -
  have "gate_ok \<tau>' g" if g: "g \<in> set (u_ands u)" for g
  proof (rule gate_ok_agree [of \<tau> g])
    have n: "node_gate (nsize u) g" using assms(1) g by (simp add: u_wf_def)
    show "gate_ok \<tau> g" using assms(2) g by (simp add: uok_def)
    show "\<tau> v = \<tau>' v" if "1 \<le> v" "v \<le> out g" for v using assms(3) n that by (simp add: node_gate_def)
  qed (use assms(1) g in \<open>auto simp: u_wf_def node_gate_def\<close>)
  then show ?thesis using assms by (auto simp: uok_def u_wf_def)
qed

lemma lit_in_below: "lit_in C l \<Longrightarrow> below C (length (ands C)) l"
  by (simp add: lit_in_def)

lemma inputs_extend:
  assumes en: "entry C b" and r: "inputs_read C b (nat (num_inputs C)) b1" and t: "uok \<tau> (uaiger b)"
  shows "\<exists>\<tau>'. uok \<tau>' (uaiger b1) \<and> (\<forall>v<nsize (uaiger b). \<tau>' v = \<tau> v)
    \<and> (\<forall>v. 2 \<le> v \<longrightarrow> v < num_inputs C + 2 \<longrightarrow> sem (vals b1) \<tau>' v = \<sigma> v)"
proof -
  let ?N = "nsize (uaiger b)"
  define t' where "t' = (\<lambda>x. if x < ?N then \<tau> x else \<sigma> (x - ?N + 2))"
  have "uok t' (uaiger b)" by (rule uok_agree [OF _ t]) (use en in \<open>simp_all add: entry_def t'_def\<close>)
  then have "uok t' (uaiger b1)" using r uok_cong [of "uaiger b1" "uaiger b"] by (simp add: inputs_read_def)
  moreover have "sem (vals b1) t' v = \<sigma> v" if "2 \<le> v" "v < num_inputs C + 2" for v
  proof -
    have "vals b1 ! nat v = ?N + v - 2" using r that by (simp add: inputs_read_def)
    moreover have "2 \<le> ?N" using en by (simp add: entry_def u_wf_def)
    ultimately show ?thesis using that by (simp add: sem_def lit_val_pos t'_def)
  qed
  ultimately show ?thesis by (intro exI [of _ t']) (simp add: t'_def)
qed

theorem unfold_ok:
  assumes wf: "wf_aig C" and en: "entry C b" and bad: "bmc_bad b = Some B" "lit_in C B"
    and n: "num_latches C \<le> 999999"
    and h: "nsize (uaiger b) + num_inputs C + num_ands C \<le> hash_size (uaiger b)"
  shows "\<exists>b' vs. unfold b = Some b' \<and> entry C b' \<and> frame_sim C B vs b b' \<and> only_unfolded b b'
    \<and> (\<exists>gs. u_ands (uaiger b') = u_ands (uaiger b) @ gs \<and> (\<forall>g\<in>set gs. nsize (uaiger b) \<le> out g))
    \<and> hash_size (uaiger b') = hash_size (uaiger b)
    \<and> nsize (uaiger b) \<le> nsize (uaiger b')
    \<and> nsize (uaiger b') \<le> nsize (uaiger b) + num_inputs C + num_ands C"
proof -
  have nn: "0 \<le> num_inputs C" "num_ands C = int (length (ands C))" using wf_aigD [OF wf] by auto
  have bC: "b_aiger b = C" using en by (simp add: entry_def)
  obtain b1 where b1: "fold_opt unfold_input [0..num_inputs C - 1] b = Some b1" "inputs_read C b (nat (num_inputs C)) b1"
    using unfold_inputs_ok [OF wf en] by blast
  note st1 = inputs_read_stage [OF wf en b1(2)]
  have h1: "nsize (uaiger b1) + int (length (ands C)) \<le> hash_size (uaiger b1)"
    using h b1(2) nn by (simp add: inputs_read_def)
  obtain b2 where b2: "fold_opt unfold_and [0..num_ands C - 1] b1 = Some b2" "stage C (length (ands C)) b2"
      "kept (first_and C) (length (ands C)) b1 b2"
    using unfold_ands_ok [OF wf st1 h1] by blast
  let ?u = "uaiger b2" and ?vs = "vals b2"
  have v2: "vals_ok C (nsize ?u) (length (ands C)) ?vs" and w2: "u_wf ?u" and C2: "b_aiger b2 = C"
    and s2: "\<And>\<tau>. uok \<tau> ?u \<Longrightarrow> sim C (length (ands C)) ?vs \<tau>"
    using b2(2) by (auto simp: stage_def)
  have only2: "only_unfolded b b2"
    using b1(2) b2(3) only_unfolded_trans by (auto simp: inputs_read_def kept_def)
  obtain cs where cs: "those (map (val_of ?vs) (constraints C)) = Some cs" "list_all2 (lit_ok (nsize ?u) ?vs) (constraints C) cs"
  proof -
    let ?cs = "map (\<lambda>l. the (val_of ?vs l)) (constraints C)"
    have ok: "val_of ?vs l = Some (the (val_of ?vs l)) \<and> lit_ok (nsize ?u) ?vs l (the (val_of ?vs l))"
      if "l \<in> set (constraints C)" for l
      using val_of_ok [OF v2 lit_in_below [OF lit_in_simps(1) [OF wf that]]] by auto
    then have "those (map (val_of ?vs) (constraints C)) = Some ?cs" unfolding those_Some_conv by simp
    moreover have "list_all2 (lit_ok (nsize ?u) ?vs) (constraints C) ?cs"
      using ok by (simp add: list_all2_conv_all_nth)
    ultimately show thesis using that by blast
  qed
  obtain o' where o': "val_of ?vs B = Some o'" "lit_ok (nsize ?u) ?vs B o'"
    using val_of_ok [OF v2 lit_in_below [OF bad(2)]] by blast
  obtain ns where ns: "more_fathers 1 \<bar>o'\<bar> (nodes ?u) = Some ns" "length ns = length (nodes ?u)"
    using more_fathers_ok [of "\<bar>o'\<bar>" "nodes ?u" 1] lit_okD(2) [OF o'(2)] by (auto simp: nsize_def)
  define u3 where "u3 = ?u\<lparr>u_constraints := u_constraints ?u @ cs, u_outputs := u_outputs ?u @ [o'], nodes := ns\<rparr>"
  have n3: "nsize u3 = nsize ?u" using ns(2) by (simp add: u3_def nsize_def)
  obtain vs3 where vs3: "unfold_latches (b2\<lparr>uaiger := u3\<rparr>) = Some (b2\<lparr>uaiger := u3, vals := vs3\<rparr>)"
      "length vs3 = length ?vs" "vs3 ! 1 = 1"
      "\<forall>i<length (nexts C). lit_ok (nsize ?u) ?vs (nexts C ! i) (vs3 ! nat (latch_var C i))"
    using unfold_latches_ok [OF wf, of "b2\<lparr>uaiger := u3\<rparr>"] C2 v2 n by auto
  define b' where "b' = b2\<lparr>uaiger := u3, vals := vs3\<rparr>"
  have bad2: "bmc_bad b2 = Some B" using bad(1) bmc_bad_cong [OF only2] by simp
  have run: "unfold b = Some b'"
    using b1(1) b2(1) cs(1) o'(1) ns(1) vs3(1) bad2 bC C2 by (simp add: unfold_def b'_def u3_def Let_def)
  have g: "u_grow (uaiger b1) ?u" "nsize ?u \<le> nsize (uaiger b1) + num_ands C"
    using b2(3) nn by (auto simp: kept_def)
  have n1: "nsize (uaiger b1) = nsize (uaiger b) + num_inputs C" using b1(2) nn by (simp add: inputs_read_def)
  have same1: "u_ands (uaiger b1) = u_ands (uaiger b)" "u_outputs (uaiger b1) = u_outputs (uaiger b)"
      "u_constraints (uaiger b1) = u_constraints (uaiger b)" "hash_size (uaiger b1) = hash_size (uaiger b)"
    using b1(2) by (auto simp: inputs_read_def)
  have "entry C b'"
  proof -
    have w: "u_wf u3" using w2 n3 unfolding u_wf_def by (simp add: u3_def)
    have "vs3 ! nat v \<noteq> 0 \<and> \<bar>vs3 ! nat v\<bar> < nsize u3" if "is_latch C v" for v
      using that is_latch_iff [OF wf, of v] vs3(4) n3 lit_okD(1,2) by fastforce
    then show ?thesis using w vs3 v2 C2 by (simp add: entry_def b'_def vals_ok_def)
  qed
  moreover have "frame_sim C B ?vs b b'"
    unfolding frame_sim_def
  proof (intro exI [of _ o'] exI [of _ cs] conjI allI impI)
    show "u_outputs (uaiger b') = u_outputs (uaiger b) @ [o']" "u_constraints (uaiger b') = u_constraints (uaiger b) @ cs"
      using g(1) same1 by (simp_all add: b'_def u3_def u_grow_def)
    show "lit_ok (nsize (uaiger b')) ?vs B o'" "list_all2 (lit_ok (nsize (uaiger b')) ?vs) (constraints C) cs"
      using o'(2) cs(2) n3 by (simp_all add: b'_def)
    show "lit_ok (nsize (uaiger b')) ?vs (nexts C ! i) (vals b' ! nat (latch_var C i))" if "i < length (nexts C)" for i
      using vs3(4) that n3 by (simp add: b'_def)
    show "?vs ! nat v = vals b ! nat v" if "is_latch C v" for v
      using that b1(2) b2(3) nn(1) by (auto simp: kept_def inputs_read_def is_latch_def)
    fix \<tau>
    assume "uok \<tau> (uaiger b')"
    then have t: "uok \<tau> ?u" using uok_cong [of u3 ?u] by (simp add: b'_def u3_def)
    then show "uok \<tau> (uaiger b)" using u_grow_uok [OF g(1)] uok_cong [OF same1(1)] by blast
    have "\<forall>j<length (ands C). gate_ok (sem ?vs \<tau>) (ands C ! j)" using s2 [OF t] by (simp add: sim_def)
    then show "gates_ok C (sem ?vs \<tau>)"
      using sem_1 [OF v2] t by (auto simp: gates_ok_def uok_def in_set_conv_nth)
  next
    fix \<tau> \<sigma>
    assume "uok \<tau> (uaiger b)"
    then obtain t1 where t1: "uok t1 (uaiger b1)" "\<forall>v<nsize (uaiger b). t1 v = \<tau> v"
        "\<forall>v. 2 \<le> v \<longrightarrow> v < num_inputs C + 2 \<longrightarrow> sem (vals b1) t1 v = \<sigma> v"
      using inputs_extend [OF en b1(2)] by blast
    then obtain t2 where t2: "uok t2 ?u" "\<forall>v<nsize (uaiger b1). t2 v = t1 v"
      using g(1) by (auto simp: u_grow_def)
    have "sem ?vs t2 v = \<sigma> v" if v: "2 \<le> v" "v < num_inputs C + 2" for v
    proof -
      have e: "?vs ! nat v = vals b1 ! nat v" using b2(3) v wf_aigD(2) [OF wf] by (simp add: kept_def)
      have "\<bar>vals b1 ! nat v\<bar> < nsize (uaiger b1)"
        using st1 v wf_aigD(2) [OF wf] by (simp add: stage_def vals_ok_def)
      then have "sem ?vs t2 v = sem (vals b1) t1 v" using t2(2) by (auto simp: sem_def e intro!: lit_val_cong)
      then show ?thesis using t1(3) v by simp
    qed
    then show "\<exists>\<tau>'. uok \<tau>' (uaiger b') \<and> (\<forall>v<nsize (uaiger b). \<tau>' v = \<tau> v)
        \<and> (\<forall>v. 2 \<le> v \<longrightarrow> v < num_inputs C + 2 \<longrightarrow> sem ?vs \<tau>' v = \<sigma> v)"
      using t1(2) t2 n1 nn(1) uok_cong [of u3 ?u] by (intro exI [of _ t2]) (auto simp: b'_def u3_def)
  qed
  moreover have "only_unfolded b b'" using only2 by (simp add: b'_def only_unfolded_def)
  moreover have "\<exists>gs. u_ands (uaiger b') = u_ands (uaiger b) @ gs \<and> (\<forall>g\<in>set gs. nsize (uaiger b) \<le> out g)"
      "hash_size (uaiger b') = hash_size (uaiger b)"
    using g(1) same1 n1 nn(1) by (fastforce simp: b'_def u3_def u_grow_def)+
  moreover have "nsize (uaiger b) \<le> nsize (uaiger b')" "nsize (uaiger b') \<le> nsize (uaiger b) + num_inputs C + num_ands C"
    using g n1 n3 nn by (auto simp: b'_def u_grow_def)
  ultimately show ?thesis using run by blast
qed

end
