(* ===== verification/BMC_Frames.thy ===== *)
theory BMC_Frames
  imports BMC_Unfold
begin

text \<open>
  What \<^verbatim>\<open>BMC::check\<close> returns. The unfolding after k frames has exactly the runs of k steps of
  the circuit as its assignments (\<open>traces\<close>), the solver holds a cone-closed part of its gates
  (\<open>solver_inv\<close>); from these follow that a reported bug is a real one and that the frames that
  were refuted hold no shortest counterexample.
\<close>

section \<open>Runs\<close>

definition run_of :: "Aiger \<Rightarrow> nat \<Rightarrow> (nat \<Rightarrow> assignment) \<Rightarrow> bool" where
  "run_of C k \<sigma>s = (init_ok C (\<sigma>s 0) \<and> (\<forall>j<k. valid C (\<sigma>s j) \<and> next_ok C (\<sigma>s j) (\<sigma>s (Suc j))))"

definition first_bad :: "Aiger \<Rightarrow> int \<Rightarrow> nat \<Rightarrow> bool" where
  "first_bad C B n = (\<exists>\<sigma>s. run_of C (Suc n) \<sigma>s \<and> lit_val (\<sigma>s n) B \<and> (\<forall>j<n. \<not> lit_val (\<sigma>s j) B))"

lemma run_reach: "run_of C k \<sigma>s \<Longrightarrow> j < k \<Longrightarrow> reach C j (\<sigma>s j)"
proof (induction j)
  case 0
  then show ?case by (simp add: run_of_def)
next
  case (Suc j)
  then have "reach C j (\<sigma>s j)" "next_ok C (\<sigma>s j) (\<sigma>s (Suc j))" "valid C (\<sigma>s (Suc j))"
    by (simp_all add: run_of_def)
  then show ?case by (rule reach_step)
qed

lemma next_exists: "wf_aig C \<Longrightarrow> \<exists>\<rho>. next_ok C \<sigma> \<rho>"
  by (intro exI [of _ "\<lambda>v. lit_val \<sigma> (nexts C ! nat (v - num_inputs C - 2))"]) (simp add: next_ok_def)

lemma reach_run:
  assumes "wf_aig C" "reach C n \<sigma>"
  shows "\<exists>\<sigma>s. run_of C (Suc n) \<sigma>s \<and> \<sigma>s n = \<sigma>"
  using assms(2)
proof induction
  case (reach_init \<sigma>)
  obtain \<rho> where "next_ok C \<sigma> \<rho>" using next_exists [OF assms(1)] by blast
  then show ?case
    using reach_init by (intro exI [of _ "\<lambda>j. if j = 0 then \<sigma> else \<rho>"]) (simp add: run_of_def)
next
  case (reach_step n \<sigma> \<sigma>')
  then obtain \<sigma>s where s: "run_of C (Suc n) \<sigma>s" "\<sigma>s n = \<sigma>" by blast
  obtain \<rho> where "next_ok C \<sigma>' \<rho>" using next_exists [OF assms(1)] by blast
  then show ?case
    using s reach_step
    by (intro exI [of _ "\<lambda>j. if j \<le> n then \<sigma>s j else if j = Suc n then \<sigma>' else \<rho>"])
       (auto simp: run_of_def less_Suc_eq)
qed

lemma unsafe_first_bad:
  assumes "wf_aig C" "unsafe_at C B n"
  shows "\<exists>m\<le>n. first_bad C B m"
proof -
  obtain \<sigma>s where s: "run_of C (Suc n) \<sigma>s" "lit_val (\<sigma>s n) B"
    using assms reach_run by (fastforce simp: unsafe_at_def)
  define m where "m = (LEAST j. lit_val (\<sigma>s j) B)"
  have m: "lit_val (\<sigma>s m) B" "m \<le> n" "\<And>j. j < m \<Longrightarrow> \<not> lit_val (\<sigma>s j) B"
    unfolding m_def using s(2) by (auto intro: LeastI Least_le dest: not_less_Least)
  have "run_of C (Suc m) \<sigma>s" using s(1) m(2) by (simp add: run_of_def)
  then show ?thesis using m by (auto simp: first_bad_def)
qed

section \<open>The unfolding has the runs of the circuit\<close>

definition shows_run :: "Aiger \<Rightarrow> int \<Rightarrow> nat \<Rightarrow> BMC \<Rightarrow> assignment \<Rightarrow> (nat \<Rightarrow> assignment) \<Rightarrow> bool" where
  "shows_run C B k b \<tau> \<sigma>s = ((\<forall>l\<in>set (u_constraints (uaiger b)). lit_val \<tau> l)
     \<and> (\<forall>j<k. lit_val \<tau> (u_outputs (uaiger b) ! j) = lit_val (\<sigma>s j) B)
     \<and> (\<forall>v. is_latch C v \<longrightarrow> sem (vals b) \<tau> v = \<sigma>s k v))"

definition traces :: "Aiger \<Rightarrow> int \<Rightarrow> nat \<Rightarrow> BMC \<Rightarrow> bool" where
  "traces C B k b = (length (u_outputs (uaiger b)) = k
     \<and> (\<forall>l\<in>set (u_outputs (uaiger b)) \<union> set (u_constraints (uaiger b)). l \<noteq> 0 \<and> \<bar>l\<bar> < nsize (uaiger b))
     \<and> (\<forall>\<tau>. uok \<tau> (uaiger b) \<longrightarrow> (\<forall>l\<in>set (u_constraints (uaiger b)). lit_val \<tau> l) \<longrightarrow>
          (\<exists>\<sigma>s. run_of C k \<sigma>s \<and> shows_run C B k b \<tau> \<sigma>s))
     \<and> (\<forall>\<sigma>s. run_of C k \<sigma>s \<longrightarrow> (\<exists>\<tau>. uok \<tau> (uaiger b) \<and> shows_run C B k b \<tau> \<sigma>s)))"

lemma list_all2_cube:
  assumes "list_all2 (lit_ok N vs) ls cs"
  shows "(\<forall>l\<in>set cs. lit_val \<tau> l) = cube_true (sem vs \<tau>) ls"
  using assms lit_okD(3) by (induction rule: list_all2_induct) (auto simp: cube_true_def)

lemma list_all2_lits: "list_all2 (lit_ok N vs) ls cs \<Longrightarrow> l \<in> set cs \<Longrightarrow> l \<noteq> 0 \<and> \<bar>l\<bar> < N"
  using lit_okD(1,2) by (fastforce simp: list_all2_conv_all_nth in_set_conv_nth)

lemma run_of_Suc: "run_of C (Suc k) \<sigma>s = (run_of C k \<sigma>s \<and> valid C (\<sigma>s k) \<and> next_ok C (\<sigma>s k) (\<sigma>s (Suc k)))"
  by (auto simp: run_of_def less_Suc_eq)

text \<open>A run may be changed at its open end, where only the latches are determined.\<close>

lemma run_of_extend:
  assumes wf: "wf_aig C" and r: "run_of C k \<sigma>s" and l: "\<And>v. is_latch C v \<Longrightarrow> \<sigma> v = \<sigma>s k v"
    and v: "valid C \<sigma>" and n: "next_ok C \<sigma> \<rho>"
  shows "run_of C (Suc k) (\<sigma>s(k := \<sigma>, Suc k := \<rho>))"
proof -
  let ?s = "\<sigma>s(k := \<sigma>, Suc k := \<rho>)"
  have "init_ok C (?s 0)"
    using r init_ok_agree [OF wf, of \<sigma> "\<sigma>s 0"] l by (cases k) (auto simp: run_of_def)
  moreover have "valid C (?s j) \<and> next_ok C (?s j) (?s (Suc j))" if "j < k" for j
  proof (cases "Suc j = k")
    case True
    then show ?thesis using r that l next_ok_agree_right [OF wf, of \<sigma> "\<sigma>s k" "\<sigma>s j"] by (auto simp: run_of_def)
  next
    case False
    then show ?thesis using r that by (simp add: run_of_def)
  qed
  ultimately show ?thesis using v n by (simp add: run_of_def less_Suc_eq)
qed

lemma frame_traces:
  assumes wf: "wf_aig C" and en: "entry C b" and tr: "traces C B k b" and B: "lit_in C B"
    and fr: "frame_sim C B vs b b'" and N: "nsize (uaiger b) \<le> nsize (uaiger b')"
  shows "traces C B (Suc k) b'"
proof -
  let ?u = "uaiger b" and ?u' = "uaiger b'"
  obtain o' cs where f: "u_outputs ?u' = u_outputs ?u @ [o']" "lit_ok (nsize ?u') vs B o'"
      "u_constraints ?u' = u_constraints ?u @ cs" "list_all2 (lit_ok (nsize ?u') vs) (constraints C) cs"
      "\<forall>i<length (nexts C). lit_ok (nsize ?u') vs (nexts C ! i) (vals b' ! nat (latch_var C i))"
      "\<forall>v. is_latch C v \<longrightarrow> vs ! nat v = vals b ! nat v"
    and s: "\<forall>\<tau>. uok \<tau> ?u' \<longrightarrow> uok \<tau> ?u \<and> gates_ok C (sem vs \<tau>)"
    and x: "\<forall>\<tau> \<sigma>. uok \<tau> ?u \<longrightarrow> (\<exists>\<tau>'. uok \<tau>' ?u' \<and> (\<forall>v<nsize ?u. \<tau>' v = \<tau> v)
          \<and> (\<forall>v. 2 \<le> v \<longrightarrow> v < num_inputs C + 2 \<longrightarrow> sem vs \<tau>' v = \<sigma> v))"
    using fr unfolding frame_sim_def by (elim exE conjE) (rule that)
  have t: "length (u_outputs ?u) = k"
      "\<forall>l\<in>set (u_outputs ?u) \<union> set (u_constraints ?u). l \<noteq> 0 \<and> \<bar>l\<bar> < nsize ?u"
    using tr by (auto simp: traces_def)
  have lits: "\<forall>l\<in>set (u_outputs ?u') \<union> set (u_constraints ?u'). l \<noteq> 0 \<and> \<bar>l\<bar> < nsize ?u'"
  proof -
    have "l \<noteq> 0 \<and> \<bar>l\<bar> < nsize ?u'" if "l \<in> set (u_outputs ?u) \<union> set (u_constraints ?u)" for l
      using bspec [OF t(2) that] N by linarith
    then show ?thesis
      using lit_okD(1,2) [OF f(2)] list_all2_lits [OF f(4)] unfolding f(1,3) by auto
  qed
  have nxt: "sem (vals b') \<tau> (latch_var C i) = lit_val (sem vs \<tau>) (nexts C ! i)" if "i < length (nexts C)" for i \<tau>
    unfolding sem_def [of "vals b'"] by (rule lit_okD(3) [OF f(5) [rule_format, OF that]])
  have out: "lit_val \<tau> o' = lit_val (sem vs \<tau>) B" for \<tau> using lit_okD(3) [OF f(2)] .
  have lat: "sem vs \<tau> v = sem (vals b) \<tau> v" if "is_latch C v" for v \<tau> using f(6) that by (simp add: sem_def)
  have A: "\<exists>\<sigma>s. run_of C (Suc k) \<sigma>s \<and> shows_run C B (Suc k) b' \<tau> \<sigma>s"
    if u: "uok \<tau> ?u'" and c: "\<forall>l\<in>set (u_constraints ?u'). lit_val \<tau> l" for \<tau>
  proof -
    have "uok \<tau> ?u" "\<forall>l\<in>set (u_constraints ?u). lit_val \<tau> l" using s u c f(3) by auto
    then obtain \<sigma>s where r: "run_of C k \<sigma>s" "shows_run C B k b \<tau> \<sigma>s" using tr unfolding traces_def by blast
    let ?\<sigma> = "sem vs \<tau>" and ?\<rho> = "sem (vals b') \<tau>"
    have v: "valid C ?\<sigma>" using s u c f(3) list_all2_cube [OF f(4), of \<tau>] by (simp add: valid_def constr_ok_def)
    have n: "next_ok C ?\<sigma> ?\<rho>" using nxt by (simp add: next_ok_def)
    have l: "?\<sigma> v = \<sigma>s k v" if "is_latch C v" for v using lat that r(2) by (simp add: shows_run_def)
    have "run_of C (Suc k) (\<sigma>s(k := ?\<sigma>, Suc k := ?\<rho>))" using run_of_extend [OF wf r(1) l v n] .
    moreover have "shows_run C B (Suc k) b' \<tau> (\<sigma>s(k := ?\<sigma>, Suc k := ?\<rho>))"
      using r(2) c out t(1) unfolding shows_run_def f(1) by (auto simp: less_Suc_eq nth_append)
    ultimately show ?thesis by blast
  qed
  have Bk: "\<exists>\<tau>. uok \<tau> ?u' \<and> shows_run C B (Suc k) b' \<tau> \<sigma>s" if r: "run_of C (Suc k) \<sigma>s" for \<sigma>s
  proof -
    have r': "run_of C k \<sigma>s" "valid C (\<sigma>s k)" "next_ok C (\<sigma>s k) (\<sigma>s (Suc k))" using r by (auto simp: run_of_Suc)
    then obtain \<tau> where \<tau>: "uok \<tau> ?u" "shows_run C B k b \<tau> \<sigma>s" using tr unfolding traces_def by blast
    obtain \<tau>' where \<tau>': "uok \<tau>' ?u'" "\<forall>v<nsize ?u. \<tau>' v = \<tau> v"
        "\<forall>v. 2 \<le> v \<longrightarrow> v < num_inputs C + 2 \<longrightarrow> sem vs \<tau>' v = \<sigma>s k v"
      using x \<tau>(1) by blast
    have old: "lit_val \<tau>' l = lit_val \<tau> l" if "\<bar>l\<bar> < nsize ?u" for l using \<tau>'(2) that by (intro lit_val_cong) simp
    have g: "gates_ok C (sem vs \<tau>')" using s \<tau>'(1) by blast
    have leaf: "sem vs \<tau>' v = \<sigma>s k v" if "is_leaf C v" for v
    proof (cases "is_latch C v")
      case True
      have "\<bar>vals b ! nat v\<bar> < nsize ?u" using en True by (simp add: entry_def)
      then have "sem (vals b) \<tau>' v = sem (vals b) \<tau> v" using old by (simp add: sem_def)
      then show ?thesis using lat True \<tau>(2) by (simp add: shows_run_def)
    next
      case False
      then show ?thesis using that \<tau>'(3) by (simp add: is_leaf_def is_latch_def)
    qed
    have eq: "lit_val (sem vs \<tau>') l = lit_val (\<sigma>s k) l" if "lit_in C l" for l
      using gates_ok_agree [OF wf g _ leaf that] r'(2) by (simp add: valid_def)
    have "constr_ok C (sem vs \<tau>')" using constr_ok_agree [OF wf g _ leaf] r'(2) by (simp add: valid_def)
    then have cs: "\<forall>l\<in>set cs. lit_val \<tau>' l" using list_all2_cube [OF f(4)] by (simp add: constr_ok_def)
    have "lit_val \<tau>' l" if "l \<in> set (u_constraints ?u)" for l
      using old [of l] t(2) \<tau>(2) that by (simp add: shows_run_def)
    moreover have "lit_val \<tau>' (u_outputs ?u' ! j) = lit_val (\<sigma>s j) B" if "j < Suc k" for j
    proof (cases "j = k")
      case True
      then show ?thesis using f(1) t(1) out eq [OF B] by (simp add: nth_append)
    next
      case False
      then have j: "j < k" using that by simp
      then have "\<bar>u_outputs ?u ! j\<bar> < nsize ?u" using t by simp
      then show ?thesis using j f(1) t(1) old \<tau>(2) by (simp add: nth_append shows_run_def)
    qed
    moreover have "sem (vals b') \<tau>' v = \<sigma>s (Suc k) v" if lv: "is_latch C v" for v
    proof -
      obtain i where i: "i < length (nexts C)" "v = latch_var C i" using is_latch_iff [OF wf, of v] lv by blast
      have "lit_in C (nexts C ! i)" using lit_in_simps(2) [OF wf] i(1) by simp
      then show ?thesis using nxt [OF i(1)] eq r'(3) i by (simp add: next_ok_def)
    qed
    ultimately show ?thesis using \<tau>'(1) cs f(3) unfolding shows_run_def by auto
  qed
  show ?thesis unfolding traces_def using A Bk lits f(1) t(1) by auto
qed

section \<open>The initial values\<close>

lemma init_values_ok:
  assumes "distinct (map abs ls)" and "\<forall>l\<in>set ls. 2 \<le> \<bar>l\<bar> \<and> \<bar>l\<bar> < int (length vs)"
  shows "\<exists>vs'. fold_opt init_value ls vs = Some vs' \<and> length vs' = length vs
    \<and> (\<forall>l\<in>set ls. vs' ! nat \<bar>l\<bar> = (if 0 < l then - 1 else 1))
    \<and> (\<forall>v\<ge>0. v \<notin> abs ` set ls \<longrightarrow> vs' ! nat v = vs ! nat v)"
  using assms
proof (induction ls arbitrary: vs)
  case Nil
  then show ?case by simp
next
  case (Cons l ls)
  define vs1 where "vs1 = vs[nat \<bar>l\<bar> := (if 0 < l then - 1 else 1)]"
  have l: "2 \<le> \<bar>l\<bar>" "\<bar>l\<bar> < int (length vs)" using Cons.prems(2) by auto
  have e: "init_value l vs = Some vs1" using l by (auto simp: init_value_def vs1_def vec_set_ok)
  have len: "length vs1 = length vs" by (simp add: vs1_def)
  obtain vs' where vs': "fold_opt init_value ls vs1 = Some vs'" "length vs' = length vs1"
      "\<forall>k\<in>set ls. vs' ! nat \<bar>k\<bar> = (if 0 < k then - 1 else 1)"
      "\<forall>v\<ge>0. v \<notin> abs ` set ls \<longrightarrow> vs' ! nat v = vs1 ! nat v"
    using Cons.IH [of vs1] Cons.prems len by auto
  have "\<bar>l\<bar> \<notin> abs ` set ls" using Cons.prems(1) by simp
  then have "vs' ! nat \<bar>l\<bar> = vs1 ! nat \<bar>l\<bar>" using vs'(4) by simp
  also have "\<dots> = (if 0 < l then - 1 else 1)" using l by (simp add: vs1_def nat_less_iff)
  finally have "vs' ! nat \<bar>l\<bar> = (if 0 < l then - 1 else 1)" .
  moreover have "vs' ! nat v = vs ! nat v" if "0 \<le> v" "v \<notin> abs ` set (l # ls)" for v
    using vs'(4) that by (simp add: vs1_def nat_eq_iff)
  ultimately show ?case using vs' e len by simp
qed

definition init_read :: "Aiger \<Rightarrow> int list \<Rightarrow> BMC \<Rightarrow> nat \<Rightarrow> BMC \<Rightarrow> bool" where
  "init_read C vs b m b' = (only_unfolded b b' \<and> u_ands (uaiger b') = [] \<and> u_outputs (uaiger b') = []
     \<and> u_constraints (uaiger b') = [] \<and> hash_table (uaiger b') = (\<lambda>_. []) \<and> hash_size (uaiger b') = 99999999
     \<and> nsize (uaiger b') = 2 + int m \<and> length (vals b') = length vs
     \<and> (\<forall>i<m. vals b' ! nat (latch_var C i)
          = (if vs ! nat (latch_var C i) = 0 then 2 + int i else vs ! nat (latch_var C i)))
     \<and> (\<forall>v. 0 \<le> v \<longrightarrow> (\<forall>i<m. v \<noteq> latch_var C i) \<longrightarrow> vals b' ! nat v = vs ! nat v))"

lemma init_latches_ok:
  assumes wf: "wf_aig C" and b: "init_read C vs b 0 b" "b_aiger b = C"
    and len: "first_and C \<le> int (length vs)"
  shows "\<exists>b'. fold_opt init_latch [0..num_latches C - 1] b = Some b' \<and> init_read C vs b (length (nexts C)) b'"
proof -
  have nn: "0 \<le> num_inputs C" "num_latches C = int (length (nexts C))" using wf_aigD [OF wf] by auto
  have "\<exists>b'. fold_opt init_latch [0..int (length (nexts C)) - 1] b = Some b' \<and> init_read C vs b (length (nexts C)) b'"
  proof (rule fold_opt_upto [where P = "init_read C vs b"])
    show "init_read C vs b 0 b" by (rule b(1))
    fix m t
    assume m: "m < length (nexts C)" and t: "init_read C vs b m t"
    let ?v = "latch_var C m" and ?u = "push_node (mkNode 2 0 0 0) (uaiger t)"
    have C: "b_aiger t = C" using t b(2) by (simp add: init_read_def only_unfolded_def)
    have l: "?v < int (length (vals t))" using t len m nn by (simp add: init_read_def)
    then have l': "nat ?v < length (vals t)" using nn by (simp add: nat_less_iff)
    define t' where "t' = t\<lparr>uaiger := ?u,
      vals := (if vals t ! nat ?v = 0 then (vals t)[nat ?v := 2 + int m] else vals t)\<rparr>"
    have n: "nsize ?u = 2 + int (Suc m)" using t by (simp add: init_read_def)
    have "init_latch (int m) t = Some t'"
      using l nn n C by (auto simp: init_latch_def vec_at_def vec_set_ok t'_def Let_def add.commute add.left_commute)
    moreover have "init_read C vs b (Suc m) t'"
    proof -
      have v: "vals t ! nat ?v = vs ! nat ?v" using t nn by (simp add: init_read_def)
      have new: "vals t' ! nat ?v = (if vs ! nat ?v = 0 then 2 + int m else vs ! nat ?v)"
        using l' v by (simp add: t'_def)
      have old: "vals t' ! nat x = vals t ! nat x" if "0 \<le> x" "x \<noteq> ?v" for x
        using that nn by (simp add: t'_def nth_list_update nat_eq_iff)
      have "vals t' ! nat (latch_var C i)
          = (if vs ! nat (latch_var C i) = 0 then 2 + int i else vs ! nat (latch_var C i))" if "i < Suc m" for i
        using that new old [of "latch_var C i"] t nn by (cases "i = m") (auto simp: init_read_def)
      moreover have "vals t' ! nat x = vs ! nat x" if "0 \<le> x" "\<forall>i<Suc m. x \<noteq> latch_var C i" for x
        using that old [of x] t by (simp add: init_read_def)
      moreover have "nsize (uaiger t') = 2 + int (Suc m)" "length (vals t') = length (vals t)"
        using n by (simp_all add: t'_def)
      ultimately show ?thesis using t
        by (simp add: init_read_def only_unfolded_def) (simp add: t'_def push_node_def)
    qed
    ultimately show "\<exists>t'. init_latch (int m) t = Some t' \<and> init_read C vs b (Suc m) t'" by blast
  qed
  then show ?thesis using nn by simp
qed

definition started :: "BMC \<Rightarrow> BMC \<Rightarrow> bool" where
  "started b b' = (b_aiger b' = b_aiger b \<and> nframes b' = nframes b \<and> max_nodes b' = max_nodes b
      \<and> b_thread_index b' = b_thread_index b \<and> max_thread_index b' = max_thread_index b
      \<and> b_RESULT b' = b_RESULT b \<and> b_polls b' = b_polls b \<and> b_cout b' = b_cout b
      \<and> bmcSolver b' = add_clause [- 1] CaDiCaL_new \<and> lit_has_insert b' = (\<lambda>_. False)
      \<and> u_ands (uaiger b') = [] \<and> u_outputs (uaiger b') = [] \<and> u_constraints (uaiger b') = []
      \<and> hash_size (uaiger b') = 99999999 \<and> nsize (uaiger b') = 2 + num_latches (b_aiger b))"

theorem bmc_initialize_ok:
  assumes ld: "loaded C" and C: "b_aiger b = C" and d: "distinct (map abs (init_state C))"
  shows "\<exists>b'. bmc_initialize b = Some b' \<and> started b b' \<and> entry C b' \<and> traces C B 0 b'"
proof -
  have wf: "wf_aig C" and len: "int (length (variables C)) = first_and C + int (length (ands C))"
    using ld wf_aigD(6) by (auto simp: loaded_def)
  have nn: "0 \<le> num_inputs C" "num_latches C = int (length (nexts C))" using wf_aigD [OF wf] by auto
  let ?vs1 = "(replicate (length (variables C)) 0)[1 := 1] :: int list"
  have ini: "\<forall>l\<in>set (init_state C). is_latch C \<bar>l\<bar>" using lit_in_simps(5) [OF wf] by blast
  then have "\<forall>l\<in>set (init_state C). 2 \<le> \<bar>l\<bar> \<and> \<bar>l\<bar> < int (length ?vs1)"
    using len nn unfolding is_latch_def by fastforce
  then obtain vs where vs: "fold_opt init_value (init_state C) ?vs1 = Some vs" "length vs = length ?vs1"
      "\<forall>l\<in>set (init_state C). vs ! nat \<bar>l\<bar> = (if 0 < l then - 1 else 1)"
      "\<forall>v\<ge>0. v \<notin> abs ` set (init_state C) \<longrightarrow> vs ! nat v = ?vs1 ! nat v"
    using init_values_ok [OF d] by blast
  have two: "1 < length (variables C)" using len nn by linarith
  have set1: "vec_set (replicate (length (variables C)) 0) 1 1 = Some ?vs1" using two by (simp add: vec_set_ok)
  define u where "u = push_node (mkNode 1 0 0 0) (push_node (mkNode 0 0 0 0) (UnfoldAiger_new\<lparr>hash_size := 99999999\<rparr>))"
  define b0 where "b0 = b\<lparr>uaiger := u, vals := vs, bmcSolver := add_clause [- 1] CaDiCaL_new,
          lit_has_insert := (\<lambda>_. False), insert_size := 99999999, bmc_frame_k := 0\<rparr>"
  have "init_read C vs b0 0 b0"
    by (simp add: init_read_def b0_def u_def) (simp add: push_node_def UnfoldAiger_new_def nsize_def)
  then obtain b' where b': "fold_opt init_latch [0..num_latches C - 1] b0 = Some b'"
      "init_read C vs b0 (length (nexts C)) b'"
    using init_latches_ok [OF wf, of vs b0] C vs(2) len by (auto simp: b0_def)
  have "bmc_initialize b = Some b'"
    using C set1 vs(1) b'(1) by (simp add: bmc_initialize_def u_def [symmetric] b0_def Let_def)
  moreover have "started b b'"
    using b'(2) C nn by (simp add: started_def init_read_def only_unfolded_def) (simp add: b0_def)
  moreover have one: "vals b' ! 1 = 1"
  proof -
    have "1 \<notin> abs ` set (init_state C)" using ini nn by (auto simp: is_latch_def)
    then have "vs ! nat 1 = ?vs1 ! nat 1" using vs(4) [rule_format, of 1] by simp
    then have "vs ! 1 = 1" using two by simp
    moreover have "\<forall>i<length (nexts C). 1 \<noteq> latch_var C i" using nn by simp
    ultimately show ?thesis using b'(2) unfolding init_read_def by (metis nat_one_as_int zero_le_one)
  qed
  have lv: "vals b' ! nat (latch_var C i) = (if vs ! nat (latch_var C i) = 0 then 2 + int i else vs ! nat (latch_var C i))"
    if "i < length (nexts C)" for i using b'(2) that by (simp add: init_read_def)
  have lv0: "vs ! nat v = 0" if "is_latch C v" "v \<notin> abs ` set (init_state C)" for v
    using vs(4) that nn len by (auto simp: is_latch_def nth_list_update)
  have lvi: "vals b' ! nat \<bar>l\<bar> = (if 0 < l then - 1 else 1)" if l: "l \<in> set (init_state C)" for l
  proof -
    obtain i where i: "i < length (nexts C)" "\<bar>l\<bar> = latch_var C i" using ini l is_latch_iff [OF wf] by blast
    have "vs ! nat \<bar>l\<bar> = (if 0 < l then - 1 else 1)" using vs(3) l by blast
    then show ?thesis using lv [OF i(1)] i(2) by (auto split: if_splits)
  qed
  moreover have "entry C b'"
  proof -
    have "vals b' ! nat v \<noteq> 0 \<and> \<bar>vals b' ! nat v\<bar> < nsize (uaiger b')" if v: "is_latch C v" for v
    proof -
      obtain i where i: "i < length (nexts C)" "v = latch_var C i" using is_latch_iff [OF wf] v by blast
      have "nsize (uaiger b') = 2 + int (length (nexts C))" using b'(2) by (simp add: init_read_def)
      then show ?thesis
      proof (cases "v \<in> abs ` set (init_state C)")
        case True
        then obtain l where l: "l \<in> set (init_state C)" "v = \<bar>l\<bar>" by blast
        then have "vals b' ! nat v = (if 0 < l then - 1 else 1)" using lvi [OF l(1)] by simp
        then show ?thesis using \<open>nsize (uaiger b') = _\<close> by simp
      next
        case False
        then show ?thesis using lv [OF i(1)] lv0 [OF v] i \<open>nsize (uaiger b') = _\<close> by simp
      qed
    qed
    moreover have "u_wf (uaiger b')" using b'(2) by (simp add: init_read_def u_wf_def)
    ultimately show ?thesis
      using one b'(2) C vs(2) len by (simp add: entry_def init_read_def only_unfolded_def) (simp add: b0_def)
  qed
  moreover have "traces C B 0 b'"
  proof -
    have A: "init_ok C (sem (vals b') \<tau>)" if "\<not> \<tau> 1" for \<tau>
      unfolding init_ok_def cube_true_set
    proof
      fix l assume l: "l \<in> set (init_state C)"
      then have "l \<noteq> 0" using ini nn by (force simp: is_latch_def)
      then show "lit_val (sem (vals b') \<tau>) l" using lvi [OF l] that by (auto simp: lit_val_def sem_def split: if_splits)
    qed
    have Bt: "\<exists>\<tau>. \<not> \<tau> 1 \<and> (\<forall>v. is_latch C v \<longrightarrow> sem (vals b') \<tau> v = \<sigma> v)" if s: "init_ok C \<sigma>" for \<sigma>
    proof (intro exI [of _ "\<lambda>x. 2 \<le> x \<and> \<sigma> (x + num_inputs C)"] conjI allI impI)
      fix v assume v: "is_latch C v"
      obtain i where i: "i < length (nexts C)" "v = latch_var C i" using is_latch_iff [OF wf] v by blast
      show "sem (vals b') (\<lambda>x. 2 \<le> x \<and> \<sigma> (x + num_inputs C)) v = \<sigma> v"
      proof (cases "v \<in> abs ` set (init_state C)")
        case True
        then obtain l where l: "l \<in> set (init_state C)" "v = \<bar>l\<bar>" by blast
        have "lit_val \<sigma> l" "l \<noteq> 0" using s l v nn by (auto simp: init_ok_def cube_true_set is_latch_def)
        then show ?thesis using lvi [OF l(1)] l(2) by (auto simp: sem_def lit_val_def split: if_splits)
      next
        case False
        then have "vals b' ! nat v = 2 + int i" using lv [OF i(1)] lv0 [OF v] i(2) by simp
        then show ?thesis using i(2) by (simp add: sem_def lit_val_def add.commute add.left_commute)
      qed
    qed simp
    have A': "\<exists>\<sigma>s. init_ok C (\<sigma>s (0::nat)) \<and> (\<forall>v. is_latch C v \<longrightarrow> sem (vals b') \<tau> v = \<sigma>s 0 v)" if "\<not> \<tau> 1" for \<tau>
      by (rule exI [of _ "\<lambda>_. sem (vals b') \<tau>"]) (use A that in simp)
    have e: "u_ands (uaiger b') = []" "u_outputs (uaiger b') = []" "u_constraints (uaiger b') = []"
      using b'(2) by (auto simp: init_read_def)
    show ?thesis
      unfolding traces_def run_of_def shows_run_def uok_def e
      using A' Bt by auto
  qed
  ultimately show ?thesis by blast
qed

section \<open>The clauses in the solver\<close>

definition need_ok :: "And list \<Rightarrow> nat \<Rightarrow> int set \<Rightarrow> (int \<Rightarrow> bool) \<Rightarrow> int \<Rightarrow> bool" where
  "need_ok U i S ins v = (\<forall>m<length U. v = out (U ! m) \<longrightarrow> ins (int m) \<or> v \<in> S \<and> m < i)"

text \<open>A variable is closed when the gate that drives it, if there is one, is in the solver.\<close>

abbreviation closed :: "And list \<Rightarrow> (int \<Rightarrow> bool) \<Rightarrow> int \<Rightarrow> bool" where
  "closed U ins v \<equiv> need_ok U 0 {} ins v"

definition gate_part :: "And list \<Rightarrow> (int \<Rightarrow> bool) \<Rightarrow> clause set" where
  "gate_part U ins = (\<Union>j\<in>{j. j < length U \<and> ins (int j)}. set (gate_clauses (U ! j)))"

definition coi_inv :: "And list \<Rightarrow> clause set \<Rightarrow> int set \<Rightarrow> nat \<Rightarrow> int set \<times> (int \<Rightarrow> bool) \<times> CaDiCaL \<Rightarrow> bool" where
  "coi_inv U R S0 i st = (case st of (S, ins, s) \<Rightarrow>
     (\<forall>v\<in>S0. need_ok U i S ins v)
     \<and> (\<forall>j<length U. ins (int j) \<longrightarrow> need_ok U i S ins \<bar>i1 (U ! j)\<bar> \<and> need_ok U i S ins \<bar>i2 (U ! j)\<bar>)
     \<and> (\<forall>j. ins j \<longrightarrow> 0 \<le> j \<and> j < int (length U))
     \<and> set (clauses s) = R \<union> gate_part U ins \<and> pending s = [] \<and> assumed s = [] \<and> 0 \<le> nv s)"

definition gates_wf :: "And list \<Rightarrow> bool" where
  "gates_wf U = (sorted_wrt (<) (map out U) \<and> (\<forall>g\<in>set U. \<exists>N. node_gate N g))"

lemma gates_wf_mono: "gates_wf U \<Longrightarrow> m < i \<Longrightarrow> i < length U \<Longrightarrow> out (U ! m) < out (U ! i)"
  by (simp add: gates_wf_def sorted_wrt_iff_nth_less)

lemma gates_wf_less: "gates_wf U \<Longrightarrow> m < length U \<Longrightarrow> i < length U \<Longrightarrow> out (U ! m) < out (U ! i) \<Longrightarrow> m < i"
  using gates_wf_mono [of U i m] by (cases m i rule: linorder_cases) auto

lemma gates_wf_inj: "gates_wf U \<Longrightarrow> m < length U \<Longrightarrow> i < length U \<Longrightarrow> out (U ! m) = out (U ! i) \<Longrightarrow> m = i"
  using gates_wf_mono [of U i m] gates_wf_mono [of U m i] by (cases m i rule: linorder_cases) auto

lemma gates_wf_gate: "gates_wf U \<Longrightarrow> i < length U \<Longrightarrow>
   i1 (U ! i) \<noteq> 0 \<and> \<bar>i1 (U ! i)\<bar> < out (U ! i) \<and> i2 (U ! i) \<noteq> 0 \<and> \<bar>i2 (U ! i)\<bar> < out (U ! i) \<and> 2 \<le> out (U ! i)"
  using nth_mem [of i U] by (fastforce simp: gates_wf_def node_gate_def)

lemma gate_clauses_nonzero: "gates_wf U \<Longrightarrow> i < length U \<Longrightarrow> nonzero (gate_clauses (U ! i))"
  using gates_wf_gate [of U i] by (auto simp: gate_clauses_def and_clauses_def)

lemma coi_step:
  assumes U: "gates_wf U" and i: "i < length U" and inv: "coi_inv U R S0 (Suc i) st"
  shows "coi_inv U R S0 i (coi_gate (int i, U ! i) st)"
proof -
  let ?g = "U ! i"
  obtain S ins s where st: "st = (S, ins, s)" by (cases st)
  show ?thesis
  proof (cases "ins (int i) \<or> out ?g \<notin> S")
    case True
    have "need_ok U i S ins v" if "need_ok U (Suc i) S ins v" for v
      using that True by (auto simp: need_ok_def less_Suc_eq)
    then show ?thesis using inv True by (auto simp: coi_inv_def st coi_gate_def)
  next
    case False
    let ?S = "(S - {out ?g}) \<union> {\<bar>i1 ?g\<bar>, \<bar>i2 ?g\<bar>}" and ?ins = "ins(int i := True)"
    note g = gates_wf_gate [OF U i]
    have old: "need_ok U i ?S ?ins v" if v: "need_ok U (Suc i) S ins v" for v
      unfolding need_ok_def
    proof (intro allI impI)
      fix m assume m: "m < length U" "v = out (U ! m)"
      then have "ins (int m) \<or> v \<in> S \<and> m < Suc i" using v by (simp add: need_ok_def)
      moreover have "v \<noteq> out ?g" if "m \<noteq> i" using gates_wf_inj [OF U m(1) i] m(2) that by auto
      ultimately show "?ins (int m) \<or> v \<in> ?S \<and> m < i" by (cases "m = i") auto
    qed
    have new: "need_ok U i ?S ?ins v" if "v = \<bar>i1 ?g\<bar> \<or> v = \<bar>i2 ?g\<bar>" for v
      using that g gates_wf_less [OF U _ i] by (auto simp: need_ok_def)
    have s': "add_cnf (gate_clauses ?g) s = s\<lparr>clauses := clauses s @ gate_clauses ?g,
        emax := fold lit_bound (gate_clauses ?g) (emax s), nv := fold lit_bound (gate_clauses ?g) (nv s)\<rparr>"
      using inv gate_clauses_nonzero [OF U i] by (intro add_cnf_eq) (auto simp: coi_inv_def st)
    have part: "gate_part U ?ins = gate_part U ins \<union> set (gate_clauses ?g)"
      using i by (auto simp: gate_part_def split: if_splits)
    have nv: "0 \<le> fold lit_bound (gate_clauses ?g) (nv s)"
      using inv fold_lit_bound_ge [of "nv s" "gate_clauses ?g"] by (auto simp: coi_inv_def st)
    have kids: "need_ok U i ?S ?ins \<bar>i1 (U ! j)\<bar> \<and> need_ok U i ?S ?ins \<bar>i2 (U ! j)\<bar>"
      if "j < length U" "?ins (int j)" for j
      using that inv old new by (cases "j = i") (auto simp: coi_inv_def st)
    show ?thesis
      using inv False old kids part nv i unfolding coi_inv_def st coi_gate_def by (simp add: s' Un_assoc)
  qed
qed

lemma coi_fold:
  assumes U: "gates_wf U" and inv: "coi_inv U R S0 (length U) st"
  shows "coi_inv U R S0 0 (fold coi_gate (rev (zip [0..int (length U) - 1] U)) st)"
proof -
  have z: "zip [0..int (length U) - 1] U = map (\<lambda>j. (int j, U ! j)) [0..<length U]"
    by (rule nth_equalityI) auto
  have "coi_inv U R S0 0 (fold coi_gate (rev (map (\<lambda>j. (int j, U ! j)) [0..<i])) st)"
    if "i \<le> length U" "coi_inv U R S0 i st" for i st
    using that
  proof (induction i arbitrary: st)
    case (Suc i)
    then have "coi_inv U R S0 i (coi_gate (int i, U ! i) st)" using coi_step [OF U] by simp
    then show ?case using Suc by simp
  qed simp
  then show ?thesis using inv z by simp
qed

text \<open>An assignment of a cone-closed part of the gates extends to all gates.\<close>

lemma gates_eval_sorted:
  assumes "gates_wf U"
  shows "(\<forall>g\<in>set U. gate_ok (gates_eval U \<alpha>) g) \<and> (\<forall>v. v \<notin> out ` set U \<longrightarrow> gates_eval U \<alpha> v = \<alpha> v)
    \<and> ((\<forall>g\<in>set U. out g \<in> K \<longrightarrow> gate_ok \<alpha> g \<and> \<bar>i1 g\<bar> \<in> K \<and> \<bar>i2 g\<bar> \<in> K) \<longrightarrow> (\<forall>v\<in>K. gates_eval U \<alpha> v = \<alpha> v))"
  using assms
proof (induction U rule: rev_induct)
  case Nil
  then show ?case by (simp add: gates_eval_def)
next
  case (snoc g U)
  let ?t = "gates_eval U \<alpha>"
  have U: "gates_wf U" and lt: "\<forall>h\<in>set U. out h < out g" and ng: "\<exists>N. node_gate N g" "\<forall>h\<in>set U. \<exists>N. node_gate N h"
    using snoc.prems by (auto simp: gates_wf_def sorted_wrt_append)
  note IH = snoc.IH [OF U]
  have same: "gate_eval ?t g v = ?t v" if "v \<noteq> out g" for v using that by (rule gate_eval_other)
  have l: "lit_val (gate_eval ?t g) l = lit_val ?t l" if "\<bar>l\<bar> < out g" for l
    using that by (intro lit_val_cong same) simp
  have a: "gate_ok (gate_eval ?t g) h" if h: "h \<in> set U" for h
  proof -
    have "out h < out g" "\<bar>i1 h\<bar> < out h" "\<bar>i2 h\<bar> < out h" using lt ng(2) h by (auto simp: node_gate_def)
    moreover have "gate_ok ?t h" using IH h by blast
    ultimately show ?thesis by (simp add: gate_ok_def l same)
  qed
  have kids: "\<bar>i1 g\<bar> < out g" "\<bar>i2 g\<bar> < out g" using ng(1) by (auto simp: node_gate_def)
  have b: "gate_ok (gate_eval ?t g) g" using kids by (simp add: gate_ok_def l) (simp add: gate_eval_def)
  have c: "gate_eval ?t g v = \<alpha> v"
    if K: "\<forall>h\<in>set (U @ [g]). out h \<in> K \<longrightarrow> gate_ok \<alpha> h \<and> \<bar>i1 h\<bar> \<in> K \<and> \<bar>i2 h\<bar> \<in> K" and v: "v \<in> K" for v
  proof -
    have t: "?t x = \<alpha> x" if "x \<in> K" for x using IH K that by auto
    show ?thesis
    proof (cases "v = out g")
      case True
      then have g: "gate_ok \<alpha> g" "\<bar>i1 g\<bar> \<in> K" "\<bar>i2 g\<bar> \<in> K" using K v by auto
      then have "lit_val ?t (i1 g) = lit_val \<alpha> (i1 g)" "lit_val ?t (i2 g) = lit_val \<alpha> (i2 g)"
        using t by (auto intro!: lit_val_cong)
      then show ?thesis using True g(1) by (simp add: gate_eval_def gate_ok_def)
    next
      case False
      then show ?thesis using same t v by simp
    qed
  qed
  show ?case unfolding gates_eval_snoc using a b c IH same by auto
qed

section \<open>The solver between two frames\<close>

definition solver_inv :: "int set \<Rightarrow> BMC \<Rightarrow> bool" where
  "solver_inv NB b = (let u = uaiger b; U = u_ands u; ins = lit_has_insert b; s = bmcSolver b in
     NB \<subseteq> set (u_outputs u) \<and> set (clauses s) = {[- 1]} \<union> (\<lambda>l. [l]) ` set (u_constraints u)
        \<union> (\<lambda>l. [- l]) ` NB \<union> gate_part U ins
     \<and> pending s = [] \<and> assumed s = [] \<and> 0 \<le> nv s
     \<and> (\<forall>j. ins j \<longrightarrow> 0 \<le> j \<and> j < int (length U))
     \<and> (\<forall>j<length U. ins (int j) \<longrightarrow> closed U ins \<bar>i1 (U ! j)\<bar> \<and> closed U ins \<bar>i2 (U ! j)\<bar>)
     \<and> (\<forall>l\<in>set (u_outputs u) \<union> set (u_constraints u). closed U ins \<bar>l\<bar>))"

lemma u_wf_gates: "u_wf u \<Longrightarrow> gates_wf (u_ands u)"
  by (auto simp: u_wf_def gates_wf_def)

lemma closed_append:
  assumes "closed U ins v" "\<forall>g\<in>set gs. v < out g"
  shows "closed (U @ gs) ins v"
  using assms by (auto simp: need_ok_def nth_append split: if_splits dest: nth_mem)

lemma gate_part_append: "\<forall>j. ins j \<longrightarrow> j < int (length U) \<Longrightarrow> gate_part (U @ gs) ins = gate_part U ins"
  by (fastforce simp: gate_part_def nth_append)

lemma need_ok_mono: "closed U ins v \<Longrightarrow> need_ok U i S ins v"
  by (auto simp: need_ok_def)

lemma coi_inv_0: "coi_inv U R S0 0 (S, ins, s) =
    ((\<forall>v\<in>S0. closed U ins v)
     \<and> (\<forall>j<length U. ins (int j) \<longrightarrow> closed U ins \<bar>i1 (U ! j)\<bar> \<and> closed U ins \<bar>i2 (U ! j)\<bar>)
     \<and> (\<forall>j. ins j \<longrightarrow> 0 \<le> j \<and> j < int (length U))
     \<and> set (clauses s) = R \<union> gate_part U ins \<and> pending s = [] \<and> assumed s = [] \<and> 0 \<le> nv s)"
  by (simp add: coi_inv_def need_ok_def)

lemma need_ok_member: "v \<in> S \<Longrightarrow> need_ok U (length U) S ins v"
  by (auto simp: need_ok_def)

lemma units_nonzero: "(\<And>l. l \<in> set ls \<Longrightarrow> l \<noteq> 0) \<Longrightarrow> nonzero (map (\<lambda>l. [l]) ls)"
  by (auto simp: nonzero_def)

lemma add_frame_clauses_ok:
  assumes inv: "solver_inv NB b" and only: "only_unfolded b b1" and wf: "u_wf (uaiger b)" "u_wf (uaiger b1)"
    and gs: "u_ands (uaiger b1) = u_ands (uaiger b) @ gs" "\<forall>g\<in>set gs. nsize (uaiger b) \<le> out g"
    and o: "u_outputs (uaiger b1) = u_outputs (uaiger b) @ [o']"
    and cs: "u_constraints (uaiger b1) = u_constraints (uaiger b) @ cs" "length cs = length (constraints (b_aiger b))"
    and old: "\<forall>l\<in>set (u_outputs (uaiger b)) \<union> set (u_constraints (uaiger b)). \<bar>l\<bar> < nsize (uaiger b)"
    and nz: "\<forall>l\<in>set cs. l \<noteq> 0"
  shows "\<exists>b2. add_frame_clauses b1 = Some b2 \<and> solver_inv NB b2
    \<and> (\<exists>h s ins sz mi. b2 = b1\<lparr>uaiger := (uaiger b1)\<lparr>hash_size := h\<rparr>, bmcSolver := s, lit_has_insert := ins,
          insert_size := sz, max_index_of_ands_added_to_solver := mi\<rparr>
        \<and> h = max (hash_size (uaiger b1)) (nsize (uaiger b1) + num_ands (b_aiger b) * 3))"
proof -
  let ?u = "uaiger b" and ?u1 = "uaiger b1"
  let ?U = "u_ands ?u" and ?U1 = "u_ands ?u1" and ?ins = "lit_has_insert b" and ?s = "bmcSolver b"
  have NB: "NB \<subseteq> set (u_outputs ?u)" "set (clauses ?s) = {[- 1]} \<union> (\<lambda>l. [l]) ` set (u_constraints ?u)
        \<union> (\<lambda>l. [- l]) ` NB \<union> gate_part ?U ?ins"
    and s: "pending ?s = []" "assumed ?s = []" "0 \<le> nv ?s"
    and ins: "\<forall>j. ?ins j \<longrightarrow> 0 \<le> j \<and> j < int (length ?U)"
    and kids: "\<forall>j<length ?U. ?ins (int j) \<longrightarrow> closed ?U ?ins \<bar>i1 (?U ! j)\<bar> \<and> closed ?U ?ins \<bar>i2 (?U ! j)\<bar>"
    and top: "\<forall>l\<in>set (u_outputs ?u) \<union> set (u_constraints ?u). closed ?U ?ins \<bar>l\<bar>"
    using inv unfolding solver_inv_def Let_def by blast+
  have same: "bmcSolver b1 = ?s" "lit_has_insert b1 = ?ins" "b_aiger b1 = b_aiger b"
    using only by (auto simp: only_unfolded_def)
  have cs': "drop (length (u_constraints ?u1) - length (constraints (b_aiger b))) (u_constraints ?u1) = cs"
    using cs by simp
  define s1 where "s1 = add_cnf (map (\<lambda>l. [l]) cs) ?s"
  have s1: "s1 = ?s\<lparr>clauses := clauses ?s @ map (\<lambda>l. [l]) cs, emax := fold lit_bound (map (\<lambda>l. [l]) cs) (emax ?s),
      nv := fold lit_bound (map (\<lambda>l. [l]) cs) (nv ?s)\<rparr>"
    unfolding s1_def using s nz by (intro add_cnf_eq units_nonzero) auto
  have nv1: "0 \<le> nv s1" using s(3) fold_lit_bound_ge [of "nv ?s" "map (\<lambda>l. [l]) cs"] by (simp add: s1)
  let ?R = "{[- 1]} \<union> (\<lambda>l. [l]) ` set (u_constraints ?u1) \<union> (\<lambda>l. [- l]) ` NB"
  let ?S = "{\<bar>o'\<bar>} \<union> abs ` set cs" and ?T = "abs ` (set (u_outputs ?u1) \<union> set (u_constraints ?u1))"
  have lift: "closed ?U1 ?ins v" if "closed ?U ?ins v" "v < nsize ?u" for v
    unfolding gs(1) using that gs(2) by (intro closed_append) auto
  have start: "coi_inv ?U1 ?R ?T (length ?U1) (?S, ?ins, s1)"
  proof -
    have "need_ok ?U1 (length ?U1) ?S ?ins \<bar>l\<bar>" if "l \<in> set (u_outputs ?u1) \<union> set (u_constraints ?u1)" for l
    proof (cases "l \<in> set (u_outputs ?u) \<union> set (u_constraints ?u)")
      case True
      then have "closed ?U ?ins \<bar>l\<bar>" "\<bar>l\<bar> < nsize ?u" using top old by blast+
      then show ?thesis by (rule need_ok_mono [OF lift])
    next
      case False
      then show ?thesis using that o cs(1) by (intro need_ok_member) auto
    qed
    moreover have "need_ok ?U1 (length ?U1) ?S ?ins \<bar>i1 (?U1 ! j)\<bar> \<and> need_ok ?U1 (length ?U1) ?S ?ins \<bar>i2 (?U1 ! j)\<bar>"
      if j: "j < length ?U1" "?ins (int j)" for j
    proof -
      have jU: "j < length ?U" using ins [rule_format, OF j(2)] by simp
      then have e: "?U1 ! j = ?U ! j" by (simp add: gs(1) nth_append)
      have "node_gate (nsize ?u) (?U ! j)" using wf(1) jU by (simp add: u_wf_def)
      then have "\<bar>i1 (?U ! j)\<bar> < nsize ?u" "\<bar>i2 (?U ! j)\<bar> < nsize ?u" by (auto simp: node_gate_def)
      moreover have "closed ?U ?ins \<bar>i1 (?U ! j)\<bar>" "closed ?U ?ins \<bar>i2 (?U ! j)\<bar>" using kids jU j(2) by blast+
      ultimately show ?thesis unfolding e using need_ok_mono [OF lift] by blast
    qed
    moreover have "set (clauses s1) = ?R \<union> gate_part ?U1 ?ins"
      using NB(2) gate_part_append [of ?ins ?U gs] ins by (auto simp: s1 gs(1) cs(1))
    moreover have "j < int (length ?U1)" if "?ins j" for j using ins [rule_format, OF that] by (simp add: gs(1))
    ultimately show ?thesis using s nv1 ins unfolding coi_inv_def by (auto simp: s1)
  qed
  obtain S' ins' s2 where f: "fold coi_gate (rev (zip [0..asize ?u1 - 1] ?U1)) (?S, ?ins, s1) = (S', ins', s2)"
    by (cases "fold coi_gate (rev (zip [0..asize ?u1 - 1] ?U1)) (?S, ?ins, s1)")
  have fin: "coi_inv ?U1 ?R ?T 0 (S', ins', s2)"
    using coi_fold [OF u_wf_gates [OF wf(2)] start] f by (simp add: asize_def)
  define b2 where "b2 = b1\<lparr>uaiger := ?u1\<lparr>hash_size := max (hash_size ?u1) (nsize ?u1 + num_ands (b_aiger b) * 3)\<rparr>,
    bmcSolver := s2, lit_has_insert := ins', insert_size := max (insert_size b1) (asize ?u1),
    max_index_of_ands_added_to_solver := asize ?u1 - 1\<rparr>"
  have at: "vec_at (u_outputs ?u1) (osize ?u1 - 1) = Some o'" by (simp add: o osize_def vec_at_def)
  have "add_frame_clauses b1 = Some b2"
    using f by (simp add: add_frame_clauses_def at same cs' s1_def [symmetric] b2_def Let_def)
  moreover have "solver_inv NB b2"
  proof -
    have "NB \<subseteq> set (u_outputs ?u1)" using NB(1) o by auto
    then show ?thesis using fin unfolding coi_inv_0 solver_inv_def Let_def b2_def by simp
  qed
  ultimately show ?thesis unfolding b2_def by blast
qed

section \<open>One frame solved\<close>

lemma solver_inv_nonzero:
  assumes inv: "solver_inv NB b" and wf: "u_wf (uaiger b)"
    and nz: "\<forall>l\<in>set (u_outputs (uaiger b)) \<union> set (u_constraints (uaiger b)). l \<noteq> 0"
  shows "nonzero (clauses (bmcSolver b))"
proof -
  have "0 \<notin> set c" if "c \<in> gate_part (u_ands (uaiger b)) (lit_has_insert b)" for c
    using that gate_clauses_nonzero [OF u_wf_gates [OF wf]] by (auto simp: gate_part_def nonzero_def)
  moreover have "0 \<notin> NB" "0 \<notin> set (u_constraints (uaiger b))"
    using nz inv by (auto simp: solver_inv_def Let_def)
  ultimately show ?thesis using inv unfolding nonzero_def solver_inv_def Let_def by auto
qed

lemma solver_model:
  assumes inv: "solver_inv NB b" and wf: "u_wf (uaiger b)" and sat: "sat_cnf \<alpha> (clauses (bmcSolver b))"
  obtains \<tau> where "uok \<tau> (uaiger b)" "\<forall>l\<in>set (u_constraints (uaiger b)). lit_val \<tau> l"
    "\<forall>l\<in>set (u_outputs (uaiger b)). lit_val \<tau> l = lit_val \<alpha> l"
proof -
  let ?u = "uaiger b" and ?U = "u_ands (uaiger b)" and ?ins = "lit_has_insert b"
  note U = u_wf_gates [OF wf]
  have cl: "\<forall>c\<in>{[- 1]} \<union> (\<lambda>l. [l]) ` set (u_constraints ?u) \<union> gate_part ?U ?ins. sat_clause \<alpha> c"
    and kids: "\<forall>j<length ?U. ?ins (int j) \<longrightarrow> closed ?U ?ins \<bar>i1 (?U ! j)\<bar> \<and> closed ?U ?ins \<bar>i2 (?U ! j)\<bar>"
    and top: "\<forall>l\<in>set (u_outputs ?u) \<union> set (u_constraints ?u). closed ?U ?ins \<bar>l\<bar>"
    using inv sat unfolding solver_inv_def Let_def sat_cnf_set by auto
  define \<tau> where "\<tau> = gates_eval ?U \<alpha>"
  have one: "\<not> \<alpha> 1" using cl by (auto simp: sat_clause_def lit_val_def)
  have good: "gate_ok \<alpha> (?U ! m)" if "m < length ?U" "?ins (int m)" for m
  proof -
    have "sat_cnf \<alpha> (gate_clauses (?U ! m))" using cl that by (auto simp: gate_part_def sat_cnf_set)
    then show ?thesis using gates_wf_gate [OF U that(1)] by (simp add: gate_clauses_def sat_simps gate_ok_def)
  qed
  have K: "\<forall>g\<in>set ?U. out g \<in> Collect (closed ?U ?ins) \<longrightarrow> gate_ok \<alpha> g \<and> \<bar>i1 g\<bar> \<in> Collect (closed ?U ?ins)
      \<and> \<bar>i2 g\<bar> \<in> Collect (closed ?U ?ins)"
  proof (intro ballI impI)
    fix g assume g: "g \<in> set ?U" "out g \<in> Collect (closed ?U ?ins)"
    then obtain m where m: "m < length ?U" "g = ?U ! m" by (auto simp: in_set_conv_nth)
    then have "?ins (int m)" using g(2) by (auto simp: need_ok_def)
    then show "gate_ok \<alpha> g \<and> \<bar>i1 g\<bar> \<in> Collect (closed ?U ?ins) \<and> \<bar>i2 g\<bar> \<in> Collect (closed ?U ?ins)"
      using good kids m by simp
  qed
  have ev: "\<forall>g\<in>set ?U. gate_ok \<tau> g" "\<forall>v. v \<notin> out ` set ?U \<longrightarrow> \<tau> v = \<alpha> v" "\<forall>v. closed ?U ?ins v \<longrightarrow> \<tau> v = \<alpha> v"
    using gates_eval_sorted [OF U, of \<alpha> "Collect (closed ?U ?ins)"] K unfolding \<tau>_def by auto
  have "1 \<notin> out ` set ?U" using wf by (auto simp: u_wf_def node_gate_def)
  then have "\<not> \<tau> 1" using ev(2) one by simp
  then have "uok \<tau> ?u" using ev(1) by (simp add: uok_def)
  moreover have same: "lit_val \<tau> l = lit_val \<alpha> l" if "l \<in> set (u_outputs ?u) \<union> set (u_constraints ?u)" for l
    using top ev(3) that by (intro lit_val_cong) blast
  moreover have "lit_val \<alpha> l" if "l \<in> set (u_constraints ?u)" for l
    using bspec [OF cl, of "[l]"] that by (simp add: sat_clause_def)
  ultimately show thesis using that by auto
qed

lemma solver_sat:
  assumes inv: "solver_inv NB b" and t: "uok \<tau> (uaiger b)" and wf: "u_wf (uaiger b)"
    and c: "\<forall>l\<in>set (u_constraints (uaiger b)). lit_val \<tau> l"
    and nz: "\<forall>l\<in>set (u_outputs (uaiger b)). l \<noteq> 0"
    and o: "\<forall>l\<in>NB. \<not> lit_val \<tau> l"
  shows "sat_cnf \<tau> (clauses (bmcSolver b))"
proof -
  let ?U = "u_ands (uaiger b)"
  have "sat_clause \<tau> k" if k: "k \<in> gate_part ?U (lit_has_insert b)" for k
  proof -
    obtain j where j: "j < length ?U" "k \<in> set (gate_clauses (?U ! j))" using k by (auto simp: gate_part_def)
    have "gate_ok \<tau> (?U ! j)" using t j(1) by (simp add: uok_def)
    then have "sat_cnf \<tau> (gate_clauses (?U ! j))"
      using gates_wf_gate [OF u_wf_gates [OF wf] j(1)] by (simp add: gate_clauses_def sat_simps gate_ok_def)
    then show ?thesis using j(2) by (simp add: sat_cnf_set)
  qed
  moreover have "sat_clause \<tau> [- l]" if l: "l \<in> NB" for l
  proof -
    have "l \<in> set (u_outputs (uaiger b))" using inv l by (auto simp: solver_inv_def Let_def)
    then show ?thesis using o nz l by (simp add: sat_clause_def lit_val_uminus)
  qed
  moreover have "sat_clause \<tau> [- 1]" using t by (simp add: uok_def sat_clause_def lit_val_def)
  moreover have "sat_clause \<tau> [l]" if "l \<in> set (u_constraints (uaiger b))" for l
    using c that by (simp add: sat_clause_def)
  ultimately show ?thesis using inv unfolding solver_inv_def Let_def sat_cnf_set by auto
qed

lemma refute_ok:
  assumes inv: "solver_inv NB b" and o: "o' \<in> set (u_outputs (uaiger b))" "o' \<noteq> 0"
    and s: "clauses s = clauses (bmcSolver b)" "pending s = []" "assumed s = []" "0 \<le> nv s"
  shows "solver_inv (insert o' NB) (b\<lparr>bmcSolver := add_clause [- o'] s, b_cout := t\<rparr>)"
proof -
  have e: "add_clause [- o'] s = s\<lparr>clauses := clauses s @ [[- o']], pending := [],
      emax := lit_bound [- o'] (emax s), nv := lit_bound [- o'] (nv s)\<rparr>"
    using add_clause_eq [of "[- o']" s] o(2) s by simp
  have "0 \<le> lit_bound [- o'] (nv s)" using s(4) lit_bound_ge [of "nv s" "[- o']"] by simp
  then show ?thesis using inv o(1) s unfolding solver_inv_def Let_def e by auto
qed

definition mine :: "int \<Rightarrow> int \<Rightarrow> nat \<Rightarrow> bool" where
  "mine ti mx j = (mx = 1 \<or> int (Suc j) mod mx = ti)"

text \<open>The circuit and the number of frames fit the fixed sizes of the tables.\<close>

definition fits :: "Aiger \<Rightarrow> int \<Rightarrow> bool" where
  "fits C nf = (num_latches C \<le> 999999 \<and> first_and C + num_ands C \<le> 99999999
     \<and> (num_inputs C \<le> 2 * num_ands C
        \<or> 2 + num_latches C + nf * (num_inputs C + num_ands C) \<le> 99999999))"

definition size_inv :: "Aiger \<Rightarrow> nat \<Rightarrow> UnfoldAiger \<Rightarrow> bool" where
  "size_inv C k u = (99999999 \<le> hash_size u \<and> nsize u \<le> 2 + num_latches C + int k * (num_inputs C + num_ands C)
     \<and> (k = 0 \<or> nsize u + 3 * num_ands C \<le> hash_size u))"

lemma size_inv_room:
  assumes wf: "wf_aig C" and f: "fits C nf" and s: "size_inv C k u" and k: "int k < nf"
  shows "nsize u + num_inputs C + num_ands C \<le> hash_size u"
proof -
  have nn: "0 \<le> num_inputs C" "0 \<le> num_ands C" using wf_aigD [OF wf] by auto
  show ?thesis
  proof (cases "num_inputs C \<le> 2 * num_ands C")
    case True
    then show ?thesis using f s by (cases "k = 0") (auto simp: fits_def size_inv_def)
  next
    case False
    have "(int k + 1) * (num_inputs C + num_ands C) \<le> nf * (num_inputs C + num_ands C)"
      using k nn by (intro mult_right_mono) auto
    then show ?thesis using False f s by (simp add: fits_def size_inv_def algebra_simps)
  qed
qed

definition bmc_inv :: "Aiger \<Rightarrow> int \<Rightarrow> int \<Rightarrow> int \<Rightarrow> int \<Rightarrow> int set \<Rightarrow> nat \<Rightarrow> BMC \<Rightarrow> bool" where
  "bmc_inv C B nf ti mx NB k b = (entry C b \<and> traces C B k b \<and> solver_inv NB b \<and> size_inv C k (uaiger b)
     \<and> bmc_bad b = Some B \<and> nframes b = nf \<and> b_thread_index b = ti \<and> max_thread_index b = mx
     \<and> bmc_frame_k b = int k + 1 \<and> (\<forall>j<k. mine ti mx j \<longrightarrow> \<not> first_bad C B j))"

text \<open>The fields the invariants do not mention.\<close>

lemma inv_other_fields [simp]:
  "entry C (b\<lparr>b_RESULT := r\<rparr>) = entry C b" "entry C (b\<lparr>b_polls := n\<rparr>) = entry C b"
  "entry C (b\<lparr>bmc_frame_k := x\<rparr>) = entry C b"
  "entry C (b\<lparr>bmcSolver := s\<rparr>) = entry C b" "entry C (b\<lparr>b_cout := t\<rparr>) = entry C b"
  "traces C B k (b\<lparr>b_RESULT := r\<rparr>) = traces C B k b" "traces C B k (b\<lparr>b_polls := n\<rparr>) = traces C B k b"
  "traces C B k (b\<lparr>bmc_frame_k := x\<rparr>) = traces C B k b"
  "traces C B k (b\<lparr>bmcSolver := s\<rparr>) = traces C B k b" "traces C B k (b\<lparr>b_cout := t\<rparr>) = traces C B k b"
  "solver_inv NB (b\<lparr>b_RESULT := r\<rparr>) = solver_inv NB b" "solver_inv NB (b\<lparr>b_polls := n\<rparr>) = solver_inv NB b"
  "solver_inv NB (b\<lparr>bmc_frame_k := x\<rparr>) = solver_inv NB b"
  by (simp_all add: entry_def traces_def shows_run_def solver_inv_def)

lemma bmc_bad_other_fields [simp]:
  "bmc_bad (b\<lparr>b_RESULT := r\<rparr>) = bmc_bad b" "bmc_bad (b\<lparr>b_polls := n\<rparr>) = bmc_bad b"
  "bmc_bad (b\<lparr>bmc_frame_k := x\<rparr>) = bmc_bad b" "bmc_bad (b\<lparr>bmcSolver := s\<rparr>) = bmc_bad b"
  "bmc_bad (b\<lparr>b_cout := t\<rparr>) = bmc_bad b"
  by (simp_all add: bmc_bad_def Let_def)

lemma bmc_inv_read: "bmc_inv C B nf ti mx NB k b \<Longrightarrow> bmc_inv C B nf ti mx NB k (snd (b_read_RESULT e b))"
  by (simp add: bmc_inv_def b_read_RESULT_def Let_def)

text \<open>After \<^verbatim>\<open>unfold\<close> and adding the clauses of the frame, before the query.\<close>

definition queried :: "Aiger \<Rightarrow> int \<Rightarrow> int \<Rightarrow> int \<Rightarrow> int \<Rightarrow> int set \<Rightarrow> nat \<Rightarrow> int \<Rightarrow> BMC \<Rightarrow> bool" where
  "queried C B nf ti mx NB k o' b = (entry C b \<and> traces C B (Suc k) b \<and> solver_inv NB b \<and> size_inv C (Suc k) (uaiger b)
     \<and> NB \<subseteq> set (butlast (u_outputs (uaiger b)))
     \<and> u_outputs (uaiger b) \<noteq> [] \<and> last (u_outputs (uaiger b)) = o'
     \<and> bmc_bad b = Some B \<and> nframes b = nf \<and> b_thread_index b = ti \<and> max_thread_index b = mx
     \<and> bmc_frame_k b = int k + 1 \<and> (\<forall>j<k. mine ti mx j \<longrightarrow> \<not> first_bad C B j))"

lemma frame_ready:
  assumes wf: "wf_aig C" and inv: "bmc_inv C B nf ti mx NB k b" and B: "lit_in C B" and f: "fits C nf" and k: "int k < nf"
  obtains b1 b2 o' where "unfold b = Some b1" "add_frame_clauses b1 = Some b2" "queried C B nf ti mx NB k o' b2"
proof -
  have en: "entry C b" and tr: "traces C B k b" and si: "solver_inv NB b" and sz: "size_inv C k (uaiger b)"
    and bd: "bmc_bad b = Some B"
    using inv by (auto simp: bmc_inv_def)
  have room: "nsize (uaiger b) + num_inputs C + num_ands C \<le> hash_size (uaiger b)"
    using size_inv_room [OF wf f sz k] .
  have nl: "num_latches C \<le> 999999" using f by (simp add: fits_def)
  obtain b1 vs gs where b1: "unfold b = Some b1" "entry C b1" "frame_sim C B vs b b1" "only_unfolded b b1"
      "u_ands (uaiger b1) = u_ands (uaiger b) @ gs" "\<forall>g\<in>set gs. nsize (uaiger b) \<le> out g"
      "hash_size (uaiger b1) = hash_size (uaiger b)" "nsize (uaiger b) \<le> nsize (uaiger b1)"
      "nsize (uaiger b1) \<le> nsize (uaiger b) + num_inputs C + num_ands C"
    using unfold_ok [OF wf en bd B nl room] by (elim exE conjE) (rule that)
  have tr1: "traces C B (Suc k) b1" using frame_traces [OF wf en tr B b1(3,8)] .
  obtain o' cs where o: "u_outputs (uaiger b1) = u_outputs (uaiger b) @ [o']"
      "u_constraints (uaiger b1) = u_constraints (uaiger b) @ cs" "list_all2 (lit_ok (nsize (uaiger b1)) vs) (constraints C) cs"
    using b1(3) unfolding frame_sim_def by (elim exE conjE) (rule that)
  have C: "b_aiger b = C" "u_wf (uaiger b)" "u_wf (uaiger b1)" using en b1(2) by (auto simp: entry_def)
  have len: "length cs = length (constraints (b_aiger b))" using o(3) C(1) by (simp add: list_all2_lengthD)
  have nz: "\<forall>l\<in>set cs. l \<noteq> 0" using list_all2_lits [OF o(3)] by blast
  have old: "\<forall>l\<in>set (u_outputs (uaiger b)) \<union> set (u_constraints (uaiger b)). \<bar>l\<bar> < nsize (uaiger b)"
    using tr by (simp add: traces_def)
  obtain b2 h s ins z mi where b2: "add_frame_clauses b1 = Some b2" "solver_inv NB b2"
      "b2 = b1\<lparr>uaiger := (uaiger b1)\<lparr>hash_size := h\<rparr>, bmcSolver := s, lit_has_insert := ins,
          insert_size := z, max_index_of_ands_added_to_solver := mi\<rparr>"
      "h = max (hash_size (uaiger b1)) (nsize (uaiger b1) + num_ands (b_aiger b) * 3)"
    using add_frame_clauses_ok [OF si b1(4) C(2,3) b1(5,6) o(1,2) len old nz] by (elim exE conjE) (rule that)
  have n2: "nsize (uaiger b2) = nsize (uaiger b1)" using b2(3) by (simp add: nsize_def)
  have "entry C b2" using b1(2) n2 unfolding entry_def u_wf_def by (simp add: b2(3))
  moreover have "traces C B (Suc k) b2"
    using tr1 n2 unfolding traces_def shows_run_def uok_def by (simp add: b2(3))
  moreover have "size_inv C (Suc k) (uaiger b2)"
    using sz b1(7,9) n2 b2(4) C(1) by (auto simp: size_inv_def b2(3) algebra_simps)
  moreover have "NB \<subseteq> set (butlast (u_outputs (uaiger b2)))"
    using si o(1) by (simp add: b2(3) solver_inv_def Let_def)
  moreover have "bmc_bad b2 = Some B"
  proof -
    have "bmc_bad b2 = bmc_bad b1" by (simp add: b2(3) bmc_bad_def Let_def)
    then show ?thesis using bd bmc_bad_cong [OF b1(4)] by simp
  qed
  moreover have "nframes b2 = nf" "b_thread_index b2 = ti" "max_thread_index b2 = mx" "bmc_frame_k b2 = int k + 1"
    using inv b1(4) by (auto simp: b2(3) bmc_inv_def only_unfolded_def)
  moreover have "u_outputs (uaiger b2) = u_outputs (uaiger b) @ [o']" using o(1) by (simp add: b2(3))
  ultimately have "queried C B nf ti mx NB k o' b2"
    using b2(2) inv unfolding queried_def bmc_inv_def by simp
  then show thesis using that b1(1) b2(1) by blast
qed

text \<open>The query: a model is a run that ends in a bad state, refutation excludes a first one.\<close>

lemma query_sat:
  assumes q: "queried C B nf ti mx NB k o' b" and e: "ipasir_contract e"
    and r: "CaDiCaL_solve e (CaDiCaL_assume o' (bmcSolver b)) = (SAT, s)"
  shows "unsafe_at C B k"
proof -
  let ?s = "CaDiCaL_assume o' (bmcSolver b)" and ?u = "uaiger b"
  have tr: "traces C B (Suc k) b" and si: "solver_inv NB b" and wf: "u_wf ?u" and o: "u_outputs ?u \<noteq> []" "last (u_outputs ?u) = o'"
    using q by (auto simp: queried_def entry_def)
  have oin: "o' \<in> set (u_outputs ?u)" using o by auto
  have nz: "\<forall>l\<in>set (u_outputs ?u) \<union> set (u_constraints ?u). l \<noteq> 0" using tr by (simp add: traces_def)
  have c: "nonzero (clauses ?s)" "0 \<notin> set (assumed ?s)"
    using solver_inv_nonzero [OF si wf nz] nz oin si by (auto simp: CaDiCaL_assume_def solver_inv_def Let_def)
  obtain \<alpha> where \<alpha>: "sat_cnf \<alpha> (clauses ?s)" "cube_true \<alpha> (assumed ?s)" using solve_Sat [OF e c r refl] by blast
  have a: "sat_cnf \<alpha> (clauses (bmcSolver b))" "lit_val \<alpha> o'"
    using \<alpha> by (auto simp: CaDiCaL_assume_def cube_true_set)
  obtain \<tau> where t: "uok \<tau> ?u" "\<forall>l\<in>set (u_constraints ?u). lit_val \<tau> l"
      "\<forall>l\<in>set (u_outputs ?u). lit_val \<tau> l = lit_val \<alpha> l"
    using solver_model [OF si wf a(1)] by blast
  obtain \<sigma>s where s: "run_of C (Suc k) \<sigma>s" "shows_run C B (Suc k) b \<tau> \<sigma>s"
    using tr t(1,2) unfolding traces_def by blast
  have "length (u_outputs ?u) = Suc k" using tr by (simp add: traces_def)
  then have "u_outputs ?u ! k = o'" using o by (simp add: last_conv_nth)
  then have "lit_val (\<sigma>s k) B" using s(2) t(3) a(2) oin by (auto simp: shows_run_def)
  then show ?thesis using run_reach [OF s(1), of k] by (auto simp: unsafe_at_def)
qed

lemma query_unsat:
  assumes q: "queried C B nf ti mx NB k o' b" and e: "ipasir_contract e"
    and r: "CaDiCaL_solve e (CaDiCaL_assume o' (bmcSolver b)) = (UNSAT, s)"
  shows "\<not> first_bad C B k"
proof
  assume "first_bad C B k"
  then obtain \<sigma>s where s: "run_of C (Suc k) \<sigma>s" "lit_val (\<sigma>s k) B" "\<forall>j<k. \<not> lit_val (\<sigma>s j) B"
    by (auto simp: first_bad_def)
  let ?s = "CaDiCaL_assume o' (bmcSolver b)" and ?u = "uaiger b"
  have tr: "traces C B (Suc k) b" and si: "solver_inv NB b" and wf: "u_wf ?u" and o: "u_outputs ?u \<noteq> []" "last (u_outputs ?u) = o'"
    and NB: "NB \<subseteq> set (butlast (u_outputs ?u))"
    using q by (auto simp: queried_def entry_def)
  have oin: "o' \<in> set (u_outputs ?u)" using o by auto
  have nz: "\<forall>l\<in>set (u_outputs ?u) \<union> set (u_constraints ?u). l \<noteq> 0" using tr by (simp add: traces_def)
  have c: "nonzero (clauses ?s)" "0 \<notin> set (assumed ?s)"
    using solver_inv_nonzero [OF si wf nz] nz oin si by (auto simp: CaDiCaL_assume_def solver_inv_def Let_def)
  have as: "assumed ?s = [o']" using si by (simp add: CaDiCaL_assume_def solver_inv_def Let_def)
  obtain core where core: "set core \<subseteq> set (assumed ?s)" "\<And>\<alpha>. sat_cnf \<alpha> (clauses ?s) \<Longrightarrow> cube_true \<alpha> core \<Longrightarrow> False"
    using solve_Unsat [OF e c r refl] by blast
  obtain \<tau> where t: "uok \<tau> ?u" "shows_run C B (Suc k) b \<tau> \<sigma>s" using tr s(1) unfolding traces_def by blast
  have len: "length (u_outputs ?u) = Suc k" using tr by (simp add: traces_def)
  have val: "lit_val \<tau> (u_outputs ?u ! j) = lit_val (\<sigma>s j) B" if "j < Suc k" for j
    using t(2) that by (simp add: shows_run_def)
  have "\<forall>l\<in>NB. \<not> lit_val \<tau> l"
  proof
    fix l assume "l \<in> NB"
    then have "l \<in> set (butlast (u_outputs ?u))" using NB by blast
    then obtain j where "j < k" "l = u_outputs ?u ! j"
      using len by (auto simp: in_set_conv_nth nth_butlast)
    then show "\<not> lit_val \<tau> l" using val s(3) by simp
  qed
  moreover have "\<forall>l\<in>set (u_constraints ?u). lit_val \<tau> l" using t(2) by (simp add: shows_run_def)
  ultimately have "sat_cnf \<tau> (clauses (bmcSolver b))" using solver_sat [OF si t(1) wf] nz by simp
  then have sat: "sat_cnf \<tau> (clauses ?s)" by (simp add: CaDiCaL_assume_def)
  have "lit_val \<tau> o'" using val [of k] s(2) o len by (simp add: last_conv_nth)
  then have "cube_true \<tau> core" using core(1) as by (auto simp: cube_true_set)
  then show False using core(2) sat by blast
qed

end
