(* ===== verification/BMC_Sound.thy ===== *)
theory BMC_Sound
  imports BMC_Frames PDR_Runs
begin

text \<open>
  The loop of \<^verbatim>\<open>BMC::check\<close>: every frame either ends the search or establishes the invariant
  for the next one, nothing is accessed out of bounds, and what is returned is right.
\<close>

lemma vec_at_last: "xs \<noteq> [] \<Longrightarrow> vec_at xs (int (length xs) - 1) = Some (last xs)"
  by (cases xs rule: rev_cases) (simp_all add: vec_at_def)

lemma those_None_conv: "those (map f xs) = None \<longleftrightarrow> (\<exists>x\<in>set xs. f x = None)"
  by (induction xs) (auto split: option.splits)

section \<open>One frame\<close>

definition solved :: "Aiger \<Rightarrow> int \<Rightarrow> int \<Rightarrow> int \<Rightarrow> int \<Rightarrow> nat \<Rightarrow> int \<Rightarrow> BMC \<Rightarrow> bool" where
  "solved C B nf ti mx k r b = (b_aiger b = C \<and> bmc_frame_k b = int k + 1 \<and> u_outputs (uaiger b) \<noteq> []
     \<and> \<bar>last (u_outputs (uaiger b))\<bar> < 2 + num_latches C + (int k + 1) * (num_inputs C + num_ands C)
     \<and> nsize (uaiger b) \<le> 2 + num_latches C + (int k + 1) * (num_inputs C + num_ands C)
     \<and> (r = 10 \<longrightarrow> unsafe_at C B k)
     \<and> (r \<noteq> 0 \<longrightarrow> r \<noteq> 10 \<longrightarrow> (\<exists>NB. bmc_inv C B nf ti mx NB (Suc k) (b\<lparr>bmc_frame_k := bmc_frame_k b + 1\<rparr>))))"

lemma queried_bound:
  assumes "queried C B nf ti mx NB k o' b"
  shows "\<bar>last (u_outputs (uaiger b))\<bar> < 2 + num_latches C + (int k + 1) * (num_inputs C + num_ands C)"
    "nsize (uaiger b) \<le> 2 + num_latches C + (int k + 1) * (num_inputs C + num_ands C)"
proof -
  have "\<bar>last (u_outputs (uaiger b))\<bar> < nsize (uaiger b)" using assms by (auto simp: queried_def traces_def)
  moreover show "nsize (uaiger b) \<le> 2 + num_latches C + (int k + 1) * (num_inputs C + num_ands C)"
    using assms by (simp add: queried_def size_inv_def add.commute)
  ultimately show "\<bar>last (u_outputs (uaiger b))\<bar> < 2 + num_latches C + (int k + 1) * (num_inputs C + num_ands C)" by linarith
qed

lemma queried_refuted:
  assumes q: "queried C B nf ti mx NB k o' b" and n: "mine ti mx k \<Longrightarrow> \<not> first_bad C B k"
    and s: "clauses s = clauses (bmcSolver b)" "pending s = []" "assumed s = []" "0 \<le> nv s"
  shows "solved C B nf ti mx k 20 (b\<lparr>bmcSolver := add_clause [- o'] s, b_cout := t\<rparr>)"
proof -
  have o: "o' \<in> set (u_outputs (uaiger b))" "o' \<noteq> 0"
    using q by (auto simp: queried_def traces_def)
  have si: "solver_inv NB b" using q by (simp add: queried_def)
  have "\<forall>j<Suc k. mine ti mx j \<longrightarrow> \<not> first_bad C B j"
    using q n by (auto simp: queried_def less_Suc_eq)
  then have "bmc_inv C B nf ti mx (insert o' NB) (Suc k)
      (b\<lparr>bmcSolver := add_clause [- o'] s, b_cout := t, bmc_frame_k := bmc_frame_k b + 1\<rparr>)"
    using q refute_ok [OF si o s, of t] by (simp add: bmc_inv_def queried_def)
  then show ?thesis using q queried_bound [OF q] unfolding solved_def by (auto simp: queried_def entry_def)
qed

lemma frame_solved:
  assumes q: "queried C B nf ti mx NB k o' b2" and a: "add_frame_clauses b1 = Some b2"
    and e: "ipasir_contract e" and mx: "mx \<noteq> 0"
  obtains r b3 where "solve_one_frame e b1 = Some (r, b3)" "solved C B nf ti mx k r b3"
proof -
  let ?A = "CaDiCaL_assume o' (bmcSolver b2)"
  obtain r s where rs: "CaDiCaL_solve e ?A = (r, s)" by (cases "CaDiCaL_solve e ?A")
  have o: "vec_at (u_outputs (uaiger b2)) (osize (uaiger b2) - 1) = Some o'"
    using q vec_at_last by (auto simp: queried_def osize_def)
  have f: "max_thread_index b2 = mx" "b_thread_index b2 = ti" "bmc_frame_k b2 = int k + 1"
    "b_aiger b2 = C" "u_outputs (uaiger b2) \<noteq> []"
    using q by (auto simp: queried_def entry_def)
  have si: "pending (bmcSolver b2) = []" "assumed (bmcSolver b2) = []" "0 \<le> nv (bmcSolver b2)"
    using q by (auto simp: queried_def solver_inv_def Let_def)
  have s: "clauses s = clauses (bmcSolver b2)" "pending s = []" "assumed s = []" "0 \<le> nv s"
    using solve_state [OF rs] si by (simp_all add: CaDiCaL_assume_def)
  show thesis
  proof (cases "mx \<noteq> 1 \<and> (int k + 1) mod mx \<noteq> ti")
    case True
    then have "\<not> mine ti mx k" by (simp add: mine_def add.commute)
    then have "solved C B nf ti mx k 20 (b2\<lparr>bmcSolver := add_clause [- o'] (bmcSolver b2), b_cout := b_cout b2\<rparr>)"
      using queried_refuted [OF q _ refl si] by blast
    then show thesis using that [of 20] True a o f mx by (simp add: solve_one_frame_def)
  next
    case False
    then have run: "solve_one_frame e b1 = (if r = 20 then
         Some (20, b2\<lparr>bmcSolver := add_clause [- o'] s, b_cout := b_cout b2 @ frame_log b2 o' r\<rparr>)
       else if r = 10 then Some (10, b2\<lparr>bmcSolver := s, b_cout := b_cout b2 @ frame_log b2 o' r\<rparr>)
       else Some (0, b2\<lparr>bmcSolver := s\<rparr>))"
      using a o f mx rs by (auto simp: solve_one_frame_def Let_def)
    consider "r = 20" | "r = 10" | "r \<noteq> 20" "r \<noteq> 10" by blast
    then show thesis
    proof cases
      case 1
      then have "\<not> first_bad C B k" using query_unsat [OF q e, of s] rs by (simp add: UNSAT_def)
      then show thesis using that run queried_refuted [OF q _ s] 1 by simp
    next
      case 2
      then have "unsafe_at C B k" using query_sat [OF q e, of s] rs by (simp add: SAT_def)
      then show thesis using that run 2 f queried_bound [OF q] by (simp add: solved_def)
    next
      case 3
      then show thesis using that run f queried_bound [OF q] by (simp add: solved_def)
    qed
  qed
qed

section \<open>The witness\<close>

lemma bmc_init_chars_ok:
  assumes "\<forall>l\<in>set ls. \<bar>l\<bar> < int (length cs)"
  shows "\<exists>cs'. fold_opt (\<lambda>l cs. vec_set cs \<bar>l\<bar> (if 0 < l then CHR ''1'' else CHR ''0'')) ls cs = Some cs'
    \<and> length cs' = length cs"
  using assms
proof (induction ls arbitrary: cs)
  case (Cons l ls)
  then show ?case
    using Cons.IH [of "cs[nat \<bar>l\<bar> := (if 0 < l then CHR ''1'' else CHR ''0'')]"] by (simp add: vec_set_ok)
qed simp

lemma bmc_witness_ok:
  assumes wf: "wf_aig (b_aiger b)"
  shows "\<exists>w. bmc_witness b = Some w"
proof -
  let ?a = "b_aiger b" and ?n = "nat (num_inputs (b_aiger b) + num_latches (b_aiger b) + 2)"
  have nn: "0 \<le> num_inputs ?a" "0 \<le> num_latches ?a" using wf_aigD [OF wf] by auto
  have "\<forall>l\<in>set (init_state ?a). \<bar>l\<bar> < int (length (replicate ?n (CHR ''x'')))"
    using lit_in_simps(5) [OF wf] nn by (auto simp: is_latch_def)
  then obtain cs where cs: "bmc_init_chars ?a = Some cs" "length cs = ?n"
    using bmc_init_chars_ok [of "init_state ?a" "replicate ?n (CHR ''x'')"] by (auto simp: bmc_init_chars_def)
  have "bmc_latch_char ?a (bmcSolver b) cs i \<noteq> None" if "i \<in> set [0..num_latches ?a - 1]" for i
    using that cs(2) nn by (auto simp: bmc_latch_char_def vec_at_def unprimed_first_dimacs_def)
  then have "those (map (bmc_latch_char ?a (bmcSolver b) cs) [0..num_latches ?a - 1]) \<noteq> None"
    by (simp add: those_None_conv)
  then show ?thesis using cs by (auto simp: bmc_witness_def Let_def)
qed

lemma bmc_report_ok:
  assumes "wf_aig (b_aiger b)"
  shows "\<exists>b'. bmc_report e b = Some b' \<and> bmc_frame_k b' = bmc_frame_k b \<and> uaiger b' = uaiger b"
proof -
  let ?b1 = "snd (b_read_RESULT e b)"
  have k: "b_aiger ?b1 = b_aiger b" "bmc_frame_k ?b1 = bmc_frame_k b" "uaiger ?b1 = uaiger b" by (simp_all add: b_read_RESULT_def Let_def)
  obtain w where w: "bmc_witness ?b1 = Some w" using bmc_witness_ok [of ?b1] k assms by auto
  show ?thesis
    using w k by (cases "b_read_RESULT e b") (auto simp: bmc_report_def Let_def)
qed


section \<open>The loop\<close>

definition stepped :: "Aiger \<Rightarrow> int \<Rightarrow> int \<Rightarrow> int \<Rightarrow> int \<Rightarrow> nat \<Rightarrow> int \<times> BMC + BMC \<Rightarrow> bool" where
  "stepped C B nf ti mx k x =
     (case x of Inl (r, b) \<Rightarrow> bmc_frame_k b = int k + 1 \<and> nsize (uaiger b) \<le> 2 + num_latches C + (int k + 1) * (num_inputs C + num_ands C) \<and> (r = 0 \<or> r = 10 \<and> unsafe_at C B k)
      | Inr b \<Rightarrow> \<exists>NB. bmc_inv C B nf ti mx NB (Suc k) b)"

lemma bmc_step_ok:
  assumes wf: "wf_aig C" and inv: "bmc_inv C B nf ti mx NB k b" and B: "lit_in C B" and f: "fits C nf"
    and k: "int k < nf" and e: "ipasir_contract e" and mx: "mx \<noteq> 0"
  shows "(\<exists>x. bmc_step e b = Some x \<and> stepped C B nf ti mx k x) \<or> bmc_step e b = None \<and> INT_MAX = int k + 1"
proof -
  obtain r b0 where rb: "b_read_RESULT e b = (r, b0)" by (cases "b_read_RESULT e b")
  have inv0: "bmc_inv C B nf ti mx NB k b0" using bmc_inv_read [OF inv, of e] rb by simp
  then have k0: "bmc_frame_k b0 = int k + 1" by (simp add: bmc_inv_def)
  have "0 \<le> num_inputs C + num_ands C" using wf_aigD [OF wf] by auto
  then have n0: "nsize (uaiger b0) \<le> 2 + num_latches C + (int k + 1) * (num_inputs C + num_ands C)" using inv0 by (simp add: bmc_inv_def size_inv_def algebra_simps)
  show ?thesis
  proof (cases "r = 0")
    case False
    then show ?thesis using rb k0 n0 by (simp add: bmc_step_def stepped_def)
  next
    case True
    obtain b1 b2 o' where b1: "unfold b0 = Some b1" "add_frame_clauses b1 = Some b2" "queried C B nf ti mx NB k o' b2"
      using frame_ready [OF wf inv0 B f k] by blast
    obtain res b3 where b3: "solve_one_frame e b1 = Some (res, b3)" "solved C B nf ti mx k res b3"
      using frame_solved [OF b1(3,2) e mx] by blast
    obtain b4 where b4: "bmc_report e b3 = Some b4" "bmc_frame_k b4 = bmc_frame_k b3" "uaiger b4 = uaiger b3"
      using bmc_report_ok [of b3 e] b3(2) wf by (auto simp: solved_def)
    have o: "vec_at (u_outputs (uaiger b3)) (osize (uaiger b3) - 1) = Some (last (u_outputs (uaiger b3)))"
      using b3(2) vec_at_last by (auto simp: solved_def osize_def)
    have k3: "bmc_frame_k b3 = int k + 1" using b3(2) by (simp add: solved_def)
    have run: "bmc_step e b = (if res = 10 then Some (Inl (10, b4))
        else if res = 0 \<or> max_nodes b3 < \<bar>last (u_outputs (uaiger b3))\<bar> then Some (Inl (0, b3))
        else if INT_MAX = int k + 1 then None
        else Some (Inr (b3\<lparr>bmc_frame_k := bmc_frame_k b3 + 1\<rparr>)))"
      using rb True b1(1) b3(1) b4(1) o k3 by (simp add: bmc_step_def)
    show ?thesis using b3(2) b4(2,3) k3 unfolding run by (auto simp: stepped_def solved_def)
  qed
qed

definition checked :: "Aiger \<Rightarrow> int \<Rightarrow> int \<Rightarrow> int \<Rightarrow> int \<Rightarrow> int \<times> BMC \<Rightarrow> bool" where
  "checked C B nf ti mx rb = (case rb of (r, b) \<Rightarrow> 1 \<le> bmc_frame_k b \<and> bmc_frame_k b \<le> max 0 nf + 1
     \<and> nsize (uaiger b) \<le> 2 + num_latches C + max 0 nf * (num_inputs C + num_ands C)
     \<and> (r = 0 \<and> (\<forall>j. int j < bmc_frame_k b - 1 \<longrightarrow> j < nat nf \<longrightarrow> mine ti mx j \<longrightarrow> \<not> first_bad C B j)
        \<or> r = 10 \<and> unsafe_at C B (nat (bmc_frame_k b - 1))))"

lemma bmc_loop_ok:
  assumes wf: "wf_aig C" and B: "lit_in C B" and f: "fits C nf" and e: "ipasir_contract e" and mx: "mx \<noteq> 0"
  shows "bmc_inv C B nf ti mx NB k b \<Longrightarrow> int k \<le> max 0 nf \<Longrightarrow>
    (\<exists>rb. bmc_loop e b = Some rb \<and> checked C B nf ti mx rb) \<or> bmc_loop e b = None \<and> INT_MAX \<le> nf"
proof (induction "nat (nf - int k)" arbitrary: k NB b)
  case 0
  then have k: "int k = max 0 nf" by simp
  have "nframes b < bmc_frame_k b" using 0 by (simp add: bmc_inv_def)
  moreover have "nsize (uaiger b) \<le> 2 + num_latches C + max 0 nf * (num_inputs C + num_ands C)"
    using 0 by (simp add: bmc_inv_def size_inv_def k)
  ultimately show ?case using 0 by (subst bmc_loop.simps) (auto simp: checked_def bmc_inv_def)
next
  case (Suc m)
  then have k: "int k < nf" by simp
  have go: "\<not> nframes b < bmc_frame_k b" using Suc.prems k by (simp add: bmc_inv_def)
  show ?case
  proof (cases "bmc_step e b")
    case None
    then have "INT_MAX = int k + 1" using bmc_step_ok [OF wf Suc.prems(1) B f k e mx] by simp
    then show ?thesis using None go k by (simp add: bmc_loop.simps [of e b])
  next
    case (Some x)
    then have x: "bmc_step e b = Some x" "stepped C B nf ti mx k x"
      using bmc_step_ok [OF wf Suc.prems(1) B f k e mx] by simp_all
    have old: "\<forall>j<k. mine ti mx j \<longrightarrow> \<not> first_bad C B j" using Suc.prems by (simp add: bmc_inv_def)
    show ?thesis
    proof (cases x)
      case (Inl rb)
      have "0 \<le> num_inputs C + num_ands C" using wf_aigD [OF wf] by auto
      then have "(int k + 1) * (num_inputs C + num_ands C) \<le> max 0 nf * (num_inputs C + num_ands C)"
        using k by (intro mult_right_mono) auto
      then have "checked C B nf ti mx rb" using Inl x(2) old k by (cases rb) (auto simp: stepped_def checked_def)
      then show ?thesis using Inl x(1) go by (simp add: bmc_loop.simps [of e b])
    next
      case (Inr b')
      then obtain NB' where "bmc_inv C B nf ti mx NB' (Suc k) b'" using x(2) by (auto simp: stepped_def)
      then have "(\<exists>rb. bmc_loop e b' = Some rb \<and> checked C B nf ti mx rb) \<or> bmc_loop e b' = None \<and> INT_MAX \<le> nf"
        using Suc.hyps(1) [of "Suc k"] Suc.hyps(2) k by simp
      then show ?thesis using Inr x(1) go by (simp add: bmc_loop.simps [of e b])
    qed
  qed
qed

lemma bmc_start:
  assumes ld: "loaded C" and d: "distinct (map abs (init_state C))" and f: "fits C nf"
    and bad: "bmc_bad (BMC_new C nf ti mx) = Some B"
  shows "\<exists>b. bmc_initialize (BMC_new C nf ti mx) = Some b \<and> bmc_inv C B nf ti mx {} 0 (b\<lparr>bmc_frame_k := 1\<rparr>)"
proof -
  let ?b0 = "BMC_new C nf ti mx"
  have C: "b_aiger ?b0 = C" by (simp add: BMC_new_def)
  obtain b where b: "bmc_initialize ?b0 = Some b" "started ?b0 b" "entry C b" "traces C B 0 b"
    using bmc_initialize_ok [OF ld C d, of B] by blast
  have st: "b_aiger b = C" "nframes b = nf" "b_thread_index b = ti" "max_thread_index b = mx"
    "bmcSolver b = add_clause [- 1] CaDiCaL_new" "lit_has_insert b = (\<lambda>_. False)" "u_ands (uaiger b) = []"
    "u_outputs (uaiger b) = []" "u_constraints (uaiger b) = []" "hash_size (uaiger b) = 99999999"
    "nsize (uaiger b) = 2 + num_latches C"
    using b(2) by (simp_all add: started_def BMC_new_def)
  have "bmc_bad b = Some B" using bad st(1,3) by (simp add: bmc_bad_def BMC_new_def Let_def split: if_splits)
  moreover have "solver_inv {} b"
    using st by (simp add: solver_inv_def gate_part_def add_clause_eq CaDiCaL_new_def lit_bound_def)
  moreover have "size_inv C 0 (uaiger b)" using st f by (simp add: size_inv_def)
  ultimately show ?thesis using b st by (simp add: bmc_inv_def)
qed

theorem bmc_check_ok:
  assumes ld: "loaded C" and d: "distinct (map abs (init_state C))" and f: "fits C nf"
    and bad: "bmc_bad (BMC_new C nf ti mx) = Some B" "lit_in C B" and e: "ipasir_contract e" and mx: "mx \<noteq> 0"
  shows "(\<exists>rb. bmc_check e (BMC_new C nf ti mx) = Some rb \<and> checked C B nf ti mx rb)
    \<or> bmc_check e (BMC_new C nf ti mx) = None \<and> INT_MAX \<le> nf"
proof -
  have wf: "wf_aig C" using ld by (simp add: loaded_def)
  obtain b where b: "bmc_initialize (BMC_new C nf ti mx) = Some b" "bmc_inv C B nf ti mx {} 0 (b\<lparr>bmc_frame_k := 1\<rparr>)"
    using bmc_start [OF ld d f bad(1)] by blast
  then show ?thesis using bmc_loop_ok [OF wf bad(2) f e mx b(2)] by (simp add: bmc_check_def)
qed


section \<open>Alone and with a complete solver\<close>

text \<open>No other thread publishes a result and the solver answers: then only the bound ends the search.\<close>

definition quiet :: "BMC \<Rightarrow> bool" where
  "quiet b = (b_RESULT b = 0 \<and> max_nodes b = INT_MAX)"

lemma solve_one_frame_quiet:
  assumes "solve_one_frame e b = Some (r, b')" "ipasir_complete e"
  shows "quiet b' = quiet b" "r \<noteq> 0"
proof -
  have c: "CaDiCaL_solve e s = (r, s') \<Longrightarrow> r = 10 \<or> r = 20" for r s s'
    using assms(2) by (cases "ipasir_answer e s") (auto simp: ipasir_complete_def CaDiCaL_solve_def SAT_def UNSAT_def)
  obtain b1 where b1: "add_frame_clauses b = Some b1" "quiet b' = quiet b1" "r \<noteq> 0"
    using assms(1) c by (auto simp: solve_one_frame_def Let_def bind_eq_Some_conv quiet_def
        split: if_splits prod.splits)
  moreover obtain u s ins sz mi where "b1 = b\<lparr>uaiger := u, bmcSolver := s, lit_has_insert := ins,
      insert_size := sz, max_index_of_ands_added_to_solver := mi\<rparr>"
    using b1(1) by (auto simp: add_frame_clauses_def Let_def bind_eq_Some_conv case_prod_beta)
  ultimately show "quiet b' = quiet b" "r \<noteq> 0" by (simp_all add: quiet_def)
qed

lemma bmc_step_quiet:
  assumes wf: "wf_aig C" and inv: "bmc_inv C B nf ti mx NB k b" and B: "lit_in C B" and f: "fits C nf"
    and k: "int k < nf" and e: "ipasir_contract e" "ipasir_complete e" "\<forall>n. other_threads e n = 0" and mx: "mx \<noteq> 0"
    and q: "quiet b" and sz: "2 + num_latches C + nf * (num_inputs C + num_ands C) \<le> INT_MAX"
    and s: "bmc_step e b = Some x"
  shows "case x of Inl (r, b') \<Rightarrow> r = 10 | Inr b' \<Rightarrow> quiet b'"
proof -
  obtain r b0 where rb: "b_read_RESULT e b = (r, b0)" by (cases "b_read_RESULT e b")
  have r: "r = 0" "quiet b0" "bmc_inv C B nf ti mx NB k b0"
    using bmc_inv_read [OF inv, of e] rb q e(3) by (auto simp: b_read_RESULT_def quiet_def Let_def)
  obtain b1 b2 o' where b1: "unfold b0 = Some b1" "add_frame_clauses b1 = Some b2" "queried C B nf ti mx NB k o' b2"
    using frame_ready [OF wf r(3) B f k] by blast
  obtain res b3 where b3: "solve_one_frame e b1 = Some (res, b3)" "solved C B nf ti mx k res b3"
    using frame_solved [OF b1(3,2) e(1) mx] by blast
  have q3: "quiet b3" "res \<noteq> 0"
    using solve_one_frame_quiet [OF b3(1) e(2)] unfold_only [OF b1(1)] r(2) by (auto simp: quiet_def only_unfolded_def)
  have nn: "0 \<le> num_inputs C" "0 \<le> num_ands C" using wf_aigD [OF wf] by auto
  have "(int k + 1) * (num_inputs C + num_ands C) \<le> nf * (num_inputs C + num_ands C)"
    using k nn by (intro mult_right_mono) auto
  then have "\<not> max_nodes b3 < \<bar>last (u_outputs (uaiger b3))\<bar>" using b3(2) q3(1) sz by (simp add: solved_def quiet_def)
  moreover have "vec_at (u_outputs (uaiger b3)) (osize (uaiger b3) - 1) = Some (last (u_outputs (uaiger b3)))"
    using b3(2) vec_at_last by (auto simp: solved_def osize_def)
  ultimately show ?thesis using s rb r(1) b1(1) b3(1) q3
    by (auto simp: bmc_step_def quiet_def bind_eq_Some_conv split: if_splits)
qed

lemma bmc_loop_finds:
  assumes wf: "wf_aig C" and B: "lit_in C B" and f: "fits C nf" and nf: "nf < INT_MAX"
    and e: "ipasir_contract e" "ipasir_complete e" "\<forall>n. other_threads e n = 0" and mx: "mx \<noteq> 0"
    and sz: "2 + num_latches C + nf * (num_inputs C + num_ands C) \<le> INT_MAX"
    and bug: "first_bad C B n" "int n < nf" "mine ti mx n"
  shows "bmc_inv C B nf ti mx NB k b \<Longrightarrow> quiet b \<Longrightarrow> \<exists>b'. bmc_loop e b = Some (10, b')"
proof (induction "nat (nf - int k)" arbitrary: k NB b)
  case 0
  then have "n < k" using bug(2) by simp
  then show ?case using 0 bug(1,3) by (auto simp: bmc_inv_def)
next
  case (Suc m)
  then have k: "int k < nf" by simp
  obtain x where x: "bmc_step e b = Some x" "stepped C B nf ti mx k x"
    using bmc_step_ok [OF wf Suc.prems(1) B f k e(1) mx] k nf by auto
  have qx: "case x of Inl (r, b') \<Rightarrow> r = 10 | Inr b' \<Rightarrow> quiet b'"
    using bmc_step_quiet [OF wf Suc.prems(1) B f k e mx Suc.prems(2) sz x(1)] .
  have go: "\<not> nframes b < bmc_frame_k b" using Suc.prems k by (simp add: bmc_inv_def)
  show ?case
  proof (cases x)
    case (Inl rb)
    then show ?thesis using qx x(1) go by (subst bmc_loop.simps) (cases rb, simp)
  next
    case (Inr b')
    then obtain NB' where "bmc_inv C B nf ti mx NB' (Suc k) b'" using x(2) by (auto simp: stepped_def)
    then have "\<exists>b''. bmc_loop e b' = Some (10, b'')" using Suc.hyps(1) [of "Suc k"] Suc.hyps(2) Inr qx by simp
    then show ?thesis using Inr x(1) go by (subst bmc_loop.simps) simp
  qed
qed

end
