(* ===== verification/BMC_Runs.thy ===== *)
theory BMC_Runs
  imports BMC_Sound
begin

text \<open>
  The theorems on \<^verbatim>\<open>BMC::check\<close>, with concrete runs evaluated in the logic as their witnesses.
\<close>

section \<open>Two runs\<close>

lemmas bmc_run_defs = bmc_check_def bmc_initialize_def bmc_loop.simps bmc_step_def solve_one_frame_def
  add_frame_clauses_def unfold_def unfold_input_def unfold_and_def unfold_latches_def bmc_bad_def
  bmc_report_def bmc_witness_def BMC_new_def UnfoldAiger_new_def mkNode_def push_node_def vec_set_def
  init_value_def init_latch_def b_read_RESULT_def coi_gate_def frame_log_def asize_def osize_def
  nsize_def isize_def val_of_def more_fathers_def upd_node_def INT_MAX_def

lemma one_latch_bug: "map_option (\<lambda>(r, b). (r, bmc_frame_k b)) (bmc_check ref_env (BMC_new (one_latch (- 2)) 3 0 1)) = Some (10, 2)"
  by (simp add: one_latch_def run_defs bmc_run_defs cong: run_congs)

lemma one_latch_no_bug: "map_option (\<lambda>(r, b). (r, bmc_frame_k b)) (bmc_check ref_env (BMC_new (one_latch 2) 2 0 1)) = Some (0, 3)"
  by (simp add: one_latch_def run_defs bmc_run_defs cong: run_congs)

lemma one_latch_fits: "fits (one_latch nx) nf"
  "bmc_bad (BMC_new (one_latch nx) nf ti mx) = Some 2" "distinct (map abs (init_state (one_latch nx)))"
  "lit_in (one_latch nx) 2" "\<not> find_bug_only (one_latch nx)" "vec_at (allbad (one_latch nx)) (propertyIndex (one_latch nx)) = Some 2"
  "2 + num_latches (one_latch nx) + nf * (num_inputs (one_latch nx) + num_ands (one_latch nx)) = 3"
  by (simp_all add: fits_def one_latch_def Aiger_new_def bmc_bad_def BMC_new_def vec_at_def lit_in_def)

lemma ref_env_alone: "\<forall>n. other_threads ref_env n = 0"
  by (simp add: ref_env_def)

section \<open>BMC::check is right\<close>

text \<open>
  C5. When \<^verbatim>\<open>BMC::check\<close> returns 10, the bug is real: a run of the circuit makes the bad literal
  true after as many steps as frames were unfolded before the last. This holds for every
  thread of a portfolio, whatever frames the others solve, although a thread adds the
  negated bad literal of the frames it skips. \<open>fits\<close> says that the circuit and the number
  of frames stay within the fixed sizes of the tables.
\<close>

theorem bmc_unsafe:
  assumes "ipasir_contract e" "loaded C" "distinct (map abs (init_state C))" "fits C nf" "mx \<noteq> 0"
    and "bmc_bad (BMC_new C nf ti mx) = Some B" "lit_in C B"
    and "bmc_check e (BMC_new C nf ti mx) = Some (10, b')"
  shows "unsafe_at C B (nat (bmc_frame_k b' - 1))"
  using bmc_check_ok [of C nf ti mx B e] assms by (auto simp: checked_def)

theorem bmc_unsafe_witness:
  "(\<exists>b'. bmc_check ref_env (BMC_new (one_latch (- 2)) 3 0 1) = Some (10, b')) \<and> unsafe_at (one_latch (- 2)) 2 1"
proof -
  obtain b' where r: "bmc_check ref_env (BMC_new (one_latch (- 2)) 3 0 1) = Some (10, b')" "bmc_frame_k b' = 2"
    using one_latch_bug by auto
  show ?thesis
    using r bmc_unsafe [OF ref_env_ipasir _ one_latch_fits(3,1) _ one_latch_fits(2,4) r(1)] one_latch_loaded
    by simp
qed

text \<open>
  C6. When all threads of a bounded search come to the end of their frames, the circuit has
  no bug within the bound: thread \<^verbatim>\<open>i\<close> of \<^verbatim>\<open>n\<close> solves the frames \<^verbatim>\<open>k\<close> with \<^verbatim>\<open>k % n == i\<close>, and
  together they cover every frame. Each thread may see its own results of the others
  and its own answers of the solver.
\<close>

theorem bmc_threads_cover:
  assumes e: "\<And>ti. ipasir_contract (e ti)" and C: "loaded C" "distinct (map abs (init_state C))" "fits C nf"
    and bad: "\<not> find_bug_only C" "vec_at (allbad C) (propertyIndex C) = Some B" "lit_in C B" and mx: "0 < mx"
    and r: "\<forall>ti. 0 \<le> ti \<and> ti < mx \<longrightarrow>
       (\<exists>b'. bmc_check (e ti) (BMC_new C nf ti mx) = Some (0, b') \<and> nf < bmc_frame_k b')"
    and n: "int n < nf"
  shows "\<not> unsafe_at C B n"
proof
  assume "unsafe_at C B n"
  then obtain m where m: "m \<le> n" "first_bad C B m" using unsafe_first_bad [of C B n] C(1) unfolding loaded_def by blast
  let ?t = "int (Suc m) mod mx"
  have t: "0 \<le> ?t" "?t < mx" using mx by auto
  then obtain b' where b': "bmc_check (e ?t) (BMC_new C nf ?t mx) = Some (0, b')" "nf < bmc_frame_k b'" using r by blast
  have "bmc_bad (BMC_new C nf ?t mx) = Some B" using bad by (simp add: bmc_bad_def BMC_new_def Let_def)
  then have "checked C B nf ?t mx (0, b')" using bmc_check_ok [OF C _ bad(3) e [of ?t], of ?t mx] mx b'(1) by auto
  then show False using m n b'(2) by (auto simp: checked_def mine_def)
qed

theorem bmc_threads_cover_witness:
  "(\<exists>b'. bmc_check ref_env (BMC_new (one_latch 2) 2 0 1) = Some (0, b') \<and> 2 < bmc_frame_k b') \<and> \<not> unsafe_at (one_latch 2) 2 1"
proof -
  obtain b' where r: "bmc_check ref_env (BMC_new (one_latch 2) 2 0 1) = Some (0, b')" "bmc_frame_k b' = 3"
    using one_latch_no_bug by auto
  have "\<forall>ti. 0 \<le> ti \<and> ti < 1 \<longrightarrow> (\<exists>b'. bmc_check ref_env (BMC_new (one_latch 2) 2 ti 1) = Some (0, b') \<and> 2 < bmc_frame_k b')"
  proof (intro allI impI)
    fix ti :: int assume "0 \<le> ti \<and> ti < 1"
    then have "ti = 0" by simp
    then show "\<exists>b'. bmc_check ref_env (BMC_new (one_latch 2) 2 ti 1) = Some (0, b') \<and> 2 < bmc_frame_k b'" using r by simp
  qed
  then have "\<not> unsafe_at (one_latch 2) 2 1"
    using bmc_threads_cover [of "\<lambda>_. ref_env" "one_latch 2" 2 2 1 1] ref_env_ipasir one_latch_fits one_latch_loaded
    by simp
  then show ?thesis using r by simp
qed

text \<open>
  C9. \<^verbatim>\<open>BMC::check\<close> always returns, with 0 or 10, on a circuit that fits the tables, for a bound below
  \<^verbatim>\<open>INT_MAX\<close> for which the nodes of the unfolding can be counted in an \<^verbatim>\<open>int\<close>: no access to
  \<^verbatim>\<open>values\<close>, \<^verbatim>\<open>nodes\<close>, \<^verbatim>\<open>hash_table\<close>, the latches' buffer or the witness is out of bounds and no
  \<^verbatim>\<open>assert\<close> fails; the frame counter is at most one above the bound and the number of nodes, none of which
  is ever removed, at most \<^verbatim>\<open>INT_MAX\<close>, so that neither overflows. The bound \<^verbatim>\<open>INT_MAX\<close> itself, which \<^verbatim>\<open>main\<close> passes
  by default, is not covered.
\<close>

theorem bmc_check_returns:
  assumes "ipasir_contract e" "loaded C" "distinct (map abs (init_state C))" "fits C nf" "0 \<le> nf" "nf < INT_MAX" "mx \<noteq> 0"
    and "2 + num_latches C + nf * (num_inputs C + num_ands C) \<le> INT_MAX"
    and "bmc_bad (BMC_new C nf ti mx) = Some B" "lit_in C B"
  shows "\<exists>r b'. bmc_check e (BMC_new C nf ti mx) = Some (r, b') \<and> (r = 0 \<or> r = 10)
    \<and> 1 \<le> bmc_frame_k b' \<and> bmc_frame_k b' \<le> nf + 1 \<and> nsize (uaiger b') \<le> INT_MAX"
proof -
  obtain rb where rb: "bmc_check e (BMC_new C nf ti mx) = Some rb" "checked C B nf ti mx rb"
    using bmc_check_ok [OF assms(2,3,4,9,10,1,7)] assms(6) by auto
  then show ?thesis using assms(5,8) by (cases rb) (auto simp: checked_def)
qed

theorem bmc_check_returns_witness:
  "\<exists>r b'. bmc_check ref_env (BMC_new (one_latch (- 2)) 7 1 3) = Some (r, b') \<and> (r = 0 \<or> r = 10)
    \<and> 1 \<le> bmc_frame_k b' \<and> bmc_frame_k b' \<le> 7 + 1 \<and> nsize (uaiger b') \<le> INT_MAX"
  using one_latch_loaded one_latch_fits(7) [of "- 2" 7]
  by (intro bmc_check_returns [OF ref_env_ipasir _ one_latch_fits(3,1) _ _ _ _ one_latch_fits(2,4)]) (simp_all add: INT_MAX_def)

text \<open>
  C7. A bug within the bound is found: when the circuit has a run of fewer than \<^verbatim>\<open>nframes\<close> steps to
  a bad state, a single thread with a solver that answers every query, and no other thread
  that publishes a result, returns 10.
\<close>

theorem bmc_finds_bug:
  assumes e: "ipasir_contract e" "ipasir_complete e" "\<forall>n. other_threads e n = 0"
    and C: "loaded C" "distinct (map abs (init_state C))" "fits C nf" "nf < INT_MAX"
    and bad: "bmc_bad (BMC_new C nf ti 1) = Some B" "lit_in C B"
    and sz: "2 + num_latches C + nf * (num_inputs C + num_ands C) \<le> INT_MAX"
    and bug: "unsafe_at C B n" "int n < nf"
  shows "\<exists>b'. bmc_check e (BMC_new C nf ti 1) = Some (10, b')"
proof -
  have wf: "wf_aig C" using C by (simp add: loaded_def)
  obtain m where m: "m \<le> n" "first_bad C B m" using unsafe_first_bad [OF wf bug(1)] by blast
  obtain b where b: "bmc_initialize (BMC_new C nf ti 1) = Some b" "bmc_inv C B nf ti 1 {} 0 (b\<lparr>bmc_frame_k := 1\<rparr>)"
    using bmc_start [OF C(1-3) bad(1)] by blast
  have "started (BMC_new C nf ti 1) b"
    using bmc_initialize_ok [OF C(1) _ C(2), of "BMC_new C nf ti 1" B] b(1) by (auto simp: BMC_new_def)
  then have "quiet (b\<lparr>bmc_frame_k := 1\<rparr>)" by (simp add: quiet_def started_def BMC_new_def)
  then show ?thesis
    using bmc_loop_finds [OF wf bad(2) C(3,4) e _ sz m(2) _ _ b(2)] m(1) bug(2) b(1) by (simp add: bmc_check_def mine_def)
qed

theorem bmc_finds_bug_witness:
  "unsafe_at (one_latch (- 2)) 2 1 \<and> (\<exists>b'. bmc_check ref_env (BMC_new (one_latch (- 2)) 9 0 1) = Some (10, b'))"
proof -
  let ?C = "one_latch (- 2)" and ?s = "\<lambda>v::int. False" and ?t = "\<lambda>v::int. v = 2"
  have "reach ?C 0 ?s" by (rule reach_init) (auto simp: one_latch_def Aiger_new_def init_ok_def valid_def gates_ok_def
      constr_ok_def cube_true_def lit_val_def)
  then have "reach ?C (Suc 0) ?t"
    by (rule reach_step) (auto simp: one_latch_def Aiger_new_def next_ok_def valid_def gates_ok_def constr_ok_def
        cube_true_def lit_val_def)
  then have u: "unsafe_at ?C 2 1" by (auto simp: unsafe_at_def lit_val_def)
  then show ?thesis
    using bmc_finds_bug [OF ref_env_ipasir ref_env_more(1) ref_env_alone _ one_latch_fits(3,1) _ one_latch_fits(2,4) _ u]
      one_latch_loaded one_latch_fits(7) by (simp add: INT_MAX_def)
qed

section \<open>The unfolding\<close>

definition unfold_frames :: "BMC \<Rightarrow> nat \<Rightarrow> BMC option" where
  "unfold_frames b k = ((\<lambda>x. Option.bind x unfold) ^^ k) (bmc_initialize b)"

text \<open>
  C8. The unfolded circuit refines the runs: after k calls of \<^verbatim>\<open>unfold\<close> there is an assignment of its
  gates that meets its constraints for exactly the runs of k steps of the circuit, and in
  it the j-th output is the value of the bad literal at step j, and \<^verbatim>\<open>values\<close> holds the
  latches after the last step (\<open>traces\<close>). Sharing nodes between frames and simplifying gates
  changes nothing of it.
\<close>

theorem unfolding_refines_runs:
  assumes C: "loaded C" "distinct (map abs (init_state C))"
    and bad: "bmc_bad (BMC_new C nf ti mx) = Some B" "lit_in C B"
    and n: "num_latches C \<le> 999999" "2 + num_latches C + int k * (num_inputs C + num_ands C) \<le> 99999999"
  shows "\<exists>b. unfold_frames (BMC_new C nf ti mx) k = Some b \<and> traces C B k b"
proof -
  let ?b0 = "BMC_new C nf ti mx" and ?d = "num_inputs C + num_ands C"
  have wf: "wf_aig C" using C(1) by (simp add: loaded_def)
  have nn: "0 \<le> ?d" using wf_aigD [OF wf] by auto
  have aig: "b_aiger ?b0 = C" by (simp add: BMC_new_def)
  have "\<exists>b. unfold_frames ?b0 j = Some b \<and> traces C B j b \<and> entry C b \<and> bmc_bad b = Some B
      \<and> hash_size (uaiger b) = 99999999 \<and> nsize (uaiger b) \<le> 2 + num_latches C + int j * ?d" if "j \<le> k" for j
    using that
  proof (induction j)
    case 0
    obtain b where b: "bmc_initialize ?b0 = Some b" "started ?b0 b" "entry C b" "traces C B 0 b"
      using bmc_initialize_ok [OF C(1) aig C(2), of B] by blast
    then have "bmc_bad b = bmc_bad ?b0" by (simp add: bmc_bad_def started_def Let_def)
    then show ?case using b bad aig by (simp add: unfold_frames_def started_def)
  next
    case (Suc j)
    then obtain b where b: "unfold_frames ?b0 j = Some b" "traces C B j b" "entry C b" "bmc_bad b = Some B"
        "hash_size (uaiger b) = 99999999" "nsize (uaiger b) \<le> 2 + num_latches C + int j * ?d" by auto
    have "int (Suc j) * ?d \<le> int k * ?d" using Suc.prems nn by (intro mult_right_mono) auto
    then have h: "nsize (uaiger b) + num_inputs C + num_ands C \<le> hash_size (uaiger b)"
      using b(5,6) n(2) by (simp add: algebra_simps)
    obtain b' vs where b': "unfold b = Some b'" "entry C b'" "frame_sim C B vs b b'" "only_unfolded b b'"
        "hash_size (uaiger b') = hash_size (uaiger b)" "nsize (uaiger b) \<le> nsize (uaiger b')"
        "nsize (uaiger b') \<le> nsize (uaiger b) + num_inputs C + num_ands C"
      using unfold_ok [OF wf b(3,4) bad(2) n(1) h] by blast
    have "traces C B (Suc j) b'" using frame_traces [OF wf b(3,2) bad(2) b'(3,6)] .
    moreover have "unfold_frames ?b0 (Suc j) = Some b'" using b(1) b'(1) by (simp add: unfold_frames_def)
    moreover have "nsize (uaiger b') \<le> 2 + num_latches C + int (Suc j) * ?d"
      using b'(7) b(6) by (simp add: algebra_simps)
    ultimately show ?case using b(4,5) b'(2,5) bmc_bad_cong [OF b'(4)] by simp
  qed
  then show ?thesis by blast
qed

theorem unfolding_refines_runs_witness:
  "\<exists>b. unfold_frames (BMC_new (one_latch (- 2)) 9 0 1) 4 = Some b \<and> traces (one_latch (- 2)) 2 4 b"
  using one_latch_loaded
  by (intro unfolding_refines_runs [OF _ one_latch_fits(3,2,4)]) (simp_all add: one_latch_def Aiger_new_def)

text \<open>
  C10. \<^verbatim>\<open>Aig_And\<close> returns, without an access out of bounds, and when its result is not 0 it is the
  conjunction of its arguments: in every assignment of the unfolding that gives the gates
  treated so far their meaning, the literal returned has the value of both. The recursion
  needs no more calls than the larger of the two variables.
\<close>

theorem Aig_And_conjunction:
  assumes "wf_aig C" "vals_ok C N i vs" "p \<noteq> 0" "q \<noteq> 0" "\<bar>p\<bar> < first_and C + int i" "\<bar>q\<bar> < first_and C + int i"
    and "max \<bar>p\<bar> \<bar>q\<bar> < int n"
  shows "\<exists>r. Aig_And n C vs p q = Some r \<and> \<bar>r\<bar> < N
    \<and> (r \<noteq> 0 \<longrightarrow> (\<forall>\<tau>. sim C i vs \<tau> \<longrightarrow> lit_val \<tau> r = (lit_val (sem vs \<tau>) p \<and> lit_val (sem vs \<tau>) q)))"
proof -
  obtain r where r: "Aig_And n C vs p q = Some r" "and_ok C N i vs p q r"
    using Aig_And_ok [of C N i vs p q n] assms by blast
  have "0 < N" using assms(2) by (simp add: vals_ok_def)
  then show ?thesis using r by (cases "r = 0") (auto simp: and_ok_def)
qed

text \<open>Inputs 2 and 3, gate 4 is their conjunction and gate 5 that of 4 and 2.\<close>

definition two_gates :: Aiger where
  "two_gates = Aiger_new\<lparr>num_inputs := 2, num_ands := 2, ands := [mkAnd 4 2 3, mkAnd 5 4 2],
     primed_first_dimacs := 6, bad := 5, allbad := [5]\<rparr>"

theorem Aig_And_conjunction_witness:
  "Aig_And 6 two_gates [0, 1, 2, 3, 4, 0] 4 2 = Some 4
   \<and> lit_val (\<lambda>v. v \<in> {2, 3, 4}) 4 = (lit_val (\<lambda>v. v \<in> {2, 3, 4}) 4 \<and> lit_val (\<lambda>v. v \<in> {2, 3, 4}) 2)"
proof -
  have a: "Aig_And 6 two_gates [0, 1, 2, 3, 4, 0] 4 2 = Some 4"
    by (simp add: two_gates_def Aiger_new_def eval_nat_numeral Aig_And_body_def val_of_def vec_at_def fans_def
        grand_cases_def Let_def)
  have w: "wf_aig two_gates"
    by (simp add: two_gates_def Aiger_new_def wf_aig_def wf_ands_def lit_in_def less_Suc_eq All_less_Suc)
  have v: "vals_ok two_gates 5 1 [0, 1, 2, 3, 4, 0]"
    unfolding vals_ok_def
  proof (intro conjI allI impI)
    fix v :: int assume "1 \<le> v" "v < first_and two_gates + int 1"
    then have "v = 1 \<or> v = 2 \<or> v = 3 \<or> v = 4" by (auto simp: two_gates_def Aiger_new_def)
    then show "[0, 1, 2, 3, 4, 0] ! nat v \<noteq> (0::int)" "\<bar>[0, 1, 2, 3, 4, 0] ! nat v\<bar> < (5::int)" by auto
  qed (simp_all add: two_gates_def Aiger_new_def)
  have t: "sim two_gates 1 [0, 1, 2, 3, 4, 0] (\<lambda>v. v \<in> {2, 3, 4})"
    by (simp add: sim_def two_gates_def Aiger_new_def gate_ok_def sem_def lit_val_def)
  have "\<bar>4\<bar> < first_and two_gates + int 1" "\<bar>2\<bar> < first_and two_gates + int 1" by (simp_all add: two_gates_def Aiger_new_def)
  then have "\<forall>\<tau>. sim two_gates 1 [0, 1, 2, 3, 4, 0] \<tau> \<longrightarrow> lit_val \<tau> 4
      = (lit_val (sem [0, 1, 2, 3, 4, 0] \<tau>) 4 \<and> lit_val (sem [0, 1, 2, 3, 4, 0] \<tau>) 2)"
    using Aig_And_conjunction [OF w v, of 4 2 6] a by simp
  from spec [OF this, of "\<lambda>v. v \<in> {2, 3, 4}"] t show ?thesis using a by (simp add: sem_def lit_val_def)
qed

end
