(* ===== verification/SatWrappers.thy ===== *)
theory SatWrappers
  imports RefSolver
begin

text \<open>
  The rest of \<^verbatim>\<open>src/sat_solver.hpp\<close>: solving and reading answers with \<^verbatim>\<open>minisatSimp\<close>, and the class
  \<^verbatim>\<open>minisatCore\<close>. MiniSat's answers are the argument \<open>solver\<close>, a function of the clauses and the
  assumptions; the clauses a MiniSat object was given are a ghost list of DIMACS clauses, which
  the object itself simplifies (\<open>MiniBuild\<close> has \<^verbatim>\<open>addClause\<close> on the object). The interface that the three wrappers share,
  \<^verbatim>\<open>add\<close>, is the locale \<open>clause_sink\<close>; the encoders run on any of them.
\<close>

type_synonym minisat = "cnf \<Rightarrow> int list \<Rightarrow> answer"

section \<open>class minisatSimp\<close>

text \<open>
  The answer is read from the solver object; it is passed on with the wrapper. \<^verbatim>\<open>conflict\<close> holds
  the negations of the failed assumptions, and \<^verbatim>\<open>failed\<close> asks for the negated literal.
\<close>

definition minisatSimp_solve :: "minisat \<Rightarrow> minisatSimp \<Rightarrow> int \<times> answer \<times> minisatSimp" where
  "minisatSimp_solve solver m =
     (let r = solver (ms_clauses m) (ms_assumptions m)
      in (case r of Sat _ \<Rightarrow> 10 | _ \<Rightarrow> 20, r, m\<lparr>ms_assumptions := []\<rparr>))"

definition conflict_of :: "answer \<Rightarrow> int list" where
  "conflict_of r = (case r of Unsat core \<Rightarrow> map uminus core | _ \<Rightarrow> [])"

definition minisatSimp_failed :: "answer \<Rightarrow> int \<Rightarrow> int" where
  "minisatSimp_failed r l =
     (let v = \<bar>l\<bar>; neg = (if 0 < l then - v else v) in if neg \<in> set (conflict_of r) then 1 else 0)"

text \<open>\<^verbatim>\<open>model\<close> is read without a test: \<open>None\<close> for a variable above the model, or without one.\<close>

definition minisatSimp_val :: "answer \<Rightarrow> int \<Rightarrow> int \<Rightarrow> int option" where
  "minisatSimp_val r n l =
     (case r of
        Sat \<alpha> \<Rightarrow> if l = 0 \<or> n < \<bar>l\<bar> then None else Some (if \<alpha> \<bar>l\<bar> then \<bar>l\<bar> else - \<bar>l\<bar>)
      | _ \<Rightarrow> None)"

section \<open>class minisatCore\<close>

record minisatCore =
  mc_nVars :: int
  mc_clauses :: cnf
  mc_clause :: clause
  mc_assumptions :: "int list"
  mc_nv :: int
  mc_clear_flag :: bool
  mc_answer :: answer

definition minisatCore_new :: minisatCore where
  "minisatCore_new = \<lparr>mc_nVars = 0, mc_clauses = [], mc_clause = [], mc_assumptions = [], mc_nv = 0,
     mc_clear_flag = False, mc_answer = NoAnswer\<rparr>"

definition mc_var_enlarge_to :: "int \<Rightarrow> minisatCore \<Rightarrow> minisatCore" where
  "mc_var_enlarge_to v m = (if mc_nVars m < v then m\<lparr>mc_nVars := v\<rparr> else m)"

definition minisatCore_add :: "int \<Rightarrow> minisatCore \<Rightarrow> minisatCore" where
  "minisatCore_add l m =
     (if l = 0 then m\<lparr>mc_clauses := mc_clauses m @ [mc_clause m], mc_clause := []\<rparr>
      else (let m1 = m\<lparr>mc_nv := max (mc_nv m) \<bar>l\<bar>\<rparr>;
                m2 = mc_var_enlarge_to (mc_nv m1) m1
            in m2\<lparr>mc_clause := mc_clause m2 @ [l]\<rparr>))"

definition minisatCore_assume :: "int \<Rightarrow> minisatCore \<Rightarrow> minisatCore" where
  "minisatCore_assume l m =
     (let m1 = m\<lparr>mc_nv := max (mc_nv m) \<bar>l\<bar>\<rparr>;
          m2 = mc_var_enlarge_to (mc_nv m1) m1
      in m2\<lparr>mc_assumptions := mc_assumptions m2 @ [l]\<rparr>)"

definition minisatCore_solve :: "minisat \<Rightarrow> minisatCore \<Rightarrow> int \<times> minisatCore" where
  "minisatCore_solve solver m =
     (let r = solver (mc_clauses m) (mc_assumptions m)
      in (case r of Sat _ \<Rightarrow> 10 | _ \<Rightarrow> 20, m\<lparr>mc_assumptions := [], mc_answer := r\<rparr>))"

definition minisatCore_failed :: "int \<Rightarrow> minisatCore \<Rightarrow> int" where
  "minisatCore_failed l m =
     (let v = \<bar>l\<bar>; neg = (if 0 < l then - v else v) in if neg \<in> set (conflict_of (mc_answer m)) then 1 else 0)"

definition minisatCore_val :: "int \<Rightarrow> minisatCore \<Rightarrow> int option" where
  "minisatCore_val l m =
     (case mc_answer m of
        Sat \<alpha> \<Rightarrow> if l = 0 \<or> mc_nVars m < \<bar>l\<bar> then None else Some (if \<alpha> \<bar>l\<bar> then \<bar>l\<bar> else - \<bar>l\<bar>)
      | _ \<Rightarrow> None)"

text \<open>\<open>None\<close> is the failed \<^verbatim>\<open>assert\<close>.\<close>

definition minisatCore_max_var :: "minisatCore \<Rightarrow> int option" where
  "minisatCore_max_var m = (if mc_nVars m = mc_nv m then Some (mc_nv m) else None)"

definition minisatCore_set_clear_act :: "minisatCore \<Rightarrow> minisatCore" where
  "minisatCore_set_clear_act m = m\<lparr>mc_clear_flag := True\<rparr>"

definition minisatCore_clear_act :: "minisatCore \<Rightarrow> minisatCore" where
  "minisatCore_clear_act m =
     (if mc_clear_flag m then minisatCore_add 0 (minisatCore_add (- mc_nv m) m) else m)\<lparr>mc_clear_flag := False\<rparr>"

text \<open>
  The printers; which clauses MiniSat still holds, how many, and which literals are fixed, is
  the solver's business and comes as an argument.
\<close>

definition minisatCore_show_info :: "nat \<Rightarrow> minisatCore \<Rightarrow> string" where
  "minisatCore_show_info nClauses m = show_int (mc_nVars m) @ '' '' @ show_nat nClauses @ newline"

definition show_clause :: "clause \<Rightarrow> string" where
  "show_clause c = concat (map (\<lambda>l. show_int l @ '' '') c) @ newline"

definition minisatCore_show_clauses :: "cnf \<Rightarrow> int list \<Rightarrow> string" where
  "minisatCore_show_clauses held trail =
     ''show_lift clauses begin'' @ newline @ concat (map show_clause held)
     @ concat (map (\<lambda>l. show_int l @ newline) trail) @ ''show_lift clauses end'' @ newline"

section \<open>The interface of the wrappers\<close>

text \<open>
  What the encoders of the program rely on: literals collect until 0 closes the clause. From
  the two laws follows what adding a whole formula does, for every wrapper.
\<close>

locale clause_sink =
  fixes add :: "int \<Rightarrow> 's \<Rightarrow> 's"
    and held :: "'s \<Rightarrow> cnf"
    and open_clause :: "'s \<Rightarrow> clause"
  assumes add_lit: "l \<noteq> 0 \<Longrightarrow> held (add l s) = held s \<and> open_clause (add l s) = open_clause s @ [l]"
    and add_zero: "held (add 0 s) = held s @ [open_clause s] \<and> open_clause (add 0 s) = []"
begin

lemma add_lits:
  "0 \<notin> set c \<Longrightarrow> held (fold add c s) = held s \<and> open_clause (fold add c s) = open_clause s @ c"
  by (induction c arbitrary: s) (simp_all add: add_lit)

lemma add_formula:
  assumes "nonzero F" "open_clause s = []"
  shows "held (fold add (concat (map (\<lambda>c. c @ [0]) F)) s) = held s @ F
    \<and> open_clause (fold add (concat (map (\<lambda>c. c @ [0]) F)) s) = []"
  using assms
proof (induction F arbitrary: s)
  case (Cons c F)
  define t where "t = add 0 (fold add c s)"
  have "held t = held s @ [c]" "open_clause t = []"
    using Cons.prems add_lits [of c s] add_zero by (simp_all add: t_def)
  then show ?case using Cons by (simp add: t_def)
qed simp

end

interpretation cadical: clause_sink CaDiCaL_add clauses pending
  by unfold_locales (simp_all add: CaDiCaL_add_def ipasir_add_def)

interpretation simp: clause_sink minisatSimp_add ms_clauses ms_clause
  by unfold_locales (simp_all add: minisatSimp_add_def var_enlarge_to_def Let_def)

interpretation core: clause_sink minisatCore_add mc_clauses mc_clause
  by unfold_locales (simp_all add: minisatCore_add_def mc_var_enlarge_to_def Let_def)

text \<open>
  The three wrappers agree on what they are given: after the literals of any formula
  without the literal 0, each clause closed by 0, a fresh \<^verbatim>\<open>CaDiCaL\<close>, \<^verbatim>\<open>minisatSimp\<close> and
  \<^verbatim>\<open>minisatCore\<close> have been given exactly the clauses of the formula and no open clause.
\<close>

lemma wrappers_hold_formula:
  assumes "nonzero F"
  defines "ls \<equiv> concat (map (\<lambda>c. c @ [0]) F)"
  shows "clauses (fold CaDiCaL_add ls CaDiCaL_new) = F \<and> pending (fold CaDiCaL_add ls CaDiCaL_new) = []
    \<and> ms_clauses (fold minisatSimp_add ls minisatSimp_new) = F \<and> ms_clause (fold minisatSimp_add ls minisatSimp_new) = []
    \<and> mc_clauses (fold minisatCore_add ls minisatCore_new) = F \<and> mc_clause (fold minisatCore_add ls minisatCore_new) = []"
  using cadical.add_formula [OF assms(1), of CaDiCaL_new] simp.add_formula [OF assms(1), of minisatSimp_new]
    core.add_formula [OF assms(1), of minisatCore_new]
  by (simp add: ls_def CaDiCaL_new_def minisatSimp_new_def minisatCore_new_def)

section \<open>minisatCore as a state machine\<close>

inductive mc_step :: "minisat \<Rightarrow> minisatCore \<Rightarrow> minisatCore \<Rightarrow> bool" for solver where
  mc_add: "mc_step solver m (minisatCore_add l m)"
| mc_assume: "mc_step solver m (minisatCore_assume l m)"
| mc_solve: "mc_step solver m (snd (minisatCore_solve solver m))"
| mc_set_clear: "mc_step solver m (minisatCore_set_clear_act m)"
| mc_clear: "mc_step solver m (minisatCore_clear_act m)"

inductive mc_reachable :: "minisat \<Rightarrow> minisatCore \<Rightarrow> bool" for solver where
  mc_start: "mc_reachable solver minisatCore_new"
| mc_more: "mc_reachable solver m \<Longrightarrow> mc_step solver m m' \<Longrightarrow> mc_reachable solver m'"

definition mc_inv :: "minisatCore \<Rightarrow> bool" where
  "mc_inv m = (mc_nVars m = mc_nv m \<and> 0 \<le> mc_nv m \<and> lits_le (mc_nv m) (mc_clause m # mc_clauses m)
     \<and> (\<forall>l\<in>set (mc_assumptions m). \<bar>l\<bar> \<le> mc_nv m))"

lemma mc_inv_add: "mc_inv m \<Longrightarrow> mc_inv (minisatCore_add l m)"
  by (fastforce simp: mc_inv_def minisatCore_add_def mc_var_enlarge_to_def Let_def lits_le_def)

lemma mc_inv_step: "mc_step solver m m' \<Longrightarrow> mc_inv m \<Longrightarrow> mc_inv m'"
proof (induction rule: mc_step.induct)
  case (mc_assume m l)
  then show ?case
    by (fastforce simp: mc_inv_def minisatCore_assume_def mc_var_enlarge_to_def Let_def lits_le_def)
next
  case (mc_clear m)
  then show ?case using mc_inv_add [OF mc_inv_add]
    by (simp add: minisatCore_clear_act_def) (simp add: mc_inv_def)
qed (simp_all add: mc_inv_add, simp_all add: mc_inv_def minisatCore_solve_def minisatCore_set_clear_act_def Let_def)



end
