(* ===== verification/Printers.thy ===== *)
theory Printers
  imports PDR_Core BMC
begin

text \<open>
  The remaining log functions of \<^verbatim>\<open>src/PDR.cpp\<close>, \<^verbatim>\<open>src/BMC.cpp\<close> and \<^verbatim>\<open>src/BMC.hpp\<close> as functions to the
  text they print, the class \<^verbatim>\<open>share_Cube\<close>, and \<^verbatim>\<open>PDR::show_uaiger\<close>, which writes the circuit
  unfolded for 130 steps as an AIGER file: its gates are numbered as the format demands.
\<close>

section \<open>class share\_Cube\<close>

record share_Cube =
  toall :: bool
  sc_frame :: int
  share_cube :: Cube

definition share_Cube_new :: share_Cube where
  "share_Cube_new = \<lparr>toall = True, sc_frame = 1, share_cube = []\<rparr>"

definition mk_share_Cube :: "bool \<Rightarrow> int \<Rightarrow> Cube \<Rightarrow> share_Cube" where
  "mk_share_Cube b i c = \<lparr>toall = b, sc_frame = i, share_cube = c\<rparr>"

section \<open>Printers of PDR\<close>

text \<open>The first character of a \<^verbatim>\<open>std::string\<close>, which is 0 in an empty one.\<close>

definition first_char :: "string \<Rightarrow> char" where
  "first_char s = (case s of [] \<Rightarrow> CHR 0x00 | c # _ \<Rightarrow> c)"

text \<open>Twenty variables per line, and a new line before the next kind of variable.\<close>

fun variable_lines :: "(Variable \<Rightarrow> int \<Rightarrow> string) \<Rightarrow> int \<Rightarrow> int \<Rightarrow> Variable list \<Rightarrow> string" where
  "variable_lines f i ct [] = []"
| "variable_lines f i ct (v # vs) = f v i
     @ (if ct mod 20 = 0 \<or> (case vs of [] \<Rightarrow> False | w # _ \<Rightarrow> first_char (vname w) \<noteq> first_char (vname v))
        then newline @ variable_lines f (i + 1) 1 vs
        else variable_lines f (i + 1) (ct + 1) vs)"

definition show_variables :: "Aiger \<Rightarrow> string" where
  "show_variables a = variable_lines (\<lambda>v i. ''v'' @ show_int (dimacs_var v) @ ''('' @ vname v @ '')    ''
     @ [CHR 0x09]) 1 1 (tl (variables a)) @ newline"

definition frame_lines ::
  "Frame \<Rightarrow> int \<times> bool \<times> PDR \<Rightarrow> (int \<times> bool \<times> PDR) option" where
  "frame_lines f st = (case st of (k, safe, p) \<Rightarrow> do {
     let p1 = p\<lparr>cout := cout p @ ''Level '' @ show_int k @ '' (cubeCount = '' @ show_nat (length (cubes f))
       @ '' varCount =  '' @ show_int (CaDiCaL_max_var (solver f)) @ '' '' @ '') :'' @ newline\<rparr>;
     if k + 1 = 1 then Some (k + 1, safe, p1)
     else if cubes f = [] then Some (k + 1, True, p1)
     else if \<not> safe then Some (k + 1, safe, p1)
     else do { p2 \<leftarrow> fold_opt show_litvec (cubes f) p1; Some (k + 1, False, p2) }
   })"

definition show_frames :: "PDR \<Rightarrow> PDR option" where
  "show_frames p = do {
     (k, safe, p1) \<leftarrow> fold_opt frame_lines (frames p) (0, False, p\<lparr>cout := cout p @ newline\<rparr>);
     Some (p1\<lparr>cout := cout p1 @ newline @ '' * ======='' @ newline\<rparr>)
   }"

text \<open>What \<^verbatim>\<open>PDR::translate_to_dimacs\<close> prints for a verbosity \<^verbatim>\<open>aig_veb\<close>, which the program sets to 0.\<close>

definition translate_log :: "int \<Rightarrow> Aiger \<Rightarrow> string option" where
  "translate_log veb a = do {
     t \<leftarrow> (if veb = 0 then Some [] else do {
       ls \<leftarrow> those (map (\<lambda>i. do {
           al \<leftarrow> vec_at (Aiger_latches a) (i - 1);
           nx \<leftarrow> vec_at (nexts a) (i - 1);
           Some (show_int (1 + num_inputs a + i) @ '' '' @ show_int nx @ '' '' @ show_int (al_default_val al) @ newline)
         }) [1..num_latches a]);
       cs \<leftarrow> those (map (vec_at (constraints a)) [0..num_constraints a - 1]);
       ps \<leftarrow> those (map (vec_at (constraints_prime a)) [0..num_constraints a - 1]);
       Some (concat ls @ ''bad: '' @ show_int (bad a) @ newline
         @ ''primed bad: '' @ show_int (bad_prime a) @ newline
         @ ''constraints: '' @ newline @ concat (map (\<lambda>c. show_int c @ '' '') cs)
         @ newline @ ''primed constraints: '' @ newline @ concat (map (\<lambda>c. show_int c @ '' '') ps) @ newline
         @ concat (map (\<lambda>g. show_int (out g) @ '' '' @ show_int (i1 g) @ '' '' @ show_int (i2 g) @ newline) (ands a)))
     });
     Some (t @ (if 2 < veb then show_variables a else []))
   }"

section \<open>Printers of BMC\<close>

definition BMC_show_variables :: "BMC \<Rightarrow> string" where
  "BMC_show_variables b = ''-------------show_variables------------------'' @ newline
     @ variable_lines (\<lambda>v i. ''variable['' @ show_int i @ '']= v'' @ show_int (dimacs_var v) @ ''('' @ vname v
         @ '')    '' @ [CHR 0x09]) 1 1 (tl (variables (b_aiger b))) @ newline"

definition indexed :: "string \<Rightarrow> (nat \<Rightarrow> string) \<Rightarrow> nat \<Rightarrow> string" where
  "indexed name f n = concat (map (\<lambda>i. name @ ''['' @ show_nat i @ ''] = '' @ f i) [0..<n])"

definition BMC_show_ands :: "BMC \<Rightarrow> string" where
  "BMC_show_ands b = (let gs = ands (b_aiger b) in ''-------------show_ands------------------'' @ newline
     @ ''num_ands = '' @ show_int (num_ands (b_aiger b)) @ '', ands.size() = '' @ show_nat (length gs) @ newline
     @ indexed ''ands'' (\<lambda>i. show_int (out (gs ! i)) @ '' '' @ show_int (i1 (gs ! i)) @ '' ''
         @ show_int (i2 (gs ! i)) @ newline) (min (length gs) 1002))"

definition BMC_show_nexts :: "BMC \<Rightarrow> string" where
  "BMC_show_nexts b = (let a = b_aiger b in ''-------------show_nexts_inits------------------'' @ newline
     @ ''num_latches = '' @ show_int (num_latches a) @ '', nexts.size() = '' @ show_nat (length (nexts a))
     @ '', inits.size() = '' @ show_nat (length (init_state a)) @ newline
     @ indexed ''nexts'' (\<lambda>i. show_int (nexts a ! i) @ '' '') (length (nexts a)) @ newline
     @ indexed ''init_state'' (\<lambda>i. show_int (init_state a ! i) @ '' '') (length (init_state a)) @ newline)"

definition BMC_show_values :: "BMC \<Rightarrow> string" where
  "BMC_show_values b = ''-------------show_values------------------'' @ newline
     @ ''values.size() = '' @ show_nat (length (vals b)) @ newline
     @ indexed ''values'' (\<lambda>i. show_int (vals b ! i) @ '' '') (length (vals b)) @ newline"

definition BMC_show_bads :: "BMC \<Rightarrow> string" where
  "BMC_show_bads b = ''-------------show_BADs------------------'' @ newline
     @ ''bad = '' @ show_int (bad (b_aiger b)) @ newline"

definition BMC_show_constraints :: "BMC \<Rightarrow> string" where
  "BMC_show_constraints b = (let cs = constraints (b_aiger b) in
     ''-------------show_constraints------------------'' @ newline
     @ ''constraints size = '' @ show_nat (length cs) @ newline
     @ concat (map (\<lambda>c. show_int c @ '' '') cs) @ newline)"

definition u_show_constraints :: "UnfoldAiger \<Rightarrow> string" where
  "u_show_constraints u = ''constraints: '' @ concat (map (\<lambda>l. show_int l @ '' '') (u_constraints u)) @ newline"

definition u_show_ands :: "UnfoldAiger \<Rightarrow> string" where
  "u_show_ands u = ''ands: '' @ concat (map (\<lambda>g. show_int (out g) @ '' '' @ show_int (i1 g) @ '' ''
     @ show_int (i2 g) @ newline) (take 1002 (u_ands u))) @ newline"

section \<open>PDR::show\_uaiger\<close>

text \<open>
  The unfolded circuit has \<open>D\<close> copies of the inputs first, then for every step one gate per
  latch and the gates. All numbers are AIGER literals; \<open>n\<close> is the number of latches and gates.
\<close>

definition uaiger_first_latches :: "Aiger \<Rightarrow> int \<Rightarrow> (int \<times> int \<times> int) list" where
  "uaiger_first_latches a D = map (\<lambda>i. (2 * (num_inputs a * D + i), 2, 3)) [1..num_latches a]"

definition uaiger_shift :: "Aiger \<Rightarrow> int \<Rightarrow> int \<Rightarrow> int \<Rightarrow> int" where
  "uaiger_shift a D d x =
     (if 2 * (num_inputs a + 1) \<le> x
      then x + 2 * num_inputs a * (D - 1) + 2 * (num_latches a + num_ands a) * (d - 1)
      else x + 2 * num_inputs a * (d - 1))"

definition uaiger_and :: "Aiger \<Rightarrow> int \<Rightarrow> int \<Rightarrow> And \<Rightarrow> int \<times> int \<times> int" where
  "uaiger_and a D d g =
     (dimacs_to_aiger (out g) + 2 * num_inputs a * (D - 1) + 2 * (num_latches a + num_ands a) * (d - 1),
      uaiger_shift a D d (dimacs_to_aiger (i1 g)), uaiger_shift a D d (dimacs_to_aiger (i2 g)))"

definition uaiger_next :: "Aiger \<Rightarrow> int \<Rightarrow> int \<Rightarrow> int \<Rightarrow> int" where
  "uaiger_next a D d next =
     (if 2 * (num_inputs a + 1) \<le> next
      then next + (2 * num_inputs a * (D - 1) + 2 * (num_latches a + num_ands a) * (d - 2))
      else if 1 < next then next + 2 * num_inputs a * (d - 1)
      else if 0 \<le> next then 2 * (num_inputs a * D + 1) + next else next)"

definition uaiger_latch :: "Aiger \<Rightarrow> int \<Rightarrow> int \<Rightarrow> int \<Rightarrow> (int \<times> int \<times> int) option" where
  "uaiger_latch a D d i = do {
     nx \<leftarrow> vec_at (nexts a) (i - 1);
     let next = uaiger_next a D d (dimacs_to_aiger nx);
     Some (2 * (num_inputs a * D + (d - 1) * (num_latches a + num_ands a) + i), next, next)
   }"

definition uaiger_gates :: "Aiger \<Rightarrow> int \<Rightarrow> (int \<times> int \<times> int) list option" where
  "uaiger_gates a D = do {
     rest \<leftarrow> those (map (\<lambda>d. do {
         ls \<leftarrow> those (map (uaiger_latch a D d) [1..num_latches a]);
         Some (ls @ map (uaiger_and a D d) (ands a))
       }) [2..D]);
     Some (uaiger_first_latches a D @ map (uaiger_and a D 1) (ands a) @ concat rest)
   }"

definition show_uaiger :: "Aiger \<Rightarrow> string option" where
  "show_uaiger a = do {
     let D = 130;
     gs \<leftarrow> uaiger_gates a D;
     Some (''aag '' @ show_int (num_inputs a * D + num_latches a * D + num_ands a * D) @ '' ''
       @ show_int (num_inputs a * D) @ '' '' @ show_int 0 @ '' 1 ''
       @ show_int (num_ands a * D + num_latches a * D) @ newline
       @ concat (map (\<lambda>i. show_int (2 * i) @ newline) [1..num_inputs a * D])
       @ show_int (dimacs_to_aiger (bad a) + 2 * num_inputs a * (D - 1)
           + 2 * (num_latches a + num_ands a) * (D - 1)) @ newline
       @ concat (map (\<lambda>(x, y, z). show_int x @ '' '' @ show_int y @ '' '' @ show_int z @ newline) gs))
   }"

text \<open>The numbering of one step, and of all steps together.\<close>

lemma upto_blocks:
  assumes "0 \<le> n"
  shows "concat (map (\<lambda>d. map (\<lambda>j. (d - 1) * n + j) [1..n]) [1..int m]) = [1..int m * n]"
proof (induction m)
  case (Suc m)
  have s: "[x..y] = map (\<lambda>j. x - 1 + j) [1..y - x + 1]" for x y :: int
    by (rule nth_equalityI) auto
  have "[1..int (Suc m)] = [1..int m] @ [int (Suc m)]" by (simp add: upto_rec2)
  moreover have "[1..int (Suc m) * n] = [1..int m * n] @ [int m * n + 1..int m * n + n]"
    using upto_split1 [of 1 "int m * n + 1" "int m * n + n"] assms by (cases "n = 0") (simp_all add: algebra_simps)
  ultimately show ?case using Suc s [of "int m * n + 1" "int m * n + n"] by simp
qed simp

lemma aiger_lit_bounds:
  assumes "l \<noteq> 0"
  shows "0 \<le> dimacs_to_aiger l" "dimacs_to_aiger l \<le> 2 * (\<bar>l\<bar> - 1) + 1"
  using assms by (auto simp: dimacs_to_aiger_def Let_def)

definition gate_below :: "int \<times> int \<times> int \<Rightarrow> bool" where
  "gate_below g = (case g of (x, y, z) \<Rightarrow> 0 \<le> y \<and> y < x \<and> 0 \<le> z \<and> z < x)"

text \<open>One step: \<open>d\<close> from 1 to \<open>D\<close>, \<open>s\<close> the literals of the steps before.\<close>

lemma uaiger_and_below:
  assumes wf: "wf_aig a" and d: "1 \<le> d" "d \<le> D" and k: "k < length (ands a)"
  defines "n \<equiv> num_latches a + num_ands a"
  shows "fst (uaiger_and a D d (ands a ! k)) = 2 * (num_inputs a * D + ((d - 1) * n + (num_latches a + 1 + int k)))"
    and "gate_below (uaiger_and a D d (ands a ! k))"
proof -
  let ?g = "ands a ! k" and ?I = "num_inputs a"
  have nn: "0 \<le> ?I" "0 \<le> num_latches a" "num_ands a = int (length (ands a))" using wf_aigD [OF wf] by auto
  have g: "out ?g = first_and a + int k" "i1 ?g \<noteq> 0" "\<bar>i1 ?g\<bar> < out ?g" "i2 ?g \<noteq> 0" "\<bar>i2 ?g\<bar> < out ?g"
    using wf_aigD(5) [OF wf] k by (auto simp: wf_ands_def)
  have o: "dimacs_to_aiger (out ?g) = 2 * (?I + num_latches a + 1 + int k)"
    using g(1) nn by (simp add: dimacs_to_aiger_def Let_def)
  define s where "s = n * (d - 1)"
  define r where "r = ?I * (D - 1)"
  define q where "q = ?I * (d - 1)"
  have qr: "0 \<le> q" "q \<le> r" "0 \<le> s" using nn d by (auto simp: q_def r_def s_def n_def intro: mult_left_mono)
  have x: "fst (uaiger_and a D d ?g) = 2 * (?I + num_latches a + 1 + int k) + 2 * r + 2 * s"
    by (simp add: uaiger_and_def o r_def s_def n_def)
  then show "fst (uaiger_and a D d ?g) = 2 * (?I * D + ((d - 1) * n + (num_latches a + 1 + int k)))"
    by (simp add: r_def s_def algebra_simps)
  have c: "0 \<le> uaiger_shift a D d y \<and> uaiger_shift a D d y < fst (uaiger_and a D d ?g)"
    if y: "0 \<le> y" "y < 2 * (?I + num_latches a + 1 + int k)" for y
  proof -
    have "uaiger_shift a D d y = (if 2 * (?I + 1) \<le> y then y + 2 * r + 2 * s else y + 2 * q)"
      by (simp add: uaiger_shift_def r_def s_def q_def n_def)
    then show ?thesis using x y qr nn by (auto split: if_splits)
  qed
  have "0 \<le> dimacs_to_aiger (i1 ?g) \<and> dimacs_to_aiger (i1 ?g) < 2 * (?I + num_latches a + 1 + int k)"
    "0 \<le> dimacs_to_aiger (i2 ?g) \<and> dimacs_to_aiger (i2 ?g) < 2 * (?I + num_latches a + 1 + int k)"
    using aiger_lit_bounds [OF g(2)] aiger_lit_bounds [OF g(4)] g by auto
  then show "gate_below (uaiger_and a D d ?g)"
    using c unfolding gate_below_def uaiger_and_def by simp
qed

lemma uaiger_latch_below:
  assumes wf: "wf_aig a" and d: "2 \<le> d" "d \<le> D" and i: "1 \<le> i" "i \<le> num_latches a"
  defines "n \<equiv> num_latches a + num_ands a"
  obtains t where "uaiger_latch a D d i = Some t" "fst t = 2 * (num_inputs a * D + ((d - 1) * n + i))" "gate_below t"
proof -
  let ?I = "num_inputs a"
  have nn: "0 \<le> ?I" "0 \<le> num_latches a" "num_ands a = int (length (ands a))" "num_latches a = int (length (nexts a))"
    using wf_aigD [OF wf] by auto
  define nx where "nx = nexts a ! nat (i - 1)"
  have at: "vec_at (nexts a) (i - 1) = Some nx" using i nn by (simp add: vec_at_def nx_def)
  have "nx \<in> set (nexts a)" using i nn by (simp add: nx_def)
  then have l: "nx \<noteq> 0" "\<bar>nx\<bar> < first_and a + num_ands a" using lit_in_simps(2) [OF wf] nn by (auto simp: lit_in_def)
  define y where "y = dimacs_to_aiger nx"
  have y: "0 \<le> y" "y \<le> 2 * (?I + n) + 1" using aiger_lit_bounds [OF l(1)] l(2) by (auto simp: y_def n_def)
  define s where "s = n * (d - 2)"
  define r where "r = ?I * (D - 1)"
  define q where "q = ?I * (d - 1)"
  have qr: "0 \<le> q" "q \<le> r" "0 \<le> s" "1 \<le> n"
    using nn d i by (auto simp: q_def r_def s_def n_def intro: mult_left_mono)
  have D: "?I * D = ?I + r" "(d - 1) * n = n + s" by (simp_all add: r_def s_def algebra_simps)
  define z where "z = uaiger_next a D d y"
  have "z = (if 2 * (?I + 1) \<le> y then y + (2 * r + 2 * s) else if 1 < y then y + 2 * q
      else if 0 \<le> y then 2 * (?I * D + 1) + y else y)"
    by (simp add: z_def uaiger_next_def r_def s_def q_def n_def)
  then have "0 \<le> z \<and> z < 2 * (?I * D + ((d - 1) * n + i))"
    using y qr nn i D by (auto split: if_splits)
  then show thesis
    using at by (intro that [of "(2 * (?I * D + ((d - 1) * n + i)), z, z)"])
      (simp_all add: uaiger_latch_def gate_below_def y_def z_def n_def add.assoc Let_def)
qed

lemma uaiger_block:
  assumes wf: "wf_aig a" and d: "2 \<le> d" "d \<le> D"
  defines "n \<equiv> num_latches a + num_ands a"
  obtains ls where "those (map (uaiger_latch a D d) [1..num_latches a]) = Some ls"
    "map fst (ls @ map (uaiger_and a D d) (ands a)) = map (\<lambda>j. 2 * (num_inputs a * D + ((d - 1) * n + j))) [1..n]"
    "list_all gate_below (ls @ map (uaiger_and a D d) (ands a))"
proof -
  have nn: "0 \<le> num_latches a" "num_ands a = int (length (ands a))" using wf_aigD [OF wf] by auto
  define ls where "ls = map (\<lambda>i. the (uaiger_latch a D d i)) [1..num_latches a]"
  have l: "uaiger_latch a D d i = Some (the (uaiger_latch a D d i))
      \<and> fst (the (uaiger_latch a D d i)) = 2 * (num_inputs a * D + ((d - 1) * n + i))
      \<and> gate_below (the (uaiger_latch a D d i))"
    if "1 \<le> i" "i \<le> num_latches a" for i
    using uaiger_latch_below [OF wf d that] unfolding n_def by (metis option.sel)
  have "those (map (uaiger_latch a D d) [1..num_latches a]) = Some ls"
    unfolding those_Some_conv using l by (simp add: ls_def)
  moreover have "map fst (ls @ map (uaiger_and a D d) (ands a)) = map (\<lambda>j. 2 * (num_inputs a * D + ((d - 1) * n + j))) [1..n]"
  proof (rule nth_equalityI)
    show "length (map fst (ls @ map (uaiger_and a D d) (ands a))) = length (map (\<lambda>j. 2 * (num_inputs a * D + ((d - 1) * n + j))) [1..n])"
      using nn by (simp add: ls_def n_def)
    fix k assume "k < length (map fst (ls @ map (uaiger_and a D d) (ands a)))"
    then have k: "int k < n" using nn by (simp add: ls_def n_def)
    show "map fst (ls @ map (uaiger_and a D d) (ands a)) ! k = map (\<lambda>j. 2 * (num_inputs a * D + ((d - 1) * n + j))) [1..n] ! k"
    proof (cases "int k < num_latches a")
      case True
      then have "k < nat (num_latches a)" by linarith
      then show ?thesis using True l [of "1 + int k"] k nn by (simp add: ls_def nth_append)
    next
      case False
      then have "k - nat (num_latches a) < length (ands a)" "\<not> k < nat (num_latches a)"
        using k nn by (simp_all add: n_def)
      then show ?thesis
        using uaiger_and_below(1) [OF wf _ d(2), of "k - nat (num_latches a)"] nth_upto [of 1 k n] d(1) False k nn
        by (simp add: ls_def nth_append n_def of_nat_diff)
    qed
  qed
  moreover have "list_all gate_below (ls @ map (uaiger_and a D d) (ands a))"
    using l uaiger_and_below(2) [OF wf _ d(2)] d(1) by (auto simp: ls_def list_all_iff in_set_conv_nth)
  ultimately show thesis by (rule that)
qed

lemma uaiger_first_block:
  assumes wf: "wf_aig a" and I: "1 \<le> num_inputs a" and D: "1 \<le> D"
  defines "n \<equiv> num_latches a + num_ands a" and "first \<equiv> uaiger_first_latches a D @ map (uaiger_and a D 1) (ands a)"
  shows "map fst first = map (\<lambda>j. 2 * (num_inputs a * D + ((1 - 1) * n + j))) [1..n]" "list_all gate_below first"
proof -
  have nn: "0 \<le> num_latches a" "num_ands a = int (length (ands a))" using wf_aigD [OF wf] by auto
  show "map fst first = map (\<lambda>j. 2 * (num_inputs a * D + ((1 - 1) * n + j))) [1..n]"
  proof (rule nth_equalityI)
    show "length (map fst first) = length (map (\<lambda>j. 2 * (num_inputs a * D + ((1 - 1) * n + j))) [1..n])"
      using nn by (simp add: first_def uaiger_first_latches_def n_def)
    fix k assume "k < length (map fst first)"
    then have k: "int k < n" using nn by (simp add: first_def uaiger_first_latches_def n_def)
    show "map fst first ! k = map (\<lambda>j. 2 * (num_inputs a * D + ((1 - 1) * n + j))) [1..n] ! k"
    proof (cases "k < nat (num_latches a)")
      case True
      then show ?thesis using nth_upto [of 1 k n] k nn by (simp add: first_def uaiger_first_latches_def nth_append)
    next
      case False
      then have "k - nat (num_latches a) < length (ands a)" using k nn by (simp add: n_def)
      then show ?thesis
        using uaiger_and_below(1) [OF wf _ D, of "k - nat (num_latches a)"] nth_upto [of 1 k n] False k nn
        by (simp add: first_def uaiger_first_latches_def nth_append of_nat_diff)
    qed
  qed
  have "1 \<le> num_inputs a * D" using mult_mono [OF I D] I by simp
  then have "list_all gate_below (uaiger_first_latches a D)"
    by (auto simp: uaiger_first_latches_def list_all_iff gate_below_def)
  moreover have "list_all gate_below (map (uaiger_and a D 1) (ands a))"
    using uaiger_and_below(2) [OF wf _ D] by (simp add: list_all_length)
  ultimately show "list_all gate_below first" by (simp add: first_def)
qed

text \<open>
  C21. \<^verbatim>\<open>PDR::show_uaiger\<close> writes a circuit in the numbering the AIGER format demands, for any number
  of steps, when the circuit has at least one input and the literals can be counted in an \<^verbatim>\<open>int\<close>:
  after the inputs of all steps, the gates are numbered consecutively without a
  gap, every gate reads only literals below its own, and no number exceeds \<^verbatim>\<open>INT_MAX\<close>. Without an
  input, the literals 2 and 3 that the gates of the initial latches read are those gates themselves.
\<close>

theorem uaiger_numbering:
  assumes wf: "wf_aig a" and I: "1 \<le> num_inputs a" and D: "1 \<le> D"
    and int: "2 * (num_inputs a * D + D * (num_latches a + num_ands a)) \<le> INT_MAX"
  shows "\<exists>gs. uaiger_gates a D = Some gs \<and> list_all gate_below gs \<and> (\<forall>g\<in>set gs. fst g \<le> INT_MAX)
    \<and> map fst gs = map (\<lambda>j. 2 * (num_inputs a * D + j)) [1..D * (num_latches a + num_ands a)]"
proof -
  let ?n = "num_latches a + num_ands a" and ?o = "\<lambda>d j. 2 * (num_inputs a * D + ((d - 1) * (num_latches a + num_ands a) + j))"
  have nn: "0 \<le> num_latches a" "num_ands a = int (length (ands a))" using wf_aigD [OF wf] by auto
  define blk where "blk d = the (do { ls \<leftarrow> those (map (uaiger_latch a D d) [1..num_latches a]);
      Some (ls @ map (uaiger_and a D d) (ands a)) })" for d
  have b: "do { ls \<leftarrow> those (map (uaiger_latch a D d) [1..num_latches a]);
        Some (ls @ map (uaiger_and a D d) (ands a)) } = Some (blk d)
      \<and> map fst (blk d) = map (?o d) [1..?n] \<and> list_all gate_below (blk d)"
    if "2 \<le> d" "d \<le> D" for d
    using uaiger_block [OF wf that] unfolding blk_def by (metis (no_types, lifting) bind.bind_lunit option.sel)
  define first where "first = uaiger_first_latches a D @ map (uaiger_and a D 1) (ands a)"
  note f = uaiger_first_block [OF wf I D, folded first_def]
  have gs: "uaiger_gates a D = Some (first @ concat (map blk [2..D]))"
  proof -
    have "those (map (\<lambda>d. do { ls \<leftarrow> those (map (uaiger_latch a D d) [1..num_latches a]);
        Some (ls @ map (uaiger_and a D d) (ands a)) }) [2..D]) = Some (map blk [2..D])"
      unfolding those_Some_conv using b by simp
    then show ?thesis by (simp add: uaiger_gates_def first_def)
  qed
  have below: "list_all gate_below (first @ concat (map blk [2..D]))" using f(2) b by (auto simp: list_all_iff)
  have m: "map (\<lambda>d. map fst (blk d)) [2..D] = map (\<lambda>d. map (?o d) [1..?n]) [2..D]"
    by (rule map_cong) (use b in auto)
  have "map fst (first @ concat (map blk [2..D])) = map fst first @ concat (map (\<lambda>d. map fst (blk d)) [2..D])"
    by (simp add: map_concat comp_def)
  also have "\<dots> = concat (map (\<lambda>d. map (?o d) [1..?n]) (1 # [2..D]))" unfolding f(1) m by (simp only: list.map concat.simps)
  also have "1 # [2..D] = [1..int (nat D)]" using D by (simp add: upto_rec1)
  also have "concat (map (\<lambda>d. map (?o d) [1..?n]) [1..int (nat D)])
      = map (\<lambda>j. 2 * (num_inputs a * D + j)) (concat (map (\<lambda>d. map (\<lambda>j. (d - 1) * ?n + j) [1..?n]) [1..int (nat D)]))"
    by (simp add: map_concat comp_def)
  also have "\<dots> = map (\<lambda>j. 2 * (num_inputs a * D + j)) [1..D * ?n]"
    using upto_blocks [of ?n "nat D"] nn D by simp
  finally have fst: "map fst (first @ concat (map blk [2..D])) = map (\<lambda>j. 2 * (num_inputs a * D + j)) [1..D * ?n]" .
  have "\<forall>x\<in>set (map fst (first @ concat (map blk [2..D]))). x \<le> INT_MAX" unfolding fst using int by auto
  then show ?thesis using gs below fst by auto
qed

definition one_gate :: Aiger where
  "one_gate = Aiger_new\<lparr>num_inputs := 1, num_latches := 1, num_ands := 1, ands := [mkAnd 4 2 (- 3)],
     nexts := [4], init_state := [- 3], allbad := [3], bad := 3, primed_first_dimacs := 5\<rparr>"

theorem uaiger_numbering_witness:
  "\<exists>gs. uaiger_gates one_gate 130 = Some gs \<and> list_all gate_below gs \<and> length gs = 260"
proof -
  have "wf_aig one_gate" "num_inputs one_gate = 1" "num_latches one_gate + num_ands one_gate = 2"
    by (simp_all add: one_gate_def Aiger_new_def wf_aig_def wf_ands_def lit_in_def is_latch_def)
  then obtain gs where gs: "uaiger_gates one_gate 130 = Some gs" "list_all gate_below gs"
      "map fst gs = map (\<lambda>j. 2 * (num_inputs one_gate * 130 + j)) [1..130 * (num_latches one_gate + num_ands one_gate)]"
    using uaiger_numbering [of one_gate 130] by (auto simp: INT_MAX_def)
  have "length gs = length (map fst gs)" by simp
  also have "\<dots> = 260" unfolding gs(3) using \<open>num_latches one_gate + num_ands one_gate = 2\<close> by simp
  finally show ?thesis using gs by blast
qed

end
