(* ===== verification/MainProg.thy ===== *)
theory MainProg
  imports PDR_Core BMC AigerFile
begin

text \<open>
  \<^verbatim>\<open>src/main.cpp\<close>: the arguments, loading the circuit, the threads, the report. A thread is a run of
  \<^verbatim>\<open>PDR::check\<close> or \<^verbatim>\<open>BMC::check\<close> that reads the global \<^verbatim>\<open>RESULT\<close> at any time and publishes under a
  lock; the relation \<open>portfolio_step\<close> lets the threads end in any order, with any view of
  \<^verbatim>\<open>RESULT\<close> that the earlier ones allow.
\<close>

section \<open>Arguments\<close>

record options =
  o_bmc_thread :: int
  o_pdr_thread :: int
  o_nframes :: int
  o_property_index :: int
  o_pr :: bool
  o_uc :: bool
  o_witness :: bool
  o_certificate :: bool
  o_find_bug_only :: bool
  o_log :: bool
  o_warnings :: "(string \<times> warning) list"

definition options_new :: options where
  "options_new = \<lparr>o_bmc_thread = 0, o_pdr_thread = 0, o_nframes = INT_MAX - 1, o_property_index = 0,
     o_pr = False, o_uc = False, o_witness = False, o_certificate = False, o_find_bug_only = False,
     o_log = False, o_warnings = []\<rparr>"

text \<open>A checked number; the warning goes to \<^verbatim>\<open>cerr\<close>. \<open>None\<close> is an undefined \<^verbatim>\<open>atoi\<close>.\<close>

definition number_arg :: "string \<Rightarrow> string \<Rightarrow> int \<Rightarrow> int \<Rightarrow> (int \<Rightarrow> options \<Rightarrow> options) \<Rightarrow> options \<Rightarrow> options option" where
  "number_arg arg v hi dflt upd opt = do {
     (r, w) \<leftarrow> validateInput v 0 hi dflt;
     Some (upd r (case w of None \<Rightarrow> opt | Some x \<Rightarrow> opt\<lparr>o_warnings := o_warnings opt @ [(arg, x)]\<rparr>))
   }"

definition flag_arg :: "string \<Rightarrow> options \<Rightarrow> options option" where
  "flag_arg arg opt =
     (if arg = ''-pr'' then Some (opt\<lparr>o_pr := True\<rparr>)
      else if arg = ''-uc'' then Some (opt\<lparr>o_uc := True\<rparr>)
      else if arg = ''-witness'' then Some (opt\<lparr>o_witness := True\<rparr>)
      else if arg = ''-certificate'' then Some (opt\<lparr>o_certificate := True\<rparr>)
      else if arg = ''-v'' then Some (opt\<lparr>o_log := True\<rparr>)
      else None)"

definition value_arg :: "string \<Rightarrow> string \<Rightarrow> options \<Rightarrow> options option" where
  "value_arg arg v opt =
     (if arg = ''-bmc'' then number_arg arg v 12 0 (\<lambda>r opt. opt\<lparr>o_bmc_thread := r\<rparr>) opt
      else if arg = ''-pdr'' then number_arg arg v 4 0 (\<lambda>r opt. opt\<lparr>o_pdr_thread := r\<rparr>) opt
      else number_arg arg v INT_MAX 0 (\<lambda>r opt. opt\<lparr>o_property_index := r\<rparr>) opt)"

text \<open>
  The loop over \<^verbatim>\<open>argv[1]\<close> to \<^verbatim>\<open>argv[argc-2]\<close>: the list holds the arguments from \<^verbatim>\<open>argv[i]\<close> on, its
  last element is the file. An option with a value takes the next argument whatever it is.
\<close>

fun parse_args :: "string list \<Rightarrow> options \<Rightarrow> options option" where
  "parse_args [] opt = Some opt"
| "parse_args [file] opt = Some opt"
| "parse_args (arg # v # rest) opt =
     (case flag_arg arg opt of
        Some opt' \<Rightarrow> parse_args (v # rest) opt'
      | None \<Rightarrow>
          if arg = ''-findbug'' then
            (let opt' = opt\<lparr>o_find_bug_only := True\<rparr> in
             if v \<noteq> [] \<and> isdigit (hd v)
             then Option.bind (number_arg arg v (INT_MAX - 1) (INT_MAX - 1) (\<lambda>r opt. opt\<lparr>o_nframes := r\<rparr>) opt')
                    (parse_args rest)
             else parse_args (v # rest) opt')
          else if arg = ''-bmc'' \<or> arg = ''-pdr'' \<or> arg = ''-pindex'' then
            Option.bind (value_arg arg v opt) (parse_args rest)
          else parse_args (v # rest) opt)"

definition usage :: string where
  "usage = ''USAGE: ./modelchecker [OPTIONS] <aig-file>'' @ newline @ newline @ ''OPTIONS:'' @ newline
     @ ''  -findbug [nframes]       Run single-threaded BMC for each property to `nframes` steps. Ignores all other parameters. Default: INT_MAX'' @ newline
     @ ''  -bmc <bmc_thread>        Set the number of BMC threads (0-12). Default: 0'' @ newline
     @ ''  -pdr <pdr_thread>        Set the number of PDR threads (0-4). Default: 0'' @ newline
     @ ''  -pindex <property_index> Specify the property index for verification. Default: 0'' @ newline
     @ ''  -witness                 Output witness if a bug is found. Default: off'' @ newline
     @ ''  -certificate             Output certificate if the circuit is safe. Default: off'' @ newline
     @ ''  -uc                      Enable CPO-Driven UNSAT Core Generation (single-threaded PDR only)'' @ newline
     @ ''  -pr                      Enable CPO-Driven Proof Obligation Propagation (single-threaded PDR only)'' @ newline
     @ ''  -h                       Show this help message and exit.'' @ newline @ newline
     @ ''Example:'' @ newline
     @ ''  ./modelchecker -bmc 4 -pdr 2 -pindex 3 -witness example.aig'' @ newline"

section \<open>Threads\<close>

datatype worker = Bmc int | Pdr int | Single

definition thread_start_bmc :: "env \<Rightarrow> int \<Rightarrow> int \<Rightarrow> int \<Rightarrow> Aiger \<Rightarrow> (int \<times> BMC) option" where
  "thread_start_bmc e nf threads ti a = do {
     (res, b) \<leftarrow> bmc_check e (BMC_new a (nf + 1) ti threads);
     Some (res, b\<lparr>b_cout := b_cout b @
       (if moreinfo_for_bmc a \<and> res \<noteq> 0
        then ''best configuration: bmc thread '' @ show_int ti @ newline else [])\<rparr>)
   }"

definition thread_start_pdr :: "env \<Rightarrow> int \<Rightarrow> Aiger \<Rightarrow> (int \<times> PDR) option" where
  "thread_start_pdr e ti a = check e (PDR_new a ti True True True)"

text \<open>
  What a thread computes: what \<^verbatim>\<open>check\<close> returns and the text it prints. A thread publishes what it
  returns, and nothing when that is 0.
\<close>

definition run_worker :: "env \<Rightarrow> options \<Rightarrow> Aiger \<Rightarrow> worker \<Rightarrow> (int \<times> string) option" where
  "run_worker e opt a w =
     (case w of
        Bmc i \<Rightarrow> map_option (\<lambda>(res, b). (res, b_cout b)) (thread_start_bmc e (o_nframes opt) (o_bmc_thread opt) i a)
      | Pdr i \<Rightarrow> map_option (\<lambda>(res, p). (res, cout p)) (thread_start_pdr e i a)
      | Single \<Rightarrow> map_option (\<lambda>(res, p). (res, cout p)) (check e (PDR_new a (- 1) (o_uc opt) (o_pr opt) True)))"

record world =
  w_RESULT :: int
  w_text :: string
  w_pending :: "worker list"

text \<open>
  A thread ends. Before a result is published it can only have read 0, and it publishes its own;
  afterwards it reads 0 or the result, and under the lock the result, so a 10 is not
  published any more; the line \<^verbatim>\<open>RESULT = 20\<close> after a successful \<^verbatim>\<open>PDR::propagate\<close> is outside the
  lock and overwrites it.
\<close>

inductive portfolio_step :: "env \<Rightarrow> options \<Rightarrow> Aiger \<Rightarrow> world \<Rightarrow> world \<Rightarrow> bool" for e opt a where
  first_result: "w \<in> set (w_pending s) \<Longrightarrow> w_RESULT s = 0 \<Longrightarrow>
     run_worker (e\<lparr>other_threads := (\<lambda>_. 0)\<rparr>) opt a w = Some (r, t) \<Longrightarrow>
     portfolio_step e opt a s (s\<lparr>w_RESULT := r, w_text := w_text s @ t, w_pending := remove1 w (w_pending s)\<rparr>)"
| later_thread: "w \<in> set (w_pending s) \<Longrightarrow> w_RESULT s \<noteq> 0 \<Longrightarrow> (\<And>n. view n = 0 \<or> view n = w_RESULT s) \<Longrightarrow>
     run_worker (e\<lparr>other_threads := view\<rparr>) opt a w = Some (r, t) \<Longrightarrow>
     portfolio_step e opt a s (s\<lparr>w_RESULT := (if r = 20 then 20 else w_RESULT s), w_text := w_text s @ t,
       w_pending := remove1 w (w_pending s)\<rparr>)"

inductive portfolio :: "env \<Rightarrow> options \<Rightarrow> Aiger \<Rightarrow> worker list \<Rightarrow> world \<Rightarrow> bool" for e opt a ws where
  portfolio_start: "portfolio e opt a ws \<lparr>w_RESULT = 0, w_text = [], w_pending = ws\<rparr>"
| portfolio_more: "portfolio e opt a ws s \<Longrightarrow> portfolio_step e opt a s s' \<Longrightarrow> portfolio e opt a ws s'"

section \<open>main\<close>

text \<open>The arrays of thread handles have 64, 8 and 16 entries; \<open>None\<close> is an access beyond them.\<close>

definition main_workers :: "options \<Rightarrow> Aiger \<Rightarrow> (options \<times> Aiger \<times> worker list) option" where
  "main_workers opt a =
     (if o_find_bug_only opt then
        if 64 < num_property a then None
        else Some (opt\<lparr>o_bmc_thread := 1\<rparr>, a\<lparr>output_witness := True, moreinfo_for_bmc := False\<rparr>,
                   map Bmc [0..num_property a - 1])
      else if o_pdr_thread opt = 0 \<and> o_bmc_thread opt = 0 then Some (opt, a, [Single])
      else if 8 < o_pdr_thread opt \<or> 16 < o_bmc_thread opt then None
      else Some (opt, a, map Pdr [0..o_pdr_thread opt - 1] @ map Bmc [0..o_bmc_thread opt - 1]))"

definition main_setup :: "(string \<Rightarrow> string option) \<Rightarrow> string list \<Rightarrow> (options \<times> Aiger \<times> worker list) option" where
  "main_setup read_file argv = do {
     opt \<leftarrow> parse_args (tl argv) options_new;
     file \<leftarrow> (if argv = [] then None else read_file (last argv));
     a \<leftarrow> load_aiger_from_file file (o_property_index opt) (o_witness opt) (o_certificate opt)
           (o_find_bug_only opt) (o_log opt);
     C \<leftarrow> translate_to_dimacs a;
     main_workers opt C
   }"

definition main_report :: "options \<Rightarrow> int \<Rightarrow> string" where
  "main_report opt R =
     (if o_find_bug_only opt then
        if R \<noteq> 10 then ''2'' @ newline else if R = 10 then ''1'' @ newline
        else if R = 20 then ''0'' @ newline else []
      else
        if R \<noteq> 10 then ''No output asserted in '' @ show_int (o_nframes opt) @ '' frames.'' @ newline
        else if R = 10 then ''result: unsafe'' @ newline
        else if R = 20 then ''result: safe'' @ newline else [])"

definition main_time :: "options \<Rightarrow> string \<Rightarrow> int \<Rightarrow> string" where
  "main_time opt time_in_sec R =
     (if R \<noteq> 10 then if \<not> o_find_bug_only opt then ''time = '' @ time_in_sec @ ''s'' @ newline else [] else [])"

inductive main_run :: "env \<Rightarrow> (string \<Rightarrow> string option) \<Rightarrow> string \<Rightarrow> string list \<Rightarrow> string \<Rightarrow> bool"
  for e read_file time_in_sec where
  main_help: "length argv = 2 \<Longrightarrow> argv ! 1 = ''-h'' \<Longrightarrow> main_run e read_file time_in_sec argv usage"
| main_threads: "\<not> (length argv = 2 \<and> argv ! 1 = ''-h'') \<Longrightarrow> main_setup read_file argv = Some (opt, a, ws) \<Longrightarrow>
     portfolio e opt a ws s \<Longrightarrow> w_pending s = [] \<Longrightarrow>
     main_run e read_file time_in_sec argv
       (w_text s @ main_report opt (w_RESULT s) @ main_time opt time_in_sec (w_RESULT s))"

end
