(* ===== verification/MainSound.thy ===== *)
theory MainSound
  imports BMC_Runs MainProg
begin

text \<open>
  The composition: what \<^verbatim>\<open>main\<close> concludes from the results of its threads. Every order in which the
  threads end, and every view of \<^verbatim>\<open>RESULT\<close> they can have, leads to a verdict that is right.
\<close>

section \<open>One thread\<close>

lemma contracts_other_threads [simp]:
  "ipasir_contract (e\<lparr>other_threads := v\<rparr>) = ipasir_contract e"
  "eliminate_contract (e\<lparr>other_threads := v\<rparr>) = eliminate_contract e"
  "shuffle_contract (e\<lparr>other_threads := v\<rparr>) = shuffle_contract e"
  "ipasir_complete (e\<lparr>other_threads := v\<rparr>) = ipasir_complete e"
  by (simp_all add: ipasir_contract_def eliminate_contract_def shuffle_contract_def ipasir_complete_def)

definition contracts :: "env \<Rightarrow> bool" where
  "contracts e = (ipasir_contract e \<and> eliminate_contract e \<and> shuffle_contract e \<and> ipasir_complete e)"

lemma contracts_view [simp]: "contracts (e\<lparr>other_threads := v\<rparr>) = contracts e"
  by (simp add: contracts_def)

text \<open>The circuit \<^verbatim>\<open>main\<close> passes to its threads, and the property thread i of \<^verbatim>\<open>-findbug\<close> looks at.\<close>

definition main_ready :: "Aiger \<Rightarrow> bool" where
  "main_ready C = (loaded C \<and> distinct (map abs (init_state C))
     \<and> vec_at (allbad C) (propertyIndex C) = Some (bad C))"

definition workers_ready :: "options \<Rightarrow> Aiger \<Rightarrow> worker list \<Rightarrow> bool" where
  "workers_ready opt C ws = (\<forall>i. Bmc i \<in> set ws \<longrightarrow> 0 < o_bmc_thread opt \<and> 0 \<le> i
     \<and> (find_bug_only C \<longrightarrow> i < int (length (allbad C))))"

definition verdict_ok :: "Aiger \<Rightarrow> int \<Rightarrow> bool" where
  "verdict_ok C r = (r \<in> {0, 10, 20}
     \<and> (r = 10 \<longrightarrow> (\<exists>B\<in>set (allbad C). unsafe C B \<and> (\<not> find_bug_only C \<longrightarrow> B = bad C)))
     \<and> (r = 20 \<longrightarrow> \<not> unsafe C (bad C)))"

lemma vec_at_in_set: "vec_at xs i = Some x \<Longrightarrow> x \<in> set xs"
  by (auto simp: vec_at_def nat_less_iff split: if_splits intro!: nth_mem)

lemma pdr_verdict:
  assumes "contracts e" "main_ready C" "bad_valid C" "check e (PDR_new C t acc pr ao) = Some (r, p)"
  shows "verdict_ok C r"
  using check_ok [of e C t acc pr ao r p] assms vec_at_in_set [of "allbad C" "propertyIndex C" "bad C"]
  by (auto simp: verdict_ok_def contracts_def main_ready_def loop_post_def)

lemma bmc_verdict:
  assumes e: "contracts e" and C: "main_ready C" and f: "fits C nf" and mx: "0 < mx"
    and i: "0 \<le> i" "find_bug_only C \<Longrightarrow> i < int (length (allbad C))"
    and r: "bmc_check e (BMC_new C nf i mx) = Some (r, b)"
  shows "verdict_ok C r \<and> r \<noteq> 20"
proof -
  let ?p = "if find_bug_only C then i else propertyIndex C"
  obtain B where B: "vec_at (allbad C) ?p = Some B" "\<not> find_bug_only C \<longrightarrow> B = bad C"
    using C i by (cases "find_bug_only C") (auto simp: main_ready_def vec_at_def)
  have m: "B \<in> set (allbad C)" using vec_at_in_set [OF B(1)] .
  have ld: "loaded C" "distinct (map abs (init_state C))" using C by (auto simp: main_ready_def)
  have "lit_in C B" using ld(1) m by (auto simp: loaded_def wf_aig_def)
  moreover have "bmc_bad (BMC_new C nf i mx) = Some B" using B(1) by (simp add: bmc_bad_def BMC_new_def Let_def split: if_splits)
  ultimately have "checked C B nf i mx (r, b)"
    using bmc_check_ok [OF ld f, of i mx B e] e mx r by (auto simp: contracts_def)
  then show ?thesis using m B(2) by (auto simp: checked_def verdict_ok_def unsafe_def)
qed

lemma worker_verdict:
  assumes e: "contracts e" and C: "main_ready C" "bad_valid C" and f: "fits C (o_nframes opt + 1)"
    and w: "w \<in> set ws" "workers_ready opt C ws" and r: "run_worker e opt C w = Some (r, t)"
  shows "verdict_ok C r"
proof (cases w)
  case (Bmc i)
  then obtain b where "bmc_check e (BMC_new C (o_nframes opt + 1) i (o_bmc_thread opt)) = Some (r, b)"
    using r by (auto simp: run_worker_def thread_start_bmc_def bind_eq_Some_conv)
  then show ?thesis using bmc_verdict [OF e C(1) f] w Bmc by (auto simp: workers_ready_def)
next
  case (Pdr i)
  then show ?thesis using r pdr_verdict [OF e C] by (auto simp: run_worker_def thread_start_pdr_def)
next
  case Single
  then show ?thesis using r pdr_verdict [OF e C] by (auto simp: run_worker_def)
qed

section \<open>All threads\<close>

lemma portfolio_step_verdict:
  assumes e: "contracts e" and C: "main_ready C" "bad_valid C" and f: "fits C (o_nframes opt + 1)"
    and w: "workers_ready opt C ws" and s: "set (w_pending s) \<subseteq> set ws" "verdict_ok C (w_RESULT s)"
    and step: "portfolio_step e opt C s s'"
  shows "set (w_pending s') \<subseteq> set ws \<and> verdict_ok C (w_RESULT s')"
  using step
proof cases
  case (first_result w' r t)
  then have "verdict_ok C r" using worker_verdict [of "e\<lparr>other_threads := (\<lambda>_. 0)\<rparr>" C opt w' ws r t] C f w e s(1) by auto
  then show ?thesis using first_result(1) s(1) set_remove1_subset [of w' "w_pending s"] by auto
next
  case (later_thread w' view r t)
  then have "verdict_ok C r" using worker_verdict [of "e\<lparr>other_threads := view\<rparr>" C opt w' ws r t] C f w e s(1) by auto
  then show ?thesis using later_thread(1) s set_remove1_subset [of w' "w_pending s"] by auto
qed

lemma portfolio_verdict_ok:
  assumes "contracts e" "main_ready C" "bad_valid C" "fits C (o_nframes opt + 1)" "workers_ready opt C ws"
    and "portfolio e opt C ws s"
  shows "verdict_ok C (w_RESULT s)"
proof -
  have "set (w_pending s) \<subseteq> set ws \<and> verdict_ok C (w_RESULT s)"
    using assms(6)
  proof induction
    case portfolio_start
    then show ?case by (simp add: verdict_ok_def)
  next
    case (portfolio_more s s')
    then show ?case using portfolio_step_verdict [OF assms(1-5), of s s'] by blast
  qed
  then show ?thesis by blast
qed

text \<open>
  C3. The verdict of the portfolio is right, in whatever order the BMC and PDR threads end and
  whatever they see of \<^verbatim>\<open>RESULT\<close> in between: \<^verbatim>\<open>RESULT\<close> is 0, 10 or 20; 10 means that the property is
  violated, with \<^verbatim>\<open>-findbug\<close> that some property is; 20 means that the circuit is safe. The circuit is
  \<open>bad_valid\<close> (the constraints hold wherever the bad literal does, as when there are none), which the
  PDR threads need, and \<open>fits\<close> the fixed tables of BMC for the bound, which the BMC threads need.
\<close>

theorem portfolio_verdict:
  assumes "contracts e" "main_ready C" "bad_valid C" "fits C (o_nframes opt + 1)" "workers_ready opt C ws"
    and "portfolio e opt C ws s"
  shows "verdict_ok C (w_RESULT s)"
  using assms by (rule portfolio_verdict_ok)

lemma one_latch_single: "map_option fst (check (ref_env\<lparr>other_threads := (\<lambda>_. 0)\<rparr>) (PDR_new (one_latch (- 2)) (- 1) False False True)) = Some 10"
  by (simp add: one_latch_def run_defs cong: run_congs)

theorem portfolio_verdict_witness:
  "(\<exists>s. portfolio ref_env options_new (one_latch (- 2)) [Single] s \<and> w_pending s = [] \<and> w_RESULT s = 10)
   \<and> unsafe (one_latch (- 2)) 2"
proof -
  let ?C = "one_latch (- 2)"
  let ?s = "\<lparr>w_RESULT = 0, w_text = [], w_pending = [Single]\<rparr>"
  obtain p where p: "check (ref_env\<lparr>other_threads := (\<lambda>_. 0)\<rparr>) (PDR_new ?C (- 1) False False True) = Some (10, p)"
    using one_latch_single by auto
  have run: "run_worker (ref_env\<lparr>other_threads := (\<lambda>_. 0)\<rparr>) options_new ?C Single = Some (10, cout p)"
    using p by (simp add: run_worker_def options_new_def)
  have "portfolio_step ref_env options_new ?C ?s
      (?s\<lparr>w_RESULT := 10, w_text := w_text ?s @ cout p, w_pending := remove1 Single (w_pending ?s)\<rparr>)"
    by (rule first_result [where w = Single]) (use run in simp_all)
  then obtain s where s: "portfolio_step ref_env options_new ?C ?s s" "w_pending s = []" "w_RESULT s = 10" by simp
  have pf: "portfolio ref_env options_new ?C [Single] s"
    by (rule portfolio_more [OF portfolio_start s(1)])
  have c: "contracts ref_env" using ref_env_ipasir ref_env_eliminate ref_env_more by (simp add: contracts_def)
  have m: "main_ready ?C" using one_latch_loaded one_latch_fits by (simp add: main_ready_def one_latch_def)
  have "verdict_ok ?C (w_RESULT s)"
    using portfolio_verdict [OF c m _ one_latch_fits(1) _ pf] one_latch_loaded(2) by (simp add: workers_ready_def)
  then show ?thesis using s pf by (auto simp: verdict_ok_def one_latch_def)
qed

end
