(* ===== verification/AigerSem.thy ===== *)
theory AigerSem
  imports AigerFile
begin

text \<open>
  The meaning of an AIGER file and of the circuit that \<^verbatim>\<open>Aiger::translate_to_dimacs\<close> makes of it. In the
  file the variables are numbered from 0, which is the constant false, a literal is twice
  its variable plus 1 when negated, and a latch whose reset value is neither 0 nor 1 is uninitialised;
  the translated circuit numbers the variables from 1 and negates by the sign.
\<close>

section \<open>The meaning of a file\<close>

definition aiger_val :: "(int \<Rightarrow> bool) \<Rightarrow> int \<Rightarrow> bool" where
  "aiger_val \<tau> x = (\<tau> (x div 2) \<noteq> odd x)"

definition file_gates :: "Aiger \<Rightarrow> Aiger_and list" where
  "file_gates a = take (nat (num_ands a)) (Aiger_ands a)"

definition file_latches :: "Aiger \<Rightarrow> Aiger_latch list" where
  "file_latches a = take (nat (num_latches a)) (Aiger_latches a)"

definition file_props :: "Aiger \<Rightarrow> int list" where
  "file_props a = (if 0 < num_bads a then take (nat (num_bads a)) (Aiger_bads a) else take (nat (num_outputs a)) (Aiger_outputs a))"

definition file_valid :: "Aiger \<Rightarrow> (int \<Rightarrow> bool) \<Rightarrow> bool" where
  "file_valid a \<tau> = (\<not> \<tau> 0
     \<and> (\<forall>g\<in>set (file_gates a). \<tau> (ag_o g div 2) = (aiger_val \<tau> (ag_i1 g) \<and> aiger_val \<tau> (ag_i2 g)))
     \<and> (\<forall>x\<in>set (take (nat (num_constraints a)) (Aiger_constraints a)). aiger_val \<tau> x))"

definition file_init :: "Aiger \<Rightarrow> (int \<Rightarrow> bool) \<Rightarrow> bool" where
  "file_init a \<tau> = (\<forall>l\<in>set (file_latches a).
     (al_default_val l = 0 \<longrightarrow> \<not> \<tau> (al_l l div 2)) \<and> (al_default_val l = 1 \<longrightarrow> \<tau> (al_l l div 2)))"

definition file_next :: "Aiger \<Rightarrow> (int \<Rightarrow> bool) \<Rightarrow> (int \<Rightarrow> bool) \<Rightarrow> bool" where
  "file_next a \<tau> \<tau>' = (\<forall>l\<in>set (file_latches a). \<tau>' (al_l l div 2) = aiger_val \<tau> (al_next l))"

inductive file_reach :: "Aiger \<Rightarrow> nat \<Rightarrow> (int \<Rightarrow> bool) \<Rightarrow> bool" for a where
  file_reach_init: "file_valid a \<tau> \<Longrightarrow> file_init a \<tau> \<Longrightarrow> file_reach a 0 \<tau>"
| file_reach_step: "file_reach a n \<tau> \<Longrightarrow> file_next a \<tau> \<tau>' \<Longrightarrow> file_valid a \<tau>' \<Longrightarrow> file_reach a (Suc n) \<tau>'"

inductive_simps file_reach_0: "file_reach a 0 \<tau>"
inductive_simps file_reach_Suc: "file_reach a (Suc n) \<tau>"

text \<open>The selected property: an index out of range selects the first.\<close>

definition file_bad :: "Aiger \<Rightarrow> (int \<Rightarrow> bool) \<Rightarrow> bool" where
  "file_bad a \<tau> = aiger_val \<tau> (file_props a ! (if int (length (file_props a)) \<le> propertyIndex a then 0 else nat (propertyIndex a)))"

section \<open>Translated literals\<close>

text \<open>Assignments to the circuit's variables, read as assignments to the file's.\<close>

definition shifted :: "assignment \<Rightarrow> int \<Rightarrow> bool" where
  "shifted \<sigma> v = \<sigma> (v + 1)"

lemma dimacs_val: "0 \<le> x \<Longrightarrow> lit_val \<sigma> (aiger_to_dimacs x) = aiger_val (shifted \<sigma>) x"
proof -
  assume "0 \<le> x"
  then have "0 < x div 2 + 1" "- (x div 2) - 1 = - (x div 2 + 1)" by simp_all
  then show ?thesis by (cases "odd x") (simp_all only: aiger_to_dimacs_def aiger_val_def shifted_def Let_def
    odd_iff_mod_2_eq_one lit_val_uminus lit_val_pos simp_thms if_True if_False)
qed

lemma dimacs_val_unsigned:
  "0 \<le> x \<Longrightarrow> x < 2147483648 \<Longrightarrow> lit_val \<sigma> (aiger_to_dimacs (int_of_unsigned x)) = aiger_val (shifted \<sigma>) x"
  by (simp add: int_of_unsigned_def dimacs_val)

lemma those_indexed:
  assumes "those (map (\<lambda>i. Option.bind (vec_at xs (i - 1)) (f i)) [1..n]) = Some ys"
  shows "length ys = nat n \<and> nat n \<le> length xs \<and> (\<forall>k<nat n. f (int k + 1) (xs ! k) = Some (ys ! k))"
proof -
  let ?g = "\<lambda>i. Option.bind (vec_at xs (i - 1)) (f i)"
  have len: "length ys = nat n" using assms by (simp add: those_Some_conv)
  have k: "k < length xs \<and> f (int k + 1) (xs ! k) = Some (ys ! k)" if "k < nat n" for k
    using those_upto [OF assms, of k] that len by (auto simp: bind_eq_Some_conv vec_at_Some split: if_splits)
  then have "nat n \<le> length xs" by (metis lessI less_Suc_eq_le not_le old.nat.exhaust zero_le)
  then show ?thesis using len k by blast
qed

lemma all_take: "n \<le> length xs \<Longrightarrow> (\<forall>x\<in>set (take n xs). P x) \<longleftrightarrow> (\<forall>k<n. P (xs ! k))"
  by (auto simp: all_set_conv_all_nth)

lemma load_lits_val:
  assumes "load_lits xs n = Some ys" "\<forall>x\<in>set xs. 0 \<le> x \<and> x < 2147483648"
  shows "length ys = nat n" "nat n \<le> length xs" "\<forall>k<nat n. lit_val \<sigma> (ys ! k) = aiger_val (shifted \<sigma>) (xs ! k)"
proof -
  have e: "map (\<lambda>i. vec_at xs i \<bind> (\<lambda>x. Some (aiger_to_dimacs (int_of_unsigned x)))) [0..n - 1]
    = map (\<lambda>i. Option.bind (vec_at xs (i - 1)) (\<lambda>x. Some (aiger_to_dimacs (int_of_unsigned x)))) [1..n]"
    by (rule nth_equalityI) (simp_all add: nth_upto)
  note t = those_indexed [OF assms(1) [unfolded load_lits_def e]]
  show "length ys = nat n" "nat n \<le> length xs" using t by auto
  show "\<forall>k<nat n. lit_val \<sigma> (ys ! k) = aiger_val (shifted \<sigma>) (xs ! k)"
  proof (intro allI impI)
    fix k
    assume k: "k < nat n"
    then have "ys ! k = aiger_to_dimacs (int_of_unsigned (xs ! k))" "xs ! k \<in> set xs" using t by auto
    then show "lit_val \<sigma> (ys ! k) = aiger_val (shifted \<sigma>) (xs ! k)" using dimacs_val_unsigned assms(2) by metis
  qed
qed

lemma load_ands_val:
  assumes "load_ands a = Some va" "file_ok a"
  shows "(\<forall>g\<in>set (map snd va). gate_ok \<sigma> g)
    \<longleftrightarrow> (\<forall>g\<in>set (file_gates a). shifted \<sigma> (ag_o g div 2) = (aiger_val (shifted \<sigma>) (ag_i1 g) \<and> aiger_val (shifted \<sigma>) (ag_i2 g)))"
proof -
  let ?P = "\<lambda>g. shifted \<sigma> (ag_o g div 2) = (aiger_val (shifted \<sigma>) (ag_i1 g) \<and> aiger_val (shifted \<sigma>) (ag_i2 g))"
  note t = those_indexed [OF assms(1) [unfolded load_ands_def]]
  have "gate_ok \<sigma> (snd (va ! k)) = ?P (Aiger_ands a ! k)" if k: "k < nat (num_ands a)" for k
  proof -
    let ?x = "Aiger_ands a ! k" and ?o = "num_inputs a + num_latches a + (int k + 1)"
    have x: "?x \<in> set (Aiger_ands a)" using t k by simp
    let ?g = "mkAnd (1 + num_inputs a + num_latches a + (int k + 1)) (aiger_to_dimacs (int_of_unsigned (ag_i1 ?x))) (aiger_to_dimacs (int_of_unsigned (ag_i2 ?x)))"
    have f: "(if 2 * ?o = ag_o ?x then let o' = 1 + num_inputs a + num_latches a + (int k + 1) in Some (Variable_named o' (CHR ''a'') (int k + 1 - 1) False,
        mkAnd o' (aiger_to_dimacs (int_of_unsigned (ag_i1 ?x))) (aiger_to_dimacs (int_of_unsigned (ag_i2 ?x)))) else None) = Some (va ! k)"
      using t k by blast
    have o: "2 * ?o = ag_o ?x" "snd (va ! k) = ?g"
    proof -
      show "2 * ?o = ag_o ?x" using f by (simp split: if_splits)
      then have "Some (Variable_named (1 + num_inputs a + num_latches a + (int k + 1)) (CHR ''a'') (int k + 1 - 1) False, ?g) = Some (va ! k)"
        using f by (simp only: if_True Let_def simp_thms)
      then have "va ! k = (Variable_named (1 + num_inputs a + num_latches a + (int k + 1)) (CHR ''a'') (int k + 1 - 1) False, ?g)"
        by (simp only: option.inject)
      then show "snd (va ! k) = ?g" by (simp only: snd_conv)
    qed
    have "0 \<le> ag_i1 ?x" "ag_i1 ?x < ag_o ?x" "0 \<le> ag_i2 ?x" "ag_i2 ?x < ag_o ?x" using x assms(2) by (auto simp: file_ok_def)
    moreover have "ag_o ?x < 2147483648" using o(1) k assms(2) by (auto simp: file_ok_def)
    moreover have "ag_o ?x div 2 = ?o" using o(1) by presburger
    ultimately show ?thesis
      using o(2) by (simp add: gate_ok_def dimacs_val_unsigned) (simp add: shifted_def algebra_simps)
  qed
  then show ?thesis using t unfolding file_gates_def by (simp add: all_take all_set_conv_all_nth)
qed

lemma load_nexts_val:
  assumes "load_nexts a = Some nx" "file_ok a"
  shows "length nx = nat (num_latches a)"
    "(\<forall>i<nat (num_latches a). \<sigma>' (latch_var a i) = lit_val \<sigma> (fst (nx ! i))) \<longleftrightarrow> file_next a (shifted \<sigma>) (shifted \<sigma>')"
    "cube_true \<sigma> (concat (map snd nx)) \<longleftrightarrow> file_init a (shifted \<sigma>)"
proof -
  note t = those_indexed [OF assms(1) [unfolded load_nexts_def]]
  then show len: "length nx = nat (num_latches a)" by blast
  have l: "al_l (Aiger_latches a ! k) div 2 = num_inputs a + int k + 1"
      "lit_val \<sigma> (fst (nx ! k)) = aiger_val (shifted \<sigma>) (al_next (Aiger_latches a ! k))"
      "snd (nx ! k) = (let v = num_inputs a + int k + 2; d = al_default_val (Aiger_latches a ! k) in if d = 0 then [- v] else if d = 1 then [v] else [])"
    if k: "k < nat (num_latches a)" for k
  proof -
    let ?x = "Aiger_latches a ! k"
    have o: "2 * (num_inputs a + int k + 1) = al_l ?x" "fst (nx ! k) = aiger_to_dimacs (int_of_unsigned (al_next ?x))"
      "snd (nx ! k) = (let v = num_inputs a + int k + 2; d = al_default_val ?x in if d = 0 then [- v] else if d = 1 then [v] else [])"
    proof -
      have "(let l = 1 + num_inputs a + (int k + 1) in if (l - 1) * 2 = al_l ?x then Some (aiger_to_dimacs (int_of_unsigned (al_next ?x)),
          if al_default_val ?x = 0 then [- l] else if al_default_val ?x = 1 then [l] else []) else None) = Some (nx ! k)"
        using t k by blast
      then have e: "(num_inputs a + int k + 1) * 2 = al_l ?x" "nx ! k = (aiger_to_dimacs (int_of_unsigned (al_next ?x)),
          if al_default_val ?x = 0 then [- (num_inputs a + int k + 2)] else if al_default_val ?x = 1 then [num_inputs a + int k + 2] else [])"
        unfolding Let_def by (auto simp: algebra_simps split: if_splits)
      show "2 * (num_inputs a + int k + 1) = al_l ?x" using e(1) by simp
      show "fst (nx ! k) = aiger_to_dimacs (int_of_unsigned (al_next ?x))" using e(2) by simp
      show "snd (nx ! k) = (let v = num_inputs a + int k + 2; d = al_default_val ?x in if d = 0 then [- v] else if d = 1 then [v] else [])"
        using e(2) by (simp add: Let_def)
    qed
    have "?x \<in> set (Aiger_latches a)" using t k by simp
    then have "0 \<le> al_next ?x" "al_next ?x < 2147483648" using assms(2) by (force simp: file_ok_def lits_fit_def)+
    then show "lit_val \<sigma> (fst (nx ! k)) = aiger_val (shifted \<sigma>) (al_next ?x)" using o(2) dimacs_val_unsigned by simp
    show "al_l ?x div 2 = num_inputs a + int k + 1" using o(1) by presburger
    show "snd (nx ! k) = (let v = num_inputs a + int k + 2; d = al_default_val ?x in if d = 0 then [- v] else if d = 1 then [v] else [])" by (rule o(3))
  qed
  have nn: "nat (num_latches a) \<le> length (Aiger_latches a)" "0 \<le> num_inputs a" using t assms(2) by (simp_all add: file_ok_def)
  show "(\<forall>i<nat (num_latches a). \<sigma>' (latch_var a i) = lit_val \<sigma> (fst (nx ! i))) \<longleftrightarrow> file_next a (shifted \<sigma>) (shifted \<sigma>')"
    unfolding file_next_def file_latches_def all_take [OF nn(1)] using l(1,2) by (simp add: shifted_def algebra_simps)
  have c: "cube_true \<sigma> (concat (map snd nx)) \<longleftrightarrow> (\<forall>k<nat (num_latches a). cube_true \<sigma> (snd (nx ! k)))"
    using len by (auto simp: cube_true_set all_set_conv_all_nth)
  have "cube_true \<sigma> (snd (nx ! k)) \<longleftrightarrow> (al_default_val (Aiger_latches a ! k) = 0 \<longrightarrow> \<not> shifted \<sigma> (al_l (Aiger_latches a ! k) div 2))
      \<and> (al_default_val (Aiger_latches a ! k) = 1 \<longrightarrow> shifted \<sigma> (al_l (Aiger_latches a ! k) div 2))" if k: "k < nat (num_latches a)" for k
  proof -
    let ?v = "num_inputs a + int k + 2"
    have "lit_val \<sigma> (- ?v) = (\<not> \<sigma> ?v)" "lit_val \<sigma> ?v = \<sigma> ?v" using nn(2) by (simp_all only: lit_val_uminus lit_val_pos)
    moreover have "shifted \<sigma> (al_l (Aiger_latches a ! k) div 2) = \<sigma> ?v" unfolding l(1) [OF k] by (simp add: shifted_def algebra_simps)
    ultimately show ?thesis unfolding l(3) [OF k] Let_def by (auto simp: cube_true_set)
  qed
  then have "(\<forall>k<nat (num_latches a). cube_true \<sigma> (snd (nx ! k))) \<longleftrightarrow> file_init a (shifted \<sigma>)"
    unfolding file_init_def file_latches_def all_take [OF nn(1)] by blast
  then show "cube_true \<sigma> (concat (map snd nx)) \<longleftrightarrow> file_init a (shifted \<sigma>)" unfolding c .
qed

lemma load_bad_val:
  assumes "load_bad xs n a = Some a'" "allbad a = []" "\<forall>x\<in>set xs. 0 \<le> x \<and> x < 2147483648" "0 < n"
  shows "\<exists>p bs b. a' = a\<lparr>propertyIndex := p, allbad := bs, bad := b, num_property := n\<rparr>
    \<and> (\<forall>\<sigma>. lit_val \<sigma> b = aiger_val (shifted \<sigma>) (take (nat n) xs ! (if n \<le> propertyIndex a then 0 else nat (propertyIndex a))))
    \<and> length (take (nat n) xs) = nat n
    \<and> length bs = nat n \<and> (\<forall>\<sigma>. \<forall>k<nat n. lit_val \<sigma> (bs ! k) = aiger_val (shifted \<sigma>) (take (nat n) xs ! k))"
proof -
  let ?p = "if n \<le> propertyIndex a then 0 else propertyIndex a"
  obtain bs b where b: "load_lits xs n = Some bs" "vec_at bs ?p = Some b"
    "a' = a\<lparr>propertyIndex := ?p, allbad := bs, bad := b, num_property := n\<rparr>"
    using assms(1,2) by (auto simp: load_bad_def bind_eq_Some_conv Let_def)
  note v = load_lits_val [OF b(1) assms(3)]
  have p: "nat ?p < nat n" "b = bs ! nat ?p" using b(2) v(1) assms(4) by (auto simp: vec_at_Some split: if_splits)
  have e: "nat ?p = (if n \<le> propertyIndex a then 0 else nat (propertyIndex a))" by simp
  have "lit_val \<sigma> b = aiger_val (shifted \<sigma>) (take (nat n) xs ! nat ?p)" for \<sigma>
    using load_lits_val(3) [OF b(1) assms(3), of \<sigma>] p by simp
  moreover have "length (take (nat n) xs) = nat n" using v(2) by simp
  moreover have "\<forall>\<sigma>. \<forall>k<nat n. lit_val \<sigma> (bs ! k) = aiger_val (shifted \<sigma>) (take (nat n) xs ! k)"
    using load_lits_val(3) [OF b(1) assms(3)] by simp
  ultimately show ?thesis using b(3) v(1) unfolding e by blast
qed

section \<open>The translation keeps the meaning\<close>

lemma translate_meaning:
  assumes a: "file_ok a" "untranslated a" and t: "translate_to_dimacs a = Some C"
  shows "valid C \<sigma> \<longleftrightarrow> file_valid a (shifted \<sigma>)" "init_ok C \<sigma> \<longleftrightarrow> file_init a (shifted \<sigma>)"
    "next_ok C \<sigma> \<sigma>' \<longleftrightarrow> file_next a (shifted \<sigma>) (shifted \<sigma>')" "lit_val \<sigma> (bad C) \<longleftrightarrow> file_bad a (shifted \<sigma>)"
    "(\<exists>B\<in>set (allbad C). lit_val \<sigma> B) \<longleftrightarrow> (\<exists>x\<in>set (file_props a). aiger_val (shifted \<sigma>) x)"
proof -
  obtain vi vl va nx cs where v: "load_inputs a = Some vi" "load_latches a = Some vl" "load_ands a = Some va"
    "load_nexts a = Some nx" "load_lits (Aiger_constraints a) (num_constraints a) = Some cs"
    using t by (auto simp: translate_to_dimacs_def bind_eq_Some_conv)
  let ?vs = "[\<lparr>dimacs_var = 0, vname = ''NULL''\<rparr>, \<lparr>dimacs_var = 1, vname = ''False''\<rparr>] @ vi @ vl @ map fst va"
  let ?a = "a\<lparr>variables := ?vs, ands := map snd va, nexts := map fst nx, init_state := concat (map snd nx),
    constraints := cs\<rparr>"
  have u: "variables a = []" "ands a = []" "nexts a = []" "init_state a = []" "constraints a = []" "allbad a = []"
    using a(2) by (simp_all add: untranslated_def)
  have fit: "\<forall>x\<in>set xs. 0 \<le> x \<and> x < 2147483648" if "lits_fit a xs" for xs
    using that a(1) by (force simp: file_ok_def lits_fit_def)
  define xs n where "xs = (if 0 < num_bads a then Aiger_bads a else Aiger_outputs a)"
    and "n = (if 0 < num_bads a then num_bads a else num_outputs a)"
  obtain a2 where b: "load_bad xs n ?a = Some a2" "0 < n" "C = a2\<lparr>primed_first_dimacs := int (length (variables a2))\<rparr>"
    using t v u by (auto simp: translate_to_dimacs_def bind_eq_Some_conv Let_def xs_def n_def split: if_splits)
  have "lits_fit a xs" using a(1) by (simp add: xs_def file_ok_def)
  then obtain p bs bd where a2: "a2 = ?a\<lparr>propertyIndex := p, allbad := bs, bad := bd, num_property := n\<rparr>"
    "\<forall>\<sigma>. lit_val \<sigma> bd = aiger_val (shifted \<sigma>) (take (nat n) xs ! (if n \<le> propertyIndex ?a then 0 else nat (propertyIndex ?a)))"
    "length (take (nat n) xs) = nat n" "length bs = nat n"
    "\<forall>\<sigma>. \<forall>k<nat n. lit_val \<sigma> (bs ! k) = aiger_val (shifted \<sigma>) (take (nat n) xs ! k)"
    using load_bad_val [OF b(1) _ fit b(2)] u by auto
  have C: "ands C = map snd va" "nexts C = map fst nx" "init_state C = concat (map snd nx)" "constraints C = cs" "bad C = bd"
    "num_inputs C = num_inputs a" "num_latches C = num_latches a"
    by (simp_all add: b(3) a2(1))
  note cs = load_lits_val(1,2) [OF v(5) fit] load_lits_val(3) [OF v(5) fit, where \<sigma> = \<sigma>] and nx = load_nexts_val [OF v(4) a(1)]
  have lc: "lits_fit a (Aiger_constraints a)" using a(1) by (simp add: file_ok_def)
  have "cube_true \<sigma> cs \<longleftrightarrow> (\<forall>x\<in>set (take (nat (num_constraints a)) (Aiger_constraints a)). aiger_val (shifted \<sigma>) x)"
    using cs [OF lc] by (simp add: cube_true_set all_take all_set_conv_all_nth)
  then show "valid C \<sigma> \<longleftrightarrow> file_valid a (shifted \<sigma>)"
    using load_ands_val [OF v(3) a(1), of \<sigma>]
    by (simp add: valid_def gates_ok_def constr_ok_def file_valid_def C) (simp add: shifted_def)
  show "init_ok C \<sigma> \<longleftrightarrow> file_init a (shifted \<sigma>)" using nx(3) by (simp add: init_ok_def C)
  show "next_ok C \<sigma> \<sigma>' \<longleftrightarrow> file_next a (shifted \<sigma>) (shifted \<sigma>')" using nx(1,2) by (simp add: next_ok_def C)
  have fp: "file_props a = take (nat n) xs" by (simp add: file_props_def xs_def n_def)
  have "allbad C = bs" by (simp add: b(3) a2(1))
  then show "(\<exists>B\<in>set (allbad C). lit_val \<sigma> B) \<longleftrightarrow> (\<exists>x\<in>set (file_props a). aiger_val (shifted \<sigma>) x)"
    unfolding fp using a2(3-5) by (metis (no_types, opaque_lifting) in_set_conv_nth)
  show "lit_val \<sigma> (bad C) \<longleftrightarrow> file_bad a (shifted \<sigma>)" using a2(2,3) b(2) fp by (simp add: file_bad_def C)
qed

lemma load_bad_fields:
  assumes "load_bad xs n a = Some a'"
  shows "num_inputs a' = num_inputs a" "num_latches a' = num_latches a" "num_ands a' = num_ands a" "constraints a' = constraints a"
  using assms by (auto simp: load_bad_def bind_eq_Some_conv Let_def)

lemma translate_fields:
  assumes "translate_to_dimacs a = Some C"
  shows "num_inputs C = num_inputs a" "num_latches C = num_latches a" "num_ands C = num_ands a"
    "constraints a = [] \<Longrightarrow> num_constraints a \<le> 0 \<Longrightarrow> constraints C = []"
proof -
  obtain xs n a1 a2 cs where b: "load_bad xs n a1 = Some a2" "C = a2\<lparr>primed_first_dimacs := int (length (variables a2))\<rparr>"
      "num_inputs a1 = num_inputs a" "num_latches a1 = num_latches a" "num_ands a1 = num_ands a" "constraints a1 = constraints a @ cs"
      "load_lits (Aiger_constraints a) (num_constraints a) = Some cs"
    using assms by (auto simp: translate_to_dimacs_def bind_eq_Some_conv Let_def split: if_splits)
  note f = load_bad_fields [OF b(1)]
  show "num_inputs C = num_inputs a" "num_latches C = num_latches a" "num_ands C = num_ands a" using f b(2-5) by simp_all
  show "constraints C = []" if "constraints a = []" "num_constraints a \<le> 0"
    using that f(4) b(2,6,7) by (simp add: load_lits_def)
qed

lemma shifted_surj: "\<exists>\<sigma>. \<tau> = shifted \<sigma>"
  by (rule exI [of _ "\<lambda>v. \<tau> (v - 1)"]) (simp add: shifted_def fun_eq_iff)

lemma translate_reach:
  assumes "file_ok a" "untranslated a" "translate_to_dimacs a = Some C"
  shows "reach C n \<sigma> \<longleftrightarrow> file_reach a n (shifted \<sigma>)"
proof (induction n arbitrary: \<sigma>)
  case 0
  then show ?case using translate_meaning [OF assms] by (simp add: file_reach_0)
next
  case (Suc n)
  have "file_reach a (Suc n) (shifted \<sigma>) \<longleftrightarrow> (\<exists>\<rho>. file_reach a n (shifted \<rho>) \<and> file_next a (shifted \<rho>) (shifted \<sigma>) \<and> file_valid a (shifted \<sigma>))"
    unfolding file_reach_Suc using shifted_surj by metis
  then show ?case using Suc translate_meaning [OF assms] by (auto simp: reach_Suc)
qed



end
