(* ===== verification/MainSetup.thy ===== *)
theory MainSetup
  imports MainSound AigerSem
begin

text \<open>
  From the command line to the threads: the bounds of the options, the circuit the threads
  are given, and the report.
\<close>

section \<open>Options\<close>

definition options_ok :: "options \<Rightarrow> bool" where
  "options_ok opt = (0 \<le> o_bmc_thread opt \<and> o_bmc_thread opt \<le> 12 \<and> 0 \<le> o_pdr_thread opt \<and> o_pdr_thread opt \<le> 4
     \<and> 0 \<le> o_nframes opt \<and> o_nframes opt < INT_MAX \<and> 0 \<le> o_property_index opt \<and> o_property_index opt \<le> INT_MAX)"

lemma validateInput_range: "validateInput v lo hi dflt = Some (r, w) \<Longrightarrow> lo \<le> dflt \<Longrightarrow> dflt \<le> hi \<Longrightarrow> lo \<le> r \<and> r \<le> hi"
  by (auto simp: validateInput_def bind_eq_Some_conv split: if_splits)

lemma number_arg_range:
  assumes "number_arg arg v hi dflt upd opt = Some opt'" "0 \<le> dflt" "dflt \<le> hi"
  obtains r x where "opt' = upd r (opt\<lparr>o_warnings := x\<rparr>)" "0 \<le> r" "r \<le> hi"
proof -
  obtain r w where r: "validateInput v 0 hi dflt = Some (r, w)"
      "opt' = upd r (case w of None \<Rightarrow> opt | Some x \<Rightarrow> opt\<lparr>o_warnings := o_warnings opt @ [(arg, x)]\<rparr>)"
    using assms(1) by (auto simp: number_arg_def bind_eq_Some_conv)
  have "0 \<le> r" "r \<le> hi" using validateInput_range [OF r(1) assms(2,3)] by auto
  then show thesis using that [of r "o_warnings opt"] that [of r "o_warnings opt @ [(arg, the w)]"] r(2)
    by (cases w) simp_all
qed

lemma value_arg_ok:
  assumes "value_arg arg v opt = Some opt'" "options_ok opt"
  shows "options_ok opt'"
proof -
  consider "arg = ''-bmc''" | "arg = ''-pdr''" | "arg \<noteq> ''-bmc''" "arg \<noteq> ''-pdr''" by blast
  then show ?thesis
  proof cases
    case 1
    then have "number_arg arg v 12 0 (\<lambda>r opt. opt\<lparr>o_bmc_thread := r\<rparr>) opt = Some opt'" using assms(1) by (simp add: value_arg_def)
    then show ?thesis by (rule number_arg_range) (use assms(2) in \<open>simp_all add: options_ok_def\<close>)
  next
    case 2
    then have "number_arg arg v 4 0 (\<lambda>r opt. opt\<lparr>o_pdr_thread := r\<rparr>) opt = Some opt'" using assms(1) by (simp add: value_arg_def)
    then show ?thesis by (rule number_arg_range) (use assms(2) in \<open>simp_all add: options_ok_def\<close>)
  next
    case 3
    then have "number_arg arg v INT_MAX 0 (\<lambda>r opt. opt\<lparr>o_property_index := r\<rparr>) opt = Some opt'" using assms(1) by (simp add: value_arg_def)
    then show ?thesis by (rule number_arg_range) (use assms(2) in \<open>simp_all add: options_ok_def INT_MAX_def\<close>)
  qed
qed

lemma flag_arg_ok: "flag_arg arg opt = Some opt' \<Longrightarrow> options_ok opt \<Longrightarrow> options_ok opt'"
  by (auto simp: flag_arg_def options_ok_def split: if_splits)

lemma findbug_arg_ok:
  assumes "number_arg arg v (INT_MAX - 1) (INT_MAX - 1) (\<lambda>r opt. opt\<lparr>o_nframes := r\<rparr>) opt = Some opt'" "options_ok opt"
  shows "options_ok opt'"
  by (rule number_arg_range [OF assms(1)]) (use assms(2) in \<open>simp_all add: options_ok_def INT_MAX_def\<close>)

lemma parse_args_ok: "parse_args args opt = Some opt' \<Longrightarrow> options_ok opt \<Longrightarrow> options_ok opt'"
proof (induction args opt rule: parse_args.induct)
  case (3 arg v rest opt)
  note IH = 3(1-5)
  show ?case
  proof (cases "flag_arg arg opt")
    case (Some o1)
    then show ?thesis using IH(5) [OF Some] 3(6,7) flag_arg_ok [OF Some] by simp
  next
    case None
    let ?o = "opt\<lparr>o_find_bug_only := True\<rparr>"
    have o: "options_ok ?o" using 3(7) by (simp add: options_ok_def)
    consider (num) "arg = ''-findbug''" "v \<noteq> [] \<and> isdigit (hd v)" | (bug) "arg = ''-findbug''" "\<not> (v \<noteq> [] \<and> isdigit (hd v))"
      | (val) "arg \<noteq> ''-findbug''" "arg = ''-bmc'' \<or> arg = ''-pdr'' \<or> arg = ''-pindex''"
      | (skip) "arg \<noteq> ''-findbug''" "\<not> (arg = ''-bmc'' \<or> arg = ''-pdr'' \<or> arg = ''-pindex'')" by blast
    then show ?thesis
    proof cases
      case num
      then obtain o1 where o1: "number_arg arg v (INT_MAX - 1) (INT_MAX - 1) (\<lambda>r opt. opt\<lparr>o_nframes := r\<rparr>) ?o = Some o1"
          "parse_args rest o1 = Some opt'"
        using 3(6) None by (auto simp: bind_eq_Some_conv)
      then show ?thesis using IH(1) [OF None num(1) refl num(2) o1(1)] findbug_arg_ok o by blast
    next
      case bug
      then show ?thesis using IH(2) [OF None bug(1) refl bug(2)] 3(6) None o by (auto simp: Let_def)
    next
      case val
      then obtain o1 where o1: "value_arg arg v opt = Some o1" "parse_args rest o1 = Some opt'"
        using 3(6) None by (auto simp: bind_eq_Some_conv)
      then show ?thesis using IH(3) [OF None val o1(1)] value_arg_ok 3(7) by blast
    next
      case skip
      then show ?thesis using IH(4) [OF None skip] 3(6,7) None by simp
    qed
  qed
qed simp_all

definition usage_ok :: "options \<Rightarrow> bool" where
  "usage_ok opt = (o_bmc_thread opt \<in> {0..12} \<and> o_pdr_thread opt \<in> {0..4}
     \<and> o_nframes opt \<in> {0..INT_MAX} \<and> o_property_index opt \<in> {0..INT_MAX})"


definition example_args :: "string list" where
  "example_args = [''-bmc'', ''4'', ''-pdr'', ''99'', ''-pindex'', ''3'', ''-witness'', ''example.aig'']"

lemma example_parse:
  "map_option (\<lambda>x. (o_bmc_thread x, o_pdr_thread x, o_property_index x, o_witness x, o_warnings x)) (parse_args example_args options_new)
   = Some (4, 0, 3, True, [(''-pdr'', OutOfRange)])"
  by code_simp


section \<open>The circuit the threads get\<close>

lemma distinct_concat_offset:
  assumes "\<forall>k<length xs. \<exists>x. xs ! k \<in> {[], [x], [- x]} \<and> x = c + int k" "0 < (c::int)"
  shows "distinct (map abs (concat xs)) \<and> (\<forall>l\<in>set (concat xs). c \<le> \<bar>l\<bar>)"
  using assms
proof (induction xs arbitrary: c)
  case (Cons y ys)
  have "\<forall>k<length ys. \<exists>x. ys ! k \<in> {[], [x], [- x]} \<and> x = (c + 1) + int k"
  proof (intro allI impI)
    fix k assume "k < length ys"
    then show "\<exists>x. ys ! k \<in> {[], [x], [- x]} \<and> x = (c + 1) + int k"
      using Cons.prems(1) [rule_format, of "Suc k"] by (simp add: algebra_simps)
  qed
  then have IH: "distinct (map abs (concat ys))" "\<forall>l\<in>set (concat ys). c + 1 \<le> \<bar>l\<bar>" using Cons.IH [of "c + 1"] Cons.prems(2) by auto
  have y: "y \<in> {[], [c], [- c]}" using Cons.prems(1) [rule_format, of 0] by simp
  have c: "c \<notin> abs ` set (concat ys)" using IH(2) by fastforce
  show ?case using y IH c Cons.prems(2) by fastforce
qed simp

lemma load_nexts_distinct:
  assumes "load_nexts a = Some nx" "0 \<le> num_inputs a"
  shows "distinct (map abs (concat (map snd nx)))"
proof -
  have "\<exists>x. map snd nx ! k \<in> {[], [x], [- x]} \<and> x = num_inputs a + 2 + int k" if k: "k < length (map snd nx)" for k
  proof -
    have k': "k < length nx" using k by simp
    show ?thesis
      using those_upto [OF assms(1) [unfolded load_nexts_def] k'] k'
      by (cases "nx ! k") (auto simp: bind_eq_Some_conv Let_def add.commute add.left_commute split: if_splits)
  qed
  then show ?thesis using distinct_concat_offset [of "map snd nx" "num_inputs a + 2"] assms(2) by simp
qed

lemma load_bad_index:
  assumes "load_bad xs n a = Some a'" "allbad a = []"
  shows "\<exists>p b bs. a' = a\<lparr>propertyIndex := p, allbad := bs, bad := b, num_property := n\<rparr> \<and> vec_at bs p = Some b
    \<and> (0 \<le> n \<longrightarrow> int (length bs) = n)"
proof -
  let ?p = "if n \<le> propertyIndex a then 0 else propertyIndex a"
  obtain bs b where b: "load_lits xs n = Some bs" "vec_at bs ?p = Some b"
    "a' = a\<lparr>propertyIndex := ?p, allbad := bs, bad := b, num_property := n\<rparr>"
    using assms by (auto simp: load_bad_def bind_eq_Some_conv Let_def)
  have "0 \<le> n \<longrightarrow> int (length bs) = n" using b(1) by (auto simp: load_lits_def those_Some_conv)
  then show ?thesis using b(2,3) by blast
qed

lemma translate_ready:
  assumes a: "file_ok a" "untranslated a" and t: "translate_to_dimacs a = Some C"
  shows "main_ready C \<and> find_bug_only C = find_bug_only a \<and> num_property C = int (length (allbad C))"
proof -
  obtain vi vl va nx cs where v: "load_inputs a = Some vi" "load_latches a = Some vl" "load_ands a = Some va"
    "load_nexts a = Some nx" "load_lits (Aiger_constraints a) (num_constraints a) = Some cs"
    using t by (auto simp: translate_to_dimacs_def bind_eq_Some_conv)
  have u: "init_state a = []" "allbad a = []" using a(2) by (simp_all add: untranslated_def)
  obtain a1 xs n a2 where b: "load_bad xs n a1 = Some a2" "C = a2\<lparr>primed_first_dimacs := int (length (variables a2))\<rparr>"
      "init_state a1 = concat (map snd nx)" "allbad a1 = []" "find_bug_only a1 = find_bug_only a" "0 < n"
    using t v u by (auto simp: translate_to_dimacs_def bind_eq_Some_conv Let_def split: if_splits)
  have "0 \<le> num_inputs a" using a(1) by (simp add: file_ok_def)
  then have "distinct (map abs (init_state a1))" using load_nexts_distinct [OF v(4)] b(3) by simp
  moreover obtain p bd bs where "a2 = a1\<lparr>propertyIndex := p, allbad := bs, bad := bd, num_property := n\<rparr>"
      "vec_at bs p = Some bd" "int (length bs) = n"
    using load_bad_index [OF b(1,4)] b(6) by auto
  ultimately show ?thesis using translate_loaded [OF a t] b(2,5) by (simp add: main_ready_def)
qed

lemma load_find_bug:
  assumes "load_aiger_from_file file idx w c fb lg = Some a"
  shows "find_bug_only a = fb"
proof -
  have h: "find_bug_only a' = find_bug_only a0" if "read_header buf a0 = Some (b, a', p)" for buf a0 b a' p
    using that by (auto simp: read_header_def bind_eq_Some_conv split: if_splits)
  show ?thesis using assms by (auto simp: load_aiger_from_file_def bind_eq_Some_conv Let_def dest!: h)
qed

lemma main_ready_flags:
  "main_ready (C\<lparr>output_witness := x, moreinfo_for_bmc := y\<rparr>) = main_ready C"
  by (simp add: main_ready_def loaded_def wf_aig_def lit_in_def is_latch_def)

lemma main_workers_ready:
  assumes r: "main_ready C" "find_bug_only C = o_find_bug_only opt" "num_property C = int (length (allbad C))"
    and w: "main_workers opt C = Some (opt', C', ws)"
  shows "main_ready C'" "workers_ready opt' C' ws" "o_nframes opt' = o_nframes opt" "find_bug_only C' = o_find_bug_only opt"
    "circ C' = circ C" "allbad C' = allbad C"
  using w r by (auto simp: main_workers_def workers_ready_def main_ready_flags circ_def split: if_splits)

text \<open>What is known of a file when the threads have ended with a result.\<close>

definition file_verdict :: "bool \<Rightarrow> Aiger \<Rightarrow> int \<Rightarrow> bool" where
  "file_verdict findbug a R = (R \<in> {0, 10, 20}
     \<and> (R = 10 \<longrightarrow> (\<exists>n \<tau>. file_reach a n \<tau> \<and> (if findbug then \<exists>x\<in>set (file_props a). aiger_val \<tau> x else file_bad a \<tau>)))
     \<and> (R = 20 \<longrightarrow> \<not> (\<exists>n \<tau>. file_reach a n \<tau> \<and> file_bad a \<tau>)))"


lemma toggle_setup:
  "Option.bind (load_aiger_from_file toggle_file 0 True False False False) (\<lambda>a. if file_ok a \<and> num_constraints a = 0 \<and> num_inputs a = 0 \<and> num_latches a = 1 \<and> num_ands a = 0
     then translate_to_dimacs a else None) \<noteq> None"
  by code_simp

lemma toggle_args:
  "map_option (\<lambda>x. (o_property_index x, o_witness x, o_certificate x, o_find_bug_only x, o_log x))
     (parse_args [''-witness'', ''toggle.aag''] options_new) = Some (0, True, False, False, False)"
  by code_simp


section \<open>The report\<close>

text \<open>
  The report never says that a circuit is safe: it has neither the line \<^verbatim>\<open>result: safe\<close> nor, with
  \<^verbatim>\<open>-findbug\<close>, the line \<^verbatim>\<open>0\<close>, and a proof of safety (20) is reported like an open search (0);
  only a bug (10) can be told apart.
\<close>

lemma main_report_hides_safety:
  "main_report opt R \<noteq> ''result: safe'' @ newline \<and> main_report opt R \<noteq> ''0'' @ newline
   \<and> main_report opt 20 = main_report opt 0 \<and> (main_report opt R = main_report opt 10 \<longleftrightarrow> R = 10)"
  by (simp add: main_report_def newline_def)

end
