(* ===== verification/MiniQueue.thy ===== *)
theory MiniQueue
  imports Prelude Basic
begin

text \<open>
  \<^verbatim>\<open>src/minisat/minisat/mtl/Queue.h\<close>: the queue of MiniSat's preprocessing, a ring buffer that grows. It
  refines a list: inserting appends, popping drops the head.
\<close>

section \<open>The ring buffer\<close>

record 'a Queue =
  buf :: "'a list"
  q_first :: nat
  q_end :: nat

definition Queue_new :: "'a \<Rightarrow> 'a Queue" where
  "Queue_new d = \<lparr>buf = [d], q_first = 0, q_end = 0\<rparr>"

definition Queue_clear :: "'a \<Rightarrow> 'a Queue \<Rightarrow> 'a Queue" where
  "Queue_clear d q = q\<lparr>buf := [d], q_first := 0, q_end := 0\<rparr>"

definition Queue_size :: "'a Queue \<Rightarrow> nat" where
  "Queue_size q = (if q_first q \<le> q_end q then q_end q - q_first q else q_end q + length (buf q) - q_first q)"

definition Queue_at :: "'a Queue \<Rightarrow> nat \<Rightarrow> 'a option" where
  "Queue_at q i = (if i < Queue_size q then Some (buf q ! ((q_first q + i) mod length (buf q))) else None)"

definition Queue_peek :: "'a Queue \<Rightarrow> 'a option" where
  "Queue_peek q = (if q_first q \<noteq> q_end q then Some (buf q ! q_first q) else None)"

definition Queue_pop :: "'a Queue \<Rightarrow> 'a Queue option" where
  "Queue_pop q = (if q_first q \<noteq> q_end q
     then Some (q\<lparr>q_first := (if Suc (q_first q) = length (buf q) then 0 else Suc (q_first q))\<rparr>) else None)"

text \<open>
  The elements move to the front of a buffer of size \<^verbatim>\<open>(buf.size()*3 + 1) >> 1\<close>, whose other cells
  hold the default element \<open>d\<close>; \<open>None\<close> is an overflow of that product.
\<close>

definition Queue_resize :: "'a \<Rightarrow> 'a Queue \<Rightarrow> 'a Queue option" where
  "Queue_resize d q = (let n = length (buf q) in
     if INT_MAX < int n * 3 + 1 then None
     else Some (q\<lparr>buf := drop (q_first q) (buf q) @ take (q_end q) (buf q) @ replicate ((n * 3 + 1) div 2 - n) d,
                  q_first := 0, q_end := n\<rparr>))"

definition Queue_insert :: "'a \<Rightarrow> 'a \<Rightarrow> 'a Queue \<Rightarrow> 'a Queue option" where
  "Queue_insert d x q =
     (let q1 = q\<lparr>buf := (buf q)[q_end q := x], q_end := (if Suc (q_end q) = length (buf q) then 0 else Suc (q_end q))\<rparr>
      in if q_first q1 = q_end q1 then Queue_resize d q1 else Some q1)"

section \<open>Refinement\<close>

definition queue_inv :: "'a Queue \<Rightarrow> bool" where
  "queue_inv q = (q_first q < length (buf q) \<and> q_end q < length (buf q))"

definition queue_list :: "'a Queue \<Rightarrow> 'a list" where
  "queue_list q = (if q_first q \<le> q_end q then drop (q_first q) (take (q_end q) (buf q))
     else drop (q_first q) (buf q) @ take (q_end q) (buf q))"

lemma queue_list_length: "queue_inv q \<Longrightarrow> length (queue_list q) = Queue_size q"
  by (auto simp: queue_list_def Queue_size_def queue_inv_def)

lemma Queue_at_list:
  assumes "queue_inv q" "i < Queue_size q"
  shows "Queue_at q i = Some (queue_list q ! i)"
proof (cases "q_first q \<le> q_end q")
  case True
  then have "(q_first q + i) mod length (buf q) = q_first q + i"
    using assms by (intro mod_less) (simp add: queue_inv_def Queue_size_def, linarith)
  then show ?thesis using True assms by (simp add: Queue_at_def queue_list_def queue_inv_def Queue_size_def)
next
  case False
  let ?n = "length (buf q)"
  have i: "i < q_end q + ?n - q_first q" using assms(2) False by (simp add: Queue_size_def)
  have n: "q_first q < ?n" "q_end q < ?n" using assms(1) by (auto simp: queue_inv_def)
  have "(q_first q + i) mod ?n = (if q_first q + i < ?n then q_first q + i else q_first q + i - ?n)"
    using i n False by (simp add: mod_if)
  then show ?thesis using assms(2) i n False
    by (auto simp: Queue_at_def queue_list_def nth_append algebra_simps)
qed

lemma queue_peek_list:
  assumes "queue_inv q"
  shows "Queue_peek q = (if queue_list q = [] then None else Some (hd (queue_list q)))"
  using assms by (auto simp: Queue_peek_def queue_list_def queue_inv_def hd_drop_conv_nth hd_append)

lemma queue_pop_list:
  assumes "queue_inv q"
  shows "case Queue_pop q of None \<Rightarrow> queue_list q = [] | Some q' \<Rightarrow> queue_inv q' \<and> queue_list q \<noteq> [] \<and> queue_list q' = tl (queue_list q)"
proof (cases "q_first q = q_end q")
  case True
  then show ?thesis by (simp add: Queue_pop_def queue_list_def)
next
  case False
  let ?n = "length (buf q)"
  have n: "q_first q < ?n" "q_end q < ?n" using assms by (auto simp: queue_inv_def)
  show ?thesis
  proof (cases "Suc (q_first q) = ?n")
    case True
    have "drop (q_first q) (buf q) = [buf q ! q_first q]" using True n by (simp add: Cons_nth_drop_Suc [symmetric])
    then show ?thesis using True False n by (auto simp: Queue_pop_def queue_list_def queue_inv_def)
  next
    case ne: False
    have "drop (q_first q) (buf q) = buf q ! q_first q # drop (Suc (q_first q)) (buf q)" using n by (simp add: Cons_nth_drop_Suc)
    moreover have "q_end q - q_first q = Suc (q_end q - Suc (q_first q))" if "q_first q \<le> q_end q" using that False by simp
    ultimately show ?thesis using ne False n
      by (auto simp: Queue_pop_def queue_list_def queue_inv_def drop_take simp del: drop_Suc)
  qed
qed

lemma queue_insert_list:
  assumes inv: "queue_inv q" and r: "Queue_insert d x q = Some q'"
  shows "queue_inv q' \<and> queue_list q' = queue_list q @ [x]"
proof -
  let ?n = "length (buf q)" and ?b = "(buf q)[q_end q := x]"
  have n: "q_first q < ?n" "q_end q < ?n" using inv by (auto simp: queue_inv_def)
  have t: "take (Suc (q_end q)) ?b = take (q_end q) (buf q) @ [x]" using n by (simp add: take_Suc_conv_app_nth)
  have t0: "?b = take (q_end q) (buf q) @ [x]" if "Suc (q_end q) = ?n"
    using t that by simp
  define e where "e = (if Suc (q_end q) = ?n then 0 else Suc (q_end q))"
  define q1 where "q1 = q\<lparr>buf := ?b, q_end := e\<rparr>"
  have r': "(if q_first q = e then Queue_resize d q1 else Some q1) = Some q'"
    using r by (simp add: Queue_insert_def q1_def e_def Let_def split: if_splits)
  show ?thesis
  proof (cases "q_first q = e")
    case False
    then have q': "q' = q1" using r' by simp
    show ?thesis
    proof (cases "Suc (q_end q) = ?n")
      case True
      then have e: "e = 0" "q_first q \<le> q_end q" using n by (auto simp: e_def)
      have "drop (q_first q) ?b = drop (q_first q) (take (q_end q) (buf q)) @ [x]"
        unfolding t0 [OF True] using e(2) n by simp
      then show ?thesis using False e n q' by (auto simp: q1_def queue_inv_def queue_list_def)
    next
      case ne: False
      then have e: "e = Suc (q_end q)" by (simp add: e_def)
      show ?thesis
      proof (cases "q_first q \<le> q_end q")
        case True
        then show ?thesis using e t n ne q' by (simp add: q1_def queue_inv_def queue_list_def)
      next
        case gt: False
        then have "\<not> q_first q \<le> e" "drop (q_first q) ?b = drop (q_first q) (buf q)" using e False n by auto
        then show ?thesis using e t n ne gt q' by (simp add: q1_def queue_inv_def queue_list_def)
      qed
    qed
  next
    case True
    then have q': "q' = q1\<lparr>buf := drop e ?b @ take e ?b @ replicate ((?n * 3 + 1) div 2 - ?n) d, q_first := 0, q_end := ?n\<rparr>"
      using r' by (auto simp: Queue_resize_def q1_def Let_def split: if_splits)
    have inv': "queue_inv q'" using n q' True by (simp add: queue_inv_def q1_def) linarith
    have l: "queue_list q' = drop e ?b @ take e ?b" using q' True n by (simp add: queue_list_def q1_def)
    show ?thesis
    proof (cases "Suc (q_end q) = ?n")
      case last: True
      then have "e = 0" by (simp add: e_def)
      then have "queue_list q' = ?b" "q_first q = 0" using l True by simp_all
      then show ?thesis unfolding t0 [OF last] using inv' by (simp add: queue_list_def)
    next
      case ne: False
      then have e: "e = Suc (q_end q)" by (simp add: e_def)
      then show ?thesis using l t inv' True n by (simp add: queue_list_def)
    qed
  qed
qed

text \<open>Clients of the queue see a list.\<close>

datatype 'a queue_op = Insert 'a | Pop | Clear

fun queue_exec :: "'a \<Rightarrow> 'a queue_op list \<Rightarrow> 'a Queue \<Rightarrow> 'a Queue option" where
  "queue_exec d [] q = Some q"
| "queue_exec d (Insert x # os) q = Option.bind (Queue_insert d x q) (queue_exec d os)"
| "queue_exec d (Pop # os) q = Option.bind (Queue_pop q) (queue_exec d os)"
| "queue_exec d (Clear # os) q = queue_exec d os (Queue_clear d q)"

fun list_exec :: "'a queue_op list \<Rightarrow> 'a list \<Rightarrow> 'a list" where
  "list_exec [] xs = xs"
| "list_exec (Insert x # os) xs = list_exec os (xs @ [x])"
| "list_exec (Pop # os) xs = list_exec os (tl xs)"
| "list_exec (Clear # os) xs = list_exec os []"

lemma queue_exec_list: "queue_exec d os q = Some q' \<Longrightarrow> queue_inv q \<Longrightarrow> queue_inv q' \<and> queue_list q' = list_exec os (queue_list q)"
proof (induction d os q rule: queue_exec.induct)
  case (2 d x os q)
  then show ?case using queue_insert_list [of q d x] by (auto simp: bind_eq_Some_conv)
next
  case (3 d os q)
  then show ?case using queue_pop_list [of q] by (auto simp: bind_eq_Some_conv)
next
  case (4 d os q)
  have "queue_inv (Queue_clear d q)" "queue_list (Queue_clear d q) = []"
    by (simp_all add: Queue_clear_def queue_inv_def queue_list_def)
  then show ?case using 4 by simp
qed simp

text \<open>
  C25. The ring buffer refines a list: after any sequence of insertions, removals and clearings its
  indices are in range, its size, its head and its i-th element are those of the list the same
  operations give; wrapping around and growing keep the order.
\<close>

theorem queue_refines_list:
  assumes "queue_exec d os (Queue_new d) = Some q"
  shows "queue_inv q \<and> Queue_size q = length (list_exec os [])
    \<and> Queue_peek q = (if list_exec os [] = [] then None else Some (hd (list_exec os [])))
    \<and> (\<forall>i<Queue_size q. Queue_at q i = Some (list_exec os [] ! i))"
proof -
  have "queue_inv (Queue_new d)" "queue_list (Queue_new d) = []"
    by (simp_all add: Queue_new_def queue_inv_def queue_list_def)
  then have q: "queue_inv q" "queue_list q = list_exec os []" using queue_exec_list [OF assms] by auto
  then show ?thesis using queue_list_length [OF q(1)] queue_peek_list [OF q(1)] Queue_at_list [OF q(1)] by auto
qed

definition queue_example :: "nat queue_op list" where
  "queue_example = [Insert 1, Insert 2, Insert 3, Pop, Pop, Insert 4, Insert 5, Insert 6, Insert 7]"

lemma queue_example_run: "map_option queue_list (queue_exec 0 queue_example (Queue_new 0)) = Some [3, 4, 5, 6, 7]"
  by code_simp

theorem queue_refines_list_witness:
  "\<exists>q. queue_exec 0 queue_example (Queue_new 0) = Some q \<and> Queue_size q = 5 \<and> Queue_peek q = Some 3"
proof -
  obtain q where q: "queue_exec 0 queue_example (Queue_new 0) = Some q" using queue_example_run by auto
  have "list_exec queue_example [] = [3, 4, 5, 6, 7]" by (simp add: queue_example_def)
  then show ?thesis using q queue_refines_list [OF q] by simp
qed

end
