(* ===== verification/MiniSort.thy ===== *)
theory MiniSort
  imports Prelude "HOL-Library.Multiset"
begin

text \<open>
  \<^verbatim>\<open>src/minisat/minisat/mtl/Sort.h\<close>: selection sort for short arrays, quicksort with Hoare's partition
  otherwise. An array is a list; the two recursive calls on \<^verbatim>\<open>array\<close> and \<^verbatim>\<open>&array[i]\<close> are calls on its
  two parts. \<open>None\<close> is an access outside the array.
\<close>

section \<open>The functions\<close>

definition LessThan_default :: "int \<Rightarrow> int \<Rightarrow> bool" where
  "LessThan_default x y = (x < y)"

definition swap_at :: "nat \<Rightarrow> nat \<Rightarrow> 'a list \<Rightarrow> 'a list" where
  "swap_at i j xs = xs[i := xs ! j, j := xs ! i]"

definition selection_best :: "('a \<Rightarrow> 'a \<Rightarrow> bool) \<Rightarrow> 'a list \<Rightarrow> nat \<Rightarrow> nat" where
  "selection_best lt xs i = fold (\<lambda>j best. if lt (xs ! j) (xs ! best) then j else best) [Suc i..<length xs] i"

definition selection_step :: "('a \<Rightarrow> 'a \<Rightarrow> bool) \<Rightarrow> nat \<Rightarrow> 'a list \<Rightarrow> 'a list" where
  "selection_step lt i xs = swap_at i (selection_best lt xs i) xs"

definition selectionSort :: "('a \<Rightarrow> 'a \<Rightarrow> bool) \<Rightarrow> 'a list \<Rightarrow> 'a list" where
  "selectionSort lt xs = fold (selection_step lt) [0..<length xs - 1] xs"

text \<open>\<^verbatim>\<open>do i++; while(lt(array[i], pivot));\<close>, from the incremented index.\<close>

function scan_up :: "('a \<Rightarrow> 'a \<Rightarrow> bool) \<Rightarrow> 'a \<Rightarrow> 'a list \<Rightarrow> nat \<Rightarrow> nat option" where
  "scan_up lt p xs i = (if i < length xs then if lt (xs ! i) p then scan_up lt p xs (Suc i) else Some i else None)"
  by pat_completeness auto
termination by (relation "measure (\<lambda>(lt, p, xs, i). length xs - i)") auto

declare scan_up.simps [simp del]

text \<open>\<^verbatim>\<open>do j--; while(lt(pivot, array[j]));\<close>, from the index before it is decremented.\<close>

fun scan_down :: "('a \<Rightarrow> 'a \<Rightarrow> bool) \<Rightarrow> 'a \<Rightarrow> 'a list \<Rightarrow> nat \<Rightarrow> nat option" where
  "scan_down lt p xs 0 = None"
| "scan_down lt p xs (Suc j) = (if j < length xs then if lt p (xs ! j) then scan_down lt p xs j else Some j else None)"

lemma scan_down_less: "scan_down lt p xs j = Some j' \<Longrightarrow> j' < j"
  by (induction lt p xs j rule: scan_down.induct) (auto split: if_splits)

function partition_loop :: "('a \<Rightarrow> 'a \<Rightarrow> bool) \<Rightarrow> 'a \<Rightarrow> 'a list \<Rightarrow> nat \<Rightarrow> nat \<Rightarrow> (nat \<times> 'a list) option" where
  "partition_loop lt p xs i j =
     (case scan_up lt p xs i of None \<Rightarrow> None | Some i' \<Rightarrow>
        (case scan_down lt p xs j of None \<Rightarrow> None | Some j' \<Rightarrow>
           if j' \<le> i' then Some (i', xs) else partition_loop lt p (swap_at i' j' xs) (Suc i') j'))"
  by pat_completeness auto
termination by (relation "measure (\<lambda>(lt, p, xs, i, j). j)") (auto dest: scan_down_less)

declare partition_loop.simps [simp del]

partial_function (option) sort_array :: "('a \<Rightarrow> 'a \<Rightarrow> bool) \<Rightarrow> 'a list \<Rightarrow> 'a list option" where
  "sort_array lt xs =
     (if length xs \<le> 15 then Some (selectionSort lt xs)
      else do {
        (i, ys) \<leftarrow> partition_loop lt (xs ! (length xs div 2)) xs 0 (length xs);
        l \<leftarrow> sort_array lt (take i ys);
        r \<leftarrow> sort_array lt (drop i ys);
        Some (l @ r)
      })"

declare sort_array.simps [code]

section \<open>Correctness for every strict weak order\<close>

lemma swap_at_length [simp]: "length (swap_at i j xs) = length xs"
  by (simp add: swap_at_def)

lemma swap_at_mset: "i < length xs \<Longrightarrow> j < length xs \<Longrightarrow> mset (swap_at i j xs) = mset xs"
  by (simp add: swap_at_def mset_swap)

lemma swap_at_nth: "i < length xs \<Longrightarrow> j < length xs \<Longrightarrow> k < length xs \<Longrightarrow>
  swap_at i j xs ! k = (if k = j then xs ! i else if k = i then xs ! j else xs ! k)"
  by (simp add: swap_at_def nth_list_update)

context weak_order
begin

lemma asym: "lt x y \<Longrightarrow> \<not> lt y x"
  using irrefl trans by blast

definition ordered :: "'a list \<Rightarrow> bool" where
  "ordered xs = sorted_wrt (\<lambda>x y. \<not> lt y x) xs"

lemma selection_best_ok:
  assumes "i < length xs"
  shows "i \<le> selection_best lt xs i \<and> selection_best lt xs i < length xs
    \<and> (\<forall>j. i \<le> j \<longrightarrow> j < length xs \<longrightarrow> \<not> lt (xs ! j) (xs ! selection_best lt xs i))"
proof -
  let ?f = "\<lambda>j best. if lt (xs ! j) (xs ! best) then j else best"
  have all: "i \<le> fold ?f [Suc i..<Suc i + m] i \<and> fold ?f [Suc i..<Suc i + m] i < Suc i + m
    \<and> (\<forall>j. i \<le> j \<longrightarrow> j < Suc i + m \<longrightarrow> \<not> lt (xs ! j) (xs ! fold ?f [Suc i..<Suc i + m] i))" for m
  proof (induction m)
    case 0
    then show ?case using irrefl by (auto simp: less_Suc_eq)
  next
    case (Suc m)
    let ?b = "fold ?f [Suc i..<Suc i + m] i"
    have b: "i \<le> ?b" "?b < Suc i + m" "\<And>j. i \<le> j \<Longrightarrow> j < Suc i + m \<Longrightarrow> \<not> lt (xs ! j) (xs ! ?b)" using Suc by auto
    have f: "fold ?f [Suc i..<Suc i + Suc m] i = (if lt (xs ! (Suc i + m)) (xs ! ?b) then Suc i + m else ?b)" by simp
    show ?case
    proof (cases "lt (xs ! (Suc i + m)) (xs ! ?b)")
      case True
      then have "\<not> lt (xs ! j) (xs ! (Suc i + m))" if "i \<le> j" "j < Suc i + Suc m" for j
        using b(3) [of j] that irrefl trans [of "xs ! j" "xs ! (Suc i + m)" "xs ! ?b"] by (cases "j = Suc i + m") auto
      then show ?thesis unfolding f using True by simp
    next
      case False
      then have "\<not> lt (xs ! j) (xs ! ?b)" if "i \<le> j" "j < Suc i + Suc m" for j
        using b(3) [of j] that by (cases "j = Suc i + m") auto
      then show ?thesis unfolding f using False b(1,2) by simp
    qed
  qed
  have eq: "Suc i + (length xs - Suc i) = length xs" using assms by simp
  show ?thesis using all [of "length xs - Suc i"] unfolding eq selection_best_def .
qed

definition selected :: "nat \<Rightarrow> 'a list \<Rightarrow> bool" where
  "selected m xs = (\<forall>i j. i < m \<longrightarrow> i < j \<longrightarrow> j < length xs \<longrightarrow> \<not> lt (xs ! j) (xs ! i))"

lemma selection_step_ok:
  assumes m: "m < length xs" and s: "selected m xs"
  shows "selected (Suc m) (selection_step lt m xs) \<and> mset (selection_step lt m xs) = mset xs"
proof -
  let ?b = "selection_best lt xs m" and ?ys = "selection_step lt m xs"
  have b: "m \<le> ?b" "?b < length xs" "\<And>j. m \<le> j \<Longrightarrow> j < length xs \<Longrightarrow> \<not> lt (xs ! j) (xs ! ?b)"
    using selection_best_ok [OF m] by auto
  have nth: "?ys ! k = (if k = ?b then xs ! m else if k = m then xs ! ?b else xs ! k)" if "k < length xs" for k
    unfolding selection_step_def using swap_at_nth [OF m b(2) that] .
  have "\<not> lt (?ys ! j) (?ys ! i)" if i: "i < Suc m" and j: "i < j" "j < length xs" for i j
  proof (cases "i = m")
    case True
    then show ?thesis using b(2) b(3) [of m] b(3) [of j] nth [of i] nth [of j] m j by auto
  next
    case False
    then have "i < m" using i by simp
    then have "\<not> lt (xs ! k) (xs ! i)" if "i < k" "k < length xs" for k using s that by (auto simp: selected_def)
    from this [of j] this [of m] this [of ?b] show ?thesis
      using nth [of i] nth [of j] \<open>i < m\<close> b(1,2) m j by auto
  qed
  moreover have "length ?ys = length xs" by (simp add: selection_step_def)
  ultimately show ?thesis using swap_at_mset [OF m b(2)] by (simp add: selected_def selection_step_def)
qed

lemma selectionSort_ok: "ordered (selectionSort lt xs) \<and> mset (selectionSort lt xs) = mset xs"
proof -
  have "selected m (fold (selection_step lt) [0..<m] xs) \<and> mset (fold (selection_step lt) [0..<m] xs) = mset xs"
    if "m \<le> length xs - 1" for m
    using that
  proof (induction m)
    case 0
    then show ?case by (simp add: selected_def)
  next
    case (Suc m)
    let ?y = "fold (selection_step lt) [0..<m] xs"
    have "selected m ?y" "mset ?y = mset xs" using Suc by auto
    moreover have "m < length ?y" using Suc.prems mset_eq_length [OF calculation(2)] by simp
    ultimately show ?case using selection_step_ok [of m ?y] by simp
  qed
  then have s: "selected (length xs - 1) (selectionSort lt xs)" "mset (selectionSort lt xs) = mset xs"
    by (simp_all add: selectionSort_def)
  have "length (selectionSort lt xs) = length xs" using mset_eq_length [OF s(2)] .
  then have "ordered (selectionSort lt xs)" using s(1) by (auto simp: ordered_def sorted_wrt_iff_nth_less selected_def)
  then show ?thesis using s(2) by simp
qed

lemma scan_up_ok:
  assumes "\<exists>k\<ge>i. k < length xs \<and> \<not> lt (xs ! k) p"
  shows "\<exists>i'. scan_up lt p xs i = Some i' \<and> i \<le> i' \<and> i' < length xs \<and> \<not> lt (xs ! i') p
    \<and> (\<forall>k. i \<le> k \<longrightarrow> k < i' \<longrightarrow> lt (xs ! k) p)"
  using assms
proof (induction "length xs - i" arbitrary: i)
  case 0
  then show ?case by auto
next
  case (Suc n)
  show ?case
  proof (cases "lt (xs ! i) p")
    case True
    have "\<exists>k\<ge>Suc i. k < length xs \<and> \<not> lt (xs ! k) p" using Suc.prems True by (metis Suc_leI le_neq_implies_less)
    then obtain i' where i': "scan_up lt p xs (Suc i) = Some i'" "Suc i \<le> i'" "i' < length xs" "\<not> lt (xs ! i') p"
        "\<forall>k. Suc i \<le> k \<longrightarrow> k < i' \<longrightarrow> lt (xs ! k) p"
    proof -
      have "n = length xs - Suc i" using Suc.hyps(2) by simp
      from Suc.hyps(1) [OF this \<open>\<exists>k\<ge>Suc i. k < length xs \<and> \<not> lt (xs ! k) p\<close>] show thesis using that by blast
    qed
    have "scan_up lt p xs i = Some i'" using i'(1) True Suc.hyps(2) by (simp add: scan_up.simps [of lt p xs i])
    moreover have "\<forall>k. i \<le> k \<longrightarrow> k < i' \<longrightarrow> lt (xs ! k) p" using i'(5) True by (metis Suc_leI le_neq_implies_less)
    ultimately show ?thesis using i'(2-4) by auto
  next
    case False
    then show ?thesis using Suc.hyps(2) by (simp add: scan_up.simps [of lt p xs i])
  qed
qed

lemma scan_down_ok:
  assumes "\<exists>k<j. \<not> lt p (xs ! k)" "j \<le> length xs"
  shows "\<exists>j'. scan_down lt p xs j = Some j' \<and> j' < j \<and> \<not> lt p (xs ! j') \<and> (\<forall>k. j' < k \<longrightarrow> k < j \<longrightarrow> lt p (xs ! k))"
  using assms by (induction j) (auto simp: less_Suc_eq)

definition part_inv :: "'a \<Rightarrow> 'a list \<Rightarrow> nat \<Rightarrow> nat \<Rightarrow> bool" where
  "part_inv p xs i j = (j \<le> length xs \<and> (\<forall>k<i. k < length xs \<longrightarrow> \<not> lt p (xs ! k))
     \<and> (\<forall>k. j \<le> k \<longrightarrow> k < length xs \<longrightarrow> \<not> lt (xs ! k) p)
     \<and> (\<exists>k\<ge>i. k < length xs \<and> \<not> lt (xs ! k) p) \<and> (\<exists>k<j. \<not> lt p (xs ! k))
     \<and> (i = 0 \<longrightarrow> (\<exists>m. 0 < m \<and> m < j \<and> m < length xs \<and> xs ! m = p)))"

definition part_ok :: "'a \<Rightarrow> 'a list \<Rightarrow> nat \<times> 'a list \<Rightarrow> bool" where
  "part_ok p xs r = (case r of (i, ys) \<Rightarrow> mset ys = mset xs \<and> 0 < i \<and> i < length xs
     \<and> (\<forall>x\<in>set (take i ys). \<not> lt p x) \<and> (\<forall>x\<in>set (drop i ys). \<not> lt x p))"

lemma partition_loop_ok: "part_inv p xs i j \<Longrightarrow> \<exists>r. partition_loop lt p xs i j = Some r \<and> part_ok p xs r"
proof (induction j arbitrary: xs i rule: less_induct)
  case (less j)
  have inv: "j \<le> length xs" "\<forall>k<i. k < length xs \<longrightarrow> \<not> lt p (xs ! k)" "\<forall>k. j \<le> k \<longrightarrow> k < length xs \<longrightarrow> \<not> lt (xs ! k) p"
      "\<exists>k\<ge>i. k < length xs \<and> \<not> lt (xs ! k) p" "\<exists>k<j. \<not> lt p (xs ! k)"
      "i = 0 \<longrightarrow> (\<exists>m. 0 < m \<and> m < j \<and> m < length xs \<and> xs ! m = p)"
    using less.prems by (auto simp: part_inv_def)
  obtain i' where i': "scan_up lt p xs i = Some i'" "i \<le> i'" "i' < length xs" "\<not> lt (xs ! i') p"
      "\<forall>k. i \<le> k \<longrightarrow> k < i' \<longrightarrow> lt (xs ! k) p"
    using scan_up_ok [OF inv(4)] by blast
  obtain j' where j': "scan_down lt p xs j = Some j'" "j' < j" "\<not> lt p (xs ! j')" "\<forall>k. j' < k \<longrightarrow> k < j \<longrightarrow> lt p (xs ! k)"
    using scan_down_ok [OF inv(5,1)] by blast
  have lo: "\<not> lt p (xs ! k)" if "k < i'" for k using that inv(2) i'(3,5) asym by (cases "k < i") auto
  have hi: "\<not> lt (xs ! k) p" if "j' < k" "k < length xs" for k using that inv(3) j'(4) asym by (cases "k < j") auto
  show ?case
  proof (cases "j' \<le> i'")
    case True
    have "0 < i'"
    proof (cases "i = 0")
      case i0: True
      then obtain m where m: "0 < m" "m < j" "xs ! m = p" using inv(6) by blast
      have "i' \<le> m" using i'(5) i0 m(3) irrefl by (metis not_less le0)
      moreover have "m \<le> j'" using j'(4) m irrefl by (metis not_less)
      ultimately show ?thesis using m(1) True by simp
    qed (use i'(2) in simp)
    moreover have "\<not> lt p x" if "x \<in> set (take i' xs)" for x using that lo by (auto simp: in_set_conv_nth)
    moreover have "\<not> lt x p" if x: "x \<in> set (drop i' xs)" for x
    proof -
      obtain k where k: "x = xs ! (i' + k)" "i' + k < length xs" using x by (auto simp: in_set_conv_nth)
      show ?thesis using k hi [of "i' + k"] i'(4) True by (cases "k = 0") auto
    qed
    ultimately show ?thesis using True i'(1,3) j'(1) by (simp add: partition_loop.simps [of lt p xs i j] part_ok_def)
  next
    case False
    let ?ys = "swap_at i' j' xs"
    have jl: "j' < length xs" using j'(2) inv(1) by simp
    note nth = swap_at_nth [OF i'(3) jl]
    have "part_inv p ?ys (Suc i') j'"
      unfolding part_inv_def
    proof (intro conjI)
      show "\<forall>k<Suc i'. k < length ?ys \<longrightarrow> \<not> lt p (?ys ! k)" using nth lo j'(3) False by (auto simp: less_Suc_eq)
      show "\<forall>k. j' \<le> k \<longrightarrow> k < length ?ys \<longrightarrow> \<not> lt (?ys ! k) p" using nth hi i'(4) False by (auto simp: le_less)
      show "\<exists>k\<ge>Suc i'. k < length ?ys \<and> \<not> lt (?ys ! k) p" using nth [of j'] jl i'(4) False by (intro exI [of _ j']) simp
      show "\<exists>k<j'. \<not> lt p (?ys ! k)" using nth [of i'] i'(3) j'(3) False by (intro exI [of _ i']) simp
    qed (use jl in simp_all)
    then obtain r where r: "partition_loop lt p ?ys (Suc i') j' = Some r" "part_ok p ?ys r" using less.IH [OF j'(2)] by blast
    have "partition_loop lt p xs i j = Some r" using False r(1) i'(1) j'(1) by (simp add: partition_loop.simps [of lt p xs i j])
    moreover have "part_ok p xs r" using r(2) swap_at_mset [OF i'(3) jl] by (cases r) (simp add: part_ok_def)
    ultimately show ?thesis by blast
  qed
qed

lemma sort_array_ok: "\<exists>ys. sort_array lt xs = Some ys \<and> mset ys = mset xs \<and> ordered ys"
proof (induction "length xs" arbitrary: xs rule: less_induct)
  case less
  show ?case
  proof (cases "length xs \<le> 15")
    case True
    then show ?thesis using selectionSort_ok by (simp add: sort_array.simps [of lt xs])
  next
    case False
    let ?p = "xs ! (length xs div 2)"
    have "part_inv ?p xs 0 (length xs)"
      unfolding part_inv_def using False irrefl by (auto intro!: exI [of _ "length xs div 2"])
    then obtain i ys where r: "partition_loop lt ?p xs 0 (length xs) = Some (i, ys)" "part_ok ?p xs (i, ys)"
      using partition_loop_ok by fastforce
    have ok: "mset ys = mset xs" "0 < i" "i < length xs" "\<forall>x\<in>set (take i ys). \<not> lt ?p x" "\<forall>x\<in>set (drop i ys). \<not> lt x ?p"
      using r(2) by (auto simp: part_ok_def)
    have len: "length ys = length xs" using mset_eq_length [OF ok(1)] .
    have less_len: "length (take i ys) < length xs" "length (drop i ys) < length xs" using ok(2,3) len by auto
    obtain l where l: "sort_array lt (take i ys) = Some l" "mset l = mset (take i ys)" "ordered l"
      using less [OF less_len(1)] by blast
    obtain u where u: "sort_array lt (drop i ys) = Some u" "mset u = mset (drop i ys)" "ordered u"
      using less [OF less_len(2)] by blast
    have "mset (l @ u) = mset xs" using l(2) u(2) ok(1) by (metis append_take_drop_id mset_append)
    moreover have "ordered (l @ u)"
    proof -
      have "\<not> lt y x" if "x \<in> set l" "y \<in> set u" for x y
        using that ok(4,5) neg_trans [of y x ?p] mset_eq_setD [OF l(2)] mset_eq_setD [OF u(2)] by auto
      then show ?thesis using l(3) u(3) by (auto simp: ordered_def sorted_wrt_append)
    qed
    ultimately show ?thesis using False r(1) l(1) u(1) by (simp add: sort_array.simps [of lt xs])
  qed
qed

end

interpretation default: weak_order LessThan_default
  by unfold_locales (auto simp: LessThan_default_def)

text \<open>
  C26. \<^verbatim>\<open>sort\<close> returns for every array, without an access outside it, an ordered permutation of the
  array. The scans of the partition need no test of the bounds, as the pivot and the elements
  already exchanged stop them, and both parts are smaller than the array.
\<close>

theorem sort_array_sorts: "\<exists>ys. sort_array LessThan_default xs = Some ys \<and> mset ys = mset xs \<and> sorted ys"
proof -
  have "(\<lambda>x y. \<not> LessThan_default y x) = (\<le>)" by (auto simp: LessThan_default_def fun_eq_iff)
  then show ?thesis using default.sort_array_ok [of xs] by (simp add: default.ordered_def)
qed

end
