(* ===== verification/MiniHeap.thy ===== *)
theory MiniHeap
  imports MiniSort "HOL-Library.Word"
begin

text \<open>
  \<^verbatim>\<open>src/minisat/minisat/mtl/Heap.h\<close>: a binary heap of keys that knows the position of every key. \<^verbatim>\<open>indices\<close>
  (an \<^verbatim>\<open>IntMap\<close>) is a list, -1 for a key that is not in the heap. \<open>None\<close> is a failed \<^verbatim>\<open>assert\<close> or an
  access out of bounds.
\<close>

section \<open>The heap\<close>

record Heap =
  hp :: "nat list"
  indices :: "int list"

definition heap_left :: "nat \<Rightarrow> nat" where "heap_left i = i * 2 + 1"
definition heap_right :: "nat \<Rightarrow> nat" where "heap_right i = (i + 1) * 2"
definition heap_parent :: "nat \<Rightarrow> nat" where "heap_parent i = (i - 1) div 2"

definition Heap_new :: Heap where
  "Heap_new = \<lparr>hp = [], indices = []\<rparr>"

text \<open>\<^verbatim>\<open>heap[i] = x; indices[x] = i;\<close>\<close>

definition put :: "nat \<Rightarrow> nat \<Rightarrow> Heap \<Rightarrow> Heap" where
  "put i x h = h\<lparr>hp := (hp h)[i := x], indices := (indices h)[x := int i]\<rparr>"

function up_loop :: "(nat \<Rightarrow> nat \<Rightarrow> bool) \<Rightarrow> nat \<Rightarrow> nat \<Rightarrow> Heap \<Rightarrow> Heap" where
  "up_loop lt x i h =
     (if i \<noteq> 0 \<and> lt x (hp h ! heap_parent i)
      then up_loop lt x (heap_parent i) (put i (hp h ! heap_parent i) h)
      else put i x h)"
  by pat_completeness auto
termination by (relation "measure (\<lambda>(lt, x, i, h). i)") (auto simp: heap_parent_def)

definition percolateUp :: "(nat \<Rightarrow> nat \<Rightarrow> bool) \<Rightarrow> nat \<Rightarrow> Heap \<Rightarrow> Heap option" where
  "percolateUp lt i h = (if i < length (hp h) then Some (up_loop lt (hp h ! i) i h) else None)"

definition heap_child :: "(nat \<Rightarrow> nat \<Rightarrow> bool) \<Rightarrow> nat \<Rightarrow> nat list \<Rightarrow> nat" where
  "heap_child lt i xs =
     (if heap_right i < length xs \<and> lt (xs ! heap_right i) (xs ! heap_left i) then heap_right i else heap_left i)"

lemma put_length [simp]: "length (hp (put i x h)) = length (hp h)" "length (indices (put i x h)) = length (indices h)"
  by (simp_all add: put_def)

lemma heap_child_greater: "i < heap_child lt i xs"
  by (simp add: heap_child_def heap_left_def heap_right_def)

function down_loop :: "(nat \<Rightarrow> nat \<Rightarrow> bool) \<Rightarrow> nat \<Rightarrow> nat \<Rightarrow> Heap \<Rightarrow> Heap" where
  "down_loop lt x i h =
     (if heap_left i < length (hp h) \<and> lt (hp h ! heap_child lt i (hp h)) x
      then down_loop lt x (heap_child lt i (hp h)) (put i (hp h ! heap_child lt i (hp h)) h)
      else put i x h)"
  by pat_completeness auto
termination
  by (relation "measure (\<lambda>(lt, x, i, h). length (hp h) - i)")
     (auto simp: heap_left_def intro!: diff_less_mono2 heap_child_greater)

declare up_loop.simps [simp del] down_loop.simps [simp del]

definition percolateDown :: "(nat \<Rightarrow> nat \<Rightarrow> bool) \<Rightarrow> nat \<Rightarrow> Heap \<Rightarrow> Heap option" where
  "percolateDown lt i h = (if i < length (hp h) then Some (down_loop lt (hp h ! i) i h) else None)"

definition inHeap :: "nat \<Rightarrow> Heap \<Rightarrow> bool" where
  "inHeap k h = (k < length (indices h) \<and> 0 \<le> indices h ! k)"

definition heap_decrease :: "(nat \<Rightarrow> nat \<Rightarrow> bool) \<Rightarrow> nat \<Rightarrow> Heap \<Rightarrow> Heap option" where
  "heap_decrease lt k h = (if inHeap k h then percolateUp lt (nat (indices h ! k)) h else None)"

definition heap_increase :: "(nat \<Rightarrow> nat \<Rightarrow> bool) \<Rightarrow> nat \<Rightarrow> Heap \<Rightarrow> Heap option" where
  "heap_increase lt k h = (if inHeap k h then percolateDown lt (nat (indices h ! k)) h else None)"

definition reserve :: "nat \<Rightarrow> Heap \<Rightarrow> Heap" where
  "reserve k h = h\<lparr>indices := indices h @ replicate (Suc k - length (indices h)) (- 1)\<rparr>"

definition heap_insert :: "(nat \<Rightarrow> nat \<Rightarrow> bool) \<Rightarrow> nat \<Rightarrow> Heap \<Rightarrow> Heap option" where
  "heap_insert lt k h0 = (let h = reserve k h0 in
     if inHeap k h then None
     else percolateUp lt (length (hp h))
       (h\<lparr>indices := (indices h)[k := int (length (hp h))], hp := hp h @ [k]\<rparr>))"

definition heap_update :: "(nat \<Rightarrow> nat \<Rightarrow> bool) \<Rightarrow> nat \<Rightarrow> Heap \<Rightarrow> Heap option" where
  "heap_update lt k h =
     (if \<not> inHeap k h then heap_insert lt k h
      else Option.bind (percolateUp lt (nat (indices h ! k)) h)
             (\<lambda>h1. percolateDown lt (nat (indices h1 ! k)) h1))"

definition heap_remove :: "(nat \<Rightarrow> nat \<Rightarrow> bool) \<Rightarrow> nat \<Rightarrow> Heap \<Rightarrow> Heap option" where
  "heap_remove lt k h =
     (if \<not> inHeap k h then None
      else let pos = nat (indices h ! k); h1 = h\<lparr>indices := (indices h)[k := - 1]\<rparr> in
        if Suc pos < length (hp h)
        then let h2 = put pos (last (hp h)) h1 in percolateDown lt pos (h2\<lparr>hp := butlast (hp h2)\<rparr>)
        else Some (h1\<lparr>hp := butlast (hp h)\<rparr>))"

definition removeMin :: "(nat \<Rightarrow> nat \<Rightarrow> bool) \<Rightarrow> Heap \<Rightarrow> (nat \<times> Heap) option" where
  "removeMin lt h =
     (case hp h of [] \<Rightarrow> None
      | x # _ \<Rightarrow>
          (let h1 = put 0 (last (hp h)) h;
               h2 = h1\<lparr>indices := (indices h1)[x := - 1], hp := butlast (hp h1)\<rparr>
           in if 1 < length (hp h2) then map_option (Pair x) (percolateDown lt 0 h2) else Some (x, h2)))"

definition heap_clear :: "Heap \<Rightarrow> Heap" where
  "heap_clear h = h\<lparr>indices := fold (\<lambda>k ix. ix[k := - 1]) (hp h) (indices h), hp := []\<rparr>"

definition heap_build :: "(nat \<Rightarrow> nat \<Rightarrow> bool) \<Rightarrow> nat list \<Rightarrow> Heap \<Rightarrow> Heap option" where
  "heap_build lt ns h = (let h1 = heap_clear h in
     if \<forall>k\<in>set ns. k < length (indices h1)
     then fold_opt (percolateDown lt) (rev [0..<length ns div 2])
       (h1\<lparr>indices := fold (\<lambda>(i, k) ix. ix[k := int i]) (zip [0..<length ns] ns) (indices h1), hp := ns\<rparr>)
     else None)"

text \<open>Filling and emptying a heap, as the elimination loop does.\<close>

fun heap_fill :: "(nat \<Rightarrow> nat \<Rightarrow> bool) \<Rightarrow> nat list \<Rightarrow> Heap \<Rightarrow> Heap option" where
  "heap_fill lt [] h = Some h"
| "heap_fill lt (k # ks) h = Option.bind (heap_insert lt k h) (heap_fill lt ks)"

fun heap_drain :: "(nat \<Rightarrow> nat \<Rightarrow> bool) \<Rightarrow> nat \<Rightarrow> Heap \<Rightarrow> nat list option" where
  "heap_drain lt 0 h = Some []"
| "heap_drain lt (Suc n) h = Option.bind (removeMin lt h) (\<lambda>(x, g). map_option (Cons x) (heap_drain lt n g))"

section \<open>Positions\<close>

definition index_inv :: "Heap \<Rightarrow> bool" where
  "index_inv h = ((\<forall>i<length (hp h). hp h ! i < length (indices h) \<and> indices h ! (hp h ! i) = int i)
     \<and> (\<forall>k<length (indices h). 0 \<le> indices h ! k \<longrightarrow> nat (indices h ! k) < length (hp h) \<and> hp h ! nat (indices h ! k) = k))"

lemma index_inv_inj: "index_inv h \<Longrightarrow> i < length (hp h) \<Longrightarrow> j < length (hp h) \<Longrightarrow> hp h ! i = hp h ! j \<Longrightarrow> i = j"
  by (metis index_inv_def of_nat_eq_iff)

definition swap_heap :: "nat \<Rightarrow> nat \<Rightarrow> Heap \<Rightarrow> Heap" where
  "swap_heap i j h = put j (hp h ! i) (put i (hp h ! j) h)"

lemma swap_heap_hp: "hp (swap_heap i j h) = swap_at i j (hp h)"
  by (simp add: swap_heap_def put_def swap_at_def)

text \<open>The loops carry an element: writing it at the new place is exchanging two finished entries.\<close>

lemma put_swap:
  assumes "i \<noteq> p" "i < length (hp h)" "p < length (hp h)"
  shows "put p x (put i (hp h ! p) h) = swap_heap i p (put i x h)"
  using assms by (cases "x = hp h ! p") (simp_all add: put_def swap_heap_def list_update_swap)

lemma swap_heap_inv:
  assumes inv: "index_inv h" and i: "i < length (hp h)" and j: "j < length (hp h)" "i \<noteq> j"
  shows "index_inv (swap_heap i j h)"
proof -
  let ?g = "swap_heap i j h" and ?x = "hp h ! i" and ?y = "hp h ! j"
  have ne: "?x \<noteq> ?y" using index_inv_inj [OF inv i j(1)] j(2) by blast
  have x: "?x < length (indices h)" "?y < length (indices h)" using inv i j by (auto simp: index_inv_def)
  have len: "length (hp ?g) = length (hp h)" "length (indices ?g) = length (indices h)" by (simp_all add: swap_heap_def)
  have nth: "hp ?g ! k = (if k = j then ?x else if k = i then ?y else hp h ! k)" if "k < length (hp h)" for k
    unfolding swap_heap_hp using swap_at_nth [OF i j(1) that] .
  have idx: "indices ?g ! k = (if k = ?x then int j else if k = ?y then int i else indices h ! k)" if "k < length (indices h)" for k
    using that x ne by (auto simp: swap_heap_def put_def nth_list_update)
  have "hp ?g ! k < length (indices h) \<and> indices ?g ! (hp ?g ! k) = int k" if k: "k < length (hp h)" for k
  proof -
    have "hp h ! k < length (indices h)" "indices h ! (hp h ! k) = int k" using inv k by (auto simp: index_inv_def)
    moreover have "hp h ! k \<noteq> ?x" if "k \<noteq> i" using index_inv_inj [OF inv k i] that by blast
    moreover have "hp h ! k \<noteq> ?y" if "k \<noteq> j" using index_inv_inj [OF inv k j(1)] that by blast
    ultimately show ?thesis using nth [OF k] idx x ne by auto
  qed
  moreover have "nat (indices ?g ! k) < length (hp h) \<and> hp ?g ! nat (indices ?g ! k) = k"
    if k: "k < length (indices h)" "0 \<le> indices ?g ! k" for k
  proof -
    consider "k = ?x" | "k = ?y" "k \<noteq> ?x" | "k \<noteq> ?x" "k \<noteq> ?y" by blast
    then show ?thesis
    proof cases
      case 3
      then have "indices ?g ! k = indices h ! k" using idx [OF k(1)] by simp
      moreover have "nat (indices h ! k) < length (hp h)" "hp h ! nat (indices h ! k) = k"
        using inv k calculation by (auto simp: index_inv_def)
      ultimately show ?thesis using nth [of "nat (indices h ! k)"] 3 by auto
    qed (use idx [OF k(1)] nth i j ne in auto)
  qed
  ultimately show ?thesis unfolding index_inv_def len by blast
qed

lemma put_same: "index_inv h \<Longrightarrow> i < length (hp h) \<Longrightarrow> put i (hp h ! i) h = h"
  by (cases h) (auto simp: put_def index_inv_def intro!: list_update_same_conv [THEN iffD2])

section \<open>Order\<close>

lemma heap_parent_simps [simp]:
  "heap_parent (heap_left i) = i" "heap_parent (heap_right i) = i" "0 < heap_left i" "0 < heap_right i"
  by (simp_all add: heap_parent_def heap_left_def heap_right_def)

lemma heap_parent_less: "0 < i \<Longrightarrow> heap_parent i < i"
  by (simp add: heap_parent_def)

lemma heap_parent_child: "0 < k \<Longrightarrow> heap_parent k = i \<Longrightarrow> k = heap_left i \<or> k = heap_right i"
  by (simp add: heap_parent_def heap_left_def heap_right_def) presburger

context weak_order
begin

text \<open>From position m on the heap is ordered; with a hole at i it is ordered except there.\<close>

definition heap_ordered :: "nat \<Rightarrow> 'a list \<Rightarrow> bool" where
  "heap_ordered m xs = (\<forall>k. 0 < k \<longrightarrow> k < length xs \<longrightarrow> m \<le> heap_parent k \<longrightarrow> \<not> lt (xs ! k) (xs ! heap_parent k))"

definition bridged :: "nat \<Rightarrow> nat \<Rightarrow> 'a list \<Rightarrow> bool" where
  "bridged m i xs = (0 < i \<longrightarrow> m \<le> heap_parent i \<longrightarrow>
     (\<forall>c. 0 < c \<longrightarrow> c < length xs \<longrightarrow> heap_parent c = i \<longrightarrow> \<not> lt (xs ! c) (xs ! heap_parent i)))"

definition up_inv :: "nat \<Rightarrow> 'a list \<Rightarrow> bool" where
  "up_inv i xs = (bridged 0 i xs
     \<and> (\<forall>k. 0 < k \<longrightarrow> k < length xs \<longrightarrow> k \<noteq> i \<longrightarrow> \<not> lt (xs ! k) (xs ! heap_parent k)))"

definition down_inv :: "nat \<Rightarrow> nat \<Rightarrow> 'a list \<Rightarrow> bool" where
  "down_inv m i xs = (bridged m i xs
     \<and> (\<forall>k. 0 < k \<longrightarrow> k < length xs \<longrightarrow> heap_parent k \<noteq> i \<longrightarrow> m \<le> heap_parent k \<longrightarrow> \<not> lt (xs ! k) (xs ! heap_parent k)))"

lemma up_step:
  assumes inv: "up_inv i xs" and i: "0 < i" "i < length xs" and lt: "lt (xs ! i) (xs ! heap_parent i)"
  shows "up_inv (heap_parent i) (swap_at i (heap_parent i) xs)"
proof -
  let ?p = "heap_parent i" and ?ys = "swap_at i (heap_parent i) xs"
  have p: "?p < i" "?p < length xs" using heap_parent_less [OF i(1)] i(2) by auto
  have nth: "?ys ! k = (if k = ?p then xs ! i else if k = i then xs ! ?p else xs ! k)" if "k < length xs" for k
    using swap_at_nth [OF i(2) p(2) that] .
  have old: "\<not> lt (xs ! k) (xs ! heap_parent k)" if "0 < k" "k < length xs" "k \<noteq> i" for k using inv that by (simp add: up_inv_def)
  have ch: "\<not> lt (xs ! c) (xs ! ?p)" if "0 < c" "c < length xs" "heap_parent c = i" for c
    using inv that i(1) by (simp add: up_inv_def bridged_def)
  have "\<not> lt (?ys ! k) (?ys ! heap_parent k)" if k: "0 < k" "k < length xs" "k \<noteq> ?p" for k
  proof -
    have pk: "heap_parent k < k" "heap_parent k < length xs" using heap_parent_less [OF k(1)] k(2) by auto
    consider "k = i" | "k \<noteq> i" "heap_parent k = i" | "k \<noteq> i" "heap_parent k = ?p" | "k \<noteq> i" "heap_parent k \<noteq> i" "heap_parent k \<noteq> ?p" by blast
    then show ?thesis
    proof cases
      case 1
      then show ?thesis using nth [OF k(2)] nth [OF pk(2)] p(1) asym [OF lt] by simp
    next
      case 2
      then show ?thesis using nth [OF k(2)] nth [OF pk(2)] k(3) p(1) ch [OF k(1,2)] by simp
    next
      case 3
      then have "\<not> lt (xs ! k) (xs ! ?p)" using old [OF k(1,2)] by simp
      then show ?thesis using 3 nth [OF k(2)] nth [OF pk(2)] k(3) trans [of "xs ! k" "xs ! i" "xs ! ?p"] lt by auto
    next
      case 4
      then show ?thesis using nth [OF k(2)] nth [OF pk(2)] k(3) old [OF k(1,2)] by simp
    qed
  qed
  moreover have "\<not> lt (?ys ! c) (?ys ! heap_parent ?p)" if c: "0 < ?p" "0 < c" "c < length xs" "heap_parent c = ?p" for c
  proof -
    have pp: "heap_parent ?p < ?p" "heap_parent ?p < length xs" using heap_parent_less [OF c(1)] p by auto
    have P: "\<not> lt (xs ! ?p) (xs ! heap_parent ?p)" using old [OF c(1) p(2)] p(1) by simp
    have cp: "c \<noteq> ?p" using heap_parent_less [OF c(2)] c(4) by auto
    show ?thesis
    proof (cases "c = i")
      case True
      then show ?thesis using P nth [OF c(3)] nth [OF pp(2)] pp p(1) by simp
    next
      case False
      then have "\<not> lt (xs ! c) (xs ! ?p)" using old [OF c(2,3)] c(4) by simp
      then show ?thesis using False cp P nth [OF c(3)] nth [OF pp(2)] pp p(1) neg_trans [of "xs ! c" "xs ! heap_parent ?p" "xs ! ?p"] by auto
    qed
  qed
  ultimately show ?thesis by (simp add: up_inv_def bridged_def)
qed

lemma down_step:
  assumes inv: "down_inv m i xs" and m: "m \<le> i" and l: "heap_left i < length xs"
    and lt: "lt (xs ! c) (xs ! i)" and c: "c < length xs" "heap_parent c = i" "0 < c"
    and best: "\<And>d. 0 < d \<Longrightarrow> d < length xs \<Longrightarrow> heap_parent d = i \<Longrightarrow> \<not> lt (xs ! d) (xs ! c)"
  shows "down_inv m c (swap_at i c xs)"
proof -
  let ?ys = "swap_at i c xs"
  have ic: "i < c" "i < length xs" using heap_parent_less [OF c(3)] c by auto
  have nth: "?ys ! k = (if k = c then xs ! i else if k = i then xs ! c else xs ! k)" if "k < length xs" for k
    using swap_at_nth [OF ic(2) c(1) that] .
  have old: "\<not> lt (xs ! k) (xs ! heap_parent k)" if "0 < k" "k < length xs" "heap_parent k \<noteq> i" "m \<le> heap_parent k" for k
    using inv that by (simp add: down_inv_def)
  have "\<not> lt (?ys ! k) (?ys ! heap_parent k)" if k: "0 < k" "k < length xs" "heap_parent k \<noteq> c" "m \<le> heap_parent k" for k
  proof -
    have pk: "heap_parent k < k" "heap_parent k < length xs" using heap_parent_less [OF k(1)] k(2) by auto
    consider "k = c" | "k \<noteq> c" "heap_parent k = i" | "k = i" | "k \<noteq> i" "k \<noteq> c" "heap_parent k \<noteq> i" by blast
    then show ?thesis
    proof cases
      case 1
      then show ?thesis using nth [OF k(2)] nth [OF pk(2)] c(2) ic(1) asym [OF lt] by simp
    next
      case 2
      then have "k \<noteq> i" using pk(1) by auto
      then show ?thesis using 2 nth [OF k(2)] nth [OF pk(2)] ic(1) best [OF k(1,2)] by simp
    next
      case 3
      then have "\<not> lt (xs ! c) (xs ! heap_parent i)" using inv c k by (simp add: down_inv_def bridged_def)
      then show ?thesis using 3 nth [OF k(2)] nth [OF pk(2)] pk(1) ic(1) by simp
    next
      case 4
      then show ?thesis using nth [OF k(2)] nth [OF pk(2)] k(3) old [OF k(1,2) _ k(4)] by simp
    qed
  qed
  moreover have "\<not> lt (?ys ! g) (?ys ! heap_parent c)" if g: "0 < g" "g < length xs" "heap_parent g = c" for g
  proof -
    have "c < g" using heap_parent_less [OF g(1)] g(3) by simp
    then show ?thesis using nth [OF g(2)] nth [OF ic(2)] c(2) ic(1) old [OF g(1,2)] g(3) m by auto
  qed
  ultimately show ?thesis by (simp add: down_inv_def bridged_def)
qed

end

lemma heap_child_ok:
  assumes "heap_left i < length xs"
  shows "heap_child lt i xs < length xs" "heap_parent (heap_child lt i xs) = i" "0 < heap_child lt i xs"
  using assms by (auto simp: heap_child_def)

locale heap_order = weak_order lt for lt :: "nat \<Rightarrow> nat \<Rightarrow> bool"
begin

lemma heap_child_best:
  assumes l: "heap_left i < length xs" and d: "0 < d" "d < length xs" "heap_parent d = i"
  shows "\<not> lt (xs ! d) (xs ! heap_child lt i xs)"
proof -
  have "d = heap_left i \<or> d = heap_right i" using heap_parent_child [OF d(1,3)] .
  then show ?thesis using d(2) irrefl asym by (auto simp: heap_child_def)
qed

definition heap_ok :: "Heap \<Rightarrow> bool" where
  "heap_ok h = (index_inv h \<and> heap_ordered 0 (hp h))"

lemma up_loop_ok:
  assumes "i < length (hp h)" "up_inv i (hp (put i x h))" "index_inv (put i x h)"
  shows "heap_ok (up_loop lt x i h) \<and> mset (hp (up_loop lt x i h)) = mset (hp (put i x h))
    \<and> length (indices (up_loop lt x i h)) = length (indices h)"
  using assms
proof (induction i arbitrary: h rule: less_induct)
  case (less i)
  let ?p = "heap_parent i" and ?w = "put i x h"
  have w: "hp ?w ! i = x" using less.prems(1) by (simp add: put_def)
  show ?case
  proof (cases "i \<noteq> 0 \<and> lt x (hp h ! ?p)")
    case True
    then have p: "?p < i" "?p < length (hp h)" using heap_parent_less [of i] less.prems(1) by auto
    let ?h = "put i (hp h ! ?p) h"
    have e: "put ?p x ?h = swap_heap i ?p ?w" using put_swap [of i ?p h x] p less.prems(1) by simp
    have wp: "hp ?w ! ?p = hp h ! ?p" using p by (simp add: put_def)
    have "up_inv ?p (hp (put ?p x ?h))"
      unfolding e swap_heap_hp using up_step [OF less.prems(2)] True w wp less.prems(1) by simp
    moreover have "index_inv (put ?p x ?h)" unfolding e using swap_heap_inv [OF less.prems(3)] p less.prems(1) by simp
    moreover have "mset (hp (put ?p x ?h)) = mset (hp ?w)"
      unfolding e swap_heap_hp using swap_at_mset [of i "hp ?w" ?p] p less.prems(1) by simp
    ultimately show ?thesis using less.IH [OF p(1), of ?h] True p by (simp add: up_loop.simps [of lt x i h])
  next
    case False
    then have "\<not> lt (hp ?w ! i) (hp ?w ! ?p)" if "0 < i" using heap_parent_less [of i] that less.prems(1) w by (simp add: put_def)
    then have "heap_ordered 0 (hp ?w)" using less.prems(2) unfolding up_inv_def heap_ordered_def by (metis not_gr_zero)
    moreover have "up_loop lt x i h = ?w" using False by (auto simp: up_loop.simps [of lt x i h])
    ultimately show ?thesis using less.prems(3) by (simp add: heap_ok_def)
  qed
qed

lemma down_loop_ok:
  assumes "i < length (hp h)" "m \<le> i" "down_inv m i (hp (put i x h))" "index_inv (put i x h)"
  shows "index_inv (down_loop lt x i h) \<and> heap_ordered m (hp (down_loop lt x i h))
    \<and> mset (hp (down_loop lt x i h)) = mset (hp (put i x h)) \<and> length (indices (down_loop lt x i h)) = length (indices h)"
  using assms
proof (induction "length (hp h) - i" arbitrary: i h rule: less_induct)
  case less
  let ?c = "heap_child lt i (hp h)" and ?w = "put i x h"
  have w: "hp ?w ! i = x" using less.prems(1) by (simp add: put_def)
  have wk: "hp ?w ! k = hp h ! k" if "k \<noteq> i" for k using that by (simp add: put_def)
  have gr: "i < heap_left i" "i < heap_right i" by (simp_all add: heap_left_def heap_right_def)
  have cw: "heap_child lt i (hp ?w) = ?c" using wk gr by (simp add: heap_child_def)
  show ?case
  proof (cases "heap_left i < length (hp h)")
    case False
    have "heap_parent k \<noteq> i" if "0 < k" "k < length (hp h)" for k
      using heap_parent_child [OF that(1), of i] False that(2) by (auto simp: heap_left_def heap_right_def)
    then have "heap_ordered m (hp ?w)" using less.prems(3) by (simp add: down_inv_def heap_ordered_def)
    then show ?thesis using False less.prems(4) by (simp add: down_loop.simps [of lt x i h])
  next
    case l: True
    have lw: "heap_left i < length (hp ?w)" using l by simp
    note c = heap_child_ok [OF lw, of lt, unfolded cw]
    have ci: "?c \<noteq> i" "i < ?c" using heap_child_greater [of i lt "hp h"] by auto
    show ?thesis
    proof (cases "lt (hp h ! ?c) x")
      case True
      let ?h = "put i (hp h ! ?c) h"
      have e: "put ?c x ?h = swap_heap i ?c ?w" using put_swap [of i ?c h x] ci c(1) less.prems(1) by simp
      have "lt (hp ?w ! ?c) (hp ?w ! i)" using True w wk [OF ci(1)] by simp
      then have "down_inv m ?c (hp (put ?c x ?h))"
        unfolding e swap_heap_hp
        using down_step [OF less.prems(3,2) lw _ c] heap_child_best [OF lw, unfolded cw] by blast
      moreover have "index_inv (put ?c x ?h)" unfolding e using swap_heap_inv [OF less.prems(4)] ci c(1) less.prems(1) by simp
      moreover have "mset (hp (put ?c x ?h)) = mset (hp ?w)"
        unfolding e swap_heap_hp using swap_at_mset [of i "hp ?w" ?c] c(1) less.prems(1) by simp
      moreover have "length (hp ?h) - ?c < length (hp h) - i" using ci(2) less.prems(1) by (simp add: diff_less_mono2)
      ultimately show ?thesis using less.hyps [of ?h ?c] l True ci(2) c(1) less.prems(2) by (simp add: down_loop.simps [of lt x i h])
    next
      case False
      have "\<not> lt (hp ?w ! k) (hp ?w ! heap_parent k)" if k: "0 < k" "k < length (hp ?w)" "m \<le> heap_parent k" for k
      proof (cases "heap_parent k = i")
        case True
        then have "\<not> lt (hp ?w ! k) (hp ?w ! ?c)" using heap_child_best [OF lw k(1,2), unfolded cw] by simp
        moreover have "\<not> lt (hp ?w ! ?c) x" using False wk [OF ci(1)] by simp
        ultimately show ?thesis using True w neg_trans [of "hp ?w ! k" x "hp ?w ! ?c"] by auto
      next
        case ne: False
        then show ?thesis using less.prems(3) k by (simp add: down_inv_def)
      qed
      then have "heap_ordered m (hp ?w)" by (simp add: heap_ordered_def)
      then show ?thesis using False less.prems(4) by (simp add: down_loop.simps [of lt x i h])
    qed
  qed
qed

lemma percolateUp_ok:
  assumes "index_inv h" "i < length (hp h)" "up_inv i (hp h)"
  obtains g where "percolateUp lt i h = Some g" "heap_ok g" "mset (hp g) = mset (hp h)"
  using that [of "up_loop lt (hp h ! i) i h"] up_loop_ok [of i h "hp h ! i"] assms put_same [OF assms(1,2)]
  by (simp add: percolateUp_def)

lemma percolateDown_ok:
  assumes "index_inv h" "i < length (hp h)" "m \<le> i" "down_inv m i (hp h)"
  obtains g where "percolateDown lt i h = Some g" "index_inv g" "heap_ordered m (hp g)" "mset (hp g) = mset (hp h)"
  using that [of "down_loop lt (hp h ! i) i h"] down_loop_ok [of i h m "hp h ! i"] assms put_same [OF assms(1,2)]
  by (simp add: percolateDown_def)

lemma heap_ordered_down: "heap_ordered 0 xs \<Longrightarrow> down_inv 0 i xs"
proof -
  assume o: "heap_ordered 0 xs"
  have "\<not> lt (xs ! c) (xs ! heap_parent i)" if "0 < i" "0 < c" "c < length xs" "heap_parent c = i" for c
  proof -
    have "i < length xs" using heap_parent_less [OF that(2)] that by simp
    then have "\<not> lt (xs ! c) (xs ! i)" "\<not> lt (xs ! i) (xs ! heap_parent i)" using o that by (auto simp: heap_ordered_def)
    then show ?thesis using neg_trans [of "xs ! c" "xs ! heap_parent i" "xs ! i"] by blast
  qed
  then show "down_inv 0 i xs" using o by (simp add: down_inv_def bridged_def heap_ordered_def)
qed

lemma reserve_ok: "index_inv h \<Longrightarrow> index_inv (reserve k h)" "k < length (indices (reserve k h))" "hp (reserve k h) = hp h"
  by (auto simp: index_inv_def reserve_def nth_append)

lemma heap_insert_ok:
  assumes h: "heap_ok h" and k: "\<not> inHeap k h"
  obtains g where "heap_insert lt k h = Some g" "heap_ok g" "mset (hp g) = add_mset k (mset (hp h))"
proof -
  let ?r = "reserve k h"
  let ?g = "?r\<lparr>indices := (indices ?r)[k := int (length (hp ?r))], hp := hp ?r @ [k]\<rparr>"
  have r: "index_inv ?r" "k < length (indices ?r)" "hp ?r = hp h" using reserve_ok h by (auto simp: heap_ok_def)
  have nk: "\<not> inHeap k ?r" using k by (auto simp: inHeap_def reserve_def nth_append)
  then have neg: "indices ?r ! k < 0" using r(2) by (simp add: inHeap_def)
  have fresh: "k \<noteq> hp h ! i" if "i < length (hp h)" for i using r(1,3) neg that by (auto simp: index_inv_def)
  have "index_inv ?g"
    unfolding index_inv_def
  proof (intro conjI allI impI)
    fix i assume i: "i < length (hp ?g)"
    show "hp ?g ! i < length (indices ?g)" "indices ?g ! (hp ?g ! i) = int i"
      using i r fresh by (auto simp: nth_append less_Suc_eq index_inv_def)
  next
    fix y assume y: "y < length (indices ?g)" "0 \<le> indices ?g ! y"
    show "nat (indices ?g ! y) < length (hp ?g)" "hp ?g ! nat (indices ?g ! y) = y"
      using y r by (cases "y = k"; auto simp: nth_append index_inv_def less_Suc_eq)+
  qed
  moreover have "up_inv (length (hp h)) (hp ?g)"
  proof -
    have "\<not> lt ((hp h @ [k]) ! j) ((hp h @ [k]) ! heap_parent j)" if "0 < j" "j < length (hp h)" for j
      using h that heap_parent_less [OF that(1)] by (simp add: heap_ok_def heap_ordered_def nth_append)
    moreover have "heap_parent c \<noteq> length (hp h)" if "0 < c" "c < Suc (length (hp h))" for c
      using heap_parent_less [OF that(1)] that(2) by simp
    ultimately show ?thesis using r(3) by (auto simp: up_inv_def bridged_def less_Suc_eq)
  qed
  ultimately obtain g where "percolateUp lt (length (hp h)) ?g = Some g" "heap_ok g" "mset (hp g) = mset (hp ?g)"
    using percolateUp_ok [of ?g "length (hp h)"] r(3) by auto
  then show thesis using that [of g] nk r(3) by (simp add: heap_insert_def Let_def)
qed

lemma root_minimal:
  assumes "heap_ordered 0 xs" "i < length xs"
  shows "\<not> lt (xs ! i) (xs ! 0)"
  using assms(2)
proof (induction i rule: less_induct)
  case (less i)
  show ?case
  proof (cases "i = 0")
    case False
    then have p: "heap_parent i < i" using heap_parent_less by simp
    then have "\<not> lt (xs ! heap_parent i) (xs ! 0)" using less by simp
    moreover have "\<not> lt (xs ! i) (xs ! heap_parent i)" using assms(1) False less.prems by (simp add: heap_ordered_def)
    ultimately show ?thesis using neg_trans [of "xs ! i" "xs ! 0" "xs ! heap_parent i"] by blast
  qed (simp add: irrefl)
qed

lemma removeMin_ok:
  assumes h: "heap_ok h" and ne: "hp h \<noteq> []"
  obtains x g where "removeMin lt h = Some (x, g)" "heap_ok g" "mset (hp h) = add_mset x (mset (hp g))"
    "\<forall>y\<in>set (hp h). \<not> lt y x"
proof -
  obtain x t where xt: "hp h = x # t" using ne by (cases "hp h") auto
  let ?z = "last (hp h)" and ?h1 = "put 0 (last (hp h)) h"
  let ?h2 = "?h1\<lparr>indices := (indices ?h1)[x := - 1], hp := butlast (hp ?h1)\<rparr>"
  have inv: "index_inv h" "heap_ordered 0 (hp h)" using h by (auto simp: heap_ok_def)
  have min: "\<forall>y\<in>set (hp h). \<not> lt y x"
  proof
    fix y assume "y \<in> set (hp h)"
    then obtain i where "i < length (hp h)" "hp h ! i = y" by (auto simp: in_set_conv_nth)
    then show "\<not> lt y x" using root_minimal [OF inv(2), of i] xt by auto
  qed
  let ?n = "length t"
  have b: "hp ?h2 = butlast ((hp h)[0 := ?z])" "length (hp h) = Suc ?n" using xt by (simp_all add: put_def)
  have nth: "hp ?h2 ! i = (if i = 0 then ?z else hp h ! i)" if "i < ?n" for i
    unfolding b(1) using that b(2) nth_butlast [of i "(hp h)[0 := ?z]"] by (simp add: nth_list_update)
  have len: "length (hp ?h2) = ?n" "length (indices ?h2) = length (indices h)" "length (hp h) = Suc ?n" using xt by simp_all
  have z: "?z = hp h ! ?n" "x = hp h ! 0" using xt by (simp_all add: last_conv_nth)
  have lt_ix: "hp h ! i < length (indices h)" "indices h ! (hp h ! i) = int i" if "i < Suc ?n" for i
    using inv(1) that len by (auto simp: index_inv_def)
  have inj: "i = j" if "hp h ! i = hp h ! j" "i < Suc ?n" "j < Suc ?n" for i j using index_inv_inj [OF inv(1)] that len by simp
  have idx: "indices ?h2 ! y = (if y = x then - 1 else if y = ?z then 0 else indices h ! y)" if "y < length (indices h)" for y
    using that by (simp add: put_def nth_list_update)
  have "index_inv ?h2"
    unfolding index_inv_def len
  proof (intro conjI allI impI)
    fix i assume i: "i < ?n"
    have "hp h ! i \<noteq> ?z" using inj [of i ?n] i z by auto
    moreover have "hp h ! i = x \<longrightarrow> i = 0" "?z \<noteq> x" using inj [of i 0] inj [of ?n 0] i z by auto
    ultimately show "hp ?h2 ! i < length (indices h)" "indices ?h2 ! (hp ?h2 ! i) = int i"
      using nth [OF i] lt_ix [of i] lt_ix [of ?n] i z idx by auto
  next
    fix y assume y: "y < length (indices h)" "0 \<le> indices ?h2 ! y"
    then have yx: "y \<noteq> x" using idx by auto
    show "nat (indices ?h2 ! y) < ?n" "hp ?h2 ! nat (indices ?h2 ! y) = y"
    proof -
      have "nat (indices ?h2 ! y) < ?n \<and> hp ?h2 ! nat (indices ?h2 ! y) = y"
      proof (cases "y = ?z")
        case True
        then have "0 < ?n" using yx z by (cases ?n) auto
        then show ?thesis using True yx idx [OF y(1)] nth [of 0] by simp
      next
        case False
        then have e: "indices ?h2 ! y = indices h ! y" using idx [OF y(1)] yx by simp
        then have j: "nat (indices h ! y) < Suc ?n" "hp h ! nat (indices h ! y) = y"
          using inv(1) y len by (auto simp: index_inv_def)
        then have "nat (indices h ! y) \<noteq> ?n" "nat (indices h ! y) \<noteq> 0" using False yx z by metis+
        then show ?thesis using e j nth [of "nat (indices h ! y)"] by simp
      qed
      then show "nat (indices ?h2 ! y) < ?n" "hp ?h2 ! nat (indices ?h2 ! y) = y" by simp_all
    qed
  qed
  moreover have "down_inv 0 0 (hp ?h2)"
  proof -
    have "\<not> lt (hp ?h2 ! k) (hp ?h2 ! heap_parent k)" if "0 < k" "k < ?n" "heap_parent k \<noteq> 0" for k
      using nth [of k] nth [of "heap_parent k"] heap_parent_less [OF that(1)] that inv(2) len(3) by (simp add: heap_ordered_def)
    then show ?thesis using len(1) by (simp add: down_inv_def bridged_def)
  qed
  moreover have ms: "mset (hp h) = add_mset x (mset (hp ?h2))"
    using xt by (cases t rule: rev_cases) (simp_all add: put_def butlast_append)
  ultimately obtain g where g: "(if 1 < length (hp ?h2) then percolateDown lt 0 ?h2 else Some ?h2) = Some g" "heap_ok g"
      "mset (hp g) = mset (hp ?h2)"
  proof (cases "1 < length (hp ?h2)")
    case True
    have l0: "0 < length (hp ?h2)" using True by simp
    obtain g where "percolateDown lt 0 ?h2 = Some g" "index_inv g" "heap_ordered 0 (hp g)" "mset (hp g) = mset (hp ?h2)"
      using percolateDown_ok [OF \<open>index_inv ?h2\<close> l0 _ \<open>down_inv 0 0 (hp ?h2)\<close>] by blast
    then show thesis using that [of g] True by (simp add: heap_ok_def)
  next
    case False
    then have "heap_ordered 0 (hp ?h2)" by (simp add: heap_ordered_def)
    then show thesis using that [of ?h2] False \<open>index_inv ?h2\<close> by (simp add: heap_ok_def)
  qed
  have "removeMin lt h = Some (x, g)"
    using g(1) unfolding removeMin_def Let_def xt list.case by (simp add: xt [symmetric] split: if_splits)
  then show thesis using that g(2,3) ms min by simp
qed

lemma Heap_new_ok: "heap_ok Heap_new"
  by (simp add: heap_ok_def index_inv_def heap_ordered_def Heap_new_def)

lemma heap_inHeap: "heap_ok h \<Longrightarrow> inHeap k h = (k \<in> set (hp h))"
  by (auto simp: heap_ok_def index_inv_def inHeap_def in_set_conv_nth)

lemma heap_fill_ok:
  assumes "heap_ok h" "distinct ns" "set ns \<inter> set (hp h) = {}"
  shows "\<exists>g. heap_fill lt ns h = Some g \<and> heap_ok g \<and> mset (hp g) = mset ns + mset (hp h)"
  using assms
proof (induction ns arbitrary: h)
  case (Cons k ns)
  then have "\<not> inHeap k h" using heap_inHeap [OF Cons.prems(1)] by auto
  then obtain h1 where h1: "heap_insert lt k h = Some h1" "heap_ok h1" "mset (hp h1) = add_mset k (mset (hp h))"
    using heap_insert_ok [OF Cons.prems(1)] by blast
  have "set (hp h1) = insert k (set (hp h))" using mset_eq_setD [of "hp h1" "k # hp h"] h1(3) by simp
  then show ?case using Cons.IH [OF h1(2)] Cons.prems h1(1,3) by auto
qed simp

lemma heap_drain_ok:
  assumes "heap_ok h" "n = length (hp h)"
  shows "\<exists>xs. heap_drain lt n h = Some xs \<and> mset xs = mset (hp h) \<and> ordered xs"
  using assms
proof (induction n arbitrary: h)
  case 0
  then show ?case by (simp add: ordered_def)
next
  case (Suc n)
  then have "hp h \<noteq> []" by auto
  then obtain x g where g: "removeMin lt h = Some (x, g)" "heap_ok g" "mset (hp h) = add_mset x (mset (hp g))"
      "\<forall>y\<in>set (hp h). \<not> lt y x"
    using removeMin_ok [OF Suc.prems(1)] by blast
  have "n = length (hp g)" using Suc.prems(2) arg_cong [OF g(3), of size] by simp
  then obtain xs where xs: "heap_drain lt n g = Some xs" "mset xs = mset (hp g)" "ordered xs" using Suc.IH [OF g(2)] by blast
  have "set xs \<subseteq> set (hp h)" using mset_eq_setD [OF xs(2)] mset_eq_setD [of "hp h" "x # hp g"] g(3) by auto
  then show ?case using xs g by (auto simp: ordered_def)
qed

end

section \<open>The order of variable elimination\<close>

text \<open>\<^verbatim>\<open>SimpSolver::ElimLt\<close>: the product of the occurrences of both literals of a variable, in 64 bits.\<close>

definition elim_cost :: "(nat \<Rightarrow> int) \<Rightarrow> nat \<Rightarrow> 64 word" where
  "elim_cost n_occ x = of_int (n_occ (x + x)) * of_int (n_occ (x + x + 1))"

definition ElimLt :: "(nat \<Rightarrow> int) \<Rightarrow> nat \<Rightarrow> nat \<Rightarrow> bool" where
  "ElimLt n_occ x y = (elim_cost n_occ x < elim_cost n_occ y)"

interpretation elim: heap_order "ElimLt n_occ" for n_occ
  by unfold_locales (auto simp: ElimLt_def)

text \<open>
  C24. The elimination heap hands out the variables by cost: after inserting any distinct variables
  into an empty heap, \<^verbatim>\<open>removeMin\<close> returns each of them once, never one whose cost is above
  that of a later one. No operation fails on the way.
\<close>

theorem heap_orders_elimination:
  assumes "distinct ns"
  shows "\<exists>h xs. heap_fill (ElimLt n_occ) ns Heap_new = Some h \<and> heap_drain (ElimLt n_occ) (length ns) h = Some xs
    \<and> mset xs = mset ns \<and> sorted (map (elim_cost n_occ) xs)"
proof -
  obtain h where h: "heap_fill (ElimLt n_occ) ns Heap_new = Some h" "elim.heap_ok n_occ h" "mset (hp h) = mset ns"
    using elim.heap_fill_ok [OF elim.Heap_new_ok assms, of n_occ] by (auto simp: Heap_new_def)
  obtain xs where xs: "heap_drain (ElimLt n_occ) (length ns) h = Some xs" "mset xs = mset (hp h)" "elim.ordered n_occ xs"
    using elim.heap_drain_ok [OF h(2), of "length ns"] mset_eq_length [OF h(3)] by auto
  have "sorted (map (elim_cost n_occ) xs)"
    using xs(3) by (simp add: elim.ordered_def ElimLt_def sorted_map not_less)
  then show ?thesis using h xs by auto
qed

theorem heap_orders_elimination_witness:
  "\<exists>h xs. heap_fill (ElimLt (\<lambda>l. int (20 - l))) [3, 1, 4, 2] Heap_new = Some h
    \<and> heap_drain (ElimLt (\<lambda>l. int (20 - l))) 4 h = Some xs \<and> mset xs = mset [3, 1, 4, 2]"
proof -
  have "distinct [3, 1, 4, 2::nat]" "length [3, 1, 4, 2::nat] = 4" by simp_all
  then show ?thesis using heap_orders_elimination [of "[3, 1, 4, 2]" "\<lambda>l. int (20 - l)"] by metis
qed

text \<open>
  \<^verbatim>\<open>Heap::remove\<close> does not keep the order of the heap: it moves the last element to the free place
  and lets it sink, but never rise, although it may be smaller than the parent of that place.
  Here key 11 is removed and 2 ends up below 10.
\<close>

lemma heap_remove_breaks_order:
  "map_option hp (heap_fill (<) [0, 10, 1, 11, 12, 2] Heap_new) = Some [0, 10, 1, 11, 12, 2]
   \<and> map_option hp (Option.bind (heap_fill (<) [0, 10, 1, 11, 12, 2] Heap_new) (heap_remove (<) 11)) = Some [0, 10, 1, 2, 12]"
  by code_simp

end
