(* ===== verification/MiniClause.thy ===== *)
theory MiniClause
  imports Basic
begin

text \<open>
  \<^verbatim>\<open>src/minisat/minisat/core/SolverTypes.h\<close>, literals and clauses of MiniSat, with the functions of
  \<^verbatim>\<open>src/minisat/minisat/mtl/Alg.h\<close> they use. A literal is its one field \<^verbatim>\<open>int x\<close>, a 32-bit word; the union
  \<^verbatim>\<open>data\<close> of a clause holds 32-bit words, read as a literal, an activity, an abstraction or a
  reference. A failed \<^verbatim>\<open>assert\<close> is \<open>None\<close>. The lemmas show that the subsumption test with its
  bit signature decides subsumption and self-subsuming resolution, and that strengthening
  keeps a clause well formed.
\<close>

section \<open>Literals\<close>

type_synonym Lit = "32 word"

definition Lit_mk :: "32 word \<Rightarrow> bool \<Rightarrow> Lit" where
  "Lit_mk v s = v + v + of_bool s"

definition Lit_less :: "Lit \<Rightarrow> Lit \<Rightarrow> bool" where
  "Lit_less p q = (sint p < sint q)"

definition Lit_neg :: "Lit \<Rightarrow> Lit" where
  "Lit_neg p = p XOR 1"

definition Lit_flip :: "Lit \<Rightarrow> bool \<Rightarrow> Lit" where
  "Lit_flip p b = p XOR of_bool b"

definition Lit_sign :: "Lit \<Rightarrow> bool" where
  "Lit_sign p = (p AND 1 \<noteq> 0)"

definition Lit_var :: "Lit \<Rightarrow> 32 word" where
  "Lit_var p = signed_drop_bit 1 p"

definition lit_Undef :: Lit where "lit_Undef = - 2"
definition lit_Error :: Lit where "lit_Error = - 1"

section \<open>Lifted booleans\<close>

type_synonym mlbool = "8 word"

definition ml_True :: mlbool where "ml_True = 0"
definition ml_False :: mlbool where "ml_False = 1"
definition ml_Undef :: mlbool where "ml_Undef = 2"

definition mlbool_of_bool :: "bool \<Rightarrow> mlbool" where
  "mlbool_of_bool x = of_bool (\<not> x)"

definition mlbool_eq :: "mlbool \<Rightarrow> mlbool \<Rightarrow> bool" where
  "mlbool_eq a b = (((b AND 2) AND (a AND 2)) OR (of_bool (b AND 2 = 0) AND of_bool (a = b)) \<noteq> 0)"

definition mlbool_xor :: "mlbool \<Rightarrow> bool \<Rightarrow> mlbool" where
  "mlbool_xor a b = a XOR of_bool b"

definition mlbool_sel :: "mlbool \<Rightarrow> mlbool \<Rightarrow> nat" where
  "mlbool_sel a b = unat (push_bit 1 a OR push_bit 3 b)"

definition mlbool_and :: "mlbool \<Rightarrow> mlbool \<Rightarrow> mlbool" where
  "mlbool_and a b = ucast (drop_bit (mlbool_sel a b) (0xF7F755F4 :: 32 word) AND 3)"

definition mlbool_or :: "mlbool \<Rightarrow> mlbool \<Rightarrow> mlbool" where
  "mlbool_or a b = ucast (drop_bit (mlbool_sel a b) (0xFCFCF400 :: 32 word) AND 3)"

section \<open>Removing and searching\<close>

fun find_pos :: "'a list \<Rightarrow> 'a \<Rightarrow> nat" where
  "find_pos [] t = 0"
| "find_pos (x # xs) t = (if x \<noteq> t then Suc (find_pos xs t) else 0)"

definition alg_find :: "'a list \<Rightarrow> 'a \<Rightarrow> bool" where
  "alg_find ts t = (find_pos ts t < length ts)"

text \<open>The second loop of \<^verbatim>\<open>remove\<close>, on the first \<open>n\<close> cells of the data.\<close>

function shift_down :: "nat \<Rightarrow> nat \<Rightarrow> 'a list \<Rightarrow> 'a list" where
  "shift_down j n xs = (if Suc j < n then shift_down (Suc j) n (xs[j := xs ! Suc j]) else xs)"
  by pat_completeness auto
termination by (relation "measure (\<lambda>(j, n, xs). n - j)") auto

declare shift_down.simps [simp del]

section \<open>Clauses\<close>

record Clause =
  c_mark :: "2 word"
  c_learnt :: bool
  c_has_extra :: bool
  c_reloced :: bool
  c_size :: "27 word"
  c_data :: "32 word list"

text \<open>\<^verbatim>\<open>size()\<close> and the literals a clause shows to its clients.\<close>

definition Clause_size :: "Clause \<Rightarrow> nat" where
  "Clause_size c = unat (c_size c)"

definition Clause_lits :: "Clause \<Rightarrow> Lit list" where
  "Clause_lits c = take (Clause_size c) (c_data c)"

fun abstraction_loop :: "32 word \<Rightarrow> Lit list \<Rightarrow> 32 word" where
  "abstraction_loop a [] = a"
| "abstraction_loop a (l # ls) = abstraction_loop (a OR push_bit (unat (Lit_var l AND 31)) 1) ls"

definition calcAbstraction :: "Clause \<Rightarrow> Clause option" where
  "calcAbstraction c = (if c_has_extra c
     then Some (c\<lparr>c_data := (c_data c)[Clause_size c := abstraction_loop 0 (Clause_lits c)]\<rparr>) else None)"

text \<open>
  The constructors run on the words \<open>mem\<close> that the allocator hands out behind the header: one for each literal
  and one for the extra field. Writing past that block, or copying an extra field the original does not
  have, which reads past its data, is \<open>None\<close>.
\<close>

definition Clause_new :: "32 word list \<Rightarrow> Lit list \<Rightarrow> bool \<Rightarrow> bool \<Rightarrow> Clause option" where
  "Clause_new mem ps use_extra learnt =
     (let c = \<lparr>c_mark = 0, c_learnt = learnt, c_has_extra = use_extra, c_reloced = False,
               c_size = of_nat (length ps), c_data = ps @ drop (length ps) mem\<rparr> in
      if length mem < length ps + of_bool use_extra then None
      else if c_has_extra c
      then if c_learnt c then Some (c\<lparr>c_data := (c_data c)[Clause_size c := 0]\<rparr>) else calcAbstraction c
      else Some c)"

definition Clause_copy :: "32 word list \<Rightarrow> Clause \<Rightarrow> bool \<Rightarrow> Clause option" where
  "Clause_copy mem from use_extra =
     (let c = from\<lparr>c_has_extra := use_extra, c_data := Clause_lits from @ drop (Clause_size from) mem\<rparr> in
      if length mem < Clause_size from + of_bool use_extra then None
      else if c_has_extra c
      then if Clause_size c < length (c_data from)
           then Some (c\<lparr>c_data := (c_data c)[Clause_size c := c_data from ! Clause_size c]\<rparr>) else None
      else Some c)"

definition Clause_shrink :: "nat \<Rightarrow> Clause \<Rightarrow> Clause option" where
  "Clause_shrink i c = (if i \<le> Clause_size c
     then Some (c\<lparr>c_data := (if c_has_extra c then (c_data c)[Clause_size c - i := c_data c ! Clause_size c] else c_data c),
                  c_size := c_size c - of_nat i\<rparr>)
     else None)"

definition Clause_pop :: "Clause \<Rightarrow> Clause option" where
  "Clause_pop c = Clause_shrink 1 c"

definition Clause_last :: "Clause \<Rightarrow> Lit" where
  "Clause_last c = c_data c ! (Clause_size c - 1)"

definition Clause_relocation :: "Clause \<Rightarrow> 32 word" where
  "Clause_relocation c = c_data c ! 0"

definition Clause_relocate :: "32 word \<Rightarrow> Clause \<Rightarrow> Clause" where
  "Clause_relocate r c = c\<lparr>c_reloced := True, c_data := (c_data c)[0 := r]\<rparr>"

definition Clause_abstraction :: "Clause \<Rightarrow> 32 word option" where
  "Clause_abstraction c = (if c_has_extra c then Some (c_data c ! Clause_size c) else None)"

text \<open>\<^verbatim>\<open>remove\<close> of \<^verbatim>\<open>Alg.h\<close> on a clause, and \<^verbatim>\<open>strengthen\<close>.\<close>

definition Clause_remove :: "Lit \<Rightarrow> Clause \<Rightarrow> Clause option" where
  "Clause_remove t c = (let j = find_pos (Clause_lits c) t in
     if j < Clause_size c then Clause_pop (c\<lparr>c_data := shift_down j (Clause_size c) (c_data c)\<rparr>) else None)"

definition Clause_strengthen :: "Lit \<Rightarrow> Clause \<Rightarrow> Clause option" where
  "Clause_strengthen p c = Option.bind (Clause_remove p c) calcAbstraction"

fun subsumes_find :: "Lit \<Rightarrow> Lit \<Rightarrow> Lit list \<Rightarrow> Lit option" where
  "subsumes_find ci ret [] = None"
| "subsumes_find ci ret (d # ds) =
     (if ci = d then Some ret
      else if ret = lit_Undef \<and> ci = Lit_neg d then Some ci
      else subsumes_find ci ret ds)"

fun subsumes_loop :: "Lit \<Rightarrow> Lit list \<Rightarrow> Lit list \<Rightarrow> Lit" where
  "subsumes_loop ret [] ds = ret"
| "subsumes_loop ret (ci # cs) ds =
     (case subsumes_find ci ret ds of None \<Rightarrow> lit_Error | Some r \<Rightarrow> subsumes_loop r cs ds)"

definition Clause_subsumes :: "Clause \<Rightarrow> Clause \<Rightarrow> Lit option" where
  "Clause_subsumes c d =
     (if c_learnt c \<or> c_learnt d \<or> \<not> c_has_extra c \<or> \<not> c_has_extra d then None
      else if c_size d < c_size c \<or> c_data c ! Clause_size c AND NOT (c_data d ! Clause_size d) \<noteq> 0 then Some lit_Error
      else Some (subsumes_loop lit_Undef (Clause_lits c) (Clause_lits d)))"

section \<open>Bits of literals\<close>

lemma Lit_neg_neg [simp]: "Lit_neg (Lit_neg p) = p"
  by (simp add: Lit_neg_def xor.assoc)

lemma Lit_neg_neq [simp]: "Lit_neg p \<noteq> p"
proof
  assume "Lit_neg p = p"
  then have "bit (p XOR 1) 0 = bit p 0" by (simp add: Lit_neg_def)
  then show False by (simp add: bit_xor_iff)
qed

lemma Lit_neg_flip: "p = Lit_neg q \<longleftrightarrow> q = Lit_neg p"
  by auto

lemma Lit_neg_var [simp]: "Lit_var (Lit_neg p) = Lit_var p"
  by (rule bit_word_eqI) (auto simp: Lit_var_def Lit_neg_def bit_simps min_def)

lemma Lit_neg_sign [simp]: "Lit_sign (Lit_neg p) = (\<not> Lit_sign p)"
  by (simp add: Lit_sign_def Lit_neg_def and_one_eq odd_iff_mod_2_eq_one [symmetric] even_xor_iff mod2_eq_if)


section \<open>The tables of the lifted booleans\<close>

definition mlbool_of :: "bool option \<Rightarrow> mlbool" where
  "mlbool_of x = (case x of None \<Rightarrow> ml_Undef | Some b \<Rightarrow> mlbool_of_bool b)"

lemmas mlbool_defs = mlbool_of_def kleene_and_def kleene_or_def ml_Undef_def ml_True_def ml_False_def
  mlbool_of_bool_def mlbool_eq_def mlbool_and_def mlbool_or_def mlbool_sel_def mlbool_xor_def

lemma mlbool_tables_kleene:
  "mlbool_eq (mlbool_and (mlbool_of x) (mlbool_of y)) (mlbool_of (kleene_and x y))
   \<and> mlbool_eq (mlbool_or (mlbool_of x) (mlbool_of y)) (mlbool_of (kleene_or x y))
   \<and> mlbool_eq (mlbool_xor (mlbool_of x) b) (mlbool_of (map_option (\<lambda>v. v \<noteq> b) x))"
  using lbool_of_cases [of x] lbool_of_cases [of y]
  by (cases b; elim insertE emptyE) (simp_all add: mlbool_defs)

section \<open>The signature of a clause\<close>

lemma abstraction_bit:
  "bit (abstraction_loop a ls) n \<longleftrightarrow> bit a n \<or> n < 32 \<and> (\<exists>l\<in>set ls. unat (Lit_var l AND 31) = n)"
  by (induction a ls rule: abstraction_loop.induct) (auto simp: bit_simps)

lemma signature_subset:
  assumes "Lit_var ` set cs \<subseteq> Lit_var ` set ds"
  shows "abstraction_loop 0 cs AND NOT (abstraction_loop 0 ds) = 0"
proof (rule bit_word_eqI)
  fix n assume n: "n < LENGTH(32)"
  have "bit (abstraction_loop 0 ds) n" if "l \<in> set cs" "unat (Lit_var l AND 31) = n" for l
  proof -
    have "Lit_var l \<in> Lit_var ` set ds" using assms that(1) by blast
    then obtain d where "d \<in> set ds" "Lit_var d = Lit_var l" by (metis imageE)
    then have "\<exists>d\<in>set ds. unat (Lit_var d AND 31) = n" using that(2) by (intro bexI [of _ d]) simp_all
    then show ?thesis using n unfolding abstraction_bit by simp
  qed
  then show "bit (abstraction_loop 0 cs AND NOT (abstraction_loop 0 ds)) n = bit (0 :: 32 word) n"
    using n by (auto simp: bit_and_iff bit_not_iff abstraction_bit [of 0 cs])
qed

section \<open>Subsumption\<close>

definition tautology_free :: "Lit list \<Rightarrow> bool" where
  "tautology_free ls = list_all (\<lambda>l. Lit_neg l \<notin> set ls) ls"

definition ordinary :: "Lit list \<Rightarrow> bool" where
  "ordinary ls = (lit_Undef \<notin> set ls \<and> lit_Error \<notin> set ls)"

text \<open>
  The relations on the sets of literals: the clause can be resolved with the other on a variable so that
  the result is contained in the other; and what \<^verbatim>\<open>subsumes\<close> returns, the literal of its own clause.
\<close>

definition resolves_on :: "32 word \<Rightarrow> Lit list \<Rightarrow> Lit list \<Rightarrow> bool" where
  "resolves_on v cs ds = (\<exists>p\<in>set cs. Lit_var p = v \<and> Lit_neg p \<in> set ds \<and> set cs - {p} \<subseteq> set ds)"

definition subsumes_spec :: "Lit list \<Rightarrow> Lit list \<Rightarrow> Lit" where
  "subsumes_spec cs ds =
     (if set cs \<subseteq> set ds then lit_Undef
      else case filter (\<lambda>p. Lit_neg p \<in> set ds \<and> set cs - {p} \<subseteq> set ds) cs of [] \<Rightarrow> lit_Error | p # ps \<Rightarrow> p)"

lemma tautology_freeD: "tautology_free ls \<Longrightarrow> l \<in> set ls \<Longrightarrow> Lit_neg l \<notin> set ls"
  by (simp add: tautology_free_def list_all_iff)

lemma subsumes_find_ret: "ret \<noteq> lit_Undef \<Longrightarrow> subsumes_find ci ret ds = (if ci \<in> set ds then Some ret else None)"
  by (induction ci ret ds rule: subsumes_find.induct) auto

lemma subsumes_find_sound:
  "subsumes_find ci lit_Undef ds = Some r \<Longrightarrow> r = lit_Undef \<and> ci \<in> set ds \<or> r = ci \<and> Lit_neg ci \<in> set ds"
  by (induction ci lit_Undef ds rule: subsumes_find.induct) (auto split: if_splits)

lemma subsumes_find_none: "subsumes_find ci lit_Undef ds = None \<longleftrightarrow> ci \<notin> set ds \<and> Lit_neg ci \<notin> set ds"
  by (induction ci lit_Undef ds rule: subsumes_find.induct) (auto split: if_splits)

lemma subsumes_loop_ret:
  "ret \<noteq> lit_Undef \<Longrightarrow> subsumes_loop ret cs ds = (if set cs \<subseteq> set ds then ret else lit_Error)"
  by (induction ret cs ds rule: subsumes_loop.induct) (auto simp: subsumes_find_ret)

lemma subsumes_loop_sound:
  assumes "subsumes_loop lit_Undef cs ds = r" "r \<noteq> lit_Error" "ordinary cs"
  shows "r = lit_Undef \<and> set cs \<subseteq> set ds \<or> r \<in> set cs \<and> Lit_neg r \<in> set ds \<and> set cs - {r} \<subseteq> set ds"
  using assms
proof (induction cs)
  case (Cons ci cs)
  then obtain q where q: "subsumes_find ci lit_Undef ds = Some q" by (auto split: option.splits)
  have ci: "ci \<noteq> lit_Undef" "ordinary cs" using Cons.prems(3) by (auto simp: ordinary_def)
  show ?case
  proof (cases "q = lit_Undef")
    case True
    then show ?thesis using Cons q ci subsumes_find_sound [OF q] by auto
  next
    case False
    then show ?thesis using Cons.prems q subsumes_find_sound [OF q]
      by (auto simp: subsumes_loop_ret split: if_splits)
  qed
qed simp

lemma subsumes_find_free:
  assumes "tautology_free ds"
  shows "subsumes_find ci lit_Undef ds =
    (if ci \<in> set ds then Some lit_Undef else if Lit_neg ci \<in> set ds then Some ci else None)"
  using assms subsumes_find_none [of ci ds] subsumes_find_sound [of ci ds] tautology_freeD [OF assms, of ci]
  by (cases "subsumes_find ci lit_Undef ds") fastforce+

lemma subsumes_loop_subset: "tautology_free ds \<Longrightarrow> set cs \<subseteq> set ds \<Longrightarrow> subsumes_loop lit_Undef cs ds = lit_Undef"
  by (induction cs) (simp_all add: subsumes_find_free)

lemma subsumes_loop_resolve:
  assumes "tautology_free ds" "distinct cs" "p \<in> set cs" "Lit_neg p \<in> set ds" "set cs - {p} \<subseteq> set ds" "p \<noteq> lit_Undef"
  shows "subsumes_loop lit_Undef cs ds = p"
  using assms(2-)
proof (induction cs)
  case (Cons ci cs)
  have p: "p \<notin> set ds" using tautology_freeD [OF assms(1) Cons.prems(3)] by simp
  show ?case
  proof (cases "ci = p")
    case True
    then have "set cs \<subseteq> set ds" using Cons.prems by auto
    then show ?thesis using True p Cons.prems by (simp add: subsumes_find_free [OF assms(1)] subsumes_loop_ret)
  next
    case False
    then show ?thesis using Cons by (auto simp: subsumes_find_free [OF assms(1)])
  qed
qed simp

lemma subsumes_loop_spec:
  assumes "tautology_free ds" "distinct cs" "ordinary cs"
  shows "subsumes_loop lit_Undef cs ds = subsumes_spec cs ds"
proof (cases "set cs \<subseteq> set ds")
  case True
  then show ?thesis using subsumes_loop_subset [OF assms(1)] by (simp add: subsumes_spec_def)
next
  case ns: False
  let ?P = "\<lambda>p. Lit_neg p \<in> set ds \<and> set cs - {p} \<subseteq> set ds"
  show ?thesis
  proof (cases "filter ?P cs")
    case Nil
    then have "subsumes_loop lit_Undef cs ds = lit_Error"
      using subsumes_loop_sound [OF refl _ assms(3), of ds] ns by (auto simp: filter_empty_conv)
    then show ?thesis using ns Nil by (simp add: subsumes_spec_def)
  next
    case (Cons p ps)
    then have "p \<in> set cs" "?P p" using Cons_eq_filterD [OF Cons [symmetric]] by auto
    then have "subsumes_loop lit_Undef cs ds = p"
      using subsumes_loop_resolve assms by (auto simp: ordinary_def)
    then show ?thesis using ns Cons by (simp add: subsumes_spec_def)
  qed
qed

text \<open>The two tests before the loop refute no pair the specification accepts.\<close>

lemma subsumes_spec_size:
  assumes "subsumes_spec cs ds \<noteq> lit_Error" "distinct cs" "tautology_free cs"
  shows "length cs \<le> length ds \<and> Lit_var ` set cs \<subseteq> Lit_var ` set ds"
proof (cases "set cs \<subseteq> set ds")
  case True
  then have "card (set cs) \<le> card (set ds)" by (simp add: card_mono)
  then show ?thesis using True distinct_card [OF assms(2)] card_length [of ds] by auto
next
  case False
  then obtain p ps where "filter (\<lambda>p. Lit_neg p \<in> set ds \<and> set cs - {p} \<subseteq> set ds) cs = p # ps"
    using assms(1) by (auto simp: subsumes_spec_def split: list.splits)
  then have "p \<in> set (filter (\<lambda>p. Lit_neg p \<in> set ds \<and> set cs - {p} \<subseteq> set ds) cs)" by simp
  then have p: "p \<in> set cs" "Lit_neg p \<in> set ds" "set cs - {p} \<subseteq> set ds" by simp_all
  have "set cs - {p} \<subseteq> set ds - {Lit_neg p}" using p(3) tautology_freeD [OF assms(3) p(1)] by auto
  then have "card (set cs - {p}) \<le> card (set ds - {Lit_neg p})" by (simp add: card_mono)
  moreover have "0 < card (set ds)" using p(2) by (auto simp: card_gt_0_iff)
  moreover have "0 < card (set cs)" using p(1) by (auto simp: card_gt_0_iff)
  ultimately have "card (set cs) \<le> card (set ds)" using p(1,2) by (simp add: card_Diff_singleton)
  moreover have "Lit_var l \<in> Lit_var ` set ds" if "l \<in> set cs" for l
  proof (cases "l = p")
    case True
    then show ?thesis using p(2) by (metis Lit_neg_var image_eqI)
  qed (use p(3) that in auto)
  ultimately show ?thesis using distinct_card [OF assms(2)] card_length [of ds] by auto
qed


section \<open>Well-formed clauses\<close>

definition clause_ok :: "Clause \<Rightarrow> bool" where
  "clause_ok c = (Clause_size c + of_bool (c_has_extra c) \<le> length (c_data c)
     \<and> (c_has_extra c \<and> \<not> c_learnt c \<longrightarrow> c_data c ! Clause_size c = abstraction_loop 0 (Clause_lits c)))"

lemma Clause_lits_length [simp]: "clause_ok c \<Longrightarrow> length (Clause_lits c) = Clause_size c"
  by (simp add: Clause_lits_def clause_ok_def)

lemma Clause_new_ok:
  assumes "length ps < 2 ^ 27" "length mem = length ps + of_bool use_extra"
  shows "\<exists>c. Clause_new mem ps use_extra learnt = Some c \<and> clause_ok c \<and> Clause_lits c = ps
    \<and> c_has_extra c = use_extra \<and> c_learnt c = learnt \<and> \<not> c_reloced c \<and> c_mark c = 0 \<and> length (c_data c) = length mem"
proof -
  have sz: "unat (of_nat (length ps) :: 27 word) = length ps" using assms(1) by (simp add: unat_of_nat)
  show ?thesis
    using assms(2) by (cases use_extra; cases learnt)
      (simp_all add: Clause_new_def calcAbstraction_def clause_ok_def Clause_lits_def Clause_size_def sz Let_def)
qed

lemma shift_down_eq:
  "j < n \<Longrightarrow> n \<le> length xs \<Longrightarrow> shift_down j n xs = take j xs @ drop (Suc j) (take n xs) @ drop (n - 1) xs"
proof (induction j n xs rule: shift_down.induct)
  case (1 j n xs)
  show ?case
  proof (cases "Suc j < n")
    case True
    let ?ys = "xs[j := xs ! Suc j]"
    have "shift_down j n xs = take (Suc j) ?ys @ drop (Suc (Suc j)) (take n ?ys) @ drop (n - 1) ?ys"
      using 1 True by (subst shift_down.simps) simp
    also have "take (Suc j) ?ys = take j xs @ [xs ! Suc j]" using 1(2,3) by (simp add: take_Suc_conv_app_nth)
    also have "drop (Suc (Suc j)) (take n ?ys) = drop (Suc (Suc j)) (take n xs)" by (simp add: drop_take)
    also have "drop (n - 1) ?ys = drop (n - 1) xs" using True by simp
    also have "(take j xs @ [xs ! Suc j]) @ drop (Suc (Suc j)) (take n xs) @ drop (n - 1) xs
      = take j xs @ drop (Suc j) (take n xs) @ drop (n - 1) xs"
      using True 1(3) Cons_nth_drop_Suc [of "Suc j" "take n xs"] by simp
    finally show ?thesis .
  next
    case False
    then have n: "n = Suc j" using 1(2) by simp
    then show ?thesis by (subst shift_down.simps) simp
  qed
qed

lemma find_pos_length: "find_pos xs t < length xs \<longleftrightarrow> t \<in> set xs"
  by (induction xs) auto

lemma find_pos_remove1: "take (find_pos xs t) xs @ drop (Suc (find_pos xs t)) xs = remove1 t xs"
  by (induction xs) auto

text \<open>Strengthening removes the first occurrence of the literal and recomputes the signature.\<close>

lemma Clause_strengthen_ok:
  assumes ok: "clause_ok c" and e: "c_has_extra c" and p: "p \<in> set (Clause_lits c)"
  shows "\<exists>c'. Clause_strengthen p c = Some c' \<and> clause_ok c' \<and> Clause_lits c' = remove1 p (Clause_lits c)
    \<and> c_has_extra c' \<and> c_learnt c' = c_learnt c"
proof -
  let ?n = "Clause_size c" and ?j = "find_pos (Clause_lits c) p"
  have len: "?n < length (c_data c)" using ok e by (simp add: clause_ok_def)
  have j: "?j < ?n" using p find_pos_length [of "Clause_lits c" p] ok by simp
  define xs where "xs = shift_down ?j ?n (c_data c)"
  have xs: "xs = remove1 p (Clause_lits c) @ drop (?n - 1) (c_data c)"
    using find_pos_remove1 [of "Clause_lits c" p] j len
    by (simp add: xs_def shift_down_eq Clause_lits_def)
  have rl: "length (remove1 p (Clause_lits c)) = ?n - 1" using p ok by (simp add: length_remove1)
  have lx: "?n < length xs" using xs rl len j by simp
  have one: "unat (c_size c - 1) = ?n - 1"
    using j by (subst unat_sub) (auto simp: Clause_size_def word_le_nat_alt)
  define c1 where "c1 = c\<lparr>c_data := xs[?n - 1 := xs ! ?n], c_size := c_size c - 1\<rparr>"
  have r: "Clause_remove p c = Some c1"
    using j e by (simp add: Clause_remove_def Clause_pop_def Clause_shrink_def Clause_size_def c1_def xs_def Let_def)
  have l1: "Clause_lits c1 = remove1 p (Clause_lits c)"
    using rl xs by (simp add: Clause_lits_def Clause_size_def c1_def one)
  have s1: "Clause_size c1 = ?n - 1" "Clause_size c1 < length (c_data c1)" "c_has_extra c1" "c_learnt c1 = c_learnt c"
    using lx one e by (simp_all add: c1_def Clause_size_def)
  define c2 where "c2 = c1\<lparr>c_data := (c_data c1)[Clause_size c1 := abstraction_loop 0 (Clause_lits c1)]\<rparr>"
  have "calcAbstraction c1 = Some c2" using s1(3) by (simp add: calcAbstraction_def c2_def)
  moreover have "Clause_size c2 = Clause_size c1" "Clause_lits c2 = Clause_lits c1"
    by (simp_all add: c2_def Clause_size_def Clause_lits_def)
  ultimately show ?thesis using r l1 s1 by (simp add: Clause_strengthen_def clause_ok_def c2_def)
qed

section \<open>What subsumption means\<close>

definition Lit_holds :: "(32 word \<Rightarrow> bool) \<Rightarrow> Lit \<Rightarrow> bool" where
  "Lit_holds \<alpha> l = (\<alpha> (Lit_var l) \<noteq> Lit_sign l)"

definition Clause_holds :: "(32 word \<Rightarrow> bool) \<Rightarrow> Clause \<Rightarrow> bool" where
  "Clause_holds \<alpha> c = list_ex (Lit_holds \<alpha>) (Clause_lits c)"

lemma Lit_holds_neg [simp]: "Lit_holds \<alpha> (Lit_neg l) = (\<not> Lit_holds \<alpha> l)"
  by (simp add: Lit_holds_def)

lemma subsumes_eq_spec:
  assumes "clause_ok c" "clause_ok d" "\<not> c_learnt c" "\<not> c_learnt d" "c_has_extra c" "c_has_extra d"
    and "distinct (Clause_lits c)" "tautology_free (Clause_lits c)" "tautology_free (Clause_lits d)"
    and "ordinary (Clause_lits c)"
  shows "Clause_subsumes c d = Some (subsumes_spec (Clause_lits c) (Clause_lits d))"
proof -
  let ?s = "subsumes_spec (Clause_lits c) (Clause_lits d)"
  have abs: "c_data c ! Clause_size c = abstraction_loop 0 (Clause_lits c)"
    "c_data d ! Clause_size d = abstraction_loop 0 (Clause_lits d)"
    using assms by (auto simp: clause_ok_def)
  have "?s = lit_Error" if "c_size d < c_size c \<or> c_data c ! Clause_size c AND NOT (c_data d ! Clause_size d) \<noteq> 0"
  proof (rule ccontr)
    assume "?s \<noteq> lit_Error"
    note s = subsumes_spec_size [OF this assms(7,8)]
    then have "\<not> c_size d < c_size c" using assms(1,2) by (simp add: word_less_nat_alt Clause_size_def)
    then show False using that s signature_subset [of "Clause_lits c" "Clause_lits d"] by (simp add: abs)
  qed
  then show ?thesis using assms subsumes_loop_spec [of "Clause_lits d" "Clause_lits c"]
    by (auto simp: Clause_subsumes_def)
qed

lemma subsumes_spec_cases:
  fixes cs ds :: "Lit list"
  assumes "ordinary cs"
  defines "r \<equiv> subsumes_spec cs ds"
  shows "r = lit_Undef \<longleftrightarrow> set cs \<subseteq> set ds"
    "r = lit_Error \<longleftrightarrow> \<not> set cs \<subseteq> set ds \<and> (\<nexists>v. resolves_on v cs ds)"
    "r \<noteq> lit_Undef \<Longrightarrow> r \<noteq> lit_Error \<Longrightarrow> resolves_on (Lit_var r) cs ds"
proof -
  let ?P = "\<lambda>p. Lit_neg p \<in> set ds \<and> set cs - {p} \<subseteq> set ds"
  have ne: "lit_Undef \<noteq> lit_Error" by (simp add: lit_Undef_def lit_Error_def)
  have mem: "p \<in> set cs \<and> ?P p" if "filter ?P cs = p # ps" for p ps using that filter_eq_ConsD [OF that] by auto
  have none: "filter ?P cs = [] \<longleftrightarrow> (\<nexists>v. resolves_on v cs ds)" by (auto simp: filter_empty_conv resolves_on_def)
  have "(r = lit_Undef \<longleftrightarrow> set cs \<subseteq> set ds) \<and> (r = lit_Error \<longleftrightarrow> \<not> set cs \<subseteq> set ds \<and> (\<nexists>v. resolves_on v cs ds))
    \<and> (r \<noteq> lit_Undef \<and> r \<noteq> lit_Error \<longrightarrow> resolves_on (Lit_var r) cs ds)"
  proof (cases "set cs \<subseteq> set ds")
    case True
    then show ?thesis using ne by (simp add: r_def subsumes_spec_def)
  next
    case ns: False
    show ?thesis
    proof (cases "filter ?P cs")
      case Nil
      then show ?thesis using ns ne none by (simp add: r_def subsumes_spec_def)
    next
      case (Cons p ps)
      have p: "p \<in> set cs" "?P p" using mem [OF Cons] by auto
      then have "resolves_on (Lit_var p) cs ds" by (auto simp: resolves_on_def)
      moreover have "r = p" using ns Cons by (simp add: r_def subsumes_spec_def)
      moreover have "p \<noteq> lit_Undef" "p \<noteq> lit_Error" using p(1) assms(1) by (auto simp: ordinary_def)
      ultimately show ?thesis using ns by auto
    qed
  qed
  then show "r = lit_Undef \<longleftrightarrow> set cs \<subseteq> set ds" "r = lit_Error \<longleftrightarrow> \<not> set cs \<subseteq> set ds \<and> (\<nexists>v. resolves_on v cs ds)"
    "r \<noteq> lit_Undef \<Longrightarrow> r \<noteq> lit_Error \<Longrightarrow> resolves_on (Lit_var r) cs ds" by blast+
qed

text \<open>
  C27. On clauses without the extra literals \<^verbatim>\<open>lit_Undef\<close> and \<^verbatim>\<open>lit_Error\<close>, without repeated and without complementary
  literals, as \<^verbatim>\<open>addClause_\<close> makes them, with up-to-date signatures, \<^verbatim>\<open>subsumes\<close> decides subsumption and
  subsumption resolution: it returns \<^verbatim>\<open>lit_Undef\<close> exactly when every literal of the clause is in the other,
  \<^verbatim>\<open>lit_Error\<close> exactly when neither this holds nor can the other be simplified by resolution with the clause,
  and otherwise a literal of the variable on which to resolve.
  The comparison of the sizes and of the 32-bit signatures, which collide for variables equal modulo
  32, rejects no pair the relations accept.
\<close>

theorem subsumes_decides:
  assumes "clause_ok c" "clause_ok d" "\<not> c_learnt c" "\<not> c_learnt d" "c_has_extra c" "c_has_extra d"
    and "distinct (Clause_lits c)" "tautology_free (Clause_lits c)" "tautology_free (Clause_lits d)"
    and "ordinary (Clause_lits c)"
  shows "\<exists>r. Clause_subsumes c d = Some r
    \<and> (r = lit_Undef \<longleftrightarrow> set (Clause_lits c) \<subseteq> set (Clause_lits d))
    \<and> (r = lit_Error \<longleftrightarrow> \<not> set (Clause_lits c) \<subseteq> set (Clause_lits d) \<and> (\<nexists>v. resolves_on v (Clause_lits c) (Clause_lits d)))
    \<and> (r \<noteq> lit_Undef \<and> r \<noteq> lit_Error \<longrightarrow> resolves_on (Lit_var r) (Clause_lits c) (Clause_lits d))"
  using subsumes_eq_spec [OF assms] subsumes_spec_cases [OF assms(10), of "Clause_lits d"] by blast

definition clause_a :: Clause where
  "clause_a = the (Clause_new (replicate 3 0) [2, 5] True False)"

definition clause_b :: Clause where
  "clause_b = the (Clause_new (replicate 4 0) [2, 4, 7] True False)"

lemma clause_a_b:
  "Clause_new (replicate 3 0) [2, 5] True False = Some clause_a"
  "Clause_new (replicate 4 0) [2, 4, 7] True False = Some clause_b"
  by (simp_all add: clause_a_def clause_b_def Clause_new_def calcAbstraction_def Let_def)

lemma clause_a_b_ok:
  "clause_ok clause_a \<and> Clause_lits clause_a = [2, 5] \<and> c_has_extra clause_a \<and> \<not> c_learnt clause_a"
  "clause_ok clause_b \<and> Clause_lits clause_b = [2, 4, 7] \<and> c_has_extra clause_b \<and> \<not> c_learnt clause_b"
  using Clause_new_ok [of "[2, 5]" "replicate 3 0" True False] Clause_new_ok [of "[2, 4, 7]" "replicate 4 0" True False]
  by (simp_all add: clause_a_b)

theorem subsumes_decides_witness:
  "\<exists>r. Clause_subsumes clause_a clause_b = Some r \<and> r \<noteq> lit_Undef \<and> r \<noteq> lit_Error \<and> resolves_on (Lit_var r) [2, 5] [2, 4, 7]"
proof -
  have n: "Lit_neg 2 = 3" "Lit_neg 5 = 4" "Lit_neg 4 = 5" "Lit_neg 7 = 6" by (simp_all add: Lit_neg_def)
  have "resolves_on (Lit_var 5) [2, 5] [2, 4, 7]" unfolding resolves_on_def by (intro bexI [of _ 5]) (auto simp: n)
  moreover obtain r where r: "Clause_subsumes clause_a clause_b = Some r"
    "r = lit_Undef \<longleftrightarrow> set [2, 5] \<subseteq> set [2, 4, 7 :: Lit]"
    "r = lit_Error \<longleftrightarrow> \<not> set [2, 5] \<subseteq> set [2, 4, 7 :: Lit] \<and> (\<nexists>v. resolves_on v [2, 5] [2, 4, 7])"
    "r \<noteq> lit_Undef \<and> r \<noteq> lit_Error \<longrightarrow> resolves_on (Lit_var r) [2, 5] [2, 4, 7]"
    using subsumes_decides [of clause_a clause_b] n
    by (simp add: clause_a_b_ok tautology_free_def ordinary_def lit_Undef_def lit_Error_def) blast
  ultimately have "r \<noteq> lit_Undef" "r \<noteq> lit_Error" by auto
  then show ?thesis using r by blast
qed

lemma subsumes_strengthen_ok:
  assumes "Clause_subsumes c d = Some r" "clause_ok c" "clause_ok d" "ordinary (Clause_lits c)" "r \<noteq> lit_Error"
    and "tautology_free (Clause_lits c)"
  shows "if r = lit_Undef then Clause_holds \<alpha> c \<longrightarrow> Clause_holds \<alpha> d
    else \<exists>d'. Clause_strengthen (Lit_neg r) d = Some d' \<and> clause_ok d' \<and> Clause_size d' = Clause_size d - 1
      \<and> Clause_lits d' = remove1 (Lit_neg r) (Clause_lits d) \<and> Lit_neg r \<in> set (Clause_lits d) \<and> (Clause_holds \<alpha> c \<longrightarrow> Clause_holds \<alpha> d \<longrightarrow> Clause_holds \<alpha> d')"
proof -
  have e: "c_has_extra d" and l: "subsumes_loop lit_Undef (Clause_lits c) (Clause_lits d) = r"
    using assms(1,5) by (auto simp: Clause_subsumes_def split: if_splits)
  note s = subsumes_loop_sound [OF l assms(5,4)]
  show ?thesis
  proof (cases "r = lit_Undef")
    case True
    then show ?thesis using s assms(4) by (auto simp: Clause_holds_def list_ex_iff ordinary_def)
  next
    case False
    then have r: "r \<in> set (Clause_lits c)" "Lit_neg r \<in> set (Clause_lits d)"
      "set (Clause_lits c) - {r} \<subseteq> set (Clause_lits d)" using s by auto
    obtain d' where d': "Clause_strengthen (Lit_neg r) d = Some d'" "clause_ok d'"
      "Clause_lits d' = remove1 (Lit_neg r) (Clause_lits d)"
      using Clause_strengthen_ok [OF assms(3) e r(2)] by auto
    have "Clause_size d' = Clause_size d - 1"
      using arg_cong [OF d'(3), of length] assms(3) d'(2) r(2) by (simp add: length_remove1)
    moreover have "Clause_holds \<alpha> d'" if hc: "Clause_holds \<alpha> c" and hd: "Clause_holds \<alpha> d"
    proof -
      obtain l where l: "l \<in> set (Clause_lits c)" "Lit_holds \<alpha> l" using hc by (auto simp: Clause_holds_def list_ex_iff)
      obtain m where m: "m \<in> set (Clause_lits d)" "Lit_holds \<alpha> m" using hd by (auto simp: Clause_holds_def list_ex_iff)
      have "\<exists>k. k \<in> set (Clause_lits d) \<and> k \<noteq> Lit_neg r \<and> Lit_holds \<alpha> k"
      proof (cases "Lit_holds \<alpha> r")
        case True
        then show ?thesis using m by (metis Lit_holds_neg)
      next
        case False
        then have "l \<in> set (Clause_lits d)" using l r(3) by auto
        moreover have "l \<noteq> Lit_neg r" using l(1) tautology_freeD [OF assms(6) r(1)] by auto
        ultimately show ?thesis using l(2) by auto
      qed
      then show ?thesis unfolding Clause_holds_def d'(3) list_ex_iff using in_set_remove1 by metis
    qed
    ultimately show ?thesis using False d' r(2) by auto
  qed
qed

text \<open>
  The step of \<^verbatim>\<open>SimpSolver::backwardSubsumptionCheck\<close> on a candidate \<open>d\<close>: it is removed, strengthened or kept.
\<close>

datatype candidate = Removed | Strengthened Clause | Kept

definition subsumption_step :: "Clause \<Rightarrow> Clause \<Rightarrow> candidate option" where
  "subsumption_step c d = Option.bind (Clause_subsumes c d) (\<lambda>l.
     if l = lit_Undef then Some Removed
     else if l \<noteq> lit_Error then map_option Strengthened (Clause_strengthen (Lit_neg l) d)
     else Some Kept)"



end
