(* ===== verification/MiniAlloc.thy ===== *)
theory MiniAlloc
  imports MiniClause
begin

text \<open>
  \<^verbatim>\<open>src/minisat/minisat/mtl/Alloc.h\<close> and the class \<^verbatim>\<open>ClauseAllocator\<close> of \<^verbatim>\<open>src/minisat/minisat/core/SolverTypes.h\<close>:
  MiniSat's clauses live in one region of 32-bit words, named by the index of their first word, and
  garbage collection moves the live ones to a new region, leaving forwarding references behind. The
  sizes are 32-bit words that wrap around; the memory is the array of its words, in which a clause is a
  header of bit fields and its data, so that clauses that overlap would corrupt each other.
  \<open>None\<close> is a loop that does not end; errors are \<^verbatim>\<open>OutOfMemoryException\<close> and, as \<open>Assertion\<close>, failed
  assertions and accesses outside a block.
\<close>

section \<open>The region allocator\<close>

datatype alloc_error = OutOfMemory | Assertion

record 'c RegionAllocator =
  ra_memory :: "nat \<Rightarrow> 'c"
  ra_sz :: "32 word"
  ra_cap :: "32 word"
  ra_wasted :: "32 word"

partial_function (option) capacity_loop :: "32 word \<Rightarrow> 32 word \<Rightarrow> 32 word \<Rightarrow> (alloc_error + 32 word) option" where
  "capacity_loop prev_cap min_cap cap =
     (if cap < min_cap
      then (let cap' = cap + ((drop_bit 1 cap + drop_bit 3 cap + 2) AND NOT 1) in
            if cap' \<le> prev_cap then Some (Inl OutOfMemory) else capacity_loop prev_cap min_cap cap')
      else Some (Inr cap))"

declare capacity_loop.simps [code]

text \<open>
  \<^verbatim>\<open>realloc\<close> keeps the words there are; what the added ones hold is what \<open>ra_memory\<close> has there. When it
  fails, POSIX sets \<^verbatim>\<open>errno\<close> to \<^verbatim>\<open>ENOMEM\<close>, for which \<^verbatim>\<open>xrealloc\<close> throws.
\<close>

definition xrealloc :: "(32 word \<Rightarrow> bool) \<Rightarrow> 'c RegionAllocator \<Rightarrow> alloc_error + 'c RegionAllocator" where
  "xrealloc avail r = (if avail (ra_cap r) then Inr r else Inl OutOfMemory)"

definition region_capacity ::
  "(32 word \<Rightarrow> bool) \<Rightarrow> 32 word \<Rightarrow> 'c RegionAllocator \<Rightarrow> (alloc_error + 'c RegionAllocator) option" where
  "region_capacity avail min_cap r =
     (if min_cap \<le> ra_cap r then Some (Inr r)
      else case capacity_loop (ra_cap r) min_cap (ra_cap r) of
        None \<Rightarrow> None
      | Some (Inl e) \<Rightarrow> Some (Inl e)
      | Some (Inr c) \<Rightarrow> Some (if 0 < c then xrealloc avail (r\<lparr>ra_cap := c\<rparr>) else Inl Assertion))"

definition region_alloc ::
  "(32 word \<Rightarrow> bool) \<Rightarrow> int \<Rightarrow> 'c RegionAllocator \<Rightarrow> (alloc_error + 32 word \<times> 'c RegionAllocator) option" where
  "region_alloc avail n r =
     (if n \<le> 0 then Some (Inl Assertion)
      else case region_capacity avail (ra_sz r + of_int n) r of
        None \<Rightarrow> None
      | Some (Inl e) \<Rightarrow> Some (Inl e)
      | Some (Inr r1) \<Rightarrow>
          (let prev_sz = ra_sz r1; r2 = r1\<lparr>ra_sz := ra_sz r1 + of_int n\<rparr> in
           Some (if ra_sz r2 < prev_sz then Inl OutOfMemory else Inr (prev_sz, r2))))"

definition region_free :: "int \<Rightarrow> 'c RegionAllocator \<Rightarrow> 'c RegionAllocator" where
  "region_free n r = r\<lparr>ra_wasted := ra_wasted r + of_int n\<rparr>"

section \<open>The clause allocator\<close>

text \<open>
  The memory of the machine: whether \<^verbatim>\<open>realloc\<close> grants a capacity, and what the words of a new region
  hold before they are written.
\<close>

record mem_env =
  avail :: "32 word \<Rightarrow> bool"
  raw :: "nat \<Rightarrow> 32 word"

record ClauseAllocator =
  ca_ra :: "32 word RegionAllocator"
  extra_clause_field :: bool

text \<open>
  A clause in memory: the header word, with the bit fields of \<^verbatim>\<open>Clause\<close> from the lowest bit on, and the data.
  Reading a clause reads as many data words as the header says.
\<close>

definition header_word :: "Clause \<Rightarrow> 32 word" where
  "header_word c = ucast (c_mark c) OR push_bit 2 (of_bool (c_learnt c)) OR push_bit 3 (of_bool (c_has_extra c))
     OR push_bit 4 (of_bool (c_reloced c)) OR push_bit 5 (ucast (c_size c))"

definition read_clause :: "(nat \<Rightarrow> 32 word) \<Rightarrow> nat \<Rightarrow> Clause" where
  "read_clause m k = (let h = m k; sz = ucast (drop_bit 5 h) :: 27 word in
     \<lparr>c_mark = ucast h, c_learnt = bit h 2, c_has_extra = bit h 3, c_reloced = bit h 4, c_size = sz,
      c_data = map m [Suc k..<Suc k + (unat sz + of_bool (bit h 3))]\<rparr>)"

definition write_words :: "nat \<Rightarrow> 'a list \<Rightarrow> (nat \<Rightarrow> 'a) \<Rightarrow> nat \<Rightarrow> 'a" where
  "write_words k ws m = (\<lambda>i. if k \<le> i \<and> i < k + length ws then ws ! (i - k) else m i)"

definition write_clause :: "nat \<Rightarrow> Clause \<Rightarrow> (nat \<Rightarrow> 32 word) \<Rightarrow> nat \<Rightarrow> 32 word" where
  "write_clause k c m = write_words k (header_word c # c_data c) m"

text \<open>\<^verbatim>\<open>sizeof(Clause)\<close>, \<^verbatim>\<open>sizeof(Lit)\<close> and \<^verbatim>\<open>sizeof(uint32_t)\<close> are 4.\<close>

definition clauseWord32Size :: "nat \<Rightarrow> bool \<Rightarrow> 32 word" where
  "clauseWord32Size n has_extra = of_nat ((4 + 4 * (n + of_bool has_extra)) div 4)"

definition ClauseAllocator_new :: "mem_env \<Rightarrow> 32 word \<Rightarrow> (alloc_error + ClauseAllocator) option" where
  "ClauseAllocator_new e start_cap =
     map_option (map_sum id (\<lambda>r. \<lparr>ca_ra = r, extra_clause_field = False\<rparr>))
       (region_capacity (avail e) start_cap \<lparr>ra_memory = raw e, ra_sz = 0, ra_cap = 0, ra_wasted = 0\<rparr>)"

text \<open>
  The part common to the two \<^verbatim>\<open>alloc\<close>s: a block for \<open>n\<close> literals, in whose words behind the header \<open>mk\<close>
  constructs the clause.
\<close>

definition alloc_with ::
  "mem_env \<Rightarrow> nat \<Rightarrow> bool \<Rightarrow> (32 word list \<Rightarrow> Clause option) \<Rightarrow> ClauseAllocator
   \<Rightarrow> (alloc_error + 32 word \<times> ClauseAllocator) option" where
  "alloc_with e n use_extra mk ca = (let w = clauseWord32Size n use_extra in
     case region_alloc (avail e) (sint w) (ca_ra ca) of
        None \<Rightarrow> None
      | Some (Inl err) \<Rightarrow> Some (Inl err)
      | Some (Inr (cid, r)) \<Rightarrow>
          if cid < ra_sz r
          then case mk (map (ra_memory r) [Suc (unat cid)..<unat cid + unat w]) of
                 None \<Rightarrow> Some (Inl Assertion)
               | Some c \<Rightarrow> Some (Inr (cid, ca\<lparr>ca_ra := r\<lparr>ra_memory := write_clause (unat cid) c (ra_memory r)\<rparr>\<rparr>))
          else Some (Inl Assertion))"

definition ca_alloc ::
  "mem_env \<Rightarrow> Lit list \<Rightarrow> bool \<Rightarrow> ClauseAllocator \<Rightarrow> (alloc_error + 32 word \<times> ClauseAllocator) option" where
  "ca_alloc e ps learnt ca = (let use_extra = learnt \<or> extra_clause_field ca in
     alloc_with e (length ps) use_extra (\<lambda>mem. Clause_new mem ps use_extra learnt) ca)"

definition ca_alloc_from ::
  "mem_env \<Rightarrow> Clause \<Rightarrow> ClauseAllocator \<Rightarrow> (alloc_error + 32 word \<times> ClauseAllocator) option" where
  "ca_alloc_from e from ca = (let use_extra = c_learnt from \<or> extra_clause_field ca in
     alloc_with e (Clause_size from) use_extra (\<lambda>mem. Clause_copy mem from use_extra) ca)"

text \<open>
  \<^verbatim>\<open>operator[]\<close>: the clause whose words start at the reference; \<open>None\<close> when the reference, for which the source
  asserts it, or the last word of the clause is not below the size of the region.
\<close>

definition ca_deref :: "ClauseAllocator \<Rightarrow> 32 word \<Rightarrow> Clause option" where
  "ca_deref ca r = (if r < ra_sz (ca_ra ca)
     then let c = read_clause (ra_memory (ca_ra ca)) (unat r) in
          if unat r + Suc (length (c_data c)) \<le> unat (ra_sz (ca_ra ca)) then Some c else None
     else None)"

text \<open>A change of the clause at a reference, in place.\<close>

definition ca_update :: "32 word \<Rightarrow> Clause \<Rightarrow> ClauseAllocator \<Rightarrow> ClauseAllocator" where
  "ca_update r c ca = ca\<lparr>ca_ra := (ca_ra ca)\<lparr>ra_memory := write_clause (unat r) c (ra_memory (ca_ra ca))\<rparr>\<rparr>"

definition ca_free :: "32 word \<Rightarrow> ClauseAllocator \<Rightarrow> ClauseAllocator option" where
  "ca_free cid ca = map_option (\<lambda>c. ca\<lparr>ca_ra :=
     region_free (sint (clauseWord32Size (Clause_size c) (c_has_extra c))) (ca_ra ca)\<rparr>) (ca_deref ca cid)"

definition ca_reloc ::
  "mem_env \<Rightarrow> 32 word \<Rightarrow> ClauseAllocator \<Rightarrow> ClauseAllocator
   \<Rightarrow> (alloc_error + 32 word \<times> ClauseAllocator \<times> ClauseAllocator) option" where
  "ca_reloc e cr ca to =
     (case ca_deref ca cr of
        None \<Rightarrow> Some (Inl Assertion)
      | Some c \<Rightarrow>
          if c_reloced c then Some (Inr (Clause_relocation c, ca, to))
          else case ca_alloc_from e c to of
            None \<Rightarrow> None
          | Some (Inl err) \<Rightarrow> Some (Inl err)
          | Some (Inr (cr', to')) \<Rightarrow> Some (Inr (cr', ca_update cr (Clause_relocate cr' c) ca, to')))"

text \<open>\<^verbatim>\<open>to.moveTo(ca)\<close>: the new region replaces the old one.\<close>

definition ca_moveTo :: "ClauseAllocator \<Rightarrow> ClauseAllocator \<Rightarrow> ClauseAllocator \<times> ClauseAllocator" where
  "ca_moveTo from to = (from\<lparr>ca_ra := \<lparr>ra_memory = ra_memory (ca_ra from), ra_sz = 0, ra_cap = 0, ra_wasted = 0\<rparr>\<rparr>,
     to\<lparr>ca_ra := ca_ra from, extra_clause_field := extra_clause_field from\<rparr>)"

definition isRemoved :: "ClauseAllocator \<Rightarrow> 32 word \<Rightarrow> bool option" where
  "isRemoved ca cr = map_option (\<lambda>c. c_mark c = 1) (ca_deref ca cr)"

text \<open>
  One of the loops of \<^verbatim>\<open>relocAll\<close> over a vector of references: the removed clauses are dropped, the
  others moved and their references replaced.
\<close>

fun reloc_live ::
  "mem_env \<Rightarrow> 32 word list \<Rightarrow> ClauseAllocator \<Rightarrow> ClauseAllocator
   \<Rightarrow> (alloc_error + 32 word list \<times> ClauseAllocator \<times> ClauseAllocator) option" where
  "reloc_live e [] ca to = Some (Inr ([], ca, to))"
| "reloc_live e (r # rs) ca to =
     (case isRemoved ca r of
        None \<Rightarrow> Some (Inl Assertion)
      | Some True \<Rightarrow> reloc_live e rs ca to
      | Some False \<Rightarrow>
          (case ca_reloc e r ca to of
             None \<Rightarrow> None
           | Some (Inl err) \<Rightarrow> Some (Inl err)
           | Some (Inr (r', ca', to')) \<Rightarrow>
               map_option (map_sum id (\<lambda>(rs', st). (r' # rs', st))) (reloc_live e rs ca' to')))"

section \<open>Growing the region\<close>

definition next_cap :: "nat \<Rightarrow> nat" where
  "next_cap n = n + 2 * ((n div 2 + n div 8 + 2) div 2)"

lemma unat32: "unat (c :: 32 word) < 4294967296"
  using unsigned_less [of c, where ?'a = nat] by simp

lemma clear_low_bit: "unat (w AND NOT 1 :: 32 word) = 2 * (unat w div 2)"
proof (rule bit_eqI)
  fix n
  show "bit (unat (w AND NOT 1)) n = bit (2 * (unat w div 2)) n"
    by (cases n) (auto simp: bit_simps bit_Suc [symmetric] dest: bit_imp_le_length)
qed

lemma cap_delta: "unat ((drop_bit 1 c + drop_bit 3 c + 2) AND NOT 1 :: 32 word) = 2 * ((unat c div 2 + unat c div 8 + 2) div 2)"
proof -
  have d: "unat (drop_bit 1 c) = unat c div 2" "unat (drop_bit 3 c) = unat c div 8"
    by (simp_all add: unat_drop_bit_eq drop_bit_eq_div unat_div)
  have "(unat c div 2 + unat c div 8) mod 4294967296 = unat c div 2 + unat c div 8"
    "(unat c div 2 + unat c div 8 + 2) mod 4294967296 = unat c div 2 + unat c div 8 + 2"
    using unat32 [of c] by (intro mod_less; linarith)+
  then have "unat (drop_bit 1 c + drop_bit 3 c + 2) = unat c div 2 + unat c div 8 + 2"
    unfolding unat_word_ariths d by simp
  then show ?thesis unfolding clear_low_bit by simp
qed

definition grow_cap :: "32 word \<Rightarrow> 32 word" where
  "grow_cap c = c + ((drop_bit 1 c + drop_bit 3 c + 2) AND NOT 1)"

lemma half_bounds: "2 * (m div 2) \<le> m" "m \<le> 2 * (m div 2) + 1" "8 * (m div 8) \<le> m" "m \<le> 8 * (m div 8) + 7" for m :: nat
  by simp_all

lemma next_cap_bounds: "13 * n \<le> 8 * next_cap n + 3" "8 * next_cap n \<le> 13 * n + 16" "n < next_cap n"
proof -
  define a b d where "a = n div 2" and "b = n div 8" and "d = (a + b + 2) div 2"
  have "2 * a \<le> n" "n \<le> 2 * a + 1" "8 * b \<le> n" "n \<le> 8 * b + 7" "2 * d \<le> a + b + 2" "a + b + 1 \<le> 2 * d"
    using half_bounds [of n] half_bounds [of "a + b + 2"] by (simp_all add: a_def b_def d_def)
  then show "13 * n \<le> 8 * next_cap n + 3" "8 * next_cap n \<le> 13 * n + 16" "n < next_cap n"
    unfolding next_cap_def a_def [symmetric] b_def [symmetric] d_def [symmetric] by simp_all
qed

lemma unat_grow: "unat (grow_cap c) = next_cap (unat c) mod 4294967296"
  unfolding grow_cap_def next_cap_def unat_word_ariths cap_delta by simp

lemma capacity_loop_unfold:
  "capacity_loop prev_cap min_cap cap =
     (if cap < min_cap then if grow_cap cap \<le> prev_cap then Some (Inl OutOfMemory) else capacity_loop prev_cap min_cap (grow_cap cap)
      else Some (Inr cap))"
  by (subst capacity_loop.simps) (simp add: Let_def grow_cap_def)

text \<open>Requests up to 8/13 of the address space are granted without a wrap-around.\<close>

lemma capacity_loop_low:
  assumes "unat min_cap \<le> 2643056795" "prev_cap \<le> cap"
  shows "\<exists>c. capacity_loop prev_cap min_cap cap = Some (Inr c) \<and> min_cap \<le> c"
  using assms(2)
proof (induction "4294967296 - unat cap" arbitrary: cap rule: less_induct)
  case less
  show ?case
  proof (cases "cap < min_cap")
    case True
    then have "unat cap < 2643056795" using assms(1) by (simp add: word_less_nat_alt)
    then have g: "next_cap (unat cap) < 4294967296" "unat cap < next_cap (unat cap)" using next_cap_bounds [of "unat cap"] by linarith+
    then have u: "unat cap < unat (grow_cap cap)" "unat (grow_cap cap) < 4294967296" by (simp_all add: unat_grow)
    then have lt: "cap < grow_cap cap" by (simp add: word_less_nat_alt)
    then have "\<exists>c. capacity_loop prev_cap min_cap (grow_cap cap) = Some (Inr c) \<and> min_cap \<le> c"
      using less u by (intro less.hyps) auto
    moreover have "\<not> grow_cap cap \<le> prev_cap" using less.prems lt by (simp add: not_le)
    ultimately show ?thesis using True by (subst capacity_loop_unfold) simp
  next
    case False
    then show ?thesis by (subst capacity_loop_unfold) simp
  qed
qed

text \<open>Above that, one step is enough for a block of up to \<open>2 ^ 28\<close> words, or it wraps around and is refused.\<close>

lemma capacity_loop_high:
  assumes "2300000000 \<le> unat cap" "unat min_cap \<le> unat cap + 268435456"
  shows "capacity_loop cap min_cap cap = Some (Inl OutOfMemory)
    \<or> (\<exists>c. capacity_loop cap min_cap cap = Some (Inr c) \<and> min_cap \<le> c)"
proof (cases "cap < min_cap \<and> \<not> grow_cap cap \<le> cap")
  case True
  have "unat cap + 1400000000 \<le> next_cap (unat cap)" using assms(1) next_cap_bounds(1) [of "unat cap"] by linarith
  moreover have "next_cap (unat cap) < 4294967296"
  proof (rule ccontr)
    assume "\<not> ?thesis"
    moreover have "next_cap (unat cap) < 4294967296 + unat cap" using unat32 [of cap] next_cap_bounds(2) [of "unat cap"] assms(1) by linarith
    ultimately have "unat (grow_cap cap) = next_cap (unat cap) - 4294967296"
      unfolding unat_grow using unat32 [of cap] by (simp add: mod_if)
    then have "unat (grow_cap cap) < unat cap" using \<open>next_cap (unat cap) < 4294967296 + unat cap\<close> \<open>\<not> next_cap (unat cap) < 4294967296\<close> by linarith
    then show False using True by (simp add: word_le_nat_alt)
  qed
  ultimately have "min_cap \<le> grow_cap cap" using assms(2) by (simp add: word_le_nat_alt unat_grow)
  then show ?thesis using True by (subst (1 2) capacity_loop_unfold, subst capacity_loop_unfold) auto
next
  case False
  then show ?thesis by (subst (1 2) capacity_loop_unfold) auto
qed


lemma region_capacity_returns:
  assumes "ra_sz r \<le> ra_cap r" "unat m \<le> unat (ra_sz r) + 268435456"
  shows "region_capacity mem m r = Some (Inl OutOfMemory)
    \<or> (\<exists>c. region_capacity mem m r = Some (Inr (r\<lparr>ra_cap := c\<rparr>)) \<and> ra_cap r \<le> c \<and> m \<le> c)"
proof (cases "m \<le> ra_cap r")
  case True
  then show ?thesis by (intro disjI2 exI [of _ "ra_cap r"]) (simp add: region_capacity_def)
next
  case gt: False
  have le: "unat (ra_sz r) \<le> unat (ra_cap r)" using assms(1) by (simp add: word_le_nat_alt)
  have l: "capacity_loop (ra_cap r) m (ra_cap r) = Some (Inl OutOfMemory)
    \<or> (\<exists>c. capacity_loop (ra_cap r) m (ra_cap r) = Some (Inr c) \<and> m \<le> c)"
  proof (cases "unat m \<le> 2643056795")
    case True
    then show ?thesis using capacity_loop_low [of m "ra_cap r" "ra_cap r"] by simp
  next
    case False
    then show ?thesis using assms(2) le by (intro capacity_loop_high) linarith+
  qed
  then show ?thesis
  proof
    assume "capacity_loop (ra_cap r) m (ra_cap r) = Some (Inl OutOfMemory)"
    then show ?thesis using gt by (simp add: region_capacity_def)
  next
    assume "\<exists>c. capacity_loop (ra_cap r) m (ra_cap r) = Some (Inr c) \<and> m \<le> c"
    then obtain c where c: "capacity_loop (ra_cap r) m (ra_cap r) = Some (Inr c)" "m \<le> c" by blast
    have "ra_cap r < m" using gt by simp
    then have "ra_cap r < c" using c(2) by (rule order.strict_trans2)
    then have "ra_cap r \<le> c" "0 < c" by (simp_all add: word_less_nat_alt word_le_nat_alt)
    then show ?thesis using gt c by (cases "mem c") (auto simp: region_capacity_def xrealloc_def)
  qed
qed

lemma region_alloc_cases:
  assumes "ra_sz r \<le> ra_cap r" "0 < n" "n \<le> 2 ^ 28"
  shows "region_alloc mem n r = Some (Inl OutOfMemory)
    \<or> (\<exists>r'. region_alloc mem n r = Some (Inr (ra_sz r, r')) \<and> ra_sz r' \<le> ra_cap r'
        \<and> int (unat (ra_sz r')) = int (unat (ra_sz r)) + n \<and> ra_memory r' = ra_memory r)"
proof -
  define m where "m = ra_sz r + of_int n"
  have n: "unat (of_int n :: 32 word) = nat n" using assms(2,3) by (simp add: unat_eq_nat_uint uint_word_of_int)
  have m: "unat m = (unat (ra_sz r) + nat n) mod 4294967296"
    unfolding m_def unat_word_ariths n by simp
  then have "unat m \<le> unat (ra_sz r) + nat n" by simp
  then have "unat m \<le> unat (ra_sz r) + 268435456" using assms(3) by simp
  then consider "region_capacity mem m r = Some (Inl OutOfMemory)"
    | c where "region_capacity mem m r = Some (Inr (r\<lparr>ra_cap := c\<rparr>))" "m \<le> c"
    using region_capacity_returns [OF assms(1)] by blast
  note c = this
  show ?thesis
  proof (cases "unat (ra_sz r) + nat n < 4294967296")
    case True
    then have u: "unat m = unat (ra_sz r) + nat n" using m by simp
    then have u': "int (unat m) = int (unat (ra_sz r)) + n" "\<not> m < ra_sz r" using assms(2) by (simp_all add: word_less_nat_alt)
    show ?thesis using assms(2) u' by (cases rule: c) (simp_all add: region_alloc_def m_def [symmetric] Let_def)
  next
    case False
    then have "unat m = unat (ra_sz r) + nat n - 4294967296"
      unfolding m le_mod_geq [OF leI [OF False]] using assms(3) unat32 [of "ra_sz r"] by (intro mod_less) simp
    then have "m < ra_sz r" using assms(3) False by (simp add: word_less_nat_alt)
    then show ?thesis using assms(2) by (cases rule: c) (simp_all add: region_alloc_def m_def [symmetric] Let_def)
  qed
qed

text \<open>
  C29. The region allocator always returns, whatever the 32-bit arithmetic does: for a block of up to \<open>2 ^ 28\<close>
  words (a clause has at most \<open>2 ^ 27 + 1\<close>) it either throws \<^verbatim>\<open>OutOfMemoryException\<close> or returns the
  old size of the region as the reference; then the block ends at the new size, which has not wrapped
  around and is within the capacity, so that it lies in the memory and above every earlier block.
\<close>

theorem region_alloc_returns:
  assumes "ra_sz r \<le> ra_cap r" "0 < n" "n \<le> 2 ^ 28"
  shows "region_alloc mem n r = Some (Inl OutOfMemory)
    \<or> (\<exists>r'. region_alloc mem n r = Some (Inr (ra_sz r, r')) \<and> ra_sz r' \<le> ra_cap r'
        \<and> int (unat (ra_sz r')) = int (unat (ra_sz r)) + n \<and> ra_memory r' = ra_memory r)"
  using assms by (rule region_alloc_cases)


definition region_example :: "32 word RegionAllocator" where
  "region_example = \<lparr>ra_memory = (\<lambda>_. 0), ra_sz = 10, ra_cap = 16, ra_wasted = 0\<rparr>"

lemma region_example_grows: "region_alloc (\<lambda>_. True) 20 region_example \<noteq> Some (Inl OutOfMemory)"
proof -
  have "capacity_loop 16 30 16 = Some (Inr 46)"
    by (simp add: capacity_loop.simps [of 16 30 16] capacity_loop.simps [of 16 30 28] capacity_loop.simps [of 16 30 46])
  then show ?thesis by (simp add: region_alloc_def region_capacity_def region_example_def xrealloc_def Let_def)
qed

theorem region_alloc_returns_witness:
  "\<exists>r'. region_alloc (\<lambda>_. True) 20 region_example = Some (Inr (10, r')) \<and> int (unat (ra_sz r')) = 30"
proof -
  have "ra_sz region_example = 10" "ra_sz region_example \<le> ra_cap region_example" by (simp_all add: region_example_def)
  then show ?thesis using region_alloc_returns [of region_example 20 "\<lambda>_. True"] region_example_grows by fastforce
qed

section \<open>Clauses in memory\<close>

lemma header_bits:
  "ucast (header_word c) = c_mark c" "bit (header_word c) 2 = c_learnt c" "bit (header_word c) 3 = c_has_extra c"
  "bit (header_word c) 4 = c_reloced c" "ucast (drop_bit 5 (header_word c)) = c_size c"
proof -
  show "ucast (header_word c) = c_mark c"
    by (rule bit_word_eqI) (auto simp: header_word_def bit_simps)
  show "ucast (drop_bit 5 (header_word c)) = c_size c"
    by (rule bit_word_eqI) (auto simp: header_word_def bit_simps dest: bit_imp_le_length)
qed (auto simp: header_word_def bit_simps dest: bit_imp_le_length)

text \<open>A clause without spare words, as it is read.\<close>

definition tight :: "Clause \<Rightarrow> bool" where
  "tight c = (length (c_data c) = Clause_size c + of_bool (c_has_extra c))"

definition same_shape :: "Clause \<Rightarrow> Clause \<Rightarrow> bool" where
  "same_shape c d = (c_size c = c_size d \<and> c_has_extra c = c_has_extra d \<and> length (c_data c) = length (c_data d))"

lemma same_shape_tight: "same_shape c d \<Longrightarrow> tight d \<Longrightarrow> tight c"
  by (simp add: same_shape_def tight_def Clause_size_def)

lemma same_shape_data: "same_shape (c\<lparr>c_data := (c_data c)[i := x, j := y]\<rparr>) c" "same_shape c c"
  by (simp_all add: same_shape_def)

lemma read_tight: "tight (read_clause m k)"
  by (simp add: tight_def read_clause_def Let_def Clause_size_def)

lemma read_write: "tight c \<Longrightarrow> read_clause (write_clause k c m) k = c"
proof -
  assume t: "tight c"
  have h: "write_clause k c m k = header_word c" by (simp add: write_clause_def write_words_def)
  have "write_clause k c m (Suc k + i) = c_data c ! i" if "i < length (c_data c)" for i
    using that by (simp add: write_clause_def write_words_def)
  then have "map (write_clause k c m) [Suc k..<Suc k + length (c_data c)] = c_data c"
    by (intro nth_equalityI) (simp_all del: upt_Suc)
  then show ?thesis using t
    unfolding read_clause_def Let_def h header_bits tight_def Clause_size_def by simp
qed

lemma read_write_other:
  assumes "k + Suc (length (c_data c)) \<le> j \<or> j + Suc (length (c_data (read_clause m j))) \<le> k"
  shows "read_clause (write_clause k c m) j = read_clause m j"
proof -
  let ?n = "length (c_data (read_clause m j))"
  have w: "write_clause k c m i = m i" if "j \<le> i" "i < j + Suc ?n" for i
    using assms that by (auto simp: write_clause_def write_words_def)
  have n: "?n = unat (ucast (drop_bit 5 (m j)) :: 27 word) + of_bool (bit (m j) 3)" by (simp add: read_clause_def Let_def)
  have "map (write_clause k c m) [Suc j..<Suc j + ?n] = map m [Suc j..<Suc j + ?n]" using w by auto
  moreover have "write_clause k c m j = m j" using w [of j] by simp
  ultimately show ?thesis unfolding n by (simp add: read_clause_def Let_def)
qed

text \<open>The words of the clause at a reference, and references to clauses that do not overlap.\<close>

definition clause_words :: "ClauseAllocator \<Rightarrow> 32 word \<Rightarrow> nat set" where
  "clause_words ca r = (case ca_deref ca r of None \<Rightarrow> {} | Some c \<Rightarrow> {unat r..<unat r + Suc (length (c_data c))})"

definition separated :: "32 word set \<Rightarrow> ClauseAllocator \<Rightarrow> bool" where
  "separated A ca = (\<forall>r\<in>A. ca_deref ca r \<noteq> None \<and> (\<forall>s\<in>A. r \<noteq> s \<longrightarrow> clause_words ca r \<inter> clause_words ca s = {}))"

lemma deref_tight: "ca_deref ca r = Some c \<Longrightarrow> tight c"
  using read_tight by (auto simp: ca_deref_def Let_def split: if_splits)

lemma separated_Some: "separated A ca \<Longrightarrow> r \<in> A \<Longrightarrow> \<exists>c. ca_deref ca r = Some c"
  by (auto simp: separated_def)

lemma separated_mono: "separated A ca \<Longrightarrow> B \<subseteq> A \<Longrightarrow> separated B ca"
  by (auto simp: separated_def)

lemma deref_update:
  assumes r: "ca_deref ca r = Some c0" and c: "same_shape c c0"
  shows "ca_deref (ca_update r c ca) r = Some c"
    "ca_deref ca s = Some d \<Longrightarrow> clause_words ca r \<inter> clause_words ca s = {} \<Longrightarrow> ca_deref (ca_update r c ca) s = Some d"
proof -
  have t: "tight c" using same_shape_tight [OF c deref_tight [OF r]] .
  have l: "length (c_data c) = length (c_data c0)" using c by (simp add: same_shape_def)
  show "ca_deref (ca_update r c ca) r = Some c"
    using r l read_write [OF t] by (auto simp: ca_deref_def ca_update_def Let_def split: if_splits)
  assume s: "ca_deref ca s = Some d" and d: "clause_words ca r \<inter> clause_words ca s = {}"
  have dd: "d = read_clause (ra_memory (ca_ra ca)) (unat s)" using s by (auto simp: ca_deref_def Let_def split: if_splits)
  have "{unat r..<unat r + Suc (length (c_data c))} \<inter> {unat s..<unat s + Suc (length (c_data d))} = {}"
    using d r s l by (simp add: clause_words_def)
  then have "unat r + Suc (length (c_data c)) \<le> unat s \<or> unat s + Suc (length (c_data d)) \<le> unat r"
    by (auto simp: disjoint_iff not_le)
  then have "read_clause (write_clause (unat r) c (ra_memory (ca_ra ca))) (unat s) = d"
    using read_write_other dd by metis
  then show "ca_deref (ca_update r c ca) s = Some d"
    using s dd by (auto simp: ca_deref_def ca_update_def Let_def split: if_splits)
qed

lemma separated_update:
  assumes sep: "separated A ca" and r: "r \<in> A" "ca_deref ca r = Some c0" "same_shape c c0"
  shows "\<forall>s\<in>A. ca_deref (ca_update r c ca) s = ((ca_deref ca)(r \<mapsto> c)) s" "separated A (ca_update r c ca)"
proof -
  show d: "\<forall>s\<in>A. ca_deref (ca_update r c ca) s = ((ca_deref ca)(r \<mapsto> c)) s"
  proof
    fix s assume s: "s \<in> A"
    obtain k where k: "ca_deref ca s = Some k" using separated_Some [OF sep s] by blast
    show "ca_deref (ca_update r c ca) s = ((ca_deref ca)(r \<mapsto> c)) s"
    proof (cases "s = r")
      case True
      then show ?thesis using deref_update(1) [OF r(2,3)] by simp
    next
      case False
      then have "clause_words ca r \<inter> clause_words ca s = {}" using sep r(1) s unfolding separated_def by blast
      then show ?thesis using False deref_update(2) [OF r(2,3) k] k by simp
    qed
  qed
  have w: "clause_words (ca_update r c ca) s = clause_words ca s" if "s \<in> A" for s
    using d that r(2,3) by (auto simp: clause_words_def same_shape_def)
  have "ca_deref (ca_update r c ca) s \<noteq> None" if "s \<in> A" for s using d that sep by (auto simp: separated_def)
  then show "separated A (ca_update r c ca)" using sep w unfolding separated_def by auto
qed

section \<open>Allocating clauses\<close>

definition region_ok :: "'c RegionAllocator \<Rightarrow> bool" where
  "region_ok r = (ra_sz r \<le> ra_cap r)"

lemma clauseWord32Size_sint: "n < 2 ^ 27 \<Longrightarrow> sint (clauseWord32Size n b) = int (Suc n + of_bool b) \<and> unat (clauseWord32Size n b) = Suc n + of_bool b"
proof -
  assume n: "n < 2 ^ 27"
  have "(4 + 4 * (n + of_bool b)) div 4 = Suc n + of_bool b" by simp
  then have w: "clauseWord32Size n b = word_of_int (int (Suc n + of_bool b))" by (simp add: clauseWord32Size_def)
  then have "sint (clauseWord32Size n b) = signed_take_bit 31 (int (Suc n + of_bool b))"
    by (simp only: sint_sbintrunc') simp
  also have "\<dots> = int (Suc n + of_bool b)" using n by (intro signed_take_bit_int_eq_self) auto
  finally have si: "sint (clauseWord32Size n b) = int (Suc n + of_bool b)" .
  have "clauseWord32Size n b = of_nat (Suc n + of_bool b)" unfolding w by (simp only: of_int_of_nat_eq)
  moreover have "unat (of_nat k :: 32 word) = k" if "k < 2 ^ 32" for k using that by (simp add: unat_of_nat)
  note this [of "Suc n + of_bool b"]
  ultimately have "unat (clauseWord32Size n b) = Suc n + of_bool b" using n by (cases b) simp_all
  then show ?thesis using si by blast
qed

text \<open>What an allocation does to a region: a clause in words of its own, all others as they were.\<close>

definition allocated :: "ClauseAllocator \<Rightarrow> 32 word \<Rightarrow> Clause \<Rightarrow> ClauseAllocator \<Rightarrow> bool" where
  "allocated ca cid c ca' = (region_ok (ca_ra ca') \<and> extra_clause_field ca' = extra_clause_field ca
     \<and> ca_deref ca cid = None \<and> ca_deref ca' cid = Some c
     \<and> (\<forall>s d. ca_deref ca s = Some d \<longrightarrow> ca_deref ca' s = Some d \<and> clause_words ca' cid \<inter> clause_words ca' s = {}))"

lemma allocated_separated:
  assumes "allocated ca cid c ca'" "separated A ca"
  shows "separated (insert cid A) ca'" "\<forall>s\<in>A. ca_deref ca' s = ca_deref ca s" "cid \<notin> A"
proof -
  have A: "\<exists>d. ca_deref ca s = Some d \<and> ca_deref ca' s = Some d \<and> clause_words ca' cid \<inter> clause_words ca' s = {}" if "s \<in> A" for s
    using separated_Some [OF assms(2) that] assms(1) unfolding allocated_def by blast
  then have w: "clause_words ca' s = clause_words ca s" if "s \<in> A" for s
    using that by (fastforce simp: clause_words_def)
  show "\<forall>s\<in>A. ca_deref ca' s = ca_deref ca s" using A by fastforce
  show "cid \<notin> A" using A assms(1) unfolding allocated_def by fastforce
  have "ca_deref ca' cid \<noteq> None" using assms(1) by (simp add: allocated_def)
  moreover have "ca_deref ca' s \<noteq> None" "clause_words ca' cid \<inter> clause_words ca' s = {}" "clause_words ca' s \<inter> clause_words ca' cid = {}" if "s \<in> A" for s
    using A [OF that] by auto
  moreover have "clause_words ca' s \<inter> clause_words ca' t = {}" if "s \<in> A" "t \<in> A" "s \<noteq> t" for s t
    using that w assms(2) unfolding separated_def by simp
  ultimately show "separated (insert cid A) ca'" unfolding separated_def by blast
qed

lemma alloc_with_ok:
  assumes ok: "region_ok (ca_ra ca)" and n: "n < 2 ^ 27"
    and mk: "\<And>mem. length mem = n + of_bool b \<Longrightarrow> \<exists>c. mk mem = Some c \<and> Q c \<and> tight c \<and> Clause_size c = n \<and> c_has_extra c = b"
  shows "alloc_with e n b mk ca = Some (Inl OutOfMemory)
    \<or> (\<exists>cid ca' c. alloc_with e n b mk ca = Some (Inr (cid, ca')) \<and> Q c \<and> allocated ca cid c ca')"
proof -
  let ?r = "ca_ra ca" and ?w = "clauseWord32Size n b"
  have w: "sint ?w = int (Suc n + of_bool b)" "unat ?w = Suc n + of_bool b" using clauseWord32Size_sint [OF n] by simp_all
  have nn: "0 < sint ?w" "sint ?w \<le> 2 ^ 28" using n w(1) by simp_all
  from region_alloc_cases [of ?r "sint ?w" "avail e"] ok nn consider
      "region_alloc (avail e) (sint ?w) ?r = Some (Inl OutOfMemory)"
    | r' where "region_alloc (avail e) (sint ?w) ?r = Some (Inr (ra_sz ?r, r'))" "ra_sz r' \<le> ra_cap r'"
        "int (unat (ra_sz r')) = int (unat (ra_sz ?r)) + sint ?w" "ra_memory r' = ra_memory ?r"
    by (auto simp: region_ok_def)
  then show ?thesis
  proof cases
    case 1
    then show ?thesis by (simp add: alloc_with_def Let_def)
  next
    case (2 r')
    let ?cid = "ra_sz ?r" and ?mem = "map (ra_memory r') [Suc (unat (ra_sz ?r))..<unat (ra_sz ?r) + unat ?w]"
    have "length ?mem = n + of_bool b" using w(2) by simp
    then obtain c where c: "mk ?mem = Some c" "Q c" "tight c" "Clause_size c = n" "c_has_extra c = b" using mk by blast
    have l: "length (c_data c) = n + of_bool b" using c(3-5) by (simp add: tight_def)
    have sz: "unat (ra_sz r') = unat ?cid + Suc (length (c_data c))" using 2(3) unfolding w(1) l by linarith
    then have lt: "?cid < ra_sz r'" by (simp add: word_less_nat_alt)
    define ca' where "ca' = ca\<lparr>ca_ra := r'\<lparr>ra_memory := write_clause (unat ?cid) c (ra_memory r')\<rparr>\<rparr>"
    have new: "ca_deref ca' ?cid = Some c" using lt sz read_write [OF c(3)] by (simp add: ca_deref_def ca'_def Let_def)
    have old: "ca_deref ca' s = Some d \<and> clause_words ca' ?cid \<inter> clause_words ca' s = {}" if "ca_deref ca s = Some d" for s d
    proof -
      have d: "d = read_clause (ra_memory ?r) (unat s)" "unat s + Suc (length (c_data d)) \<le> unat ?cid" "s < ?cid"
        using that by (auto simp: ca_deref_def Let_def split: if_splits)
      then have "ca_deref ca' s = Some d"
        using read_write_other [of "unat ?cid" c "unat s" "ra_memory ?r"] order.strict_trans [OF d(3) lt] sz 2(4)
        by (simp add: ca_deref_def ca'_def Let_def)
      then show ?thesis using d(2) new by (auto simp: clause_words_def)
    qed
    have "alloc_with e n b mk ca = Some (Inr (?cid, ca'))" using 2(1) c(1) lt by (simp add: alloc_with_def ca'_def Let_def)
    moreover have "allocated ca ?cid c ca'"
      using new old 2(2) by (simp add: allocated_def region_ok_def ca'_def) (simp add: ca_deref_def)
    ultimately show ?thesis using c(2) by blast
  qed
qed

definition same_clause :: "Clause \<Rightarrow> Clause \<Rightarrow> bool" where
  "same_clause c d = (Clause_lits c = Clause_lits d \<and> c_mark c = c_mark d \<and> c_learnt c = c_learnt d
     \<and> (c_has_extra c \<longrightarrow> c_data c ! Clause_size c = c_data d ! Clause_size d))"

lemma tight_lits: "tight c \<Longrightarrow> length (Clause_lits c) = Clause_size c"
  by (simp add: tight_def Clause_lits_def)

lemma Clause_copy_ok:
  assumes "tight d" "length mem = Clause_size d + of_bool b" "b \<Longrightarrow> c_has_extra d"
  shows "\<exists>c. Clause_copy mem d b = Some c \<and> same_clause c d \<and> c_reloced c = c_reloced d \<and> c_has_extra c = b \<and> tight c
    \<and> Clause_size c = Clause_size d"
  using assms by (cases b) (auto simp: Clause_copy_def tight_def same_clause_def Clause_lits_def Clause_size_def Let_def)

lemma same_clause_ok: "same_clause c d \<Longrightarrow> tight c \<Longrightarrow> tight d \<Longrightarrow> clause_ok d \<Longrightarrow> (c_has_extra c \<longrightarrow> c_has_extra d) \<Longrightarrow> clause_ok c"
  using tight_lits [of c] tight_lits [of d] by (auto simp: same_clause_def clause_ok_def tight_def)

lemma Clause_size_bound: "Clause_size c < 2 ^ 27"
  using unsigned_less [of "c_size c", where ?'a = nat] by (simp add: Clause_size_def)

definition new_clause :: "Lit list \<Rightarrow> bool \<Rightarrow> bool \<Rightarrow> Clause \<Rightarrow> bool" where
  "new_clause ps extra learnt c = (clause_ok c \<and> Clause_lits c = ps \<and> c_learnt c = learnt \<and> \<not> c_reloced c \<and> c_mark c = 0
     \<and> c_has_extra c = extra)"

lemma ca_alloc_cases:
  assumes "region_ok (ca_ra ca)" "length ps < 2 ^ 27"
  shows "ca_alloc e ps learnt ca = Some (Inl OutOfMemory)
    \<or> (\<exists>cid ca' c. ca_alloc e ps learnt ca = Some (Inr (cid, ca')) \<and> new_clause ps (learnt \<or> extra_clause_field ca) learnt c
        \<and> allocated ca cid c ca')"
proof -
  let ?b = "learnt \<or> extra_clause_field ca"
  have "\<exists>c. Clause_new mem ps ?b learnt = Some c \<and> new_clause ps ?b learnt c \<and> tight c \<and> Clause_size c = length ps \<and> c_has_extra c = ?b"
    if l: "length mem = length ps + of_bool ?b" for mem
  proof -
    obtain c where c: "Clause_new mem ps ?b learnt = Some c" "new_clause ps ?b learnt c" "length (c_data c) = length mem"
      using Clause_new_ok [OF assms(2) l, of learnt] unfolding new_clause_def by blast
    moreover have "Clause_size c = length ps" using c(2) Clause_lits_length [of c] by (simp add: new_clause_def)
    ultimately show ?thesis using l by (auto simp: tight_def new_clause_def)
  qed
  from alloc_with_ok [where Q = "new_clause ps ?b learnt" and b = ?b and mk = "\<lambda>mem. Clause_new mem ps ?b learnt" and e = e, OF assms this]
  show ?thesis unfolding ca_alloc_def Let_def by blast
qed

text \<open>
  C30. Allocating a clause of fewer than \<open>2 ^ 27\<close> literals writes it into words of its own: unless memory is
  exhausted, it returns a reference that is new, at which the
  clause is read back with its literals, its flags and, for an original clause with the extra
  field, its signature; the clauses that were stored before, in words that do not overlap, are
  read as before, and still none overlaps another. No assertion fails, no loop runs forever, and the
  constructor stays within its block.
\<close>

theorem ca_alloc_lookup:
  assumes "region_ok (ca_ra ca)" "separated A ca" "length ps < 2 ^ 27"
  shows "ca_alloc e ps learnt ca = Some (Inl OutOfMemory)
    \<or> (\<exists>cid ca' c. ca_alloc e ps learnt ca = Some (Inr (cid, ca')) \<and> region_ok (ca_ra ca')
        \<and> cid \<notin> A \<and> ca_deref ca' cid = Some c \<and> (\<forall>s\<in>A. ca_deref ca' s = ca_deref ca s) \<and> separated (insert cid A) ca'
        \<and> clause_ok c \<and> Clause_lits c = ps \<and> c_learnt c = learnt \<and> \<not> c_reloced c \<and> c_mark c = 0
        \<and> c_has_extra c = (learnt \<or> extra_clause_field ca))"
  using ca_alloc_cases [OF assms(1,3), of e learnt] allocated_separated [OF _ assms(2)]
  unfolding new_clause_def allocated_def by blast

definition plain_env :: mem_env where
  "plain_env = \<lparr>avail = \<lambda>_. True, raw = \<lambda>_. 0\<rparr>"

definition empty_ca :: ClauseAllocator where
  "empty_ca = \<lparr>ca_ra = \<lparr>ra_memory = \<lambda>_. 0, ra_sz = 0, ra_cap = 64, ra_wasted = 0\<rparr>, extra_clause_field = True\<rparr>"

lemma empty_ca_ok: "region_ok (ca_ra empty_ca)"
  by (simp add: region_ok_def empty_ca_def)

lemma empty_ca_alloc: "case ca_alloc plain_env [2, 5] False empty_ca of Some (Inr x) \<Rightarrow> True | _ \<Rightarrow> False"
  by code_simp

theorem ca_alloc_lookup_witness:
  "\<exists>cid ca' c. ca_alloc plain_env [2, 5] False empty_ca = Some (Inr (cid, ca')) \<and> ca_deref ca' cid = Some c \<and> Clause_lits c = [2, 5]
     \<and> separated {cid} ca'"
proof -
  have "length [2, 5 :: Lit] < 2 ^ 27" "separated {} empty_ca" by (simp_all add: separated_def)
  from ca_alloc_lookup [OF empty_ca_ok this(2,1), of plain_env False] empty_ca_alloc
  show ?thesis by fastforce
qed

section \<open>Garbage collection\<close>

definition fwd :: "ClauseAllocator \<Rightarrow> 32 word \<Rightarrow> 32 word option" where
  "fwd ca r = (case ca_deref ca r of None \<Rightarrow> None | Some c \<Rightarrow> if c_reloced c then Some (Clause_relocation c) else None)"

text \<open>A clause that can be moved to \<open>to\<close>: it has a cell for the forwarding reference, and the extra field if \<open>to\<close> keeps it.\<close>

definition movable :: "ClauseAllocator \<Rightarrow> Clause \<Rightarrow> bool" where
  "movable to c = (\<not> c_reloced c \<and> 0 < Clause_size c \<and> (c_learnt c \<or> extra_clause_field to \<longrightarrow> c_has_extra c))"

definition moved :: "ClauseAllocator \<Rightarrow> Clause \<Rightarrow> Clause \<Rightarrow> bool" where
  "moved to c c0 = (c_mark c = c_mark c0 \<and>
     (if c_reloced c then \<exists>c'. ca_deref to (Clause_relocation c) = Some c' \<and> same_clause c' c0 \<and> \<not> c_reloced c' else c = c0))"

text \<open>
  Some of the clauses \<open>S\<close> of the region \<open>ca0\<close> are moved already: each has one copy in \<open>to\<close>, the copies do
  not overlap, and neither do the originals.
\<close>

definition gc_inv :: "32 word set \<Rightarrow> ClauseAllocator \<Rightarrow> ClauseAllocator \<Rightarrow> ClauseAllocator \<Rightarrow> bool" where
  "gc_inv S ca0 ca to = (region_ok (ca_ra to) \<and> separated S ca \<and> separated {x. \<exists>r\<in>S. fwd ca r = Some x} to
     \<and> (\<forall>r\<in>S. \<exists>c0 c. ca_deref ca0 r = Some c0 \<and> movable to c0 \<and> ca_deref ca r = Some c \<and> moved to c c0)
     \<and> (\<forall>r\<in>S. \<forall>s\<in>S. \<forall>x. fwd ca r = Some x \<and> fwd ca s = Some x \<longrightarrow> r = s))"

lemma gc_inv_start:
  assumes "separated S ca" "\<forall>r\<in>S. \<forall>c. ca_deref ca r = Some c \<longrightarrow> movable to c" "region_ok (ca_ra to)"
  shows "gc_inv S ca ca to"
proof -
  have n: "fwd ca r = None" if "r \<in> S" for r
    using that assms(2) by (auto simp: fwd_def movable_def split: option.splits)
  then have e: "{x. \<exists>r\<in>S. fwd ca r = Some x} = {}" by auto
  have "\<exists>c0 c. ca_deref ca r = Some c0 \<and> movable to c0 \<and> ca_deref ca r = Some c \<and> moved to c c0" if r: "r \<in> S" for r
  proof -
    obtain c where "ca_deref ca r = Some c" using separated_Some [OF assms(1) r] by blast
    then show ?thesis using r assms(2) by (auto simp: movable_def moved_def)
  qed
  then show ?thesis using assms(1,3) n unfolding gc_inv_def e by (auto simp: separated_def)
qed

lemma Clause_relocate_simps [simp]:
  "c_reloced (Clause_relocate r c)" "c_mark (Clause_relocate r c) = c_mark c" "same_shape (Clause_relocate r c) c"
  "tight c \<Longrightarrow> 0 < Clause_size c \<Longrightarrow> Clause_relocation (Clause_relocate r c) = r"
  by (simp_all add: Clause_relocate_def Clause_relocation_def tight_def same_shape_def)

lemma ca_alloc_from_ok:
  assumes "region_ok (ca_ra to)" "movable to c" "tight c"
  shows "ca_alloc_from e c to = Some (Inl OutOfMemory)
    \<or> (\<exists>r' to' c'. ca_alloc_from e c to = Some (Inr (r', to')) \<and> (same_clause c' c \<and> \<not> c_reloced c') \<and> allocated to r' c' to')"
  unfolding ca_alloc_from_def Let_def
  by (rule alloc_with_ok [OF assms(1) Clause_size_bound])
     (use assms(2) Clause_copy_ok [OF assms(3)] in \<open>fastforce simp: movable_def\<close>)

lemma moved_fwd: "moved to c c0 \<Longrightarrow> ca_deref ca r = Some c \<Longrightarrow> fwd ca r = Some x \<Longrightarrow> ca_deref to x \<noteq> None"
  by (auto simp: moved_def fwd_def split: if_splits)

lemma moved_alloc: "moved to c c0 \<Longrightarrow> allocated to r' c' to' \<Longrightarrow> moved to' c c0"
  by (auto simp: moved_def allocated_def split: if_splits)

lemma movable_alloc: "movable to c \<Longrightarrow> allocated to r' c' to' \<Longrightarrow> movable to' c"
  by (simp add: movable_def allocated_def)

lemma ca_reloc_fresh:
  assumes inv: "gc_inv S ca0 ca to" and r: "r \<in> S" and c: "ca_deref ca0 r = Some c" "movable to c" "ca_deref ca r = Some c"
    and al: "same_clause c' c" "\<not> c_reloced c'" "allocated to r' c' to'"
  defines "ca' \<equiv> ca_update r (Clause_relocate r' c) ca"
  shows "gc_inv S ca0 ca' to' \<and> fwd ca' r = Some r' \<and> (\<forall>s\<in>S. \<forall>x. fwd ca s = Some x \<longrightarrow> fwd ca' s = Some x)"
proof -
  have sep: "separated S ca" and sep': "separated {x. \<exists>r\<in>S. fwd ca r = Some x} to" using inv by (simp_all add: gc_inv_def)
  note u = separated_update [OF sep r c(3), of "Clause_relocate r' c", simplified, folded ca'_def]
  have d: "ca_deref ca' s = (if s = r then Some (Clause_relocate r' c) else ca_deref ca s)" if "s \<in> S" for s using u(1) that by auto
  have rel: "Clause_relocation (Clause_relocate r' c) = r'" using c(2) deref_tight [OF c(3)] by (simp add: movable_def)
  have fr: "fwd ca' r = Some r'" using rel d [OF r] by (simp add: fwd_def)
  have fs: "fwd ca' s = fwd ca s" if "s \<noteq> r" "s \<in> S" for s using that d by (simp add: fwd_def)
  have f0: "fwd ca r = None" using c(2,3) by (simp add: fwd_def movable_def)
  have im: "{x. \<exists>s\<in>S. fwd ca' s = Some x} = insert r' {x. \<exists>s\<in>S. fwd ca s = Some x}"
    using r fr fs f0 by (auto; metis option.distinct(1) option.inject)
  have new: "fwd ca s \<noteq> Some r'" if "s \<in> S" for s
    using that inv moved_fwd [of to _ _ ca s r'] al(3) unfolding gc_inv_def allocated_def by blast
  have "s = t" if "s \<in> S" "t \<in> S" "fwd ca' s = Some x" "fwd ca' t = Some x" for s t x
  proof (cases "s = r \<or> t = r")
    case True
    then show ?thesis using that fr fs new by (metis option.inject)
  next
    case False
    then show ?thesis using that fs inv unfolding gc_inv_def by metis
  qed
  moreover have "\<exists>k0 k. ca_deref ca0 s = Some k0 \<and> movable to' k0 \<and> ca_deref ca' s = Some k \<and> moved to' k k0" if s: "s \<in> S" for s
  proof (cases "s = r")
    case True
    have "moved to' (Clause_relocate r' c) c" using rel al by (simp add: moved_def allocated_def)
    then show ?thesis using True c(1) d [OF r] movable_alloc [OF c(2) al(3)] by simp
  next
    case False
    obtain k0 k where "ca_deref ca0 s = Some k0" "movable to k0" "ca_deref ca s = Some k" "moved to k k0"
      using s inv unfolding gc_inv_def by blast
    then show ?thesis using False d [OF s] moved_alloc [OF _ al(3)] movable_alloc [OF _ al(3)] by simp
  qed
  moreover have "separated {x. \<exists>s\<in>S. fwd ca' s = Some x} to'" unfolding im using allocated_separated(1) [OF al(3) sep'] .
  moreover have "region_ok (ca_ra to')" using al(3) by (simp add: allocated_def)
  ultimately have "gc_inv S ca0 ca' to'" using u(2) unfolding gc_inv_def by blast
  moreover have "fwd ca' s = Some x" if "s \<in> S" "fwd ca s = Some x" for s x using that fs [of s] f0 by (cases "s = r") auto
  ultimately show ?thesis using fr by blast
qed

lemma ca_reloc_ok:
  assumes inv: "gc_inv S ca0 ca to" and r: "r \<in> S"
  shows "ca_reloc e r ca to = Some (Inl OutOfMemory)
    \<or> (\<exists>r' ca' to'. ca_reloc e r ca to = Some (Inr (r', ca', to')) \<and> gc_inv S ca0 ca' to' \<and> fwd ca' r = Some r'
        \<and> (\<forall>s\<in>S. \<forall>x. fwd ca s = Some x \<longrightarrow> fwd ca' s = Some x))"
proof -
  obtain c0 c where c: "ca_deref ca0 r = Some c0" "movable to c0" "ca_deref ca r = Some c" "moved to c c0"
    using inv r unfolding gc_inv_def by blast
  show ?thesis
  proof (cases "c_reloced c")
    case True
    then show ?thesis using inv c by (intro disjI2) (auto simp: ca_reloc_def fwd_def)
  next
    case fresh: False
    then have cc: "c0 = c" using c(4) by (simp add: moved_def)
    have ok: "region_ok (ca_ra to)" using inv by (simp add: gc_inv_def)
    from ca_alloc_from_ok [OF ok c(2) [unfolded cc] deref_tight [OF c(3)], of e] consider
        "ca_alloc_from e c to = Some (Inl OutOfMemory)"
      | r' to' c' where "ca_alloc_from e c to = Some (Inr (r', to'))" "same_clause c' c" "\<not> c_reloced c'" "allocated to r' c' to'"
      by blast
    then show ?thesis
    proof cases
      case 1
      then show ?thesis using c(3) fresh by (simp add: ca_reloc_def)
    next
      case (2 r' to' c')
      then show ?thesis
        using ca_reloc_fresh [OF inv r c(1-3) [unfolded cc] 2(2-4)] c(3) fresh by (simp add: ca_reloc_def)
    qed
  qed
qed

lemma reloc_live_ok:
  assumes "gc_inv S ca0 ca to" "set rs \<subseteq> S"
  shows "reloc_live e rs ca to = Some (Inl OutOfMemory)
    \<or> (\<exists>rs' ca' to'. reloc_live e rs ca to = Some (Inr (rs', ca', to')) \<and> gc_inv S ca0 ca' to'
        \<and> list_all2 (\<lambda>r r'. fwd ca' r = Some r') (filter (\<lambda>r. isRemoved ca0 r = Some False) rs) rs'
        \<and> (\<forall>s\<in>S. \<forall>x. fwd ca s = Some x \<longrightarrow> fwd ca' s = Some x))"
  using assms
proof (induction rs arbitrary: ca to)
  case Nil
  then show ?case by simp
next
  case (Cons r rs)
  have r: "r \<in> S" "set rs \<subseteq> S" using Cons.prems(2) by auto
  obtain b where b: "isRemoved ca r = Some b" "isRemoved ca0 r = Some b"
    using Cons.prems(1) r(1) unfolding gc_inv_def isRemoved_def moved_def by fastforce
  show ?case
  proof (cases b)
    case True
    then show ?thesis using Cons.IH [OF Cons.prems(1) r(2)] b by simp
  next
    case live: False
    from ca_reloc_ok [OF Cons.prems(1) r(1), of e] consider
        "ca_reloc e r ca to = Some (Inl OutOfMemory)"
      | r' ca1 to1 where "ca_reloc e r ca to = Some (Inr (r', ca1, to1))" "gc_inv S ca0 ca1 to1" "fwd ca1 r = Some r'"
          "\<forall>s\<in>S. \<forall>x. fwd ca s = Some x \<longrightarrow> fwd ca1 s = Some x"
      by blast
    then show ?thesis
    proof cases
      case 1
      then show ?thesis using b live by simp
    next
      case (2 r' ca1 to1)
      from Cons.IH [OF 2(2) r(2)] show ?thesis
      proof
        assume "reloc_live e rs ca1 to1 = Some (Inl OutOfMemory)"
        then show ?thesis using 2(1) b live by simp
      next
        assume "\<exists>rs' ca' to'. reloc_live e rs ca1 to1 = Some (Inr (rs', ca', to')) \<and> gc_inv S ca0 ca' to'
          \<and> list_all2 (\<lambda>r r'. fwd ca' r = Some r') (filter (\<lambda>r. isRemoved ca0 r = Some False) rs) rs'
          \<and> (\<forall>s\<in>S. \<forall>x. fwd ca1 s = Some x \<longrightarrow> fwd ca' s = Some x)"
        then obtain rs' ca' to' where h: "reloc_live e rs ca1 to1 = Some (Inr (rs', ca', to'))" "gc_inv S ca0 ca' to'"
          "list_all2 (\<lambda>r r'. fwd ca' r = Some r') (filter (\<lambda>r. isRemoved ca0 r = Some False) rs) rs'"
          "\<forall>s\<in>S. \<forall>x. fwd ca1 s = Some x \<longrightarrow> fwd ca' s = Some x" by blast
        have "reloc_live e (r # rs) ca to = Some (Inr (r' # rs', ca', to'))" using 2(1) h(1) b live by simp
        moreover have "list_all2 (\<lambda>r r'. fwd ca' r = Some r') (filter (\<lambda>r. isRemoved ca0 r = Some False) (r # rs)) (r' # rs')"
          using h(3,4) 2(3) b live r(1) by simp
        ultimately show ?thesis using h(2,4) 2(4) by blast
      qed
    qed
  qed
qed

end
