(* ===== verification/MiniOcc.thy ===== *)
theory MiniOcc
  imports Basic
begin

text \<open>
  \<^verbatim>\<open>src/minisat/minisat/mtl/IntMap.h\<close>, maps and sets over small integers, and the class \<^verbatim>\<open>OccLists\<close> of
  \<^verbatim>\<open>src/minisat/minisat/core/SolverTypes.h\<close>, occurrence lists with lazy deletion. Keys are the indices
  \<^verbatim>\<open>MkIndex\<close> gives; a map is the vector of its values, and \<open>None\<close> is a failed \<^verbatim>\<open>assert(has(k))\<close>.
\<close>

section \<open>class IntMap\<close>

definition im_has :: "'v list \<Rightarrow> nat \<Rightarrow> bool" where
  "im_has m k = (k < length m)"

definition im_get :: "'v list \<Rightarrow> nat \<Rightarrow> 'v option" where
  "im_get m k = (if im_has m k then Some (m ! k) else None)"

definition im_put :: "'v list \<Rightarrow> nat \<Rightarrow> 'v \<Rightarrow> 'v list option" where
  "im_put m k v = (if im_has m k then Some (m[k := v]) else None)"

definition im_reserve :: "nat \<Rightarrow> 'v \<Rightarrow> 'v list \<Rightarrow> 'v list" where
  "im_reserve k pad m = (if Suc k \<le> length m then m else m @ replicate (Suc k - length m) pad)"

definition im_insert :: "nat \<Rightarrow> 'v \<Rightarrow> 'v \<Rightarrow> 'v list \<Rightarrow> 'v list" where
  "im_insert k v pad m = (im_reserve k pad m)[k := v]"

lemma im_get_simp [simp]: "k < length m \<Longrightarrow> im_get m k = Some (m ! k)"
  by (simp add: im_get_def im_has_def)

lemma im_put_simp [simp]: "k < length m \<Longrightarrow> im_put m k v = Some (m[k := v])"
  by (simp add: im_put_def im_has_def)

lemma im_reserve_length: "length (im_reserve k pad m) = max (Suc k) (length m)"
  by (simp add: im_reserve_def max_def)

lemma im_reserve_nth: "i < max (Suc k) (length m) \<Longrightarrow> im_reserve k pad m ! i = (if i < length m then m ! i else pad)"
  by (auto simp: im_reserve_def nth_append max_def split: if_splits)

section \<open>class IntSet\<close>

record IntSet =
  in_set :: "bool list"
  iset_xs :: "nat list"

definition IntSet_new :: IntSet where
  "IntSet_new = \<lparr>in_set = [], iset_xs = []\<rparr>"

definition IntSet_size :: "IntSet \<Rightarrow> nat" where
  "IntSet_size s = length (iset_xs s)"

fun clear_flags :: "nat list \<Rightarrow> bool list \<Rightarrow> bool list option" where
  "clear_flags [] m = Some m"
| "clear_flags (x # xs) m = Option.bind (im_put m x False) (clear_flags xs)"

definition IntSet_clear :: "bool \<Rightarrow> IntSet \<Rightarrow> IntSet option" where
  "IntSet_clear free s = (if free then Some (s\<lparr>in_set := [], iset_xs := []\<rparr>)
     else map_option (\<lambda>m. s\<lparr>in_set := m, iset_xs := []\<rparr>) (clear_flags (iset_xs s) (in_set s)))"

definition IntSet_insert :: "nat \<Rightarrow> IntSet \<Rightarrow> IntSet option" where
  "IntSet_insert k s = (let m = im_reserve k False (in_set s) in
     case im_get m k of
       None \<Rightarrow> None
     | Some b \<Rightarrow> if \<not> b then map_option (\<lambda>m'. s\<lparr>in_set := m', iset_xs := iset_xs s @ [k]\<rparr>) (im_put m k True)
                 else Some (s\<lparr>in_set := m\<rparr>))"

definition IntSet_has :: "nat \<Rightarrow> IntSet \<Rightarrow> (bool \<times> IntSet) option" where
  "IntSet_has k s = (let m = im_reserve k False (in_set s) in
     map_option (\<lambda>b. (b, s\<lparr>in_set := m\<rparr>)) (im_get m k))"

definition iset_inv :: "IntSet \<Rightarrow> bool" where
  "iset_inv s = (distinct (iset_xs s) \<and> (\<forall>k. k \<in> set (iset_xs s) \<longleftrightarrow> k < length (in_set s) \<and> in_set s ! k))"

lemma clear_flags_ok:
  "\<forall>x\<in>set xs. x < length m \<Longrightarrow>
   \<exists>m'. clear_flags xs m = Some m' \<and> length m' = length m \<and> (\<forall>k<length m. m' ! k = (m ! k \<and> k \<notin> set xs))"
proof (induction xs m rule: clear_flags.induct)
  case (2 x xs m)
  then show ?case by (auto simp: nth_list_update)
qed simp

datatype iset_op = IInsert nat | IHas nat | IClear bool

fun iset_exec :: "iset_op list \<Rightarrow> IntSet \<Rightarrow> (bool list \<times> IntSet) option" where
  "iset_exec [] s = Some ([], s)"
| "iset_exec (IInsert k # os) s = Option.bind (IntSet_insert k s) (iset_exec os)"
| "iset_exec (IHas k # os) s = Option.bind (IntSet_has k s) (\<lambda>(b, s'). map_option (apfst ((#) b)) (iset_exec os s'))"
| "iset_exec (IClear f # os) s = Option.bind (IntSet_clear f s) (iset_exec os)"

fun set_exec :: "iset_op list \<Rightarrow> nat set \<Rightarrow> bool list \<times> nat set" where
  "set_exec [] S = ([], S)"
| "set_exec (IInsert k # os) S = set_exec os (insert k S)"
| "set_exec (IHas k # os) S = apfst ((#) (k \<in> S)) (set_exec os S)"
| "set_exec (IClear f # os) S = set_exec os {}"

lemma reserve_flag: "i < length (im_reserve k False m) \<and> im_reserve k False m ! i \<longleftrightarrow> i < length m \<and> m ! i"
  by (cases "i < length m") (auto simp: im_reserve_length im_reserve_nth max_def split: if_splits)

lemma iset_invD: "iset_inv s \<Longrightarrow> k \<in> set (iset_xs s) \<longleftrightarrow> k < length (in_set s) \<and> in_set s ! k"
  unfolding iset_inv_def by blast

lemma iset_inv_reserve: "iset_inv s \<Longrightarrow> iset_inv (s\<lparr>in_set := im_reserve k False (in_set s)\<rparr>)"
  unfolding iset_inv_def by (simp add: reserve_flag)

lemma IntSet_insert_ok:
  assumes "iset_inv s"
  shows "\<exists>s'. IntSet_insert k s = Some s' \<and> iset_inv s' \<and> set (iset_xs s') = insert k (set (iset_xs s))"
proof -
  let ?m = "im_reserve k False (in_set s)"
  have m: "k < length ?m" "length (in_set s) \<le> length ?m" by (simp_all add: im_reserve_length)
  have e: "i < length ?m \<and> ?m ! i \<longleftrightarrow> i \<in> set (iset_xs s)" for i
    unfolding reserve_flag iset_invD [OF assms] by simp
  show ?thesis
  proof (cases "?m ! k")
    case True
    then have "k \<in> set (iset_xs s)" using e m by blast
    moreover have "IntSet_insert k s = Some (s\<lparr>in_set := ?m\<rparr>)" using True m by (simp add: IntSet_insert_def Let_def)
    ultimately show ?thesis using iset_inv_reserve [OF assms, of k] by (simp add: insert_absorb)
  next
    case False
    then have k: "k \<notin> set (iset_xs s)" using e by blast
    define s' where "s' = s\<lparr>in_set := ?m[k := True], iset_xs := iset_xs s @ [k]\<rparr>"
    have "i \<in> set (iset_xs s') \<longleftrightarrow> i < length (in_set s') \<and> in_set s' ! i" for i
      using e [of i] m by (cases "i = k") (simp_all add: s'_def)
    then have "iset_inv s'" using k assms unfolding iset_inv_def by (simp add: s'_def)
    moreover have "IntSet_insert k s = Some s'" using False m by (simp add: IntSet_insert_def Let_def s'_def)
    ultimately show ?thesis by (simp add: s'_def)
  qed
qed

lemma IntSet_has_ok:
  assumes "iset_inv s"
  shows "\<exists>s'. IntSet_has k s = Some (k \<in> set (iset_xs s), s') \<and> iset_inv s' \<and> iset_xs s' = iset_xs s"
proof -
  let ?m = "im_reserve k False (in_set s)"
  have m: "k < length ?m" by (simp add: im_reserve_length)
  then have "?m ! k \<longleftrightarrow> k \<in> set (iset_xs s)" using reserve_flag [of k k "in_set s"] iset_invD [OF assms, of k] by blast
  then have "IntSet_has k s = Some (k \<in> set (iset_xs s), s\<lparr>in_set := ?m\<rparr>)" using m by (simp add: IntSet_has_def Let_def)
  then show ?thesis using iset_inv_reserve [OF assms, of k] by simp
qed

lemma IntSet_clear_ok:
  assumes "iset_inv s"
  shows "\<exists>s'. IntSet_clear f s = Some s' \<and> iset_inv s' \<and> iset_xs s' = []"
proof (cases f)
  case True
  then show ?thesis by (simp add: IntSet_clear_def iset_inv_def)
next
  case False
  have "\<forall>x\<in>set (iset_xs s). x < length (in_set s)" using assms by (simp add: iset_inv_def)
  then obtain m where "clear_flags (iset_xs s) (in_set s) = Some m" "length m = length (in_set s)"
    "\<forall>k<length (in_set s). m ! k = (in_set s ! k \<and> k \<notin> set (iset_xs s))"
    using clear_flags_ok by metis
  then show ?thesis using False assms by (auto simp: IntSet_clear_def iset_inv_def)
qed

lemma iset_exec_ok:
  "iset_inv s \<Longrightarrow> \<exists>s'. iset_exec os s = Some (fst (set_exec os (set (iset_xs s))), s')
     \<and> iset_inv s' \<and> set (iset_xs s') = snd (set_exec os (set (iset_xs s)))"
proof (induction os arbitrary: s)
  case (Cons q os)
  show ?case
  proof (cases q)
    case (IInsert k)
    then show ?thesis using IntSet_insert_ok [OF Cons.prems, of k] Cons.IH by fastforce
  next
    case (IHas k)
    then show ?thesis using IntSet_has_ok [OF Cons.prems, of k] Cons.IH by fastforce
  next
    case (IClear f)
    then show ?thesis using IntSet_clear_ok [OF Cons.prems, of f] Cons.IH by fastforce
  qed
qed simp

text \<open>
  The integer set refines a set: no sequence of insertions, membership tests and clearings, with or
  without releasing the memory, fails an assertion; the tests answer as for the set, and at the end
  the vector of elements lists the set without repetition, so that \<^verbatim>\<open>size\<close> is its cardinality.
\<close>

lemma intset_refines_set:
  "\<exists>s. iset_exec os IntSet_new = Some (fst (set_exec os {}), s)
     \<and> distinct (iset_xs s) \<and> set (iset_xs s) = snd (set_exec os {}) \<and> IntSet_size s = card (snd (set_exec os {}))"
proof -
  have "iset_inv IntSet_new" "iset_xs IntSet_new = []" by (simp_all add: IntSet_new_def iset_inv_def)
  then obtain s where s: "iset_exec os IntSet_new = Some (fst (set_exec os {}), s)" "iset_inv s"
    "set (iset_xs s) = snd (set_exec os {})" using iset_exec_ok [of IntSet_new os] by auto
  then show ?thesis using distinct_card [of "iset_xs s"] by (auto simp: iset_inv_def IntSet_size_def)
qed

section \<open>class OccLists\<close>

record 'w OccLists =
  occs :: "'w list list"
  occ_dirty :: "bool list"
  dirties :: "nat list"

definition OccLists_new :: "'w OccLists" where
  "OccLists_new = \<lparr>occs = [], occ_dirty = [], dirties = []\<rparr>"

definition occ_init :: "nat \<Rightarrow> 'w OccLists \<Rightarrow> 'w OccLists" where
  "occ_init k oc = oc\<lparr>occs := (im_reserve k [] (occs oc))[k := []], occ_dirty := im_reserve k False (occ_dirty oc)\<rparr>"

text \<open>\<^verbatim>\<open>clean\<close> moves the elements that are not deleted to the front and cuts off the rest.\<close>

definition occ_clean :: "('w \<Rightarrow> bool) \<Rightarrow> nat \<Rightarrow> 'w OccLists \<Rightarrow> 'w OccLists option" where
  "occ_clean deleted k oc =
     (case (im_get (occs oc) k, im_put (occ_dirty oc) k False) of
        (Some v, Some d) \<Rightarrow> Some (oc\<lparr>occs := (occs oc)[k := filter (\<lambda>w. \<not> deleted w) v], occ_dirty := d\<rparr>)
      | _ \<Rightarrow> None)"

definition occ_lookup :: "('w \<Rightarrow> bool) \<Rightarrow> nat \<Rightarrow> 'w OccLists \<Rightarrow> ('w list \<times> 'w OccLists) option" where
  "occ_lookup deleted k oc =
     (case im_get (occ_dirty oc) k of
        None \<Rightarrow> None
      | Some b \<Rightarrow> Option.bind (if b then occ_clean deleted k oc else Some oc)
                    (\<lambda>oc'. map_option (\<lambda>v. (v, oc')) (im_get (occs oc') k)))"

definition occ_smudge :: "nat \<Rightarrow> 'w OccLists \<Rightarrow> 'w OccLists option" where
  "occ_smudge k oc =
     (case im_get (occ_dirty oc) k of
        None \<Rightarrow> None
      | Some b \<Rightarrow> Some (if \<not> b then oc\<lparr>occ_dirty := (occ_dirty oc)[k := True], dirties := dirties oc @ [k]\<rparr> else oc))"

fun clean_loop :: "('w \<Rightarrow> bool) \<Rightarrow> nat list \<Rightarrow> 'w OccLists \<Rightarrow> 'w OccLists option" where
  "clean_loop deleted [] oc = Some oc"
| "clean_loop deleted (k # ks) oc =
     (case im_get (occ_dirty oc) k of
        None \<Rightarrow> None
      | Some b \<Rightarrow> Option.bind (if b then occ_clean deleted k oc else Some oc) (clean_loop deleted ks))"

definition occ_cleanAll :: "('w \<Rightarrow> bool) \<Rightarrow> 'w OccLists \<Rightarrow> 'w OccLists option" where
  "occ_cleanAll deleted oc = map_option (\<lambda>oc'. oc'\<lparr>dirties := []\<rparr>) (clean_loop deleted (dirties oc) oc)"

definition occ_put :: "nat \<Rightarrow> 'w list \<Rightarrow> 'w OccLists \<Rightarrow> 'w OccLists option" where
  "occ_put k v oc = map_option (\<lambda>m. oc\<lparr>occs := m\<rparr>) (im_put (occs oc) k v)"

definition occ_push :: "nat \<Rightarrow> 'w \<Rightarrow> 'w OccLists \<Rightarrow> 'w OccLists option" where
  "occ_push k w oc = Option.bind (im_get (occs oc) k) (\<lambda>v. occ_put k (v @ [w]) oc)"

text \<open>
  What its users keep: a list with a deleted element is marked, and marked lists are on \<^verbatim>\<open>dirties\<close>.
\<close>

definition occ_inv :: "('w \<Rightarrow> bool) \<Rightarrow> 'w OccLists \<Rightarrow> bool" where
  "occ_inv deleted oc = (length (occ_dirty oc) = length (occs oc) \<and> set (dirties oc) \<subseteq> {..<length (occs oc)}
     \<and> (\<forall>k<length (occs oc). (occ_dirty oc ! k \<longrightarrow> k \<in> set (dirties oc))
          \<and> (occ_dirty oc ! k \<or> list_all (\<lambda>w. \<not> deleted w) (occs oc ! k))))"

lemma filter_id_iff: "list_all P xs \<Longrightarrow> filter P xs = xs"
  by (simp add: list_all_iff)

lemma occ_lookup_live:
  assumes "occ_inv deleted oc" "k < length (occs oc)"
  shows "\<exists>oc'. occ_lookup deleted k oc = Some (filter (\<lambda>w. \<not> deleted w) (occs oc ! k), oc') \<and> occ_inv deleted oc'
    \<and> occs oc' = (occs oc)[k := filter (\<lambda>w. \<not> deleted w) (occs oc ! k)]"
proof -
  have l: "k < length (occ_dirty oc)" using assms by (simp add: occ_inv_def)
  show ?thesis
  proof (cases "occ_dirty oc ! k")
    case True
    then show ?thesis using assms l
      by (auto simp: occ_lookup_def occ_clean_def occ_inv_def nth_list_update list_all_iff)
  next
    case False
    then have "filter (\<lambda>w. \<not> deleted w) (occs oc ! k) = occs oc ! k"
      using assms by (auto simp: occ_inv_def intro: filter_id_iff)
    then show ?thesis using assms l False by (simp add: occ_lookup_def list_update_id)
  qed
qed

end
