(* ===== verification/MiniCore.thy ===== *)
theory MiniCore
  imports MiniHeap MiniAlloc MiniOcc Floats
begin

text \<open>
  The core of MiniSat, \<^verbatim>\<open>src/minisat/minisat/core/Solver.cc\<close> and \<^verbatim>\<open>Solver.h\<close>: variables, assignment and trail,
  adding clauses, and unit propagation over two watched literals per clause. The clauses live in
  the allocator of \<open>MiniAlloc\<close> and are reordered in place; the watch lists are the occurrence lists
  of \<open>MiniOcc\<close>. \<open>None\<close> is a failed assertion or an access out of bounds (in propagation also a loop
  that does not end); running out of memory is an error value.
\<close>

section \<open>State\<close>

definition CRef_Undef :: "32 word" where "CRef_Undef = - 1"

record VarData =
  vd_reason :: "32 word"
  vd_level :: nat

record Watcher =
  w_cref :: "32 word"
  w_blocker :: Lit

text \<open>
  The fields these operations use; those of the search alone (assumptions, increments of the
  activities, learnt-clause limits, budgets, temporaries of the analysis) are left out, as is the
  capacity of the trail. The counters of the statistics are 64-bit words. Activities are \<^verbatim>\<open>double\<close>s;
  the random initial activity is off by default and left out.
\<close>

record Solver =
  sv_clauses :: "32 word list"
  sv_learnts :: "32 word list"
  sv_trail :: "Lit list"
  sv_trail_lim :: "nat list"
  sv_activity :: "fp list"
  sv_assigns :: "mlbool list"
  sv_polarity :: "bool list"
  sv_user_pol :: "mlbool list"
  sv_decision :: "bool list"
  sv_vardata :: "VarData list"
  sv_watches :: "Watcher OccLists"
  sv_order_heap :: Heap
  sv_ok :: bool
  sv_qhead :: nat
  sv_simpDB_props :: int
  sv_next_var :: nat
  sv_ca :: ClauseAllocator
  sv_released_vars :: "nat list"
  sv_free_vars :: "nat list"
  sv_seen :: "nat list"
  sv_propagations :: "64 word"
  sv_dec_vars :: "64 word"
  sv_num_clauses :: "64 word"
  sv_num_learnts :: "64 word"
  sv_clauses_literals :: "64 word"
  sv_learnts_literals :: "64 word"
  sv_phase_saving :: int

section \<open>Inline functions\<close>

definition decisionLevel :: "Solver \<Rightarrow> nat" where
  "decisionLevel s = length (sv_trail_lim s)"

definition lit_index :: "Lit \<Rightarrow> nat" where
  "lit_index p = unat p"

definition var_index :: "Lit \<Rightarrow> nat" where
  "var_index p = unat (Lit_var p)"

definition sv_value :: "Solver \<Rightarrow> Lit \<Rightarrow> mlbool option" where
  "sv_value s p = map_option (\<lambda>a. mlbool_xor a (Lit_sign p)) (im_get (sv_assigns s) (var_index p))"

definition newDecisionLevel :: "Solver \<Rightarrow> Solver" where
  "newDecisionLevel s = s\<lparr>sv_trail_lim := sv_trail_lim s @ [length (sv_trail s)]\<rparr>"

text \<open>\<^verbatim>\<open>operator ()\<close> of \<^verbatim>\<open>VarOrderLt\<close> and of \<^verbatim>\<open>WatcherDeleted\<close>.\<close>

definition VarOrderLt :: "fp list \<Rightarrow> nat \<Rightarrow> nat \<Rightarrow> bool" where
  "VarOrderLt act x y = fp_less (act ! y) (act ! x)"

definition WatcherDeleted :: "ClauseAllocator \<Rightarrow> Watcher \<Rightarrow> bool" where
  "WatcherDeleted ca w = (isRemoved ca (w_cref w) = Some True)"

definition insertVarOrder :: "nat \<Rightarrow> Solver \<Rightarrow> Solver option" where
  "insertVarOrder x s = Option.bind (im_get (sv_decision s) x) (\<lambda>d.
     if \<not> inHeap x (sv_order_heap s) \<and> d
     then map_option (\<lambda>h. s\<lparr>sv_order_heap := h\<rparr>) (heap_insert (VarOrderLt (sv_activity s)) x (sv_order_heap s))
     else Some s)"

definition setDecisionVar :: "nat \<Rightarrow> bool \<Rightarrow> Solver \<Rightarrow> Solver option" where
  "setDecisionVar v b s = Option.bind (im_get (sv_decision s) v) (\<lambda>d.
     insertVarOrder v (s\<lparr>sv_dec_vars := (if b \<and> \<not> d then sv_dec_vars s + 1 else if \<not> b \<and> d then sv_dec_vars s - 1 else sv_dec_vars s),
                         sv_decision := (sv_decision s)[v := b]\<rparr>))"

definition uncheckedEnqueue :: "Lit \<Rightarrow> 32 word \<Rightarrow> Solver \<Rightarrow> Solver option" where
  "uncheckedEnqueue p from s = do {
     v \<leftarrow> sv_value s p;
     if mlbool_eq v ml_Undef then do {
       as \<leftarrow> im_put (sv_assigns s) (var_index p) (mlbool_of_bool (\<not> Lit_sign p));
       vd \<leftarrow> im_put (sv_vardata s) (var_index p) \<lparr>vd_reason = from, vd_level = decisionLevel s\<rparr>;
       Some (s\<lparr>sv_assigns := as, sv_vardata := vd, sv_trail := sv_trail s @ [p]\<rparr>)
     } else None }"

section \<open>Backtracking\<close>

text \<open>The loop of \<^verbatim>\<open>cancelUntil\<close> over the trail, downwards to position \<open>bnd\<close>.\<close>

fun cancel_loop :: "nat \<Rightarrow> nat \<Rightarrow> Solver \<Rightarrow> Solver option" where
  "cancel_loop bnd 0 s = Some s"
| "cancel_loop bnd (Suc c) s =
     (if bnd \<le> c then do {
        let p = sv_trail s ! c;
        let x = var_index p;
        as \<leftarrow> im_put (sv_assigns s) x ml_Undef;
        pol \<leftarrow> (if 1 < sv_phase_saving s \<or> sv_phase_saving s = 1 \<and> last (sv_trail_lim s) < c
                then im_put (sv_polarity s) x (Lit_sign p) else Some (sv_polarity s));
        s' \<leftarrow> insertVarOrder x (s\<lparr>sv_assigns := as, sv_polarity := pol\<rparr>);
        cancel_loop bnd c s' }
      else Some s)"

definition cancelUntil :: "nat \<Rightarrow> Solver \<Rightarrow> Solver option" where
  "cancelUntil level s =
     (if level < decisionLevel s
      then map_option (\<lambda>s'. s'\<lparr>sv_qhead := sv_trail_lim s ! level, sv_trail := take (sv_trail_lim s ! level) (sv_trail s'),
                              sv_trail_lim := take level (sv_trail_lim s')\<rparr>)
             (cancel_loop (sv_trail_lim s ! level) (length (sv_trail s)) s)
      else Some s)"

section \<open>Variables\<close>

definition newVar :: "mlbool \<Rightarrow> bool \<Rightarrow> Solver \<Rightarrow> (nat \<times> Solver) option" where
  "newVar upol dvar s =
     (let v = (if sv_free_vars s \<noteq> [] then last (sv_free_vars s) else sv_next_var s);
          s1 = (if sv_free_vars s \<noteq> [] then s\<lparr>sv_free_vars := butlast (sv_free_vars s)\<rparr> else s\<lparr>sv_next_var := sv_next_var s + 1\<rparr>);
          s2 = s1\<lparr>sv_watches := occ_init (lit_index (Lit_mk (of_nat v) True)) (occ_init (lit_index (Lit_mk (of_nat v) False)) (sv_watches s1)),
                  sv_assigns := im_insert v ml_Undef 0 (sv_assigns s1),
                  sv_vardata := im_insert v \<lparr>vd_reason = CRef_Undef, vd_level = 0\<rparr> \<lparr>vd_reason = 0, vd_level = 0\<rparr> (sv_vardata s1),
                  sv_activity := im_insert v (Fp 0 0) (Fp 0 0) (sv_activity s1),
                  sv_seen := im_insert v 0 0 (sv_seen s1),
                  sv_polarity := im_insert v True False (sv_polarity s1),
                  sv_user_pol := im_insert v upol 0 (sv_user_pol s1),
                  sv_decision := im_reserve v False (sv_decision s1)\<rparr>
      in map_option (Pair v) (setDecisionVar v dvar s2))"

section \<open>Attaching clauses\<close>

definition attachClause :: "32 word \<Rightarrow> Solver \<Rightarrow> Solver option" where
  "attachClause cr s = do {
     c \<leftarrow> ca_deref (sv_ca s) cr;
     if 1 < Clause_size c then do {
       w1 \<leftarrow> occ_push (lit_index (Lit_neg (c_data c ! 0))) \<lparr>w_cref = cr, w_blocker = c_data c ! 1\<rparr> (sv_watches s);
       w2 \<leftarrow> occ_push (lit_index (Lit_neg (c_data c ! 1))) \<lparr>w_cref = cr, w_blocker = c_data c ! 0\<rparr> w1;
       let n = of_nat (Clause_size c);
       Some (if c_learnt c
             then s\<lparr>sv_watches := w2, sv_num_learnts := sv_num_learnts s + 1, sv_learnts_literals := sv_learnts_literals s + n\<rparr>
             else s\<lparr>sv_watches := w2, sv_num_clauses := sv_num_clauses s + 1, sv_clauses_literals := sv_clauses_literals s + n\<rparr>)
     } else None }"

section \<open>Propagation\<close>

text \<open>The search for a new watch: the first literal from position \<open>k\<close> on that is not false.\<close>

fun find_watch :: "Solver \<Rightarrow> Lit list \<Rightarrow> nat \<Rightarrow> nat option option" where
  "find_watch s [] k = Some None"
| "find_watch s (l # ls) k = do {
     v \<leftarrow> sv_value s l;
     if \<not> mlbool_eq v ml_False then Some (Some k) else find_watch s ls (Suc k) }"

definition set_clause :: "32 word \<Rightarrow> Clause \<Rightarrow> Solver \<Rightarrow> Solver" where
  "set_clause cr c s = s\<lparr>sv_ca := ca_update cr c (sv_ca s)\<rparr>"

text \<open>
  The loop over the watchers of \<open>p\<close>: \<open>ws\<close> are those from \<^verbatim>\<open>i\<close> to \<^verbatim>\<open>end\<close>, \<open>kept\<close> those before \<^verbatim>\<open>j\<close>. The
  result is the conflicting clause, the final list and the state. A push to the list under
  traversal would invalidate \<^verbatim>\<open>i\<close> and \<^verbatim>\<open>j\<close> and is \<open>None\<close>.
\<close>

fun propagate_ws :: "Lit \<Rightarrow> 32 word \<Rightarrow> Watcher list \<Rightarrow> Watcher list \<Rightarrow> Solver \<Rightarrow> (32 word \<times> Watcher list \<times> Solver) option" where
  "propagate_ws p confl [] kept s = Some (confl, kept, s)"
| "propagate_ws p confl (i # ws) kept s = do {
     let blocker = w_blocker i;
     vb \<leftarrow> sv_value s blocker;
     if mlbool_eq vb ml_True then propagate_ws p confl ws (kept @ [i]) s
     else do {
       let cr = w_cref i;
       c0 \<leftarrow> ca_deref (sv_ca s) cr;
       let false_lit = Lit_neg p;
       let c = (if c_data c0 ! 0 = false_lit then c0\<lparr>c_data := (c_data c0)[0 := c_data c0 ! 1, 1 := false_lit]\<rparr> else c0);
       if c_data c ! 1 \<noteq> false_lit then None else do {
       let s1 = set_clause cr c s;
       let first = c_data c ! 0;
       let w = \<lparr>w_cref = cr, w_blocker = first\<rparr>;
       vf \<leftarrow> sv_value s1 first;
       if first \<noteq> blocker \<and> mlbool_eq vf ml_True then propagate_ws p confl ws (kept @ [w]) s1
       else do {
         nw \<leftarrow> find_watch s1 (drop 2 (Clause_lits c)) 2;
         case nw of
           Some k \<Rightarrow> do {
             let c' = c\<lparr>c_data := (c_data c)[1 := c_data c ! k, k := false_lit]\<rparr>;
             let q = Lit_neg (c_data c' ! 1);
             if q = p then None else do {
             wt \<leftarrow> occ_push (lit_index q) w (sv_watches s1);
             propagate_ws p confl ws kept ((set_clause cr c' s1)\<lparr>sv_watches := wt\<rparr>) } }
         | None \<Rightarrow>
             if mlbool_eq vf ml_False then Some (cr, kept @ [w] @ ws, s1\<lparr>sv_qhead := length (sv_trail s1)\<rparr>)
             else do {
               s2 \<leftarrow> uncheckedEnqueue first cr s1;
               propagate_ws p confl ws (kept @ [w]) s2 } } } } }"

partial_function (option) propagate_loop :: "32 word \<Rightarrow> nat \<Rightarrow> Solver \<Rightarrow> (32 word \<times> nat \<times> Solver) option" where
  "propagate_loop confl num_props s =
     (if sv_qhead s < length (sv_trail s)
      then do {
        let p = sv_trail s ! sv_qhead s;
        let s1 = s\<lparr>sv_qhead := sv_qhead s + 1\<rparr>;
        (ws, wt) \<leftarrow> occ_lookup (WatcherDeleted (sv_ca s1)) (lit_index p) (sv_watches s1);
        (confl', kept, s2) \<leftarrow> propagate_ws p confl ws [] (s1\<lparr>sv_watches := wt\<rparr>);
        wt' \<leftarrow> occ_put (lit_index p) kept (sv_watches s2);
        propagate_loop confl' (num_props + 1) (s2\<lparr>sv_watches := wt'\<rparr>) }
      else Some (confl, num_props, s))"

declare propagate_loop.simps [code]

definition propagate_core :: "Solver \<Rightarrow> (32 word \<times> Solver) option" where
  "propagate_core s = map_option (\<lambda>(confl, num_props, s').
       (confl, s'\<lparr>sv_propagations := sv_propagations s' + of_nat num_props, sv_simpDB_props := sv_simpDB_props s' - int num_props\<rparr>))
     (propagate_loop CRef_Undef 0 s)"

section \<open>Adding clauses\<close>

text \<open>
  The loop that removes false and repeated literals: \<open>None\<close> inside the result means that the clause is
  satisfied or a tautology.
\<close>

fun add_filter :: "Solver \<Rightarrow> Lit \<Rightarrow> Lit list \<Rightarrow> Lit list option option" where
  "add_filter s p [] = Some (Some [])"
| "add_filter s p (l # ls) = do {
     v \<leftarrow> sv_value s l;
     if mlbool_eq v ml_True \<or> l = Lit_neg p then Some None
     else if \<not> mlbool_eq v ml_False \<and> l \<noteq> p then map_option (map_option ((#) l)) (add_filter s l ls)
     else add_filter s p ls }"

definition addClause :: "mem_env \<Rightarrow> Lit list \<Rightarrow> Solver \<Rightarrow> (alloc_error + bool \<times> Solver) option" where
  "addClause e ps s =
     (if decisionLevel s \<noteq> 0 then None
      else if \<not> sv_ok s then Some (Inr (False, s))
      else do {
        qs \<leftarrow> sort_array Lit_less ps;
        r \<leftarrow> add_filter s lit_Undef qs;
        case r of
          None \<Rightarrow> Some (Inr (True, s))
        | Some [] \<Rightarrow> Some (Inr (False, s\<lparr>sv_ok := False\<rparr>))
        | Some [l] \<Rightarrow> do {
            s1 \<leftarrow> uncheckedEnqueue l CRef_Undef s;
            (confl, s2) \<leftarrow> propagate_core s1;
            Some (Inr (confl = CRef_Undef, s2\<lparr>sv_ok := (confl = CRef_Undef)\<rparr>)) }
        | Some ls \<Rightarrow> do {
            x \<leftarrow> ca_alloc e ls False (sv_ca s);
            case x of
              Inl err \<Rightarrow> Some (Inl err)
            | Inr (cr, ca) \<Rightarrow> do {
                s1 \<leftarrow> attachClause cr (s\<lparr>sv_ca := ca, sv_clauses := sv_clauses s @ [cr]\<rparr>);
                Some (Inr (True, s1)) } } })"

definition Solver_new :: "ClauseAllocator \<Rightarrow> Solver" where
  "Solver_new ca = \<lparr>sv_clauses = [], sv_learnts = [], sv_trail = [], sv_trail_lim = [], sv_activity = [], sv_assigns = [],
     sv_polarity = [], sv_user_pol = [], sv_decision = [], sv_vardata = [], sv_watches = OccLists_new, sv_order_heap = Heap_new,
     sv_ok = True, sv_qhead = 0, sv_simpDB_props = 0, sv_next_var = 0, sv_ca = ca, sv_released_vars = [], sv_free_vars = [],
     sv_seen = [], sv_propagations = 0, sv_dec_vars = 0, sv_num_clauses = 0, sv_num_learnts = 0, sv_clauses_literals = 0,
     sv_learnts_literals = 0, sv_phase_saving = 2\<rparr>"

end
