(* ===== verification/MiniProp.thy ===== *)
theory MiniProp
  imports MiniCore
begin

text \<open>
  Unit propagation of \<open>MiniCore\<close> is correct: the invariant of the trail, the clauses and the watch
  lists, that every step keeps it, and what it gives.
\<close>

section \<open>Indices of literals\<close>

definition slit_ok :: "nat \<Rightarrow> Lit \<Rightarrow> bool" where
  "slit_ok n l = (unat l < 2 * n)"

lemma bit31: "unat (l :: 32 word) < 2 ^ 31 \<Longrightarrow> \<not> bit l 31"
proof
  assume a: "unat l < 2 ^ 31" "bit l 31"
  then have "bit (unat l) 31" by (simp add: bit_unsigned_iff)
  then show False using a(1) by (simp add: bit_iff_odd)
qed

lemma var_index_half: "unat l < 2 ^ 31 \<Longrightarrow> var_index l = unat l div 2"
proof -
  assume a: "unat l < 2 ^ 31"
  have "signed_drop_bit 1 l = drop_bit 1 l"
  proof (rule bit_word_eqI)
    fix n assume n: "n < LENGTH(32)"
    then show "bit (signed_drop_bit 1 l) n = bit (drop_bit 1 l) n"
      using bit31 [OF a] by (cases "n = 31") (auto simp: bit_simps min_def dest: bit_imp_le_length)
  qed
  then show ?thesis by (simp add: var_index_def Lit_var_def unat_drop_bit_eq drop_bit_eq_div unat_div)
qed

lemma Lit_sign_odd: "Lit_sign l = odd (unat l)"
proof -
  have "odd (unat l) \<longleftrightarrow> odd l" using bit_unsigned_iff [of l 0, where ?'a = nat] by (simp add: bit_0)
  then show ?thesis by (simp add: Lit_sign_def and_one_eq mod2_eq_if)
qed

lemma unat_Lit_neg: "unat (Lit_neg l) = (if even (unat l) then unat l + 1 else unat l - 1)"
proof -
  have "unat (Lit_neg l) = unat l XOR 1" by (simp add: Lit_neg_def unsigned_xor_eq)
  also have "\<dots> = (if even (unat l) then unat l + 1 else unat l - 1)"
    by (auto elim!: evenE oddE simp: xor_nat_unfold)
  finally show ?thesis .
qed

lemma slit_ok_neg [simp]: "slit_ok n (Lit_neg l) = slit_ok n l"
  unfolding slit_ok_def unat_Lit_neg by presburger

lemma slit_ok_bound: "slit_ok n l \<Longrightarrow> n \<le> 2 ^ 30 \<Longrightarrow> unat l < 2 ^ 31"
  by (simp add: slit_ok_def)

lemma slit_ok_var: "slit_ok n l \<Longrightarrow> n \<le> 2 ^ 30 \<Longrightarrow> var_index l < n"
  using var_index_half [OF slit_ok_bound] by (simp add: slit_ok_def)

lemma var_index_neg [simp]: "var_index (Lit_neg l) = var_index l"
  by (simp add: var_index_def)

lemma var_index_eq:
  assumes "unat l < 2 ^ 31" "unat m < 2 ^ 31" "var_index l = var_index m"
  shows "m = l \<or> m = Lit_neg l"
proof -
  have "unat l div 2 = unat m div 2" using assms by (simp add: var_index_half)
  then have "unat m = unat l \<or> unat m = unat (Lit_neg l)" unfolding unat_Lit_neg by presburger
  then show ?thesis by (metis unsigned_word_eqI)
qed

section \<open>Trail and assignment\<close>

definition trail_inv :: "nat \<Rightarrow> Solver \<Rightarrow> bool" where
  "trail_inv n s = (n \<le> 2 ^ 30 \<and> length (sv_assigns s) = n \<and> length (sv_vardata s) = n
     \<and> set (sv_assigns s) \<subseteq> {0, 1, 2} \<and> distinct (sv_trail s) \<and> (\<forall>l\<in>set (sv_trail s). slit_ok n l)
     \<and> (\<forall>l. slit_ok n l \<longrightarrow> (l \<in> set (sv_trail s) \<longleftrightarrow> sv_assigns s ! var_index l = of_bool (Lit_sign l))))"

lemma value_cases:
  assumes "trail_inv n s" "slit_ok n l"
  obtains a where "sv_value s l = Some a" "mlbool_eq a ml_True \<longleftrightarrow> l \<in> set (sv_trail s)"
    "mlbool_eq a ml_False \<longleftrightarrow> Lit_neg l \<in> set (sv_trail s)"
    "mlbool_eq a ml_Undef \<longleftrightarrow> l \<notin> set (sv_trail s) \<and> Lit_neg l \<notin> set (sv_trail s)"
proof -
  have v: "var_index l < length (sv_assigns s)" using assms slit_ok_var by (auto simp: trail_inv_def)
  let ?a = "sv_assigns s ! var_index l"
  have a: "?a \<in> {0, 1, 2}" using assms(1) v nth_mem [OF v] unfolding trail_inv_def by blast
  have t: "l \<in> set (sv_trail s) \<longleftrightarrow> ?a = of_bool (Lit_sign l)" "Lit_neg l \<in> set (sv_trail s) \<longleftrightarrow> ?a = of_bool (\<not> Lit_sign l)"
    using assms unfolding trail_inv_def by (auto dest: spec [of _ l] spec [of _ "Lit_neg l"])
  have "sv_value s l = Some (mlbool_xor ?a (Lit_sign l))" using v by (simp add: sv_value_def)
  moreover have "mlbool_eq (mlbool_xor ?a (Lit_sign l)) ml_True \<longleftrightarrow> l \<in> set (sv_trail s)"
    "mlbool_eq (mlbool_xor ?a (Lit_sign l)) ml_False \<longleftrightarrow> Lit_neg l \<in> set (sv_trail s)"
    "mlbool_eq (mlbool_xor ?a (Lit_sign l)) ml_Undef \<longleftrightarrow> l \<notin> set (sv_trail s) \<and> Lit_neg l \<notin> set (sv_trail s)"
    unfolding t using a by (cases "Lit_sign l"; auto simp: mlbool_defs)+
  ultimately show ?thesis using that by blast
qed

lemma trail_consistent:
  assumes "trail_inv n s" "l \<in> set (sv_trail s)"
  shows "Lit_neg l \<notin> set (sv_trail s)"
proof -
  have "slit_ok n l" using assms by (simp add: trail_inv_def)
  then show ?thesis using assms unfolding trail_inv_def by (auto dest: spec [of _ l] spec [of _ "Lit_neg l"])
qed

lemma enqueue_ok:
  assumes inv: "trail_inv n s" and l: "slit_ok n l" "l \<notin> set (sv_trail s)" "Lit_neg l \<notin> set (sv_trail s)"
  shows "\<exists>as vd. uncheckedEnqueue l from s = Some (s\<lparr>sv_assigns := as, sv_vardata := vd, sv_trail := sv_trail s @ [l]\<rparr>)
    \<and> trail_inv n (s\<lparr>sv_assigns := as, sv_vardata := vd, sv_trail := sv_trail s @ [l]\<rparr>)"
proof -
  obtain a where a: "sv_value s l = Some a" "mlbool_eq a ml_Undef" using value_cases [OF inv l(1)] l(2,3) by metis
  have n: "n \<le> 2 ^ 30" and v: "var_index l < length (sv_assigns s)" "var_index l < length (sv_vardata s)"
    using inv slit_ok_var [OF l(1)] by (auto simp: trail_inv_def)
  let ?as = "(sv_assigns s)[var_index l := mlbool_of_bool (\<not> Lit_sign l)]"
  let ?vd = "(sv_vardata s)[var_index l := \<lparr>vd_reason = from, vd_level = decisionLevel s\<rparr>]"
  let ?s = "s\<lparr>sv_assigns := ?as, sv_vardata := ?vd, sv_trail := sv_trail s @ [l]\<rparr>"
  have r: "uncheckedEnqueue l from s = Some ?s" using a v by (simp add: uncheckedEnqueue_def)
  have b: "mlbool_of_bool (\<not> Lit_sign l) = of_bool (Lit_sign l)" by (simp add: mlbool_of_bool_def)
  have "m \<in> set (sv_trail ?s) \<longleftrightarrow> sv_assigns ?s ! var_index m = of_bool (Lit_sign m)" if m: "slit_ok n m" for m
  proof (cases "var_index m = var_index l")
    case True
    then have "m = l \<or> m = Lit_neg l" using var_index_eq [of l m] l(1) m n slit_ok_bound by metis
    then show ?thesis using v b l by (auto simp: of_bool_eq_iff)
  next
    case False
    then have "m \<noteq> l" by auto
    moreover have "m \<in> set (sv_trail s) \<longleftrightarrow> sv_assigns s ! var_index m = of_bool (Lit_sign m)"
      using inv m unfolding trail_inv_def by blast
    ultimately show ?thesis using False by simp
  qed
  moreover have "set ?as \<subseteq> {0, 1, 2}"
    using set_update_subset_insert [of "sv_assigns s" "var_index l" "mlbool_of_bool (\<not> Lit_sign l)"] inv
    unfolding b trail_inv_def by (auto split: if_splits)
  ultimately have "trail_inv n ?s" using inv l unfolding trail_inv_def by simp
  then show ?thesis using r by blast
qed

section \<open>Clauses and watch lists\<close>

definition cl :: "Solver \<Rightarrow> 32 word \<Rightarrow> Lit list" where
  "cl s cr = (case ca_deref (sv_ca s) cr of None \<Rightarrow> [] | Some c \<Rightarrow> Clause_lits c)"

definition wl :: "Solver \<Rightarrow> Lit \<Rightarrow> Watcher list" where
  "wl s p = occs (sv_watches s) ! lit_index p"

definition lits_ok :: "nat \<Rightarrow> Lit list \<Rightarrow> bool" where
  "lits_ok n ls = (2 \<le> length ls \<and> (\<forall>l\<in>set ls. slit_ok n l) \<and> distinct ls \<and> (\<forall>l\<in>set ls. Lit_neg l \<notin> set ls))"

definition clause_in :: "nat \<Rightarrow> Clause \<Rightarrow> bool" where
  "clause_in n c = (Clause_size c \<le> length (c_data c) \<and> c_mark c \<noteq> 1 \<and> lits_ok n (Clause_lits c))"

definition store_ok :: "32 word set \<Rightarrow> nat \<Rightarrow> Solver \<Rightarrow> bool" where
  "store_ok A n s = (region_ok (ca_ra (sv_ca s)) \<and> separated A (sv_ca s) \<and> (\<forall>cr\<in>A. \<exists>c. ca_deref (sv_ca s) cr = Some c \<and> clause_in n c))"

definition lists_ok :: "nat \<Rightarrow> Solver \<Rightarrow> bool" where
  "lists_ok n s = (length (occs (sv_watches s)) = 2 * n \<and> length (occ_dirty (sv_watches s)) = 2 * n
     \<and> (\<forall>i<2 * n. \<not> occ_dirty (sv_watches s) ! i))"

definition watched :: "Lit list \<Rightarrow> Lit \<Rightarrow> bool" where
  "watched ls l = (l = ls ! 0 \<or> l = ls ! 1)"

definition list_watch :: "32 word set \<Rightarrow> (32 word \<Rightarrow> Lit list) \<Rightarrow> Lit \<Rightarrow> Watcher list \<Rightarrow> bool" where
  "list_watch A C p L = (distinct (map w_cref L) \<and> (\<forall>w\<in>set L. w_blocker w \<in> set (C (w_cref w)))
     \<and> (\<forall>cr. cr \<in> set (map w_cref L) \<longleftrightarrow> cr \<in> A \<and> watched (C cr) (Lit_neg p)))"

definition watch_ok :: "32 word set \<Rightarrow> nat \<Rightarrow> (32 word \<Rightarrow> Lit list) \<Rightarrow> (Lit \<Rightarrow> Watcher list) \<Rightarrow> bool" where
  "watch_ok A n C W = (\<forall>p. slit_ok n p \<longrightarrow> list_watch A C p (W p))"

text \<open>
  Propagation up to position \<open>q\<close> of the trail is complete: a clause with a watched literal made false
  there has a true literal, unless the visit of the pair is outstanding (\<open>E\<close>); and at the start of
  every decision level in \<open>K\<close> this held, so that it holds again after backtracking.
\<close>

definition prop_ok :: "32 word set \<Rightarrow> (32 word \<Rightarrow> Lit list) \<Rightarrow> (32 word \<times> Lit) set \<Rightarrow> Lit list \<Rightarrow> nat \<Rightarrow> bool" where
  "prop_ok A C E tr q = (\<forall>cr\<in>A. \<forall>l. watched (C cr) l \<and> Lit_neg l \<in> set (take q tr) \<longrightarrow>
     (cr, l) \<in> E \<or> (\<exists>t\<in>set (C cr). t \<in> set tr))"

definition levels_ok :: "32 word set \<Rightarrow> (32 word \<Rightarrow> Lit list) \<Rightarrow> nat list \<Rightarrow> Lit list \<Rightarrow> bool" where
  "levels_ok A C K tr = (\<forall>k\<in>set K. prop_ok A C {} (take k tr) k)"

lemma cl_deref [simp]: "ca_deref (sv_ca s) cr = Some c \<Longrightarrow> cl s cr = Clause_lits c"
  by (simp add: cl_def)

lemma list_watchD:
  assumes "list_watch A C p L" "w \<in> set L"
  shows "w_cref w \<in> A" "watched (C (w_cref w)) (Lit_neg p)" "w_blocker w \<in> set (C (w_cref w))"
  using assms unfolding list_watch_def by auto

text \<open>Reordering a clause that keeps its watched pair.\<close>

definition same_watch :: "32 word set \<Rightarrow> (32 word \<Rightarrow> Lit list) \<Rightarrow> (32 word \<Rightarrow> Lit list) \<Rightarrow> bool" where
  "same_watch A C D = (\<forall>cr\<in>A. set (D cr) = set (C cr) \<and> watched (D cr) = watched (C cr))"

lemma list_watch_same: "same_watch A C D \<Longrightarrow> list_watch A C p L \<Longrightarrow> list_watch A D p L"
  unfolding list_watch_def same_watch_def by (metis (no_types, lifting) image_eqI list.set_map)

lemma watch_ok_same: "same_watch A C D \<Longrightarrow> watch_ok A n C W \<Longrightarrow> watch_ok A n D W"
  unfolding watch_ok_def using list_watch_same by blast

lemma prop_ok_same: "same_watch A C D \<Longrightarrow> prop_ok A C E tr q \<Longrightarrow> prop_ok A D E tr q"
  unfolding prop_ok_def same_watch_def by simp

lemma levels_ok_same: "same_watch A C D \<Longrightarrow> levels_ok A C K tr \<Longrightarrow> levels_ok A D K tr"
  unfolding levels_ok_def using prop_ok_same by blast

lemma prop_ok_extend: "prop_ok A C E tr q \<Longrightarrow> q \<le> length tr \<Longrightarrow> prop_ok A C E (tr @ ts) q"
  unfolding prop_ok_def by auto

lemma levels_ok_extend: "levels_ok A C K tr \<Longrightarrow> \<forall>k\<in>set K. k \<le> length tr \<Longrightarrow> levels_ok A C K (tr @ ts)"
  unfolding levels_ok_def by simp

lemma prop_ok_visit:
  assumes "prop_ok A C (insert (cr, l) E) tr q" "t \<in> set (C cr)" "t \<in> set tr"
  shows "prop_ok A C E tr q"
  using assms unfolding prop_ok_def by blast

section \<open>Reordering a clause\<close>

lemma lits_ok_mset: "lits_ok n xs \<Longrightarrow> mset ys = mset xs \<Longrightarrow> lits_ok n ys"
  unfolding lits_ok_def by (metis mset_eq_imp_distinct_iff mset_eq_length mset_eq_setD)

lemma clause_in_size: "clause_in n c \<Longrightarrow> length (Clause_lits c) = Clause_size c \<and> 2 \<le> Clause_size c"
  by (auto simp: clause_in_def lits_ok_def Clause_lits_def)

lemma clause_in_nth: "clause_in n c \<Longrightarrow> i < Clause_size c \<Longrightarrow> c_data c ! i = Clause_lits c ! i"
  by (simp add: Clause_lits_def)

lemma data_swap:
  assumes "clause_in n c" "i < Clause_size c" "j < Clause_size c"
  shows "clause_in n (c\<lparr>c_data := (c_data c)[i := c_data c ! j, j := c_data c ! i]\<rparr>)
    \<and> Clause_lits (c\<lparr>c_data := (c_data c)[i := c_data c ! j, j := c_data c ! i]\<rparr>) = (Clause_lits c)[i := Clause_lits c ! j, j := Clause_lits c ! i]
    \<and> mset (Clause_lits (c\<lparr>c_data := (c_data c)[i := c_data c ! j, j := c_data c ! i]\<rparr>)) = mset (Clause_lits c)"
proof -
  let ?c = "c\<lparr>c_data := (c_data c)[i := c_data c ! j, j := c_data c ! i]\<rparr>"
  have l: "Clause_lits ?c = (Clause_lits c)[i := Clause_lits c ! j, j := Clause_lits c ! i]"
    using assms(2,3) by (simp add: Clause_lits_def Clause_size_def take_update_swap)
  moreover have m: "mset (Clause_lits ?c) = mset (Clause_lits c)"
    unfolding l using assms clause_in_size [OF assms(1)] by (intro mset_swap) auto
  moreover have "clause_in n ?c" using assms(1) lits_ok_mset [OF _ m] unfolding clause_in_def by (auto simp: Clause_size_def)
  ultimately show ?thesis by blast
qed

text \<open>\<^verbatim>\<open>Make sure the false literal is data[1]\<close>.\<close>

definition to_front :: "Lit \<Rightarrow> Clause \<Rightarrow> Clause" where
  "to_front f c0 = (if c_data c0 ! 0 = f then c0\<lparr>c_data := (c_data c0)[0 := c_data c0 ! 1, 1 := f]\<rparr> else c0)"

lemma to_front_ok:
  assumes c: "clause_in n c0" and w: "watched (Clause_lits c0) f"
  shows "clause_in n (to_front f c0)" "c_data (to_front f c0) ! 1 = f" "mset (Clause_lits (to_front f c0)) = mset (Clause_lits c0)"
    "watched (Clause_lits (to_front f c0)) = watched (Clause_lits c0)"
proof -
  have sz: "0 < Clause_size c0" "1 < Clause_size c0" using clause_in_size [OF c] by auto
  have len: "0 < length (Clause_lits c0)" "Suc 0 < length (Clause_lits c0)" using clause_in_size [OF c] sz by simp_all
  have "clause_in n (to_front f c0) \<and> c_data (to_front f c0) ! 1 = f \<and> mset (Clause_lits (to_front f c0)) = mset (Clause_lits c0)
    \<and> watched (Clause_lits (to_front f c0)) = watched (Clause_lits c0)"
  proof (cases "c_data c0 ! 0 = f")
    case True
    then have t: "to_front f c0 = c0\<lparr>c_data := (c_data c0)[0 := c_data c0 ! 1, 1 := c_data c0 ! 0]\<rparr>" by (simp add: to_front_def)
    have "1 < length (c_data c0)" using c sz unfolding clause_in_def by linarith
    then show ?thesis using data_swap [OF c sz] True len unfolding t by (auto simp: watched_def fun_eq_iff)
  next
    case False
    then have t: "to_front f c0 = c0" by (simp add: to_front_def)
    then show ?thesis using False w c clause_in_nth [OF c sz(1)] clause_in_nth [OF c sz(2)] by (auto simp: watched_def)
  qed
  then show "clause_in n (to_front f c0)" "c_data (to_front f c0) ! 1 = f" "mset (Clause_lits (to_front f c0)) = mset (Clause_lits c0)"
    "watched (Clause_lits (to_front f c0)) = watched (Clause_lits c0)" by blast+
qed

lemma new_watch_ok:
  assumes c: "clause_in n c" and k: "2 \<le> k" "k < Clause_size c"
  defines "c' \<equiv> c\<lparr>c_data := (c_data c)[1 := c_data c ! k, k := c_data c ! 1]\<rparr>"
  shows "clause_in n c'" "mset (Clause_lits c') = mset (Clause_lits c)" "c_data c' ! 1 = c_data c ! k"
    "watched (Clause_lits c') x \<longleftrightarrow> x = c_data c ! 0 \<or> x = c_data c ! k"
proof -
  have sz: "1 < Clause_size c" "0 < Clause_size c" using k by auto
  have len: "2 \<le> length (Clause_lits c)" "k < length (Clause_lits c)" using clause_in_size [OF c] k by auto
  have d: "k < length (c_data c)" using c k unfolding clause_in_def by linarith
  note sw = data_swap [OF c sz(1) k(2)]
  show "clause_in n c'" "mset (Clause_lits c') = mset (Clause_lits c)" using sw unfolding c'_def by blast+
  show "c_data c' ! 1 = c_data c ! k" using k d by (simp add: c'_def)
  show "watched (Clause_lits c') x \<longleftrightarrow> x = c_data c ! 0 \<or> x = c_data c ! k"
    using sw len k clause_in_nth [OF c sz(2)] clause_in_nth [OF c k(2)] by (auto simp: c'_def watched_def)
qed

lemma find_watch_ok:
  assumes "trail_inv n s" "\<forall>l\<in>set ls. slit_ok n l"
  shows "\<exists>r. find_watch s ls k = Some r \<and> (case r of
      None \<Rightarrow> \<forall>l\<in>set ls. Lit_neg l \<in> set (sv_trail s)
    | Some j \<Rightarrow> k \<le> j \<and> j < k + length ls \<and> Lit_neg (ls ! (j - k)) \<notin> set (sv_trail s))"
  using assms(2)
proof (induction ls arbitrary: k)
  case (Cons l ls)
  then have l: "slit_ok n l" "\<forall>l\<in>set ls. slit_ok n l" by auto
  obtain a where a: "sv_value s l = Some a" "mlbool_eq a ml_False \<longleftrightarrow> Lit_neg l \<in> set (sv_trail s)"
    using value_cases [OF assms(1) l(1)] by metis
  show ?case
  proof (cases "mlbool_eq a ml_False")
    case True
    obtain r where r: "find_watch s ls (Suc k) = Some r" "case r of
        None \<Rightarrow> \<forall>l\<in>set ls. Lit_neg l \<in> set (sv_trail s)
      | Some j \<Rightarrow> Suc k \<le> j \<and> j < Suc k + length ls \<and> Lit_neg (ls ! (j - Suc k)) \<notin> set (sv_trail s)"
      using Cons.IH [OF l(2), of "Suc k"] by blast
    then show ?thesis using True a by (auto simp: nth_Cons' split: option.splits)
  next
    case False
    then show ?thesis using a by simp
  qed
qed simp

section \<open>The invariant and the steps\<close>

definition models :: "(32 word \<Rightarrow> bool) \<Rightarrow> 32 word set \<Rightarrow> Solver \<Rightarrow> bool" where
  "models \<alpha> A s = (\<forall>cr\<in>A. \<exists>l\<in>set (cl s cr). Lit_holds \<alpha> l)"

definition trail_true :: "(32 word \<Rightarrow> bool) \<Rightarrow> Solver \<Rightarrow> bool" where
  "trail_true \<alpha> s = (\<forall>l\<in>set (sv_trail s). Lit_holds \<alpha> l)"

definition core :: "32 word set \<Rightarrow> nat \<Rightarrow> Solver \<Rightarrow> bool" where
  "core A n s = (trail_inv n s \<and> store_ok A n s \<and> lists_ok n s \<and> levels_ok A (cl s) (sv_trail_lim s) (sv_trail s)
     \<and> (\<forall>k\<in>set (sv_trail_lim s). k \<le> sv_qhead s) \<and> sv_qhead s \<le> length (sv_trail s))"

text \<open>What propagation does not touch.\<close>

definition rest :: "Solver \<Rightarrow> Solver" where
  "rest s = s\<lparr>sv_ca := (sv_ca s)\<lparr>ca_ra := \<lparr>ra_memory = \<lambda>_. 0, ra_sz = 0, ra_cap = 0, ra_wasted = 0\<rparr>\<rparr>, sv_watches := OccLists_new, sv_assigns := [],
     sv_vardata := [], sv_trail := [], sv_qhead := 0\<rparr>"

text \<open>
  What conflict analysis relies on: the level of a variable is 0 exactly below the first decision, and
  above it the reason of a literal is a clause with the literal in front and all others made false earlier.
\<close>

definition root_pos :: "Solver \<Rightarrow> nat \<Rightarrow> bool" where
  "root_pos s i = (sv_trail_lim s = [] \<or> i < hd (sv_trail_lim s))"

definition reason_at :: "Solver \<Rightarrow> nat \<Rightarrow> 32 word" where
  "reason_at s i = vd_reason (sv_vardata s ! var_index (sv_trail s ! i))"

definition reason_pos :: "32 word set \<Rightarrow> Solver \<Rightarrow> nat \<Rightarrow> bool" where
  "reason_pos A s i = ((vd_level (sv_vardata s ! var_index (sv_trail s ! i)) = 0 \<longleftrightarrow> root_pos s i)
     \<and> (root_pos s i \<or> reason_at s i = CRef_Undef \<or> reason_at s i \<in> A \<and> cl s (reason_at s i) ! 0 = sv_trail s ! i
          \<and> (\<forall>m\<in>set (cl s (reason_at s i)). m = sv_trail s ! i \<or> Lit_neg m \<in> set (take i (sv_trail s)))))"

definition reasons_ok :: "32 word set \<Rightarrow> Solver \<Rightarrow> bool" where
  "reasons_ok A s = (\<forall>i<length (sv_trail s). reason_pos A s i)"

lemma reasons_reorder:
  assumes t: "trail_inv n s" and same: "sv_trail s' = sv_trail s" "sv_trail_lim s' = sv_trail_lim s" "sv_vardata s' = sv_vardata s"
    and c: "\<forall>cr\<in>A. set (cl s' cr) = set (cl s cr) \<and> (cl s' cr ! 0 = cl s cr ! 0 \<or> Lit_neg (cl s cr ! 0) \<in> set (sv_trail s))"
    and r: "reasons_ok A s"
  shows "reasons_ok A s'"
proof -
  have eq: "root_pos s' = root_pos s" "reason_at s' = reason_at s" by (simp_all add: root_pos_def reason_at_def same fun_eq_iff)
  have "reason_pos A s' i" if i: "i < length (sv_trail s)" for i
  proof -
    have p: "reason_pos A s i" using r i by (simp add: reasons_ok_def)
    have n: "Lit_neg (sv_trail s ! i) \<notin> set (sv_trail s)" using trail_consistent [OF t nth_mem [OF i]] .
    show ?thesis
    proof (cases "root_pos s i \<or> reason_at s i = CRef_Undef")
      case False
      then have "set (cl s' (reason_at s i)) = set (cl s (reason_at s i))" "cl s' (reason_at s i) ! 0 = sv_trail s ! i"
        using p c n unfolding reason_pos_def by metis+
      then show ?thesis using p unfolding reason_pos_def same eq by auto
    qed (use p in \<open>auto simp: reason_pos_def same eq\<close>)
  qed
  then show ?thesis unfolding reasons_ok_def same by blast
qed

lemma reasons_root:
  "sv_trail_lim s = [] \<Longrightarrow> reasons_ok A s = (\<forall>l\<in>set (sv_trail s). vd_level (sv_vardata s ! var_index l) = 0)"
  by (auto simp: reasons_ok_def reason_pos_def root_pos_def all_set_conv_all_nth)

lemma reasons_ok_update [simp]:
  "reasons_ok A (s\<lparr>sv_qhead := q\<rparr>) = reasons_ok A s" "reasons_ok A (s\<lparr>sv_watches := w\<rparr>) = reasons_ok A s"
  "reasons_ok A (s\<lparr>sv_ok := b\<rparr>) = reasons_ok A s"
  by (simp_all add: reasons_ok_def reason_pos_def root_pos_def reason_at_def cl_def)

lemma enqueue_fields:
  assumes "uncheckedEnqueue p f s = Some s'"
  shows "s' = s\<lparr>sv_assigns := (sv_assigns s)[var_index p := mlbool_of_bool (\<not> Lit_sign p)],
      sv_vardata := (sv_vardata s)[var_index p := \<lparr>vd_reason = f, vd_level = decisionLevel s\<rparr>], sv_trail := sv_trail s @ [p]\<rparr>"
    "var_index p < length (sv_assigns s)" "var_index p < length (sv_vardata s)"
  using assms by (auto simp: uncheckedEnqueue_def im_put_def im_has_def split: bind_splits if_splits)

lemma reasons_enqueue:
  assumes e: "uncheckedEnqueue l f s = Some s'" and t: "trail_inv n s'" and q: "\<forall>k\<in>set (sv_trail_lim s). k \<le> length (sv_trail s)"
    and f: "f \<noteq> CRef_Undef \<Longrightarrow> f \<in> A \<and> cl s f ! 0 = l \<and> (\<forall>m\<in>set (cl s f). m = l \<or> Lit_neg m \<in> set (sv_trail s))"
    and r: "reasons_ok A s"
  shows "reasons_ok A s'"
proof -
  note s' = enqueue_fields [OF e]
  have f': "sv_trail s' = sv_trail s @ [l]" "sv_trail_lim s' = sv_trail_lim s" "cl s' = cl s" "root_pos s' = root_pos s"
    "sv_vardata s' = (sv_vardata s)[var_index l := \<lparr>vd_reason = f, vd_level = decisionLevel s\<rparr>]"
    unfolding s'(1) by (simp_all add: cl_def [abs_def] root_pos_def [abs_def])
  have old: "var_index m \<noteq> var_index l" if "m \<in> set (sv_trail s)" for m
  proof
    assume v: "var_index m = var_index l"
    have "slit_ok n m" "slit_ok n l" "n \<le> 2 ^ 30" "m \<noteq> l" using that t unfolding trail_inv_def f' by auto
    then have "m = Lit_neg l" using var_index_eq [of l m] slit_ok_bound v by metis
    then show False using trail_consistent [OF t, of m] that unfolding f' by simp
  qed
  have "root_pos s (length (sv_trail s)) \<longleftrightarrow> sv_trail_lim s = []" using q by (cases "sv_trail_lim s") (auto simp: root_pos_def)
  then have "root_pos s (length (sv_trail s)) \<longleftrightarrow> decisionLevel s = 0" by (simp add: decisionLevel_def)
  then have "reason_pos A s' (length (sv_trail s))" using f s'(3) unfolding reason_pos_def reason_at_def f' by auto
  moreover have "reason_pos A s' i = reason_pos A s i" if "i < length (sv_trail s)" for i
    using that old [OF nth_mem [OF that]] unfolding reason_pos_def reason_at_def f' by (simp add: nth_append)
  ultimately show ?thesis using r unfolding reasons_ok_def f' by (auto simp: less_Suc_eq)
qed

definition grows :: "32 word set \<Rightarrow> Solver \<Rightarrow> Solver \<Rightarrow> bool" where
  "grows A s s' = ((\<forall>cr\<in>A. set (cl s' cr) = set (cl s cr)) \<and> (\<exists>ts. sv_trail s' = sv_trail s @ ts)
     \<and> (\<forall>\<alpha>. models \<alpha> A s \<and> trail_true \<alpha> s \<longrightarrow> trail_true \<alpha> s') \<and> rest s' = rest s
     \<and> (reasons_ok A s \<longrightarrow> reasons_ok A s'))"

lemma rest_lim: "rest s' = rest s \<Longrightarrow> sv_trail_lim s' = sv_trail_lim s"
  by (drule arg_cong [where f = sv_trail_lim]) (simp add: rest_def)

lemma rest_ok: "rest s' = rest s \<Longrightarrow> sv_ok s' = sv_ok s"
  by (drule arg_cong [where f = sv_ok]) (simp add: rest_def)

lemma rest_clauses: "rest s' = rest s \<Longrightarrow> sv_clauses s' = sv_clauses s"
  by (drule arg_cong [where f = sv_clauses]) (simp add: rest_def)

lemma grows_refl: "grows A s s"
  by (simp add: grows_def)

lemma grows_trans: "grows A s s1 \<Longrightarrow> grows A s1 s2 \<Longrightarrow> grows A s s2"
  unfolding grows_def models_def by (auto; metis)

lemma set_clause_simps [simp]:
  "sv_trail (set_clause cr c s) = sv_trail s" "sv_trail_lim (set_clause cr c s) = sv_trail_lim s"
  "sv_qhead (set_clause cr c s) = sv_qhead s" "wl (set_clause cr c s) = wl s"
  "sv_watches (set_clause cr c s) = sv_watches s" "sv_value (set_clause cr c s) = sv_value s"
  "trail_inv n (set_clause cr c s) = trail_inv n s" "lists_ok n (set_clause cr c s) = lists_ok n s"
  "rest (set_clause cr c s) = rest s" "sv_vardata (set_clause cr c s) = sv_vardata s"
  by (auto simp: set_clause_def wl_def sv_value_def trail_inv_def lists_ok_def rest_def ca_update_def fun_eq_iff)

text \<open>Changing the order of a clause in place changes no other clause, as their words are separate.\<close>

lemma set_clause_cl:
  assumes "store_ok A n s" "cr \<in> A" "ca_deref (sv_ca s) cr = Some c0" "same_shape c c0"
  shows "\<forall>x\<in>A. cl (set_clause cr c s) x = ((cl s)(cr := Clause_lits c)) x"
    "\<forall>x\<in>A. ca_deref (sv_ca (set_clause cr c s)) x = ((ca_deref (sv_ca s))(cr \<mapsto> c)) x"
    "separated A (sv_ca (set_clause cr c s))"
proof -
  have "separated A (sv_ca s)" using assms(1) by (simp add: store_ok_def)
  note u = separated_update [OF this assms(2-4)]
  show d: "\<forall>x\<in>A. ca_deref (sv_ca (set_clause cr c s)) x = ((ca_deref (sv_ca s))(cr \<mapsto> c)) x" using u(1) by (simp add: set_clause_def)
  show "separated A (sv_ca (set_clause cr c s))" using u(2) by (simp add: set_clause_def)
  show "\<forall>x\<in>A. cl (set_clause cr c s) x = ((cl s)(cr := Clause_lits c)) x" using d unfolding cl_def by simp
qed

lemma set_clause_store:
  assumes "store_ok A n s" "cr \<in> A" "ca_deref (sv_ca s) cr = Some c0" "same_shape c c0" "clause_in n c"
  shows "store_ok A n (set_clause cr c s)"
proof -
  have "region_ok (ca_ra (sv_ca (set_clause cr c s)))"
    using assms(1) by (simp add: store_ok_def region_ok_def set_clause_def ca_update_def)
  moreover have "\<exists>k. ca_deref (sv_ca (set_clause cr c s)) x = Some k \<and> clause_in n k" if "x \<in> A" for x
    using set_clause_cl(2) [OF assms(1-4)] that assms(1,5) unfolding store_ok_def by (cases "x = cr") auto
  ultimately show ?thesis using set_clause_cl(3) [OF assms(1-4)] unfolding store_ok_def by blast
qed

lemma set_clause_core:
  assumes c: "core A n s" "cr \<in> A" "ca_deref (sv_ca s) cr = Some c0" "same_shape c c0" "clause_in n c"
    and same: "mset (Clause_lits c) = mset (Clause_lits c0)" "watched (Clause_lits c) = watched (Clause_lits c0)"
    and front: "Clause_lits c ! 0 = Clause_lits c0 ! 0 \<or> Lit_neg (Clause_lits c0 ! 0) \<in> set (sv_trail s)"
  shows "core A n (set_clause cr c s)" "grows A s (set_clause cr c s)" "same_watch A (cl s) (cl (set_clause cr c s))"
proof -
  have so: "store_ok A n s" using c(1) by (simp add: core_def)
  note cl = set_clause_cl(1) [OF so c(2-4)]
  have st: "set (Clause_lits c) = set (Clause_lits c0)" using same(1) by (rule mset_eq_setD)
  show sw: "same_watch A (cl s) (cl (set_clause cr c s))"
    using st same(2) c(3) cl unfolding same_watch_def by simp
  show "core A n (set_clause cr c s)"
    using c(1) set_clause_store [OF so c(2-5)] levels_ok_same [OF sw] unfolding core_def by simp
  have "reasons_ok A s \<longrightarrow> reasons_ok A (set_clause cr c s)"
    using reasons_reorder [of n s "set_clause cr c s" A] c(1) st front c(3) cl unfolding core_def by auto
  then show "grows A s (set_clause cr c s)"
    using sw unfolding grows_def same_watch_def by (simp add: trail_true_def)
qed

text \<open>A pair of a clause and a list: replacing the visited watcher.\<close>

lemma list_watch_keep:
  assumes "list_watch A C p (kept @ i # ws)" "w_cref w = w_cref i" "w_blocker w \<in> set (C (w_cref i))"
  shows "list_watch A C p ((kept @ [w]) @ ws)"
proof -
  have "map w_cref ((kept @ [w]) @ ws) = map w_cref (kept @ i # ws)" using assms(2) by simp
  then show ?thesis using assms unfolding list_watch_def by (metis Un_iff append_assoc set_ConsD append_Cons append_Nil set_append list.set_intros(2))
qed

lemma watch_ok_upd: "watch_ok A n C W \<Longrightarrow> list_watch A C p L \<Longrightarrow> watch_ok A n C (W(p := L))"
  by (simp add: watch_ok_def)

lemma watch_ok_keep:
  assumes "watch_ok A n C (W(p := kept @ i # ws))" "slit_ok n p" "w_cref w = w_cref i" "w_blocker w \<in> set (C (w_cref i))"
  shows "watch_ok A n C (W(p := (kept @ [w]) @ ws))"
proof -
  have "list_watch A C p (kept @ i # ws)" using assms(1,2) unfolding watch_ok_def by (auto dest: spec [of _ p])
  then have "list_watch A C p ((kept @ [w]) @ ws)" using assms(3,4) by (rule list_watch_keep)
  then show ?thesis using watch_ok_upd [OF assms(1), of p "(kept @ [w]) @ ws"] by simp
qed

lemma lits_ok_neq: "lits_ok n ls \<Longrightarrow> i < length ls \<Longrightarrow> j < length ls \<Longrightarrow> i \<noteq> j \<Longrightarrow> ls ! i \<noteq> ls ! j"
  by (simp add: lits_ok_def nth_eq_iff_index_eq)

text \<open>Moving a watch from \<open>Lit_neg p\<close> to a literal behind the first two.\<close>

lemma watch_ok_move:
  assumes wok: "watch_ok A n C (W(p := kept @ i # ws))" and p: "slit_ok n p"
    and ls: "lits_ok n (C cr)" "C cr ! 1 = Lit_neg p" "2 \<le> k" "k < length (C cr)"
    and ls': "set ls' = set (C cr)" "\<And>x. watched ls' x \<longleftrightarrow> x = C cr ! 0 \<or> x = C cr ! k"
    and q: "q = Lit_neg (C cr ! k)" "q \<noteq> p" and i: "cr = w_cref i" and w: "w_cref w = cr" "w_blocker w \<in> set (C cr)"
  shows "watch_ok A n (C(cr := ls')) (W(q := W q @ [w], p := kept @ ws))"
proof -
  let ?D = "C(cr := ls')"
  have lp: "list_watch A C p (kept @ i # ws)" using wok p unfolding watch_ok_def by (auto dest: spec [of _ p])
  have lr: "list_watch A C r (W r)" if "slit_ok n r" "r \<noteq> p" for r using wok that unfolding watch_ok_def by (auto dest: spec [of _ r])
  have crA: "cr \<in> A" using list_watchD(1) [OF lp, of i] i by simp
  have ne: "C cr ! 0 \<noteq> C cr ! 1" "C cr ! k \<noteq> C cr ! 1" "C cr ! k \<noteq> C cr ! 0"
    using lits_ok_neq [OF ls(1), of 0 1] lits_ok_neq [OF ls(1), of k 1] lits_ok_neq [OF ls(1), of k 0] ls(3,4) by linarith+
  have D: "watched (?D c) x = watched (C c) x" if "c \<noteq> cr" for c x using that by simp
  have Dset: "set (?D c) = set (C c)" for c using ls'(1) by simp
  have "list_watch A ?D r ((W(q := W q @ [w], p := kept @ ws)) r)" if r: "slit_ok n r" for r
  proof -
    consider "r = p" | "r = q" "r \<noteq> p" | "r \<noteq> p" "r \<noteq> q" by blast
    then show ?thesis
    proof cases
      case 1
      have "c \<in> set (map w_cref (kept @ ws)) \<longleftrightarrow> c \<in> A \<and> watched (?D c) (Lit_neg p)" for c
      proof (cases "c = cr")
        case True
        then show ?thesis using lp i ls(2) ls'(2) ne unfolding list_watch_def by auto
      next
        case False
        then show ?thesis using lp i D unfolding list_watch_def by auto
      qed
      then show ?thesis using 1 lp Dset unfolding list_watch_def by auto
    next
      case 2
      have wq: "list_watch A C q (W q)" using lr [OF r] 2 by simp
      have nq: "\<not> watched (C cr) (Lit_neg q)" using ne q(1) by (auto simp: watched_def)
      then have ni: "cr \<notin> set (map w_cref (W q))" using wq unfolding list_watch_def by blast
      have "c \<in> set (map w_cref (W q @ [w])) \<longleftrightarrow> c \<in> A \<and> watched (?D c) (Lit_neg q)" for c
      proof (cases "c = cr")
        case True
        then show ?thesis using w(1) crA ls'(2) q(1) by simp
      next
        case False
        then show ?thesis using wq w(1) D unfolding list_watch_def by auto
      qed
      moreover have "distinct (map w_cref (W q @ [w]))" using wq ni w(1) unfolding list_watch_def by simp
      moreover have "\<forall>x\<in>set (W q @ [w]). w_blocker x \<in> set (?D (w_cref x))" using wq w Dset unfolding list_watch_def by simp
      ultimately show ?thesis using 2 unfolding list_watch_def by simp
    next
      case 3
      have "watched ls' (Lit_neg r) = watched (C cr) (Lit_neg r)"
        using 3 ls(2) ls'(2) q(1) Lit_neg_neg unfolding watched_def by metis
      then have "watched (?D c) (Lit_neg r) = watched (C c) (Lit_neg r)" for c by simp
      then show ?thesis using 3 lr [OF r] Dset unfolding list_watch_def by simp
    qed
  qed
  then show ?thesis unfolding watch_ok_def by blast
qed

lemma prop_ok_move:
  assumes "prop_ok A C (insert (cr, C cr ! 1) E) tr q" "set ls' = set (C cr)" "\<And>x. watched ls' x \<longleftrightarrow> x = C cr ! 0 \<or> x = C cr ! k"
    and "Lit_neg (C cr ! k) \<notin> set tr" "C cr ! 0 \<noteq> C cr ! 1"
  shows "prop_ok A (C(cr := ls')) E tr q"
proof -
  have w0: "watched (C cr) (C cr ! 0)" by (simp add: watched_def)
  have "(c, l) \<in> E \<or> (\<exists>t\<in>set ((C(cr := ls')) c). t \<in> set tr)"
    if c: "c \<in> A" "watched ((C(cr := ls')) c) l" "Lit_neg l \<in> set (take q tr)" for c l
  proof (cases "c = cr")
    case True
    have "l = C cr ! 0" using c assms(3,4) True by (auto dest: in_set_takeD)
    then show ?thesis using assms(1,2,5) c True w0 unfolding prop_ok_def by fastforce
  next
    case False
    then show ?thesis using assms(1) c unfolding prop_ok_def by fastforce
  qed
  then show ?thesis unfolding prop_ok_def by blast
qed

lemma levels_ok_move:
  assumes "levels_ok A C K tr" "set ls' = set (C cr)" "\<And>x. watched ls' x \<longleftrightarrow> x = C cr ! 0 \<or> x = C cr ! k"
    and "Lit_neg (C cr ! k) \<notin> set tr" "C cr ! 0 \<noteq> C cr ! 1"
  shows "levels_ok A (C(cr := ls')) K tr"
proof -
  have "prop_ok A (C(cr := ls')) {} (take j tr) j" if "j \<in> set K" for j
  proof (rule prop_ok_move [of A C cr _ _ _ _ k])
    show "prop_ok A C (insert (cr, C cr ! 1) {}) (take j tr) j"
      using assms(1) that unfolding levels_ok_def prop_ok_def by blast
    show "Lit_neg (C cr ! k) \<notin> set (take j tr)" using assms(4) by (auto dest: in_set_takeD)
  qed (use assms in auto)
  then show ?thesis unfolding levels_ok_def by blast
qed

lemma enqueue_core:
  assumes c: "core A n s" and l: "slit_ok n l" "l \<notin> set (sv_trail s)" "Lit_neg l \<notin> set (sv_trail s)"
  shows "\<exists>s'. uncheckedEnqueue l from s = Some s' \<and> core A n s' \<and> sv_trail s' = sv_trail s @ [l] \<and> cl s' = cl s \<and> wl s' = wl s
    \<and> sv_qhead s' = sv_qhead s \<and> rest s' = rest s"
proof -
  have t: "trail_inv n s" using c by (simp add: core_def)
  obtain as vd where e: "uncheckedEnqueue l from s = Some (s\<lparr>sv_assigns := as, sv_vardata := vd, sv_trail := sv_trail s @ [l]\<rparr>)"
    "trail_inv n (s\<lparr>sv_assigns := as, sv_vardata := vd, sv_trail := sv_trail s @ [l]\<rparr>)" using enqueue_ok [OF t l] by blast
  let ?s = "s\<lparr>sv_assigns := as, sv_vardata := vd, sv_trail := sv_trail s @ [l]\<rparr>"
  have same: "cl ?s = cl s" "wl ?s = wl s" "rest ?s = rest s" by (simp_all add: cl_def wl_def rest_def fun_eq_iff)
  have "\<forall>k\<in>set (sv_trail_lim s). k \<le> length (sv_trail s)" using c by (auto simp: core_def)
  then have "levels_ok A (cl s) (sv_trail_lim s) (sv_trail s @ [l])"
    using c levels_ok_extend unfolding core_def by blast
  then have "core A n ?s" using c e(2) same unfolding core_def by (simp add: store_ok_def lists_ok_def)
  then show ?thesis using e same by auto
qed

lemma push_core:
  assumes "core A n s" "slit_ok n q"
  shows "\<exists>wt. occ_push (lit_index q) w (sv_watches s) = Some wt \<and> core A n (s\<lparr>sv_watches := wt\<rparr>)
    \<and> wl (s\<lparr>sv_watches := wt\<rparr>) = (wl s)(q := wl s q @ [w])"
proof -
  let ?o = "occs (sv_watches s)"
  have q: "lit_index q < length ?o" using assms by (simp add: core_def lists_ok_def slit_ok_def lit_index_def)
  let ?wt = "(sv_watches s)\<lparr>occs := ?o[lit_index q := ?o ! lit_index q @ [w]]\<rparr>"
  have r: "occ_push (lit_index q) w (sv_watches s) = Some ?wt" using q by (simp add: occ_push_def occ_put_def)
  have "wl (s\<lparr>sv_watches := ?wt\<rparr>) = (wl s)(q := wl s q @ [w])"
    using q by (auto simp: wl_def fun_eq_iff lit_index_def nth_list_update dest: unsigned_word_eqI)
  moreover have "core A n (s\<lparr>sv_watches := ?wt\<rparr>)"
    using assms(1) by (simp add: core_def trail_inv_def store_ok_def lists_ok_def cl_def [abs_def])
  ultimately show ?thesis using r by blast
qed

section \<open>Visiting the watchers of a literal\<close>

definition visiting :: "32 word set \<Rightarrow> nat \<Rightarrow> Lit \<Rightarrow> Watcher list \<Rightarrow> Watcher list \<Rightarrow> Solver \<Rightarrow> bool" where
  "visiting A n p ws kept s = (core A n s \<and> p \<in> set (sv_trail s) \<and> watch_ok A n (cl s) ((wl s)(p := kept @ ws))
     \<and> prop_ok A (cl s) ((\<lambda>w. (w_cref w, Lit_neg p)) ` set ws) (sv_trail s) (sv_qhead s))"

definition conflicting :: "32 word set \<Rightarrow> nat \<Rightarrow> Lit \<Rightarrow> 32 word \<Rightarrow> Watcher list \<Rightarrow> Solver \<Rightarrow> bool" where
  "conflicting A n p confl kept s = (core A n s \<and> watch_ok A n (cl s) ((wl s)(p := kept)) \<and> confl \<in> A
     \<and> sv_qhead s = length (sv_trail s) \<and> (\<forall>l\<in>set (cl s confl). Lit_neg l \<in> set (sv_trail s)))"

lemma visiting_keep:
  assumes v: "visiting A n p (i # ws) kept s" and w: "w_cref w = w_cref i" "w_blocker w \<in> set (cl s (w_cref i))"
    and t: "t \<in> set (cl s (w_cref i))" "t \<in> set (sv_trail s)"
  shows "visiting A n p ws (kept @ [w]) s"
proof -
  have p: "slit_ok n p" using v unfolding visiting_def core_def trail_inv_def by blast
  have "watch_ok A n (cl s) ((wl s)(p := (kept @ [w]) @ ws))"
  proof (rule watch_ok_keep)
    show "watch_ok A n (cl s) ((wl s)(p := kept @ i # ws))" using v unfolding visiting_def by blast
  qed (use p w in auto)
  moreover have "prop_ok A (cl s) ((\<lambda>w. (w_cref w, Lit_neg p)) ` set ws) (sv_trail s) (sv_qhead s)"
  proof (rule prop_ok_visit [where cr = "w_cref i" and l = "Lit_neg p" and t = t])
    show "prop_ok A (cl s) (insert (w_cref i, Lit_neg p) ((\<lambda>w. (w_cref w, Lit_neg p)) ` set ws)) (sv_trail s) (sv_qhead s)"
      using v unfolding visiting_def by simp
  qed (use t in auto)
  ultimately show ?thesis using v unfolding visiting_def by simp
qed

lemma to_front_shape: "same_shape (to_front f c) c"
  by (simp add: to_front_def same_shape_def)

lemma visiting_front:
  assumes v: "visiting A n p (i # ws) kept s" and cA: "w_cref i \<in> A" and c0: "ca_deref (sv_ca s) (w_cref i) = Some c0" "clause_in n c0"
    "watched (Clause_lits c0) (Lit_neg p)"
  shows "visiting A n p (i # ws) kept (set_clause (w_cref i) (to_front (Lit_neg p) c0) s)"
    "grows A s (set_clause (w_cref i) (to_front (Lit_neg p) c0) s)"
proof -
  let ?s = "set_clause (w_cref i) (to_front (Lit_neg p) c0) s"
  have c: "core A n s" using v by (simp add: visiting_def)
  note f = to_front_ok [OF c0(2,3)]
  have "Lit_neg (Clause_lits c0 ! 0) = p" if "c_data c0 ! 0 = Lit_neg p"
    using that clause_in_nth [OF c0(2), of 0] clause_in_size [OF c0(2)] by (metis Lit_neg_neg less_le_trans zero_less_numeral)
  then have "Clause_lits (to_front (Lit_neg p) c0) ! 0 = Clause_lits c0 ! 0 \<or> Lit_neg (Clause_lits c0 ! 0) \<in> set (sv_trail s)"
    using v by (cases "c_data c0 ! 0 = Lit_neg p") (auto simp: to_front_def visiting_def)
  note s = set_clause_core [OF c cA c0(1) to_front_shape f(1,3,4) this]
  show "grows A s ?s" by (rule s(2))
  have "watch_ok A n (cl ?s) ((wl s)(p := kept @ i # ws))" using v watch_ok_same [OF s(3)] unfolding visiting_def by blast
  moreover have "prop_ok A (cl ?s) ((\<lambda>w. (w_cref w, Lit_neg p)) ` set (i # ws)) (sv_trail s) (sv_qhead s)"
    using v prop_ok_same [OF s(3)] unfolding visiting_def by blast
  ultimately show "visiting A n p (i # ws) kept ?s" using v s(1) unfolding visiting_def by simp
qed

lemma visiting_enqueue:
  assumes v: "visiting A n p (i # ws) kept s" and w: "w_cref w = w_cref i" "w_blocker w \<in> set (cl s (w_cref i))"
    and cr: "w_cref i \<in> A" and f: "first \<in> set (cl s (w_cref i))" "slit_ok n first" "first \<notin> set (sv_trail s)" "Lit_neg first \<notin> set (sv_trail s)"
    and others: "\<forall>l\<in>set (cl s (w_cref i)). l = first \<or> Lit_neg l \<in> set (sv_trail s)" and front: "cl s (w_cref i) ! 0 = first"
  shows "\<exists>s'. uncheckedEnqueue first (w_cref i) s = Some s' \<and> visiting A n p ws (kept @ [w]) s' \<and> grows A s s' \<and> sv_qhead s' = sv_qhead s"
proof -
  have c: "core A n s" using v by (simp add: visiting_def)
  obtain s' where s': "uncheckedEnqueue first (w_cref i) s = Some s'" "core A n s'" "sv_trail s' = sv_trail s @ [first]" "cl s' = cl s"
    "wl s' = wl s" "sv_qhead s' = sv_qhead s" "rest s' = rest s" using enqueue_core [OF c f(2-4)] by blast
  have "sv_qhead s \<le> length (sv_trail s)" using c by (simp add: core_def)
  then have "visiting A n p (i # ws) kept s'" using v s' prop_ok_extend unfolding visiting_def by auto
  then have vis: "visiting A n p ws (kept @ [w]) s'" by (rule visiting_keep [where t = first]) (use w f(1) s' in auto)
  have "Lit_holds \<alpha> first" if m: "models \<alpha> A s" "trail_true \<alpha> s" for \<alpha>
  proof -
    obtain l where l: "l \<in> set (cl s (w_cref i))" "Lit_holds \<alpha> l" using m(1) cr unfolding models_def by blast
    then have "Lit_neg l \<notin> set (sv_trail s)" using m(2) unfolding trail_true_def by fastforce
    then show ?thesis using others l by auto
  qed
  moreover have "reasons_ok A s \<longrightarrow> reasons_ok A s'"
    using reasons_enqueue [OF s'(1), of n A] s'(2) c cr others front unfolding core_def by (meson order.trans)
  ultimately have "grows A s s'" using s' unfolding grows_def by (auto simp: trail_true_def)
  then show ?thesis using s' vis by blast
qed

lemma visiting_move:
  assumes v: "visiting A n p (i # ws) kept s" and cr: "cr = w_cref i" "cr \<in> A" and c: "ca_deref (sv_ca s) cr = Some c" "clause_in n c" "c_data c ! 1 = Lit_neg p"
    and k: "2 \<le> k" "k < Clause_size c" "Lit_neg (c_data c ! k) \<notin> set (sv_trail s)" and w: "w_cref w = cr" "w_blocker w \<in> set (Clause_lits c)"
  defines "c' \<equiv> c\<lparr>c_data := (c_data c)[1 := c_data c ! k, k := Lit_neg p]\<rparr>"
  shows "\<exists>wt. Lit_neg (c_data c' ! 1) \<noteq> p \<and> occ_push (lit_index (Lit_neg (c_data c' ! 1))) w (sv_watches s) = Some wt
    \<and> visiting A n p ws kept ((set_clause cr c' s)\<lparr>sv_watches := wt\<rparr>) \<and> grows A s ((set_clause cr c' s)\<lparr>sv_watches := wt\<rparr>)
    \<and> sv_qhead ((set_clause cr c' s)\<lparr>sv_watches := wt\<rparr>) = sv_qhead s"
proof -
  have co: "core A n s" and pt: "p \<in> set (sv_trail s)" using v by (simp_all add: visiting_def)
  have p: "slit_ok n p" using co pt unfolding core_def trail_inv_def by blast
  have c': "c' = c\<lparr>c_data := (c_data c)[1 := c_data c ! k, k := c_data c ! 1]\<rparr>" using c(3) by (simp add: c'_def)
  note nw = new_watch_ok [OF c(2) k(1,2), folded c']
  have nth: "c_data c ! 0 = cl s cr ! 0" "c_data c ! 1 = cl s cr ! 1" "c_data c ! k = cl s cr ! k"
    using clause_in_nth [OF c(2)] k c(1) by auto
  have lk: "k < length (cl s cr)" "lits_ok n (cl s cr)" using clause_in_size [OF c(2)] k c(1,2) by (auto simp: clause_in_def)
  have ne: "cl s cr ! 0 \<noteq> cl s cr ! 1" using lits_ok_neq [OF lk(2), of 0 1] lk(1) k(1) by linarith
  define q where "q = Lit_neg (c_data c ! k)"
  have qp: "q \<noteq> p" using k(3) pt by (auto simp: q_def)
  have qok: "slit_ok n q" using lk nth(3) nth_mem [OF lk(1)] unfolding q_def lits_ok_def by simp
  let ?s = "set_clause cr c' s"
  let ?D = "(cl s)(cr := Clause_lits c')"
  have so: "store_ok A n s" using co by (simp add: core_def)
  have sh: "same_shape c' c" unfolding c'_def by (rule same_shape_data)
  have clD: "\<forall>x\<in>A. cl ?s x = ?D x" using set_clause_cl(1) [OF so cr(2) c(1) sh] .
  then have swD: "same_watch A ?D (cl ?s)" unfolding same_watch_def by (auto simp del: fun_upd_apply)
  have st: "set (Clause_lits c') = set (cl s cr)" using mset_eq_setD [OF nw(2)] c(1) by simp
  have wat: "watched (Clause_lits c') x \<longleftrightarrow> x = cl s cr ! 0 \<or> x = cl s cr ! k" for x using nw(4) nth by simp
  have "levels_ok A ?D (sv_trail_lim s) (sv_trail s)"
    using co k(3) st wat ne nth unfolding core_def by (intro levels_ok_move [where k = k]) auto
  then have "levels_ok A (cl ?s) (sv_trail_lim s) (sv_trail s)" by (rule levels_ok_same [OF swD])
  then have "core A n ?s" using co set_clause_store [OF so cr(2) c(1) sh nw(1)] unfolding core_def by simp
  then obtain wt where wt: "occ_push (lit_index q) w (sv_watches ?s) = Some wt" "core A n (?s\<lparr>sv_watches := wt\<rparr>)"
    "wl (?s\<lparr>sv_watches := wt\<rparr>) = (wl s)(q := wl s q @ [w])" using push_core [OF _ qok] by fastforce
  let ?t = "?s\<lparr>sv_watches := wt\<rparr>"
  have clt: "cl ?t = cl ?s" by (simp add: cl_def [abs_def])
  have "watch_ok A n ?D ((wl s)(q := wl s q @ [w], p := kept @ ws))"
  proof (rule watch_ok_move [where k = k and i = i])
    show "watch_ok A n (cl s) ((wl s)(p := kept @ i # ws))" using v unfolding visiting_def by blast
  qed (use p lk c nth k st wat q_def qp cr w in auto)
  then have "watch_ok A n (cl ?t) ((wl s)(q := wl s q @ [w], p := kept @ ws))" unfolding clt by (rule watch_ok_same [OF swD])
  moreover have "prop_ok A ?D ((\<lambda>w. (w_cref w, Lit_neg p)) ` set ws) (sv_trail s) (sv_qhead s)"
  proof (rule prop_ok_move [where k = k])
    show "prop_ok A (cl s) (insert (cr, cl s cr ! 1) ((\<lambda>w. (w_cref w, Lit_neg p)) ` set ws)) (sv_trail s) (sv_qhead s)"
      using v c(3) nth cr unfolding visiting_def by simp
  qed (use st wat k(3) nth ne in auto)
  then have "prop_ok A (cl ?t) ((\<lambda>w. (w_cref w, Lit_neg p)) ` set ws) (sv_trail s) (sv_qhead s)" unfolding clt by (rule prop_ok_same [OF swD])
  ultimately have "visiting A n p ws kept ?t" using wt(2,3) pt unfolding visiting_def by simp
  moreover have "Clause_lits c' ! 0 = cl s cr ! 0" using nth k clause_in_nth [OF nw(1), of 0] clause_in_size [OF nw(1)] by (simp add: c'_def)
  then have "reasons_ok A s \<longrightarrow> reasons_ok A ?s" using reasons_reorder [of n s ?s A] co st clD unfolding core_def by auto
  then have "grows A s ?t" using clt clD st unfolding grows_def by (auto simp: trail_true_def rest_def set_clause_def ca_update_def)
  moreover have "Lit_neg (c_data c' ! 1) = q" using nw(3) by (simp add: q_def)
  ultimately show ?thesis using wt(1) qp by auto
qed

text \<open>The body of the loop once the false literal is at position 1.\<close>

definition visit_tail :: "Lit \<Rightarrow> 32 word \<Rightarrow> Watcher \<Rightarrow> Watcher list \<Rightarrow> Watcher list \<Rightarrow> Clause \<Rightarrow> mlbool \<Rightarrow> Solver \<Rightarrow> (32 word \<times> Watcher list \<times> Solver) option" where
  "visit_tail p confl i ws kept c vf s1 = (let w = \<lparr>w_cref = w_cref i, w_blocker = c_data c ! 0\<rparr> in
     if c_data c ! 0 \<noteq> w_blocker i \<and> mlbool_eq vf ml_True then propagate_ws p confl ws (kept @ [w]) s1
     else do {
       nw \<leftarrow> find_watch s1 (drop 2 (Clause_lits c)) 2;
       case nw of
         Some k \<Rightarrow> do {
           let c' = c\<lparr>c_data := (c_data c)[1 := c_data c ! k, k := Lit_neg p]\<rparr>;
           let q = Lit_neg (c_data c' ! 1);
           if q = p then None else do {
           wt \<leftarrow> occ_push (lit_index q) w (sv_watches s1);
           propagate_ws p confl ws kept ((set_clause (w_cref i) c' s1)\<lparr>sv_watches := wt\<rparr>) } }
       | None \<Rightarrow>
           if mlbool_eq vf ml_False then Some (w_cref i, kept @ [w] @ ws, s1\<lparr>sv_qhead := length (sv_trail s1)\<rparr>)
           else do {
             s2 \<leftarrow> uncheckedEnqueue (c_data c ! 0) (w_cref i) s1;
             propagate_ws p confl ws (kept @ [w]) s2 } })"

definition visit_ok :: "32 word set \<Rightarrow> nat \<Rightarrow> Lit \<Rightarrow> 32 word \<Rightarrow> Watcher \<Rightarrow> Watcher list \<Rightarrow> Solver \<Rightarrow> (32 word \<times> Watcher list \<times> Solver) option \<Rightarrow> bool" where
  "visit_ok A n p confl i ws s r \<longleftrightarrow>
     (\<exists>kept' s'. r = propagate_ws p confl ws kept' s' \<and> visiting A n p ws kept' s' \<and> grows A s s' \<and> sv_qhead s' = sv_qhead s)
     \<or> (\<exists>kept' s'. r = Some (w_cref i, kept', s') \<and> conflicting A n p (w_cref i) kept' s' \<and> grows A s s')"

lemma visit_tail_ok:
  assumes v: "visiting A n p (i # ws) kept s" and cA: "w_cref i \<in> A" and c: "ca_deref (sv_ca s) (w_cref i) = Some c" "clause_in n c" "c_data c ! 1 = Lit_neg p"
    and vf: "mlbool_eq vf ml_True \<longleftrightarrow> c_data c ! 0 \<in> set (sv_trail s)" "mlbool_eq vf ml_False \<longleftrightarrow> Lit_neg (c_data c ! 0) \<in> set (sv_trail s)"
    and b: "c_data c ! 0 = w_blocker i \<Longrightarrow> \<not> mlbool_eq vf ml_True"
  shows "visit_ok A n p confl i ws s (visit_tail p confl i ws kept c vf s)"
proof -
  let ?first = "c_data c ! 0" and ?w = "\<lparr>w_cref = w_cref i, w_blocker = c_data c ! 0\<rparr>"
  let ?c' = "\<lambda>k. c\<lparr>c_data := (c_data c)[1 := c_data c ! k, k := Lit_neg p]\<rparr>"
  have co: "core A n s" and pt: "p \<in> set (sv_trail s)" using v by (simp_all add: visiting_def)
  have ti: "trail_inv n s" using co by (simp add: core_def)
  have sz: "2 \<le> Clause_size c" "length (Clause_lits c) = Clause_size c" using clause_in_size [OF c(2)] by auto
  have nth: "Clause_lits c ! 0 = ?first" "Clause_lits c ! 1 = Lit_neg p" using clause_in_nth [OF c(2)] sz c(3) by auto
  have split: "set (Clause_lits c) = {?first, Lit_neg p} \<union> set (drop 2 (Clause_lits c))"
  proof -
    obtain x y r where "Clause_lits c = x # y # r" using sz by (metis Suc_le_length_iff numeral_2_eq_2)
    then show ?thesis using nth by auto
  qed
  have clc: "cl s (w_cref i) = Clause_lits c" using c(1) by simp
  have oks: "\<forall>l\<in>set (Clause_lits c). slit_ok n l" using c(2) unfolding clause_in_def lits_ok_def by blast
  have wb: "w_blocker ?w \<in> set (cl s (w_cref i))" using split clc by simp
  show ?thesis
  proof (cases "mlbool_eq vf ml_True")
    case True
    then have "visiting A n p ws (kept @ [?w]) s" using visiting_keep [OF v _ wb, of ?first] vf(1) wb by simp
    then show ?thesis using True b grows_refl unfolding visit_ok_def visit_tail_def Let_def by auto
  next
    case nt: False
    have "\<forall>l\<in>set (drop 2 (Clause_lits c)). slit_ok n l" using oks split by blast
    then obtain r where r: "find_watch s (drop 2 (Clause_lits c)) 2 = Some r" "case r of
        None \<Rightarrow> \<forall>l\<in>set (drop 2 (Clause_lits c)). Lit_neg l \<in> set (sv_trail s)
      | Some j \<Rightarrow> 2 \<le> j \<and> j < 2 + length (drop 2 (Clause_lits c)) \<and> Lit_neg (drop 2 (Clause_lits c) ! (j - 2)) \<notin> set (sv_trail s)"
      using find_watch_ok [OF ti, of _ 2] by blast
    show ?thesis
    proof (cases r)
      case (Some k)
      then have k2: "2 \<le> k" "k < Clause_size c" "Lit_neg (drop 2 (Clause_lits c) ! (k - 2)) \<notin> set (sv_trail s)" using r(2) sz by auto
      have "drop 2 (Clause_lits c) ! (k - 2) = Clause_lits c ! k" using nth_drop [of 2 "Clause_lits c" "k - 2"] le_add_diff_inverse [OF k2(1)] sz by metis
      with k2 have k: "2 \<le> k" "k < Clause_size c" "Lit_neg (Clause_lits c ! k) \<notin> set (sv_trail s)" by simp_all
      then have "Lit_neg (c_data c ! k) \<notin> set (sv_trail s)" using clause_in_nth [OF c(2) k(2)] by simp
      then obtain wt where m: "Lit_neg (c_data (?c' k) ! 1) \<noteq> p"
        "occ_push (lit_index (Lit_neg (c_data (?c' k) ! 1))) ?w (sv_watches s) = Some wt"
        "visiting A n p ws kept ((set_clause (w_cref i) (?c' k) s)\<lparr>sv_watches := wt\<rparr>)"
        "grows A s ((set_clause (w_cref i) (?c' k) s)\<lparr>sv_watches := wt\<rparr>)"
        "sv_qhead ((set_clause (w_cref i) (?c' k) s)\<lparr>sv_watches := wt\<rparr>) = sv_qhead s"
        using visiting_move [OF v refl cA c k(1,2), of ?w] wb clc by auto
      then have "visit_tail p confl i ws kept c vf s = propagate_ws p confl ws kept ((set_clause (w_cref i) (?c' k) s)\<lparr>sv_watches := wt\<rparr>)"
        using nt r(1) Some unfolding visit_tail_def Let_def by simp
      then show ?thesis using m(3-5) unfolding visit_ok_def by blast
    next
      case None
      then have o: "\<forall>l\<in>set (Clause_lits c). l = ?first \<or> Lit_neg l \<in> set (sv_trail s)" using r(2) split pt by auto
      show ?thesis
      proof (cases "mlbool_eq vf ml_False")
        case True
        let ?t = "s\<lparr>sv_qhead := length (sv_trail s)\<rparr>"
        have "\<forall>l\<in>set (cl ?t (w_cref i)). Lit_neg l \<in> set (sv_trail ?t)" using o True vf(2) clc by (auto simp: cl_def)
        moreover have "core A n ?t" using co unfolding core_def by (auto simp: trail_inv_def store_ok_def lists_ok_def cl_def [abs_def])
        moreover have "watch_ok A n (cl ?t) ((wl ?t)(p := kept @ [?w] @ ws))"
          using v co pt wb watch_ok_keep [of A n "cl s" "wl s" p kept i ws ?w]
          unfolding visiting_def core_def trail_inv_def by (simp add: cl_def [abs_def] wl_def [abs_def])
        moreover have "grows A s ?t" by (simp add: grows_def cl_def trail_true_def rest_def)
        ultimately show ?thesis using nt True r(1) None cA unfolding visit_ok_def visit_tail_def conflicting_def Let_def by auto
      next
        case False
        have "slit_ok n ?first" using oks split by blast
        from visiting_enqueue [OF v _ wb cA _ this] show ?thesis
          using nt False vf o clc split nth(1) r(1) None unfolding visit_ok_def visit_tail_def Let_def by auto
      qed
    qed
  qed
qed

lemma visit:
  assumes v: "visiting A n p (i # ws) kept s"
  shows "visit_ok A n p confl i ws s (propagate_ws p confl (i # ws) kept s)"
proof -
  let ?cr = "w_cref i" and ?f = "Lit_neg p"
  have co: "core A n s" and pt: "p \<in> set (sv_trail s)" using v by (simp_all add: visiting_def)
  have ti: "trail_inv n s" using co by (simp add: core_def)
  have p: "slit_ok n p" using ti pt unfolding trail_inv_def by blast
  have "list_watch A (cl s) p (kept @ i # ws)" using v p unfolding visiting_def watch_ok_def by (auto dest: spec [of _ p])
  note i = list_watchD [OF this, of i, simplified]
  obtain c0 where c0: "ca_deref (sv_ca s) ?cr = Some c0" "clause_in n c0" using co i(1) unfolding core_def store_ok_def by blast
  have w0: "watched (Clause_lits c0) ?f" "w_blocker i \<in> set (Clause_lits c0)" using i c0(1) by simp_all
  have bok: "slit_ok n (w_blocker i)" using c0(2) w0(2) unfolding clause_in_def lits_ok_def by blast
  obtain vb where vb: "sv_value s (w_blocker i) = Some vb" "mlbool_eq vb ml_True \<longleftrightarrow> w_blocker i \<in> set (sv_trail s)"
    using value_cases [OF ti bok] by metis
  show ?thesis
  proof (cases "mlbool_eq vb ml_True")
    case True
    then have "visiting A n p ws (kept @ [i]) s" using visiting_keep [OF v refl] i(3) vb(2) by blast
    then show ?thesis using True vb(1) grows_refl unfolding visit_ok_def
      by (intro disjI1 exI [of _ "kept @ [i]"] exI [of _ s]) simp
  next
    case nb: False
    define c where "c = to_front ?f c0"
    define s1 where "s1 = set_clause ?cr c s"
    note fr = to_front_ok [OF c0(2) w0(1), folded c_def]
    note v1 = visiting_front [OF v i(1) c0 w0(1), folded c_def, folded s1_def]
    have "store_ok A n s" using co by (simp add: core_def)
    then have d1: "ca_deref (sv_ca s1) ?cr = Some c"
      using set_clause_cl(2) [OF _ i(1) c0(1) to_front_shape, of n ?f] i(1) unfolding s1_def c_def by simp
    have tr1: "sv_trail s1 = sv_trail s" "sv_qhead s1 = sv_qhead s" "sv_value s1 = sv_value s" by (simp_all add: s1_def)
    have sz: "0 < Clause_size c" "length (Clause_lits c) = Clause_size c" using clause_in_size [OF fr(1)] by auto
    have "c_data c ! 0 \<in> set (Clause_lits c)" using clause_in_nth [OF fr(1), of 0] sz nth_mem by metis
    then have fok: "slit_ok n (c_data c ! 0)" using fr(1) unfolding clause_in_def lits_ok_def by blast
    obtain vf where vf: "sv_value s (c_data c ! 0) = Some vf" "mlbool_eq vf ml_True \<longleftrightarrow> c_data c ! 0 \<in> set (sv_trail s)"
      "mlbool_eq vf ml_False \<longleftrightarrow> Lit_neg (c_data c ! 0) \<in> set (sv_trail s)" using value_cases [OF ti fok] by metis
    have cc: "(if c_data c0 ! 0 = ?f then c0\<lparr>c_data := (c_data c0)[0 := c_data c0 ! 1, 1 := ?f]\<rparr> else c0) = c"
      by (simp add: c_def to_front_def)
    have "propagate_ws p confl (i # ws) kept s = visit_tail p confl i ws kept c vf s1"
      using vb nb c0(1) fr(2) vf(1) tr1(3) unfolding visit_tail_def
      by (simp only: propagate_ws.simps Let_def cc bind.bind_lunit s1_def [symmetric] if_False simp_thms)
    moreover have "visit_ok A n p confl i ws s1 (visit_tail p confl i ws kept c vf s1)"
      by (rule visit_tail_ok [OF v1(1) i(1) d1 fr(1,2)]) (use vf vb nb tr1 in auto)
    ultimately show ?thesis using grows_trans [OF v1(2)] tr1(2) unfolding visit_ok_def by metis
  qed
qed

lemma propagate_ws_ok:
  "visiting A n p ws kept s \<Longrightarrow> \<exists>confl' kept' s'. propagate_ws p confl ws kept s = Some (confl', kept', s') \<and> grows A s s'
     \<and> (confl' = confl \<and> sv_qhead s' = sv_qhead s \<and> visiting A n p [] kept' s' \<or> conflicting A n p confl' kept' s')"
proof (induction ws arbitrary: kept s)
  case Nil
  then show ?case using grows_refl by auto
next
  case (Cons i ws)
  from visit [OF Cons.prems, of confl] show ?case unfolding visit_ok_def
  proof
    assume "\<exists>kept' s'. propagate_ws p confl (i # ws) kept s = propagate_ws p confl ws kept' s' \<and> visiting A n p ws kept' s'
      \<and> grows A s s' \<and> sv_qhead s' = sv_qhead s"
    then obtain kept1 s1 where s1: "propagate_ws p confl (i # ws) kept s = propagate_ws p confl ws kept1 s1" "visiting A n p ws kept1 s1"
      "grows A s s1" "sv_qhead s1 = sv_qhead s" by blast
    then show ?thesis using Cons.IH [OF s1(2)] grows_trans [OF s1(3)] by metis
  next
    assume "\<exists>kept' s'. propagate_ws p confl (i # ws) kept s = Some (w_cref i, kept', s') \<and> conflicting A n p (w_cref i) kept' s' \<and> grows A s s'"
    then show ?thesis by blast
  qed
qed

section \<open>Propagation\<close>

text \<open>
  The invariant between calls: \<open>ready\<close> states have every literal before \<^verbatim>\<open>qhead\<close> propagated.
\<close>

definition sv_inv :: "32 word set \<Rightarrow> nat \<Rightarrow> Solver \<Rightarrow> bool" where
  "sv_inv A n s = (core A n s \<and> watch_ok A n (cl s) (wl s))"

definition propagated :: "32 word set \<Rightarrow> Solver \<Rightarrow> bool" where
  "propagated A s = prop_ok A (cl s) {} (sv_trail s) (sv_qhead s)"

definition falsified :: "Solver \<Rightarrow> 32 word \<Rightarrow> bool" where
  "falsified s cr = (\<forall>l\<in>set (cl s cr). Lit_neg l \<in> set (sv_trail s))"

lemma lookup_clean:
  assumes "lists_ok n s" "slit_ok n p"
  shows "occ_lookup d (lit_index p) (sv_watches s) = Some (wl s p, sv_watches s)"
proof -
  have "lit_index p < 2 * n" using assms(2) by (simp add: slit_ok_def lit_index_def)
  then show ?thesis using assms(1) by (simp add: occ_lookup_def lists_ok_def wl_def)
qed

lemma put_list:
  assumes "core A n s" "slit_ok n p" "watch_ok A n (cl s) ((wl s)(p := kept))"
  shows "\<exists>wt. occ_put (lit_index p) kept (sv_watches s) = Some wt \<and> sv_inv A n (s\<lparr>sv_watches := wt\<rparr>)"
proof -
  let ?o = "occs (sv_watches s)"
  have q: "lit_index p < length ?o" using assms by (simp add: core_def lists_ok_def slit_ok_def lit_index_def)
  let ?wt = "(sv_watches s)\<lparr>occs := ?o[lit_index p := kept]\<rparr>"
  have "wl (s\<lparr>sv_watches := ?wt\<rparr>) = (wl s)(p := kept)"
    using q by (auto simp: wl_def fun_eq_iff lit_index_def nth_list_update dest: unsigned_word_eqI)
  moreover have "core A n (s\<lparr>sv_watches := ?wt\<rparr>)" "cl (s\<lparr>sv_watches := ?wt\<rparr>) = cl s"
    using assms(1) by (simp_all add: core_def trail_inv_def store_ok_def lists_ok_def cl_def [abs_def])
  ultimately show ?thesis using q assms(3) by (simp add: occ_put_def sv_inv_def)
qed

lemma grows_watches: "grows A s (s'\<lparr>sv_watches := wt\<rparr>) = grows A s s'"
  by (simp add: grows_def cl_def trail_true_def rest_def)

text \<open>One round of the outer loop.\<close>

lemma propagate_round:
  assumes inv: "sv_inv A n s" "propagated A s" and q: "sv_qhead s < length (sv_trail s)"
  shows "\<exists>confl' s'. propagate_loop confl k0 s = propagate_loop confl' (k0 + 1) s' \<and> sv_inv A n s' \<and> grows A s s'
    \<and> (confl' = confl \<and> sv_qhead s' = sv_qhead s + 1 \<and> propagated A s'
       \<or> confl' \<in> A \<and> sv_qhead s' = length (sv_trail s') \<and> falsified s' confl')"
proof -
  define p where "p = sv_trail s ! sv_qhead s"
  define s1 where "s1 = s\<lparr>sv_qhead := sv_qhead s + 1\<rparr>"
  have co: "core A n s" using inv(1) by (simp add: sv_inv_def)
  have pt: "p \<in> set (sv_trail s)" using q by (simp add: p_def)
  have p: "slit_ok n p" using co pt unfolding core_def trail_inv_def by blast
  have same: "cl s1 = cl s" "wl s1 = wl s" "sv_trail s1 = sv_trail s" "sv_watches s1 = sv_watches s" by (simp_all add: s1_def cl_def [abs_def] wl_def [abs_def])
  have co1: "core A n s1" using co q unfolding core_def by (auto simp: s1_def trail_inv_def store_ok_def lists_ok_def cl_def [abs_def])
  have lw: "list_watch A (cl s) p (wl s p)" using inv(1) p unfolding sv_inv_def watch_ok_def by blast
  have "prop_ok A (cl s) ((\<lambda>w. (w_cref w, Lit_neg p)) ` set (wl s p)) (sv_trail s) (Suc (sv_qhead s))"
  proof -
    have tk: "set (take (Suc (sv_qhead s)) (sv_trail s)) = insert p (set (take (sv_qhead s) (sv_trail s)))"
      using q by (simp add: take_Suc_conv_app_nth p_def)
    have "(cr, l) \<in> (\<lambda>w. (w_cref w, Lit_neg p)) ` set (wl s p)" if "cr \<in> A" "watched (cl s cr) l" "Lit_neg l = p" for cr l
    proof -
      have "cr \<in> w_cref ` set (wl s p)" using that lw unfolding list_watch_def by auto
      then show ?thesis using that(3) by (auto intro: rev_image_eqI)
    qed
    then show ?thesis using inv(2) tk unfolding propagated_def prop_ok_def by auto
  qed
  then have "visiting A n p (wl s p) [] s1" using co1 pt same inv(1) unfolding visiting_def sv_inv_def
    by (simp add: s1_def)
  then obtain confl' kept s2 where r: "propagate_ws p confl (wl s p) [] s1 = Some (confl', kept, s2)" "grows A s1 s2"
    "confl' = confl \<and> sv_qhead s2 = sv_qhead s1 \<and> visiting A n p [] kept s2 \<or> conflicting A n p confl' kept s2"
    using propagate_ws_ok [of A n p "wl s p" "[]" s1 confl] by blast
  then have c2: "core A n s2" "watch_ok A n (cl s2) ((wl s2)(p := kept))" by (auto simp: visiting_def conflicting_def)
  obtain wt where wt: "occ_put (lit_index p) kept (sv_watches s2) = Some wt" "sv_inv A n (s2\<lparr>sv_watches := wt\<rparr>)"
    using put_list [OF c2(1) p c2(2)] by blast
  have lk: "occ_lookup d (lit_index p) (sv_watches s) = Some (wl s p, sv_watches s)" for d
    using lookup_clean [of n s p] co p unfolding core_def by simp
  have g1: "grows A s s1" using same(1) by (simp add: grows_def trail_true_def rest_def s1_def)
  have u: "s\<lparr>sv_qhead := Suc (sv_qhead s), sv_watches := sv_watches s\<rparr> = s1" by (simp add: s1_def)
  have "propagate_loop confl k0 s = propagate_loop confl' (k0 + 1) (s2\<lparr>sv_watches := wt\<rparr>)"
    using q lk r(1) wt(1) by (subst propagate_loop.simps) (simp add: Let_def p_def [symmetric] u)
  moreover have "grows A s (s2\<lparr>sv_watches := wt\<rparr>)"
    using grows_trans [OF g1 r(2)] unfolding grows_watches .
  moreover have "confl' = confl \<and> sv_qhead (s2\<lparr>sv_watches := wt\<rparr>) = sv_qhead s + 1 \<and> propagated A (s2\<lparr>sv_watches := wt\<rparr>)
    \<or> confl' \<in> A \<and> sv_qhead (s2\<lparr>sv_watches := wt\<rparr>) = length (sv_trail (s2\<lparr>sv_watches := wt\<rparr>)) \<and> falsified (s2\<lparr>sv_watches := wt\<rparr>) confl'"
    using r(3) by (auto simp: s1_def propagated_def visiting_def conflicting_def falsified_def cl_def [abs_def])
  ultimately show ?thesis using wt(2) by blast
qed

lemma trail_var_inj: "trail_inv n s \<Longrightarrow> inj_on var_index (set (sv_trail s))"
proof (rule inj_onI)
  fix l m assume t: "trail_inv n s" and lm: "l \<in> set (sv_trail s)" "m \<in> set (sv_trail s)" "var_index l = var_index m"
  have "n \<le> 2 ^ 30" "slit_ok n l" "slit_ok n m" using t lm by (auto simp: trail_inv_def)
  then have "m = l \<or> m = Lit_neg l" using var_index_eq slit_ok_bound lm(3) by blast
  then show "l = m" using trail_consistent [OF t lm(1)] lm(2) by auto
qed

lemma trail_short: "trail_inv n s \<Longrightarrow> length (sv_trail s) \<le> n"
proof -
  assume t: "trail_inv n s"
  have "var_index ` set (sv_trail s) \<subseteq> {..<n}" using t slit_ok_var [of n] unfolding trail_inv_def by auto
  then have "card (set (sv_trail s)) \<le> n" using card_inj_on_le [OF trail_var_inj [OF t], of "{..<n}"] by simp
  then show ?thesis using t distinct_card [of "sv_trail s"] by (simp add: trail_inv_def)
qed

definition outcome :: "32 word set \<Rightarrow> 32 word \<Rightarrow> 32 word \<Rightarrow> Solver \<Rightarrow> bool" where
  "outcome A confl confl' s \<longleftrightarrow> sv_qhead s = length (sv_trail s) \<and>
     (confl' = confl \<and> propagated A s \<or> confl' \<in> A \<and> falsified s confl')"

lemma propagate_loop_ok:
  assumes "sv_inv A n s" "propagated A s"
  shows "\<exists>confl' k s'. propagate_loop confl k0 s = Some (confl', k, s') \<and> sv_inv A n s' \<and> grows A s s' \<and> outcome A confl confl' s'"
  using assms
proof (induction "n - sv_qhead s" arbitrary: s k0 rule: less_induct)
  case less
  show ?case
  proof (cases "sv_qhead s < length (sv_trail s)")
    case False
    then have "sv_qhead s = length (sv_trail s)" using less.prems(1) by (simp add: sv_inv_def core_def)
    moreover have "propagate_loop confl k0 s = Some (confl, k0, s)" using False by (subst propagate_loop.simps) simp
    ultimately show ?thesis using less.prems grows_refl by (auto simp: outcome_def)
  next
    case True
    obtain c1 s1 where r: "propagate_loop confl k0 s = propagate_loop c1 (k0 + 1) s1" "sv_inv A n s1" "grows A s s1"
      "c1 = confl \<and> sv_qhead s1 = sv_qhead s + 1 \<and> propagated A s1 \<or> c1 \<in> A \<and> sv_qhead s1 = length (sv_trail s1) \<and> falsified s1 c1"
      using propagate_round [OF less.prems True, of confl k0] by blast
    from r(4) show ?thesis
    proof
      assume c: "c1 = confl \<and> sv_qhead s1 = sv_qhead s + 1 \<and> propagated A s1"
      have "sv_qhead s < n" using True trail_short [of n s] less.prems(1) by (simp add: sv_inv_def core_def)
      then have "n - sv_qhead s1 < n - sv_qhead s" using c by simp
      then obtain confl' k s' where "propagate_loop confl (k0 + 1) s1 = Some (confl', k, s')" "sv_inv A n s'" "grows A s1 s'" "outcome A confl confl' s'"
        using less.hyps [of s1 "k0 + 1"] r(2) c by blast
      then show ?thesis using r(1) c grows_trans [OF r(3)] by auto
    next
      assume c: "c1 \<in> A \<and> sv_qhead s1 = length (sv_trail s1) \<and> falsified s1 c1"
      then have "propagate_loop c1 (k0 + 1) s1 = Some (c1, k0 + 1, s1)" by (subst propagate_loop.simps) simp
      then show ?thesis using r c by (auto simp: outcome_def)
    qed
  qed
qed

lemma propagate_core_ok:
  assumes "sv_inv A n s" "propagated A s"
  shows "\<exists>confl s'. propagate_core s = Some (confl, s') \<and> sv_inv A n s' \<and> outcome A CRef_Undef confl s'
    \<and> (\<forall>cr\<in>A. set (cl s' cr) = set (cl s cr)) \<and> (\<exists>ts. sv_trail s' = sv_trail s @ ts)
    \<and> (\<forall>\<alpha>. models \<alpha> A s \<and> trail_true \<alpha> s \<longrightarrow> trail_true \<alpha> s')
    \<and> (sv_ok s', sv_clauses s', sv_trail_lim s') = (sv_ok s, sv_clauses s, sv_trail_lim s) \<and> (reasons_ok A s \<longrightarrow> reasons_ok A s')"
proof -
  obtain confl k s1 where r: "propagate_loop CRef_Undef 0 s = Some (confl, k, s1)" "sv_inv A n s1" "grows A s s1" "outcome A CRef_Undef confl s1"
    using propagate_loop_ok [OF assms, of CRef_Undef 0] by blast
  let ?s = "s1\<lparr>sv_propagations := sv_propagations s1 + of_nat k, sv_simpDB_props := sv_simpDB_props s1 - int k\<rparr>"
  have same: "cl ?s = cl s1" "wl ?s = wl s1" by (simp_all add: cl_def [abs_def] wl_def [abs_def])
  have "sv_inv A n ?s" using r(2) same unfolding sv_inv_def core_def by (simp add: trail_inv_def store_ok_def lists_ok_def)
  moreover have "outcome A CRef_Undef confl ?s" using r(4) same by (auto simp: outcome_def propagated_def falsified_def)
  moreover have "rest s1 = rest s" using r(3) by (simp add: grows_def)
  then have "sv_ok s1 = sv_ok s" "sv_clauses s1 = sv_clauses s" "sv_trail_lim s1 = sv_trail_lim s"
    using rest_ok rest_clauses rest_lim by blast+
  moreover have "propagate_core s = Some (confl, ?s)" using r(1) by (simp add: propagate_core_def)
  moreover have "\<forall>cr\<in>A. set (cl ?s cr) = set (cl s cr)" "\<exists>ts. sv_trail ?s = sv_trail s @ ts"
    "\<forall>\<alpha>. models \<alpha> A s \<and> trail_true \<alpha> s \<longrightarrow> trail_true \<alpha> ?s"
    using r(3) same unfolding grows_def trail_true_def by simp_all
  moreover have "reasons_ok A s \<longrightarrow> reasons_ok A ?s"
    using r(3) same(1) unfolding grows_def by (simp add: reasons_ok_def reason_pos_def root_pos_def reason_at_def)
  ultimately show ?thesis by (intro exI [of _ confl] exI [of _ ?s]) simp
qed

end
