(* ===== verification/MiniAdd.thy ===== *)
theory MiniAdd
  imports MiniProp
begin

text \<open>
  Building a formula in MiniSat: variables and clauses. The invariant of \<open>MiniProp\<close> holds in every state
  the operations reach, and the solver holds the formula that was added.
\<close>

section \<open>The order of literals\<close>

interpretation lits: weak_order Lit_less
  by unfold_locales (auto simp: Lit_less_def)

lemma sint_ok: "unat (l :: 32 word) < 2 ^ 31 \<Longrightarrow> sint l = int (unat l)"
proof -
  assume l: "unat l < 2 ^ 31"
  have u: "uint l = int (unat l)" by simp
  have "sint l = signed_take_bit 31 (uint l)" by (simp add: sint_uint)
  also have "\<dots> = uint l"
  proof (rule signed_take_bit_int_eq_self)
    have "- (2 ^ 31) \<le> (0::int)" "(0::int) \<le> uint l" unfolding u by (simp, rule of_nat_0_le_iff)
    then show "- (2 ^ 31) \<le> uint l" by (rule order_trans)
    show "uint l < 2 ^ 31" unfolding u using l by (metis of_nat_less_iff of_nat_numeral of_nat_power)
  qed
  also note u
  finally show ?thesis .
qed

lemma lits_sorted:
  assumes "\<forall>l\<in>set ls. slit_ok n l" "n \<le> 2 ^ 30"
  shows "\<exists>qs. sort_array Lit_less ls = Some qs \<and> set qs = set ls \<and> sorted (map unat qs)"
proof -
  obtain qs where q: "sort_array Lit_less ls = Some qs" "mset qs = mset ls" "lits.ordered qs" using lits.sort_array_ok [of ls] by blast
  have st: "set qs = set ls" using q(2) by (rule mset_eq_setD)
  have si: "sint x = int (unat x)" if "x \<in> set qs" for x using that st assms slit_ok_bound sint_ok by blast
  have "sorted_wrt (\<lambda>x y. unat x \<le> unat y) qs"
  proof (rule sorted_wrt_mono_rel [OF _ q(3) [unfolded lits.ordered_def]])
    fix x y assume "x \<in> set qs" "y \<in> set qs" "\<not> Lit_less y x"
    then show "unat x \<le> unat y" using si [of x] si [of y] unfolding Lit_less_def by linarith
  qed
  then show ?thesis using q(1) st by (auto simp: sorted_map)
qed

section \<open>Removing false and repeated literals\<close>

lemma slit_ok_ordinary: "slit_ok n l \<Longrightarrow> n \<le> 2 ^ 30 \<Longrightarrow> l \<noteq> lit_Undef \<and> l \<noteq> Lit_neg lit_Undef"
proof -
  assume l: "slit_ok n l" "n \<le> 2 ^ 30"
  have "bit (- 2 :: 32 word) 31" "Lit_neg (- 2) = - 1" "bit (- 1 :: 32 word) 31" by (simp_all add: Lit_neg_def)
  then show ?thesis using bit31 [OF slit_ok_bound [OF l]] unfolding lit_Undef_def by metis
qed

lemma add_filter_ok:
  assumes inv: "trail_inv n s" and ok: "\<forall>l\<in>set qs. slit_ok n l" and so: "sorted (map unat qs)"
    and p: "p = lit_Undef \<or> (\<forall>l\<in>set qs. unat p \<le> unat l)"
  shows "\<exists>r. add_filter s p qs = Some r \<and> (case r of
      None \<Rightarrow> \<exists>l\<in>set qs. l \<in> set (sv_trail s) \<or> l = Lit_neg p \<or> Lit_neg l \<in> set qs
    | Some ls \<Rightarrow> (\<forall>l\<in>set qs. l \<notin> set (sv_trail s) \<and> l \<noteq> Lit_neg p)
        \<and> set ls = {l \<in> set qs. Lit_neg l \<notin> set (sv_trail s) \<and> l \<noteq> p}
        \<and> distinct ls \<and> (\<forall>l\<in>set ls. Lit_neg l \<notin> set ls))"
  using ok so p
proof (induction qs arbitrary: p)
  case Nil
  then show ?case by simp
next
  case (Cons l qs)
  have n: "n \<le> 2 ^ 30" using inv by (simp add: trail_inv_def)
  have l: "slit_ok n l" "\<forall>x\<in>set qs. slit_ok n x" "\<forall>x\<in>set qs. unat l \<le> unat x" "sorted (map unat qs)" using Cons.prems by auto
  obtain a where a: "sv_value s l = Some a" "mlbool_eq a ml_True \<longleftrightarrow> l \<in> set (sv_trail s)"
    "mlbool_eq a ml_False \<longleftrightarrow> Lit_neg l \<in> set (sv_trail s)" using value_cases [OF inv l(1)] by metis
  consider "mlbool_eq a ml_True \<or> l = Lit_neg p" | "\<not> (mlbool_eq a ml_True \<or> l = Lit_neg p)" "\<not> mlbool_eq a ml_False" "l \<noteq> p"
    | "\<not> (mlbool_eq a ml_True \<or> l = Lit_neg p)" "mlbool_eq a ml_False \<or> l = p" by blast
  then show ?case
  proof cases
    case 1
    then show ?thesis using a by auto
  next
    case 2
    obtain r where r: "add_filter s l qs = Some r" "case r of
        None \<Rightarrow> \<exists>x\<in>set qs. x \<in> set (sv_trail s) \<or> x = Lit_neg l \<or> Lit_neg x \<in> set qs
      | Some ls \<Rightarrow> (\<forall>x\<in>set qs. x \<notin> set (sv_trail s) \<and> x \<noteq> Lit_neg l)
          \<and> set ls = {x \<in> set qs. Lit_neg x \<notin> set (sv_trail s) \<and> x \<noteq> l} \<and> distinct ls \<and> (\<forall>x\<in>set ls. Lit_neg x \<notin> set ls)"
      using Cons.IH [OF l(2,4), of l] l(3) by blast
    have np: "x \<noteq> p \<and> x \<noteq> Lit_neg p" if x: "x \<in> set qs" for x
    proof (cases "p = lit_Undef")
      case True
      then show ?thesis using slit_ok_ordinary [OF _ n] l(2) x by blast
    next
      case False
      then have "unat p \<le> unat l" using Cons.prems(3) by simp
      moreover have "unat p \<noteq> unat l" using 2(3) by (metis unsigned_word_eqI)
      moreover have "unat l \<noteq> unat (Lit_neg p)" using 2(1) by (metis unsigned_word_eqI)
      ultimately have "unat p < unat x" "unat (Lit_neg p) < unat x" using l(3) x unfolding unat_Lit_neg by (auto split: if_splits)
      then show ?thesis by auto
    qed
    show ?thesis
    proof (cases r)
      case None
      then show ?thesis using 2 a r by auto
    next
      case (Some ls)
      then have "add_filter s p (l # qs) = Some (Some (l # ls))" using 2 a r(1) by simp
      then show ?thesis using 2 a r(2) Some np by auto
    qed
  next
    case 3
    obtain r where r: "add_filter s p qs = Some r" "case r of
        None \<Rightarrow> \<exists>x\<in>set qs. x \<in> set (sv_trail s) \<or> x = Lit_neg p \<or> Lit_neg x \<in> set qs
      | Some ls \<Rightarrow> (\<forall>x\<in>set qs. x \<notin> set (sv_trail s) \<and> x \<noteq> Lit_neg p)
          \<and> set ls = {x \<in> set qs. Lit_neg x \<notin> set (sv_trail s) \<and> x \<noteq> p} \<and> distinct ls \<and> (\<forall>x\<in>set ls. Lit_neg x \<notin> set ls)"
      using Cons.IH [OF l(2,4), of p] Cons.prems(3) by auto
    have "add_filter s p (l # qs) = Some r" using 3 a r(1) by auto
    then show ?thesis using 3 a r(2) by (cases r) auto
  qed
qed

section \<open>Attaching a new clause\<close>

lemma list_watch_new:
  assumes "list_watch A C p L" "cr \<notin> A"
  shows "\<not> watched ls (Lit_neg p) \<Longrightarrow> list_watch (insert cr A) (C(cr := ls)) p L"
    and "watched ls (Lit_neg p) \<Longrightarrow> w_cref w = cr \<Longrightarrow> w_blocker w \<in> set ls \<Longrightarrow> list_watch (insert cr A) (C(cr := ls)) p (L @ [w])"
proof -
  have ni: "w_cref x \<noteq> cr" if "x \<in> set L" for x using list_watchD(1) [OF assms(1) that] assms(2) by blast
  have bl: "\<forall>x\<in>set L. w_blocker x \<in> set ((C(cr := ls)) (w_cref x))" using assms(1) ni unfolding list_watch_def by simp
  have mem: "c \<in> set (map w_cref L) \<longleftrightarrow> c \<noteq> cr \<and> c \<in> A \<and> watched ((C(cr := ls)) c) (Lit_neg p)" for c
    using assms ni unfolding list_watch_def by (cases "c = cr") auto
  have "cr \<notin> set (map w_cref L)" using ni by auto
  moreover have "distinct (map w_cref L)" using assms(1) unfolding list_watch_def by blast
  ultimately have d: "distinct (map w_cref L)" "cr \<notin> set (map w_cref L)" by blast+
  show "list_watch (insert cr A) (C(cr := ls)) p L" if "\<not> watched ls (Lit_neg p)"
    using bl mem d that unfolding list_watch_def by auto
  show "list_watch (insert cr A) (C(cr := ls)) p (L @ [w])" if "watched ls (Lit_neg p)" "w_cref w = cr" "w_blocker w \<in> set ls"
    unfolding list_watch_def
  proof (intro conjI allI)
    show "c \<in> set (map w_cref (L @ [w])) \<longleftrightarrow> c \<in> insert cr A \<and> watched ((C(cr := ls)) c) (Lit_neg p)" for c
      using mem [of c] that by (cases "c = cr") auto
  qed (use bl d that in auto)
qed

lemma watch_ok_new:
  assumes "watch_ok A n C W" "cr \<notin> A" "lits_ok n ls"
    and w: "w_cref w0 = cr" "w_blocker w0 = ls ! 1" "w_cref w1 = cr" "w_blocker w1 = ls ! 0"
  defines "q0 \<equiv> Lit_neg (ls ! 0)" and "q1 \<equiv> Lit_neg (ls ! 1)"
  shows "watch_ok (insert cr A) n (C(cr := ls)) (W(q0 := W q0 @ [w0], q1 := W q1 @ [w1]))" "q0 \<noteq> q1"
proof -
  have len: "0 < length ls" "1 < length ls" using assms(3) by (auto simp: lits_ok_def)
  then have mem: "ls ! 0 \<in> set ls" "ls ! 1 \<in> set ls" by auto
  show ne: "q0 \<noteq> q1" using lits_ok_neq [OF assms(3) len] Lit_neg_neg unfolding q0_def q1_def by (metis zero_neq_one)
  have "list_watch (insert cr A) (C(cr := ls)) p ((W(q0 := W q0 @ [w0], q1 := W q1 @ [w1])) p)" if "slit_ok n p" for p
  proof -
    have lw: "list_watch A C p (W p)" using assms(1) that unfolding watch_ok_def by blast
    consider "p = q0" | "p = q1" | "p \<noteq> q0" "p \<noteq> q1" by blast
    then show ?thesis
    proof cases
      case 1
      then show ?thesis using list_watch_new(2) [OF lw assms(2), of ls w0] w mem ne by (simp add: q0_def watched_def)
    next
      case 2
      then show ?thesis using list_watch_new(2) [OF lw assms(2), of ls w1] w mem by (simp add: q1_def watched_def)
    next
      case 3
      then have "\<not> watched ls (Lit_neg p)" unfolding q0_def q1_def watched_def by (metis Lit_neg_neg)
      then show ?thesis using list_watch_new(1) [OF lw assms(2)] 3 by simp
    qed
  qed
  then show "watch_ok (insert cr A) n (C(cr := ls)) (W(q0 := W q0 @ [w0], q1 := W q1 @ [w1]))" unfolding watch_ok_def by blast
qed

definition sv_loaded :: "nat \<Rightarrow> Solver \<Rightarrow> bool" where
  "sv_loaded n s = (sv_inv (set (sv_clauses s)) n s \<and> sv_trail_lim s = [] \<and> reasons_ok (set (sv_clauses s)) s
     \<and> (sv_ok s \<longrightarrow> propagated (set (sv_clauses s)) s \<and> sv_qhead s = length (sv_trail s)))"

lemma attach_ok:
  assumes ld: "sv_loaded n s" "sv_ok s" and ls: "lits_ok n ls" "\<forall>l\<in>set ls. Lit_neg l \<notin> set (sv_trail s)"
    and al: "allocated (sv_ca s) cr c ca" and ca: "clause_ok c" "Clause_lits c = ls" "c_mark c = 0"
  shows "\<exists>s'. attachClause cr (s\<lparr>sv_ca := ca, sv_clauses := sv_clauses s @ [cr]\<rparr>) = Some s' \<and> sv_loaded n s' \<and> sv_ok s'
    \<and> sv_trail s' = sv_trail s \<and> set (sv_clauses s') = insert cr (set (sv_clauses s)) \<and> (\<forall>x\<in>set (sv_clauses s). cl s' x = cl s x) \<and> cl s' cr = ls \<and> cr \<notin> set (sv_clauses s)"
proof -
  let ?A = "set (sv_clauses s)" and ?s0 = "s\<lparr>sv_ca := ca, sv_clauses := sv_clauses s @ [cr]\<rparr>"
  have inv: "core ?A n s" "watch_ok ?A n (cl s) (wl s)" and lim: "sv_trail_lim s = []" using ld(1) by (simp_all add: sv_loaded_def sv_inv_def)
  have pr: "propagated ?A s" "sv_qhead s = length (sv_trail s)" using ld by (simp_all add: sv_loaded_def)
  have "separated ?A (sv_ca s)" using inv(1) by (simp add: core_def store_ok_def)
  note sep = allocated_separated [OF al this]
  have cA: "cr \<notin> ?A" by (rule sep(3))
  let ?D = "(cl s)(cr := ls)"
  have d0: "ca_deref (sv_ca ?s0) cr = Some c" using al by (simp add: allocated_def)
  have wl0: "wl ?s0 = wl s" by (simp add: wl_def fun_eq_iff)
  have cl0: "\<forall>x\<in>insert cr ?A. cl ?s0 x = ?D x" using sep(2) d0 ca(2) unfolding cl_def by auto
  then have sw: "same_watch (insert cr ?A) ?D (cl ?s0)" unfolding same_watch_def by (auto simp del: fun_upd_apply)
  have cin: "clause_in n c" using ca ls(1) unfolding clause_in_def clause_ok_def by simp
  have "\<exists>k. ca_deref (sv_ca ?s0) x = Some k \<and> clause_in n k" if "x \<in> insert cr ?A" for x
    using that cin d0 sep(2) inv(1) unfolding core_def store_ok_def by auto
  then have "store_ok (insert cr ?A) n ?s0" using al sep(1) unfolding store_ok_def by (simp add: allocated_def)
  then have co: "core (insert cr ?A) n ?s0"
    using inv(1) lim unfolding core_def by (auto simp: trail_inv_def lists_ok_def levels_ok_def)
  have sz: "2 \<le> Clause_size c" using clause_in_size [OF cin] by simp
  have nth: "c_data c ! 0 = ls ! 0" "c_data c ! 1 = ls ! 1" using clause_in_nth [OF cin] sz ca(2) by auto
  define q0 q1 where "q0 = Lit_neg (ls ! 0)" and "q1 = Lit_neg (ls ! 1)"
  define w0 w1 where "w0 = \<lparr>w_cref = cr, w_blocker = ls ! 1\<rparr>" and "w1 = \<lparr>w_cref = cr, w_blocker = ls ! 0\<rparr>"
  have len: "0 < length ls" "1 < length ls" using ls(1) by (auto simp: lits_ok_def)
  have qok: "slit_ok n q0" "slit_ok n q1" using ls(1) len unfolding q0_def q1_def lits_ok_def by auto
  obtain wt1 where wt1: "occ_push (lit_index q0) w0 (sv_watches ?s0) = Some wt1" "core (insert cr ?A) n (?s0\<lparr>sv_watches := wt1\<rparr>)"
    "wl (?s0\<lparr>sv_watches := wt1\<rparr>) = (wl s)(q0 := wl s q0 @ [w0])" using push_core [OF co qok(1), of w0] wl0 by auto
  obtain wt2 where wt2: "occ_push (lit_index q1) w1 wt1 = Some wt2" "core (insert cr ?A) n (?s0\<lparr>sv_watches := wt2\<rparr>)"
    "wl (?s0\<lparr>sv_watches := wt2\<rparr>) = (wl (?s0\<lparr>sv_watches := wt1\<rparr>))(q1 := wl (?s0\<lparr>sv_watches := wt1\<rparr>) q1 @ [w1])"
    using push_core [OF wt1(2) qok(2), of w1] by auto
  note wn = watch_ok_new [OF inv(2) cA ls(1), of w0 w1, folded q0_def q1_def]
  have ne: "q0 \<noteq> q1" using wn(2) by (simp add: w0_def w1_def)
  have w2: "watch_ok (insert cr ?A) n (cl ?s0) (wl (?s0\<lparr>sv_watches := wt2\<rparr>))"
    by (rule watch_ok_same [OF sw]) (use wn(1) ne in \<open>simp add: wt2(3) wt1(3) w0_def w1_def\<close>)
  define s' where "s' = (if c_learnt c
      then ?s0\<lparr>sv_watches := wt2, sv_num_learnts := sv_num_learnts s + 1, sv_learnts_literals := sv_learnts_literals s + of_nat (Clause_size c)\<rparr>
      else ?s0\<lparr>sv_watches := wt2, sv_num_clauses := sv_num_clauses s + 1, sv_clauses_literals := sv_clauses_literals s + of_nat (Clause_size c)\<rparr>)"
  have "attachClause cr ?s0 = Some s'"
    using wt1(1) wt2(1) sz d0 nth unfolding attachClause_def s'_def by (simp add: q0_def q1_def w0_def w1_def Let_def)
  moreover have f: "sv_trail s' = sv_trail s" "sv_qhead s' = sv_qhead s" "sv_clauses s' = sv_clauses s @ [cr]" "sv_trail_lim s' = sv_trail_lim s"
    "sv_ok s' = sv_ok s" "cl s' = cl ?s0" "wl s' = wl (?s0\<lparr>sv_watches := wt2\<rparr>)"
    by (simp_all add: s'_def cl_def [abs_def] wl_def [abs_def])
  moreover have "core (insert cr ?A) n s'" using wt2(2) unfolding core_def s'_def by (simp add: trail_inv_def store_ok_def lists_ok_def cl_def [abs_def])
  moreover have "propagated (insert cr ?A) s'"
  proof -
    have nf: "Lit_neg (ls ! 0) \<notin> set (sv_trail s)" "Lit_neg (ls ! 1) \<notin> set (sv_trail s)" using ls(2) len by auto
    have "prop_ok (insert cr ?A) ?D {} (sv_trail s) (sv_qhead s)"
      using pr(1) cA nf unfolding propagated_def prop_ok_def by (auto simp: watched_def dest: in_set_takeD)
    then show ?thesis using prop_ok_same [OF sw] unfolding propagated_def f by blast
  qed
  moreover have "sv_vardata s' = sv_vardata s" by (simp add: s'_def)
  then have "reasons_ok (insert cr ?A) s'" using ld(1) lim by (simp add: sv_loaded_def reasons_root f)
  ultimately show ?thesis using w2 lim pr(2) cl0 cA ld(2) unfolding sv_loaded_def sv_inv_def by auto
qed

section \<open>The formula the solver holds\<close>

definition sat_all :: "(32 word \<Rightarrow> bool) \<Rightarrow> Lit list list \<Rightarrow> bool" where
  "sat_all \<alpha> F = (\<forall>c\<in>set F. \<exists>l\<in>set c. Lit_holds \<alpha> l)"

definition represents :: "Lit list list \<Rightarrow> Solver \<Rightarrow> bool" where
  "represents F s = (\<forall>\<alpha>. sat_all \<alpha> F \<longleftrightarrow> sv_ok s \<and> models \<alpha> (set (sv_clauses s)) s \<and> trail_true \<alpha> s)"

lemma sat_all_snoc: "sat_all \<alpha> (F @ [c]) = (sat_all \<alpha> F \<and> (\<exists>l\<in>set c. Lit_holds \<alpha> l))"
  by (auto simp: sat_all_def)

lemma no_undef_ref: "core A n s \<Longrightarrow> CRef_Undef \<notin> A"
proof
  assume c: "core A n s" "CRef_Undef \<in> A"
  then obtain x where "ca_deref (sv_ca s) CRef_Undef = Some x" unfolding core_def store_ok_def by blast
  then have "CRef_Undef < ra_sz (ca_ra (sv_ca s))" by (simp add: ca_deref_def split: if_splits)
  then show False using word_order.extremum_strict by (simp add: CRef_Undef_def)
qed

lemma ok_simps [simp]:
  "cl (s\<lparr>sv_ok := b\<rparr>) = cl s" "wl (s\<lparr>sv_ok := b\<rparr>) = wl s" "core A n (s\<lparr>sv_ok := b\<rparr>) = core A n s"
  "models \<alpha> A (s\<lparr>sv_ok := b\<rparr>) = models \<alpha> A s" "trail_true \<alpha> (s\<lparr>sv_ok := b\<rparr>) = trail_true \<alpha> s"
  by (simp_all add: cl_def [abs_def] wl_def [abs_def] core_def trail_inv_def store_ok_def lists_ok_def models_def trail_true_def)

lemma unit_ok:
  assumes ld: "sv_loaded n s" "sv_ok s" and l: "slit_ok n l" "l \<notin> set (sv_trail s)" "Lit_neg l \<notin> set (sv_trail s)"
  shows "\<exists>s1 confl s2. uncheckedEnqueue l CRef_Undef s = Some s1 \<and> propagate_core s1 = Some (confl, s2)
    \<and> sv_loaded n (s2\<lparr>sv_ok := (confl = CRef_Undef)\<rparr>)
    \<and> (\<forall>\<alpha>. models \<alpha> (set (sv_clauses s)) s \<and> trail_true \<alpha> s \<and> Lit_holds \<alpha> l \<longleftrightarrow>
         confl = CRef_Undef \<and> models \<alpha> (set (sv_clauses s2)) s2 \<and> trail_true \<alpha> s2)"
proof -
  let ?A = "set (sv_clauses s)"
  have co: "core ?A n s" and lim: "sv_trail_lim s = []" and pr: "propagated ?A s" "sv_qhead s = length (sv_trail s)"
    and wo: "watch_ok ?A n (cl s) (wl s)" using ld by (simp_all add: sv_loaded_def sv_inv_def)
  obtain s1 where s1: "uncheckedEnqueue l CRef_Undef s = Some s1" "core ?A n s1" "sv_trail s1 = sv_trail s @ [l]" "cl s1 = cl s"
    "wl s1 = wl s" "sv_qhead s1 = sv_qhead s" "rest s1 = rest s" using enqueue_core [OF co l] by blast
  have "reasons_ok ?A s1" using reasons_enqueue [OF s1(1), of n ?A] s1(2) lim ld(1) unfolding core_def sv_loaded_def by simp
  moreover have f1: "sv_clauses s1 = sv_clauses s" "sv_trail_lim s1 = []" using rest_clauses [OF s1(7)] rest_lim [OF s1(7)] lim by auto
  moreover have i1: "sv_inv ?A n s1" "propagated ?A s1"
    using s1 wo pr prop_ok_extend unfolding sv_inv_def propagated_def by auto
  ultimately obtain confl s2 where s2: "propagate_core s1 = Some (confl, s2)" "sv_inv ?A n s2" "outcome ?A CRef_Undef confl s2"
    "\<forall>cr\<in>?A. set (cl s2 cr) = set (cl s1 cr)" "\<exists>ts. sv_trail s2 = sv_trail s1 @ ts"
    "\<forall>\<alpha>. models \<alpha> ?A s1 \<and> trail_true \<alpha> s1 \<longrightarrow> trail_true \<alpha> s2" "sv_clauses s2 = sv_clauses s" "sv_trail_lim s2 = []"
    "reasons_ok ?A s2" using propagate_core_ok [OF i1] f1 by auto
  let ?s = "s2\<lparr>sv_ok := (confl = CRef_Undef)\<rparr>"
  have ok: "confl = CRef_Undef \<Longrightarrow> propagated ?A s2" "sv_qhead s2 = length (sv_trail s2)" "confl \<noteq> CRef_Undef \<Longrightarrow> confl \<in> ?A \<and> falsified s2 confl"
    using s2(3) no_undef_ref [OF co] unfolding outcome_def by auto
  have "sv_loaded n ?s" using s2(2,7-9) ok unfolding sv_loaded_def sv_inv_def propagated_def by simp
  moreover have "models \<alpha> ?A s \<and> trail_true \<alpha> s \<and> Lit_holds \<alpha> l \<longleftrightarrow> confl = CRef_Undef \<and> models \<alpha> (set (sv_clauses s2)) s2 \<and> trail_true \<alpha> s2" for \<alpha>
  proof -
    have m: "models \<alpha> ?A s2 = models \<alpha> ?A s1" "models \<alpha> ?A s1 = models \<alpha> ?A s" using s2(4) s1(4) by (simp_all add: models_def)
    have t: "trail_true \<alpha> s1 \<longleftrightarrow> trail_true \<alpha> s \<and> Lit_holds \<alpha> l" using s1(3) by (auto simp: trail_true_def)
    have t2: "trail_true \<alpha> s2 \<Longrightarrow> trail_true \<alpha> s1" using s2(5) by (auto simp: trail_true_def)
    have "\<not> trail_true \<alpha> s2" if cf: "confl \<noteq> CRef_Undef" and mo: "models \<alpha> ?A s2"
    proof -
      obtain k where k: "k \<in> set (cl s2 confl)" "Lit_holds \<alpha> k" using mo ok(3) [OF cf] unfolding models_def by blast
      then have "Lit_neg k \<in> set (sv_trail s2)" using ok(3) [OF cf] unfolding falsified_def by blast
      then show ?thesis using k(2) unfolding trail_true_def by force
    qed
    then show ?thesis using m t t2 s2(6,7) by metis
  qed
  ultimately show ?thesis using s1(1) s2(1) by blast
qed

lemma satisfied_clause:
  assumes "\<exists>l\<in>set qs. l \<in> set (sv_trail s) \<or> Lit_neg l \<in> set qs" "trail_true \<alpha> s"
  shows "\<exists>l\<in>set qs. Lit_holds \<alpha> l"
  using assms unfolding trail_true_def by (metis Lit_holds_neg)

lemma filtered_clause:
  assumes "set ls = {l \<in> set qs. Lit_neg l \<notin> set (sv_trail s)}" "trail_true \<alpha> s"
  shows "(\<exists>l\<in>set ls. Lit_holds \<alpha> l) \<longleftrightarrow> (\<exists>l\<in>set qs. Lit_holds \<alpha> l)"
  using assms unfolding trail_true_def by (metis (mono_tags, lifting) Lit_holds_neg mem_Collect_eq)

text \<open>The end of \<^verbatim>\<open>addClause_\<close>, on the literals that are left.\<close>

definition store_lits :: "mem_env \<Rightarrow> Lit list \<Rightarrow> Solver \<Rightarrow> (alloc_error + bool \<times> Solver) option" where
  "store_lits e ls s = (case ls of
     [] \<Rightarrow> Some (Inr (False, s\<lparr>sv_ok := False\<rparr>))
   | [l] \<Rightarrow> do { s1 \<leftarrow> uncheckedEnqueue l CRef_Undef s; (confl, s2) \<leftarrow> propagate_core s1;
                 Some (Inr (confl = CRef_Undef, s2\<lparr>sv_ok := (confl = CRef_Undef)\<rparr>)) }
   | _ \<Rightarrow> do { x \<leftarrow> ca_alloc e ls False (sv_ca s);
               case x of Inl err \<Rightarrow> Some (Inl err)
               | Inr (cr, ca) \<Rightarrow> do { s1 \<leftarrow> attachClause cr (s\<lparr>sv_ca := ca, sv_clauses := sv_clauses s @ [cr]\<rparr>); Some (Inr (True, s1)) } })"

lemma addClause_store:
  assumes "decisionLevel s = 0" "sv_ok s" "sort_array Lit_less ps = Some qs" "add_filter s lit_Undef qs = Some (Some ls)"
  shows "addClause e ps s = store_lits e ls s"
  using assms by (simp add: addClause_def store_lits_def split: list.split)

lemma store_lits_ok:
  assumes ld: "sv_loaded n s" "sv_ok s"
    and ls: "\<forall>l\<in>set ls. slit_ok n l \<and> l \<notin> set (sv_trail s) \<and> Lit_neg l \<notin> set (sv_trail s)" "distinct ls" "\<forall>l\<in>set ls. Lit_neg l \<notin> set ls" "length ls < 2 ^ 27"
  shows "store_lits e ls s = Some (Inl OutOfMemory)
    \<or> (\<exists>s'. store_lits e ls s = Some (Inr (sv_ok s', s')) \<and> sv_loaded n s'
        \<and> (\<forall>\<alpha>. models \<alpha> (set (sv_clauses s)) s \<and> trail_true \<alpha> s \<and> (\<exists>l\<in>set ls. Lit_holds \<alpha> l)
             \<longleftrightarrow> sv_ok s' \<and> models \<alpha> (set (sv_clauses s')) s' \<and> trail_true \<alpha> s'))"
proof -
  consider "ls = []" | l where "ls = [l]" | "2 \<le> length ls" by (cases ls rule: remdups_adj.cases) auto
  then show ?thesis
  proof cases
    case 1
    have "sv_loaded n (s\<lparr>sv_ok := False\<rparr>)" using ld(1) by (simp add: sv_loaded_def sv_inv_def)
    then show ?thesis using 1 by (intro disjI2 exI [of _ "s\<lparr>sv_ok := False\<rparr>"]) (simp add: store_lits_def)
  next
    case (2 l)
    then obtain s1 confl s2 where u: "uncheckedEnqueue l CRef_Undef s = Some s1" "propagate_core s1 = Some (confl, s2)"
      "sv_loaded n (s2\<lparr>sv_ok := (confl = CRef_Undef)\<rparr>)"
      "\<forall>\<alpha>. models \<alpha> (set (sv_clauses s)) s \<and> trail_true \<alpha> s \<and> Lit_holds \<alpha> l \<longleftrightarrow>
         confl = CRef_Undef \<and> models \<alpha> (set (sv_clauses s2)) s2 \<and> trail_true \<alpha> s2"
      using unit_ok [OF ld, of l] ls(1) by auto
    then show ?thesis using 2
      by (intro disjI2 exI [of _ "s2\<lparr>sv_ok := (confl = CRef_Undef)\<rparr>"]) (simp add: store_lits_def)
  next
    case 3
    then have lok: "lits_ok n ls" using ls unfolding lits_ok_def by blast
    have run: "store_lits e ls s = do { x \<leftarrow> ca_alloc e ls False (sv_ca s);
        case x of Inl err \<Rightarrow> Some (Inl err)
        | Inr (cr, ca) \<Rightarrow> do { s1 \<leftarrow> attachClause cr (s\<lparr>sv_ca := ca, sv_clauses := sv_clauses s @ [cr]\<rparr>); Some (Inr (True, s1)) } }"
      using 3 by (auto simp: store_lits_def split: list.split)
    have rg: "region_ok (ca_ra (sv_ca s))" using ld(1) by (simp add: sv_loaded_def sv_inv_def core_def store_ok_def)
    from ca_alloc_cases [OF rg ls(4), of e False] show ?thesis
    proof
      assume "ca_alloc e ls False (sv_ca s) = Some (Inl OutOfMemory)"
      then show ?thesis using run by simp
    next
      assume "\<exists>cid ca' c. ca_alloc e ls False (sv_ca s) = Some (Inr (cid, ca')) \<and> new_clause ls (False \<or> extra_clause_field (sv_ca s)) False c
        \<and> allocated (sv_ca s) cid c ca'"
      then obtain cr ca c where c: "ca_alloc e ls False (sv_ca s) = Some (Inr (cr, ca))" "allocated (sv_ca s) cr c ca"
        "clause_ok c" "Clause_lits c = ls" "c_mark c = 0" unfolding new_clause_def by blast
      have "\<forall>l\<in>set ls. Lit_neg l \<notin> set (sv_trail s)" using ls(1) by blast
      then obtain s' where s': "attachClause cr (s\<lparr>sv_ca := ca, sv_clauses := sv_clauses s @ [cr]\<rparr>) = Some s'" "sv_loaded n s'" "sv_ok s'"
        "sv_trail s' = sv_trail s" "set (sv_clauses s') = insert cr (set (sv_clauses s))" "\<forall>x\<in>set (sv_clauses s). cl s' x = cl s x" "cl s' cr = ls" "cr \<notin> set (sv_clauses s)"
        using attach_ok [OF ld lok _ c(2-5)] by blast
      have "models \<alpha> (set (sv_clauses s')) s' \<longleftrightarrow> models \<alpha> (set (sv_clauses s)) s \<and> (\<exists>l\<in>set ls. Lit_holds \<alpha> l)" for \<alpha>
        using s'(6-8) unfolding models_def s'(5) by auto
      then show ?thesis using run c(1) s' by (intro disjI2 exI [of _ s']) (auto simp: trail_true_def)
    qed
  qed
qed

lemma addClause_ok:
  assumes ld: "sv_loaded n s" and rep: "represents F s" and ps: "\<forall>l\<in>set ps. slit_ok n l" "length ps < 2 ^ 27"
  shows "addClause e ps s = Some (Inl OutOfMemory)
    \<or> (\<exists>s'. addClause e ps s = Some (Inr (sv_ok s', s')) \<and> sv_loaded n s' \<and> represents (F @ [ps]) s')"
proof (cases "sv_ok s")
  case False
  then have "represents (F @ [ps]) s" using rep unfolding represents_def sat_all_snoc by simp
  moreover have "addClause e ps s = Some (Inr (sv_ok s, s))" using False ld by (simp add: addClause_def sv_loaded_def decisionLevel_def)
  ultimately show ?thesis using ld by blast
next
  case ok: True
  let ?A = "set (sv_clauses s)"
  have ti: "trail_inv n s" and rg: "region_ok (ca_ra (sv_ca s))" and dl: "decisionLevel s = 0"
    using ld by (simp_all add: sv_loaded_def sv_inv_def core_def store_ok_def decisionLevel_def)
  have n: "n \<le> 2 ^ 30" using ti by (simp add: trail_inv_def)
  obtain qs where qs: "sort_array Lit_less ps = Some qs" "set qs = set ps" "sorted (map unat qs)" using lits_sorted [OF ps(1) n] by blast
  have qok: "\<forall>l\<in>set qs. slit_ok n l" using ps(1) qs(2) by simp
  have ord: "\<forall>l\<in>set qs. l \<noteq> lit_Undef \<and> l \<noteq> Lit_neg lit_Undef" using slit_ok_ordinary [OF _ n] qok by blast
  obtain r where r: "add_filter s lit_Undef qs = Some r" "case r of
      None \<Rightarrow> \<exists>l\<in>set qs. l \<in> set (sv_trail s) \<or> l = Lit_neg lit_Undef \<or> Lit_neg l \<in> set qs
    | Some ls \<Rightarrow> (\<forall>l\<in>set qs. l \<notin> set (sv_trail s) \<and> l \<noteq> Lit_neg lit_Undef)
        \<and> set ls = {l \<in> set qs. Lit_neg l \<notin> set (sv_trail s) \<and> l \<noteq> lit_Undef}
        \<and> distinct ls \<and> (\<forall>l\<in>set ls. Lit_neg l \<notin> set ls)" using add_filter_ok [OF ti qok qs(3)] by blast
  have sat: "sat_all \<alpha> (F @ [ps]) \<longleftrightarrow> models \<alpha> ?A s \<and> trail_true \<alpha> s \<and> (\<exists>l\<in>set qs. Lit_holds \<alpha> l)" for \<alpha>
    using rep ok qs(2) unfolding represents_def sat_all_snoc by auto
  show ?thesis
  proof (cases r)
    case None
    then have "\<exists>l\<in>set qs. l \<in> set (sv_trail s) \<or> Lit_neg l \<in> set qs" using r(2) ord by auto
    then have "represents (F @ [ps]) s" using sat satisfied_clause ok unfolding represents_def by blast
    then show ?thesis using None ok dl qs(1) r(1) ld by (simp add: addClause_def)
  next
    case (Some ls)
    then have ls: "\<forall>l\<in>set qs. l \<notin> set (sv_trail s)" "set ls = {l \<in> set qs. Lit_neg l \<notin> set (sv_trail s)}"
      "distinct ls" "\<forall>l\<in>set ls. Lit_neg l \<notin> set ls" using r(2) ord by auto
    have sat': "sat_all \<alpha> (F @ [ps]) \<longleftrightarrow> models \<alpha> ?A s \<and> trail_true \<alpha> s \<and> (\<exists>l\<in>set ls. Lit_holds \<alpha> l)" for \<alpha>
      using sat filtered_clause [OF ls(2)] by blast
    have "card (set ls) \<le> card (set ps)" using ls(2) qs(2) by (intro card_mono) auto
    then have "length ls < 2 ^ 27" using distinct_card [OF ls(3)] card_length [of ps] ps(2) by simp
    moreover have "\<forall>l\<in>set ls. slit_ok n l \<and> l \<notin> set (sv_trail s) \<and> Lit_neg l \<notin> set (sv_trail s)" using ls(1,2) qok by auto
    ultimately have "store_lits e ls s = Some (Inl OutOfMemory)
      \<or> (\<exists>s'. store_lits e ls s = Some (Inr (sv_ok s', s')) \<and> sv_loaded n s'
          \<and> (\<forall>\<alpha>. models \<alpha> ?A s \<and> trail_true \<alpha> s \<and> (\<exists>l\<in>set ls. Lit_holds \<alpha> l)
               \<longleftrightarrow> sv_ok s' \<and> models \<alpha> (set (sv_clauses s')) s' \<and> trail_true \<alpha> s'))"
      using store_lits_ok [OF ld ok _ ls(3,4)] by blast
    moreover have "addClause e ps s = store_lits e ls s" using addClause_store [OF dl ok qs(1)] r(1) Some by simp
    ultimately show ?thesis using sat' unfolding represents_def by auto
  qed
qed

section \<open>New variables\<close>

lemma heap_insert_some: "\<not> inHeap x h \<Longrightarrow> \<exists>h'. heap_insert lt x h = Some h'"
proof -
  assume "\<not> inHeap x h"
  then have "\<not> inHeap x (reserve x h)" by (auto simp: inHeap_def reserve_def nth_append split: if_splits)
  then show ?thesis by (simp add: heap_insert_def Let_def percolateUp_def)
qed

lemma setDecisionVar_ok:
  assumes "v < length (sv_decision s)"
  shows "\<exists>h d k. setDecisionVar v b s = Some (s\<lparr>sv_dec_vars := k, sv_decision := d, sv_order_heap := h\<rparr>) \<and> length d = length (sv_decision s)"
proof -
  let ?k = "if b \<and> \<not> sv_decision s ! v then sv_dec_vars s + 1 else if \<not> b \<and> sv_decision s ! v then sv_dec_vars s - 1 else sv_dec_vars s"
  let ?d = "(sv_decision s)[v := b]"
  have e: "setDecisionVar v b s = insertVarOrder v (s\<lparr>sv_dec_vars := ?k, sv_decision := ?d\<rparr>)" using assms by (simp add: setDecisionVar_def)
  show ?thesis
  proof (cases "\<not> inHeap v (sv_order_heap s) \<and> b")
    case True
    then obtain h where "heap_insert (VarOrderLt (sv_activity s)) v (sv_order_heap s) = Some h" using heap_insert_some by blast
    then show ?thesis using True assms unfolding e
      by (intro exI [of _ h] exI [of _ ?d] exI [of _ ?k]) (simp add: insertVarOrder_def)
  next
    case False
    then have "setDecisionVar v b s = Some (s\<lparr>sv_dec_vars := ?k, sv_decision := ?d, sv_order_heap := sv_order_heap s\<rparr>)"
      using assms unfolding e by (auto simp: insertVarOrder_def)
    then show ?thesis by (intro exI [of _ "sv_order_heap s"] exI [of _ ?d] exI [of _ ?k]) simp
  qed
qed

text \<open>The maps over the variables grow together.\<close>

definition vars_ok :: "nat \<Rightarrow> Solver \<Rightarrow> bool" where
  "vars_ok n s = (sv_loaded n s \<and> sv_next_var s = n \<and> sv_free_vars s = [] \<and> length (sv_decision s) = n)"

lemma im_insert_end: "im_insert (length m) v pad m = m @ [v]"
  by (simp add: im_insert_def im_reserve_def)

lemma im_reserve_end: "im_reserve (length m) pad m = m @ [pad]"
  by (simp add: im_reserve_def)

lemma Lit_mk_index: "v < 2 ^ 30 \<Longrightarrow> lit_index (Lit_mk (of_nat v) b) = 2 * v + of_bool b"
proof -
  assume v: "v < 2 ^ 30"
  have "Lit_mk (of_nat v) b = of_nat (2 * v + of_bool b)" by (simp add: Lit_mk_def)
  then have "lit_index (Lit_mk (of_nat v) b) = (2 * v + of_bool b) mod 2 ^ 32"
    unfolding lit_index_def by (simp only: unat_of_nat) simp
  also have "\<dots> = 2 * v + of_bool b" using v by (intro mod_less) (auto simp: of_bool_def)
  finally show ?thesis .
qed

lemma occ_init_pair:
  assumes "length (occs oc) = 2 * n" "length (occ_dirty oc) = 2 * n"
  shows "occ_init (Suc (2 * n)) (occ_init (2 * n) oc) = oc\<lparr>occs := occs oc @ [[], []], occ_dirty := occ_dirty oc @ [False, False]\<rparr>"
  using assms by (simp add: occ_init_def im_reserve_def list_update_append)

lemma trail_inv_new:
  assumes t: "trail_inv n s" and n: "n < 2 ^ 30"
    and s': "sv_trail s' = sv_trail s" "sv_assigns s' = sv_assigns s @ [2]" "length (sv_vardata s') = Suc n"
  shows "trail_inv (Suc n) s'"
proof -
  have len: "length (sv_assigns s) = n" and ok: "\<forall>l\<in>set (sv_trail s). slit_ok n l" using t by (auto simp: trail_inv_def)
  have "l \<in> set (sv_trail s) \<longleftrightarrow> sv_assigns s' ! var_index l = of_bool (Lit_sign l)" if l: "slit_ok (Suc n) l" for l
  proof (cases "slit_ok n l")
    case True
    then have "var_index l < n" using slit_ok_var n by simp
    then show ?thesis using t True s'(2) len unfolding trail_inv_def by (simp add: nth_append)
  next
    case False
    then have "l \<notin> set (sv_trail s)" using ok by blast
    moreover have "unat l < 2 ^ 31" using slit_ok_bound [OF l] n by simp
    then have "var_index l = n" using False l by (simp add: var_index_half slit_ok_def)
    ultimately show ?thesis using s'(2) len by (simp add: nth_append)
  qed
  then show ?thesis using t n s' unfolding trail_inv_def by (auto simp: slit_ok_def)
qed

lemma lits_ok_Suc: "lits_ok n ls \<Longrightarrow> lits_ok (Suc n) ls"
  by (auto simp: lits_ok_def slit_ok_def)

lemma clause_in_Suc: "clause_in n c \<Longrightarrow> clause_in (Suc n) c"
  using lits_ok_Suc by (auto simp: clause_in_def)

lemma watched_mem: "lits_ok n ls \<Longrightarrow> watched ls l \<Longrightarrow> l \<in> set ls"
proof -
  assume a: "lits_ok n ls" "watched ls l"
  then have "0 < length ls" "1 < length ls" unfolding lits_ok_def by linarith+
  then show ?thesis using a(2) unfolding watched_def by auto
qed

lemma watch_ok_Suc:
  assumes "watch_ok A n C W" "\<forall>cr\<in>A. lits_ok n (C cr)" "\<And>p. slit_ok n p \<Longrightarrow> W' p = W p" "\<And>p. slit_ok (Suc n) p \<Longrightarrow> \<not> slit_ok n p \<Longrightarrow> W' p = []"
  shows "watch_ok A (Suc n) C W'"
proof -
  have "list_watch A C p (W' p)" if p: "slit_ok (Suc n) p" for p
  proof (cases "slit_ok n p")
    case True
    then show ?thesis using assms(1,3) unfolding watch_ok_def by simp
  next
    case False
    have "\<not> watched (C cr) (Lit_neg p)" if cr: "cr \<in> A" for cr
    proof
      assume "watched (C cr) (Lit_neg p)"
      then have "Lit_neg p \<in> set (C cr)" using watched_mem assms(2) cr by blast
      then have "slit_ok n (Lit_neg p)" using assms(2) cr unfolding lits_ok_def by blast
      then show False using False by simp
    qed
    then show ?thesis using assms(4) [OF p False] by (simp add: list_watch_def)
  qed
  then show ?thesis unfolding watch_ok_def by blast
qed

lemma newVar_ok:
  assumes v: "vars_ok n s" and n: "n < 2 ^ 30" and rep: "represents F s"
  shows "\<exists>s'. newVar upol dvar s = Some (n, s') \<and> vars_ok (Suc n) s' \<and> represents F s'"
proof -
  let ?A = "set (sv_clauses s)"
  have ld: "sv_loaded n s" and nv: "sv_next_var s = n" "sv_free_vars s = []" "length (sv_decision s) = n" using v by (auto simp: vars_ok_def)
  have ti: "trail_inv n s" and so: "store_ok ?A n s" and li: "lists_ok n s" using ld by (auto simp: sv_loaded_def sv_inv_def core_def)
  have len: "length (sv_assigns s) = n" "length (sv_vardata s) = n" using ti by (auto simp: trail_inv_def)
  define s2 where "s2 = s\<lparr>sv_next_var := n + 1,
      sv_watches := (sv_watches s)\<lparr>occs := occs (sv_watches s) @ [[], []], occ_dirty := occ_dirty (sv_watches s) @ [False, False]\<rparr>,
      sv_assigns := sv_assigns s @ [2], sv_vardata := sv_vardata s @ [\<lparr>vd_reason = CRef_Undef, vd_level = 0\<rparr>],
      sv_activity := im_insert n (Fp 0 0) (Fp 0 0) (sv_activity s), sv_seen := im_insert n 0 0 (sv_seen s),
      sv_polarity := im_insert n True False (sv_polarity s), sv_user_pol := im_insert n upol 0 (sv_user_pol s),
      sv_decision := sv_decision s @ [False]\<rparr>"
  have "newVar upol dvar s = map_option (Pair n) (setDecisionVar n dvar s2)"
    using nv len li n im_insert_end [of "sv_assigns s"] im_insert_end [of "sv_vardata s"] im_reserve_end [of "sv_decision s"]
    by (simp add: newVar_def s2_def Let_def Lit_mk_index occ_init_pair lists_ok_def ml_Undef_def)
  moreover have "n < length (sv_decision s2)" using nv by (simp add: s2_def)
  then obtain h d k where "setDecisionVar n dvar s2 = Some (s2\<lparr>sv_dec_vars := k, sv_decision := d, sv_order_heap := h\<rparr>)" "length d = Suc n"
    using setDecisionVar_ok [of n s2 dvar] nv by (auto simp: s2_def)
  moreover define s' where "s' = s2\<lparr>sv_dec_vars := k, sv_decision := d, sv_order_heap := h\<rparr>"
  ultimately have r: "newVar upol dvar s = Some (n, s')" "length (sv_decision s') = Suc n" by simp_all
  have f: "sv_trail s' = sv_trail s" "sv_clauses s' = sv_clauses s" "sv_trail_lim s' = sv_trail_lim s" "sv_qhead s' = sv_qhead s"
    "sv_ok s' = sv_ok s" "sv_ca s' = sv_ca s" "cl s' = cl s" "sv_next_var s' = Suc n" "sv_free_vars s' = []"
    using nv by (simp_all add: s'_def s2_def cl_def [abs_def])
  have "trail_inv (Suc n) s'" by (rule trail_inv_new [OF ti n]) (simp_all add: s'_def s2_def len)
  moreover have "store_ok ?A (Suc n) s'" using so clause_in_Suc unfolding store_ok_def f by blast
  moreover have "lists_ok (Suc n) s'" using li by (auto simp: lists_ok_def s'_def s2_def nth_append less_Suc_eq)
  moreover have "watch_ok ?A (Suc n) (cl s) (wl s')"
  proof (rule watch_ok_Suc [of _ n _ "wl s"])
    show "watch_ok ?A n (cl s) (wl s)" using ld by (simp add: sv_loaded_def sv_inv_def)
    show "\<forall>cr\<in>?A. lits_ok n (cl s cr)" using so by (fastforce simp: store_ok_def clause_in_def)
    show "wl s' p = wl s p" if "slit_ok n p" for p using that li by (simp add: wl_def s'_def s2_def nth_append slit_ok_def lit_index_def lists_ok_def)
    show "wl s' p = []" if "slit_ok (Suc n) p" "\<not> slit_ok n p" for p
      using that li by (auto simp: wl_def s'_def s2_def nth_append slit_ok_def lit_index_def lists_ok_def nth_Cons')
  qed
  moreover have "vd_level (sv_vardata s' ! var_index l) = 0" if "l \<in> set (sv_trail s)" for l
  proof -
    have "slit_ok n l" using ti that by (simp add: trail_inv_def)
    then have "var_index l < n" using slit_ok_var [of n l] n by simp
    moreover have "vd_level (sv_vardata s ! var_index l) = 0" using ld that reasons_root unfolding sv_loaded_def by blast
    ultimately show ?thesis using len by (simp add: s'_def s2_def nth_append)
  qed
  then have "reasons_ok ?A s'" using ld by (simp add: sv_loaded_def reasons_root f)
  ultimately have "vars_ok (Suc n) s'" using ld r(2) unfolding vars_ok_def sv_loaded_def sv_inv_def core_def propagated_def f by auto
  moreover have "represents F s'" using rep f unfolding represents_def models_def trail_true_def by simp
  ultimately show ?thesis using r(1) by blast
qed

end
