(* ===== verification/MiniOrder.thy ===== *)
theory MiniOrder
  imports MiniAdd
begin

text \<open>
  The heap from which MiniSat picks its decisions holds every unassigned decision variable: new
  variables enter it, and adding clauses and propagation do not change it.
\<close>

section \<open>The order of the variables\<close>

interpretation var_order: heap_order "VarOrderLt act" for act
  by unfold_locales (auto simp: VarOrderLt_def fp_less_iff)

text \<open>Every unassigned decision variable can be picked.\<close>

definition order_ok :: "nat \<Rightarrow> Solver \<Rightarrow> bool" where
  "order_ok n s = (heap_order.heap_ok (VarOrderLt (sv_activity s)) (sv_order_heap s)
     \<and> length (sv_decision s) = n \<and> length (sv_polarity s) = n \<and> length (sv_activity s) = n \<and> set (hp (sv_order_heap s)) \<subseteq> {..<n}
     \<and> (\<forall>x<n. sv_decision s ! x \<and> sv_assigns s ! x = ml_Undef \<longrightarrow> inHeap x (sv_order_heap s)))"

lemma insertVarOrder_ok:
  assumes h: "heap_order.heap_ok (VarOrderLt (sv_activity s)) (sv_order_heap s)" and x: "x < length (sv_decision s)"
  shows "\<exists>g. insertVarOrder x s = Some (s\<lparr>sv_order_heap := g\<rparr>) \<and> heap_order.heap_ok (VarOrderLt (sv_activity s)) g
    \<and> (\<forall>y. inHeap y g \<longleftrightarrow> inHeap y (sv_order_heap s) \<or> y = x \<and> sv_decision s ! x)"
proof (cases "\<not> inHeap x (sv_order_heap s) \<and> sv_decision s ! x")
  case True
  obtain g where g: "heap_insert (VarOrderLt (sv_activity s)) x (sv_order_heap s) = Some g"
    "heap_order.heap_ok (VarOrderLt (sv_activity s)) g" "mset (hp g) = add_mset x (mset (hp (sv_order_heap s)))"
    using var_order.heap_insert_ok [OF h, of x] True by blast
  then have "inHeap y g \<longleftrightarrow> inHeap y (sv_order_heap s) \<or> y = x" for y
    using var_order.heap_inHeap [OF h] var_order.heap_inHeap [OF g(2)] by (metis insert_iff set_mset_add_mset_insert set_mset_mset)
  then show ?thesis using True g x by (intro exI [of _ g]) (simp add: insertVarOrder_def)
next
  case False
  then show ?thesis using h x by (intro exI [of _ "sv_order_heap s"]) (auto simp: insertVarOrder_def)
qed

section \<open>Operations\<close>

lemma order_ok_update [simp]:
  "order_ok n (s\<lparr>sv_ca := ca\<rparr>) = order_ok n s" "order_ok n (s\<lparr>sv_watches := w\<rparr>) = order_ok n s"
  "order_ok n (s\<lparr>sv_qhead := q\<rparr>) = order_ok n s" "order_ok n (s\<lparr>sv_clauses := cs\<rparr>) = order_ok n s"
  "order_ok n (s\<lparr>sv_trail_lim := ks\<rparr>) = order_ok n s" "order_ok n (s\<lparr>sv_ok := b\<rparr>) = order_ok n s"
  "order_ok n (s\<lparr>sv_propagations := p\<rparr>) = order_ok n s" "order_ok n (s\<lparr>sv_simpDB_props := i\<rparr>) = order_ok n s"
  "order_ok n (s\<lparr>sv_num_learnts := i1\<rparr>) = order_ok n s" "order_ok n (s\<lparr>sv_num_clauses := i2\<rparr>) = order_ok n s"
  "order_ok n (s\<lparr>sv_learnts_literals := i3\<rparr>) = order_ok n s" "order_ok n (s\<lparr>sv_clauses_literals := i4\<rparr>) = order_ok n s"
  "order_ok n (s\<lparr>sv_trail := ts\<rparr>) = order_ok n s"
  by (simp_all add: order_ok_def)

lemma enqueue_order:
  assumes "uncheckedEnqueue p f s = Some s'" "order_ok n s"
  shows "order_ok n s'"
proof -
  have b: "mlbool_of_bool (\<not> Lit_sign p) \<noteq> ml_Undef" by (simp add: mlbool_of_bool_def ml_Undef_def)
  note s' = enqueue_fields [OF assms(1)]
  show ?thesis using assms(2) b s'(2) unfolding order_ok_def s'(1) by (auto simp: nth_list_update)
qed

lemma visit_tail_order:
  assumes ih: "\<And>kept s. propagate_ws p confl ws kept s = Some r \<Longrightarrow> order_ok n s \<Longrightarrow> order_ok n (snd (snd r))"
    and r: "visit_tail p confl i ws kept c vf s1 = Some r" and o: "order_ok n s1"
  shows "order_ok n (snd (snd r))"
proof (cases "c_data c ! 0 \<noteq> w_blocker i \<and> mlbool_eq vf ml_True")
  case True
  then show ?thesis using r o ih by (simp add: visit_tail_def Let_def)
next
  case False
  then obtain nw where nw: "find_watch s1 (drop 2 (Clause_lits c)) 2 = Some nw"
    using r by (auto simp: visit_tail_def Let_def split: bind_splits)
  show ?thesis
  proof (cases nw)
    case None
    then show ?thesis using False r nw o ih enqueue_order
      by (auto simp: visit_tail_def Let_def split: bind_splits if_splits)
  next
    case (Some k)
    then show ?thesis using False r nw o ih [of kept]
      by (auto simp: visit_tail_def Let_def set_clause_def split: bind_splits if_splits)
  qed
qed

lemma propagate_ws_Cons:
  "propagate_ws p confl (i # ws) kept s = Option.bind (sv_value s (w_blocker i)) (\<lambda>vb.
     if mlbool_eq vb ml_True then propagate_ws p confl ws (kept @ [i]) s
     else Option.bind (ca_deref (sv_ca s) (w_cref i)) (\<lambda>c0. let c = to_front (Lit_neg p) c0; s1 = set_clause (w_cref i) c s in
       if c_data c ! 1 \<noteq> Lit_neg p then None
       else Option.bind (sv_value s1 (c_data c ! 0)) (\<lambda>vf. visit_tail p confl i ws kept c vf s1)))"
  unfolding propagate_ws.simps Let_def visit_tail_def to_front_def [symmetric] by (rule refl)

lemma propagate_ws_order: "propagate_ws p confl ws kept s = Some r \<Longrightarrow> order_ok n s \<Longrightarrow> order_ok n (snd (snd r))"
proof (induction ws arbitrary: kept s)
  case (Cons i ws)
  then show ?case unfolding propagate_ws_Cons Let_def
    by (auto simp: set_clause_def simp del: propagate_ws.simps split: bind_splits if_splits intro: visit_tail_order [OF Cons.IH])
qed auto

lemma propagate_loop_order: "propagate_loop confl k s = Some r \<Longrightarrow> order_ok n s \<longrightarrow> order_ok n (snd (snd r))"
proof (rule propagate_loop.raw_induct [where P = "\<lambda>confl k s r. order_ok n s \<longrightarrow> order_ok n (snd (snd r))"])
  fix loop confl k s r
  assume ih: "\<And>confl k s r. loop confl k s = Some r \<Longrightarrow> order_ok n s \<longrightarrow> order_ok n (snd (snd r))"
    and r: "(if sv_qhead s < length (sv_trail s)
      then do {
        let p = sv_trail s ! sv_qhead s;
        let s1 = s\<lparr>sv_qhead := sv_qhead s + 1\<rparr>;
        (ws, wt) \<leftarrow> occ_lookup (WatcherDeleted (sv_ca s1)) (lit_index p) (sv_watches s1);
        (confl', kept, s2) \<leftarrow> propagate_ws p confl ws [] (s1\<lparr>sv_watches := wt\<rparr>);
        wt' \<leftarrow> occ_put (lit_index p) kept (sv_watches s2);
        loop confl' (k + 1) (s2\<lparr>sv_watches := wt'\<rparr>) }
      else Some (confl, k, s)) = Some r"
  show "order_ok n s \<longrightarrow> order_ok n (snd (snd r))"
    using r by (auto simp: Let_def split: bind_splits if_splits prod.splits dest!: propagate_ws_order [where n = n] ih)
qed

lemma propagate_order: "propagate_core s = Some (confl, s') \<Longrightarrow> order_ok n s \<Longrightarrow> order_ok n s'"
  by (auto simp: propagate_core_def dest: propagate_loop_order [where n = n])

lemma attach_order: "attachClause cr s = Some s' \<Longrightarrow> order_ok n s \<Longrightarrow> order_ok n s'"
  by (auto simp: attachClause_def Let_def split: bind_splits if_splits)

lemma unit_order:
  "Option.bind (uncheckedEnqueue l f s) (\<lambda>s1. Option.bind (propagate_core s1) (\<lambda>(c, s2). Some (Inr (g c, s2\<lparr>sv_ok := g c\<rparr>)))) = Some (Inr (b, s'))
     \<Longrightarrow> order_ok n s \<Longrightarrow> order_ok n s'"
  by (auto split: bind_splits prod.splits dest!: enqueue_order [where n = n] propagate_order [where n = n])

lemma addClause_order:
  assumes r: "addClause e ps s = Some (Inr (b, s'))" and o: "order_ok n s"
  shows "order_ok n s'"
proof (cases "decisionLevel s = 0 \<and> sv_ok s")
  case True
  obtain qs w where w: "sort_array Lit_less ps = Some qs" "add_filter s lit_Undef qs = Some w"
    using r True by (auto simp: addClause_def split: bind_splits)
  consider "w = None" | "w = Some []" | l where "w = Some [l]" | l m ls where "w = Some (l # m # ls)"
    by (metis list.exhaust option.exhaust)
  then show ?thesis
  proof cases
    case (3 l)
    then show ?thesis using r True w o by (simp add: addClause_def unit_order [where g = "\<lambda>c. c = CRef_Undef"])
  next
    case (4 l m ls)
    then show ?thesis using r True w o
      by (auto simp: addClause_def split: bind_splits sum.splits prod.splits dest!: attach_order [where n = n])
  qed (use r True w o in \<open>auto simp: addClause_def\<close>)
qed (use r o in \<open>auto simp: addClause_def split: if_splits\<close>)

lemma heap_ok_append:
  assumes "var_order.heap_ok act h" "set (hp h) \<subseteq> {..<length act}"
  shows "var_order.heap_ok (act @ [z]) h"
proof -
  have "VarOrderLt (act @ [z]) (hp h ! i) (hp h ! j) = VarOrderLt act (hp h ! i) (hp h ! j)" if "i < length (hp h)" "j < length (hp h)" for i j
  proof -
    have "hp h ! i < length act" "hp h ! j < length act" using that assms(2) by (auto dest: nth_mem)
    then show ?thesis by (simp add: VarOrderLt_def nth_append)
  qed
  then show ?thesis using assms(1) heap_parent_less
    unfolding var_order.heap_ok_def var_order.heap_ordered_def by (metis order.strict_trans)
qed

lemma newVar_order:
  assumes v: "vars_ok n s" and o: "order_ok n s" and r: "newVar upol dvar s = Some (m, s')"
  shows "order_ok (Suc n) s'"
proof -
  have nv: "sv_next_var s = n" "sv_free_vars s = []" and as: "length (sv_assigns s) = n"
    using v by (auto simp: vars_ok_def sv_loaded_def sv_inv_def core_def trail_inv_def)
  have len: "length (sv_decision s) = n" "length (sv_polarity s) = n" "length (sv_activity s) = n" using o by (auto simp: order_ok_def)
  obtain s2 where s2: "setDecisionVar n dvar s2 = Some s'" "sv_decision s2 = sv_decision s @ [False]" "sv_polarity s2 = sv_polarity s @ [True]"
    "sv_activity s2 = sv_activity s @ [Fp 0 0]" "sv_assigns s2 = sv_assigns s @ [ml_Undef]" "sv_order_heap s2 = sv_order_heap s"
    using r nv im_insert_end [of "sv_assigns s"] im_insert_end [of "sv_polarity s"] im_insert_end [of "sv_activity s"] im_reserve_end [of "sv_decision s"] len as
    by (auto simp: newVar_def Let_def)
  define s3 where "s3 = s2\<lparr>sv_dec_vars := (if dvar \<and> \<not> sv_decision s2 ! n then sv_dec_vars s2 + 1 else if \<not> dvar \<and> sv_decision s2 ! n then sv_dec_vars s2 - 1 else sv_dec_vars s2),
    sv_decision := (sv_decision s2)[n := dvar]\<rparr>"
  have f: "insertVarOrder n s3 = Some s'" "sv_decision s3 = sv_decision s @ [dvar]" "sv_polarity s3 = sv_polarity s @ [True]"
    "sv_activity s3 = sv_activity s @ [Fp 0 0]" "sv_assigns s3 = sv_assigns s @ [ml_Undef]" "sv_order_heap s3 = sv_order_heap s"
    using s2 len by (auto simp: setDecisionVar_def s3_def)
  have "var_order.heap_ok (sv_activity s3) (sv_order_heap s3)" "n < length (sv_decision s3)"
    using o heap_ok_append [of "sv_activity s" "sv_order_heap s"] len unfolding f order_ok_def by auto
  then obtain g where g: "s' = s3\<lparr>sv_order_heap := g\<rparr>" "var_order.heap_ok (sv_activity s3) g" 
    "\<forall>y. inHeap y g \<longleftrightarrow> inHeap y (sv_order_heap s3) \<or> y = n \<and> sv_decision s3 ! n"
    using insertVarOrder_ok [of s3 n] f(1) by auto
  have "x < Suc n" if "x \<in> set (hp g)" for x
    using that g(2,3) o var_order.heap_inHeap [of "sv_activity s3" g x] var_order.heap_inHeap [of "sv_activity s" "sv_order_heap s" x]
    unfolding order_ok_def f(6) by auto
  then show ?thesis using o g len as unfolding order_ok_def by (auto simp: f nth_append less_Suc_eq)
qed

end
