(* ===== verification/MiniBuild.thy ===== *)
theory MiniBuild
  imports MiniOrder
begin

text \<open>
  What the operations of \<open>MiniCore\<close> guarantee together: the solver holds the formula that was added,
  propagation is complete, and backtracking restores a state that needs no new propagation.
\<close>

section \<open>Complete propagation\<close>

definition settled :: "Solver \<Rightarrow> 32 word \<Rightarrow> bool" where
  "settled s cr = ((\<exists>l\<in>set (cl s cr). l \<in> set (sv_trail s)) \<or>
     (\<exists>l\<in>set (cl s cr). \<exists>m\<in>set (cl s cr). l \<noteq> m \<and> Lit_neg l \<notin> set (sv_trail s) \<and> Lit_neg m \<notin> set (sv_trail s)))"

lemma propagated_settled:
  assumes "core A n s" "propagated A s" "sv_qhead s = length (sv_trail s)" "cr \<in> A"
  shows "settled s cr"
proof -
  have lo: "lits_ok n (cl s cr)" using assms(1,4) by (fastforce simp: core_def store_ok_def clause_in_def)
  have len: "0 < length (cl s cr)" "1 < length (cl s cr)" using lo unfolding lits_ok_def by linarith+
  then have mem: "cl s cr ! 0 \<in> set (cl s cr)" "cl s cr ! 1 \<in> set (cl s cr)" by auto
  have ne: "cl s cr ! 0 \<noteq> cl s cr ! 1" using lits_ok_neq [OF lo len] by linarith
  show ?thesis
  proof (cases "Lit_neg (cl s cr ! 0) \<in> set (sv_trail s) \<or> Lit_neg (cl s cr ! 1) \<in> set (sv_trail s)")
    case True
    then obtain l where "watched (cl s cr) l" "Lit_neg l \<in> set (sv_trail s)" by (auto simp: watched_def)
    then show ?thesis using assms(2-4) unfolding propagated_def prop_ok_def settled_def by auto
  next
    case False
    then show ?thesis using mem ne unfolding settled_def by blast
  qed
qed

text \<open>
  C31. Unit propagation over watched literals is complete and sound. In every state of the invariant it
  returns: the watch lists and clauses keep the invariant, the trail only grows, and what is added
  follows from the clauses and the trail. Without a conflict every clause then has a true
  literal or at least two that are not false, so no unit and no conflict is missed although only
  watched literals were looked at (and the heap of decisions stays complete); with a conflict the returned clause is false and no model of
  the clauses satisfies the trail.
\<close>

theorem propagate_complete:
  assumes "sv_inv A n s" "propagated A s"
  shows "\<exists>confl s'. propagate_core s = Some (confl, s') \<and> sv_inv A n s' \<and> sv_qhead s' = length (sv_trail s')
    \<and> (\<exists>ts. sv_trail s' = sv_trail s @ ts) \<and> (\<forall>\<alpha>. models \<alpha> A s \<and> trail_true \<alpha> s \<longrightarrow> trail_true \<alpha> s')
    \<and> (order_ok n s \<longrightarrow> order_ok n s') \<and> (reasons_ok A s \<longrightarrow> reasons_ok A s')
    \<and> (if confl = CRef_Undef then propagated A s' \<and> (\<forall>cr\<in>A. settled s' cr)
       else confl \<in> A \<and> falsified s' confl \<and> (\<forall>\<alpha>. models \<alpha> A s \<longrightarrow> \<not> trail_true \<alpha> s))"
proof -
  obtain confl s' where r: "propagate_core s = Some (confl, s')" "sv_inv A n s'" "outcome A CRef_Undef confl s'"
    "\<forall>cr\<in>A. set (cl s' cr) = set (cl s cr)" "\<exists>ts. sv_trail s' = sv_trail s @ ts"
    "\<forall>\<alpha>. models \<alpha> A s \<and> trail_true \<alpha> s \<longrightarrow> trail_true \<alpha> s'" "reasons_ok A s \<longrightarrow> reasons_ok A s'"
    using propagate_core_ok [OF assms] by blast
  have q: "sv_qhead s' = length (sv_trail s')" and co: "core A n s'" "CRef_Undef \<notin> A"
    using r(2,3) no_undef_ref by (auto simp: outcome_def sv_inv_def)
  have "if confl = CRef_Undef then propagated A s' \<and> (\<forall>cr\<in>A. settled s' cr)
    else confl \<in> A \<and> falsified s' confl \<and> (\<forall>\<alpha>. models \<alpha> A s \<longrightarrow> \<not> trail_true \<alpha> s)"
  proof (cases "confl = CRef_Undef")
    case True
    then have "propagated A s'" using r(3) co(2) by (auto simp: outcome_def)
    then show ?thesis using True propagated_settled [OF co(1) _ q] by simp
  next
    case False
    then have c: "confl \<in> A" "falsified s' confl" using r(3) by (auto simp: outcome_def)
    have "\<not> trail_true \<alpha> s" if m: "models \<alpha> A s" for \<alpha>
    proof
      assume t: "trail_true \<alpha> s"
      obtain k where k: "k \<in> set (cl s' confl)" "Lit_holds \<alpha> k" using m c(1) r(4) unfolding models_def by auto
      have "Lit_holds \<alpha> (Lit_neg k)" using r(6) m t c(2) k(1) unfolding trail_true_def falsified_def by blast
      then show False using k(2) by simp
    qed
    then show ?thesis using False c by simp
  qed
  then show ?thesis using r q propagate_order [OF r(1)] by blast
qed

section \<open>Building a formula\<close>

fun new_vars :: "nat \<Rightarrow> Solver \<Rightarrow> Solver option" where
  "new_vars 0 s = Some s"
| "new_vars (Suc n) s = Option.bind (newVar ml_Undef True s) (\<lambda>(v, s'). new_vars n s')"

fun add_clauses :: "mem_env \<Rightarrow> Lit list list \<Rightarrow> Solver \<Rightarrow> (alloc_error + Solver) option" where
  "add_clauses e [] s = Some (Inr s)"
| "add_clauses e (c # cs) s =
     (case addClause e c s of
        None \<Rightarrow> None
      | Some (Inl err) \<Rightarrow> Some (Inl err)
      | Some (Inr (b, s')) \<Rightarrow> add_clauses e cs s')"

lemma Solver_new_ok:
  assumes "region_ok (ca_ra ca)"
  shows "vars_ok 0 (Solver_new ca)" "represents [] (Solver_new ca)"
proof -
  show "vars_ok 0 (Solver_new ca)"
    using assms by (simp add: vars_ok_def sv_loaded_def sv_inv_def core_def trail_inv_def store_ok_def lists_ok_def levels_ok_def
        watch_ok_def slit_ok_def separated_def propagated_def prop_ok_def reasons_ok_def Solver_new_def OccLists_new_def)
  show "represents [] (Solver_new ca)" by (simp add: represents_def sat_all_def models_def trail_true_def Solver_new_def)
qed

lemma new_vars_ok:
  "vars_ok m s \<Longrightarrow> represents F s \<Longrightarrow> m + k \<le> 2 ^ 30 \<Longrightarrow> \<exists>s'. new_vars k s = Some s' \<and> vars_ok (m + k) s' \<and> represents F s'"
proof (induction k arbitrary: m s)
  case (Suc k)
  obtain s1 where s1: "newVar ml_Undef True s = Some (m, s1)" "vars_ok (Suc m) s1" "represents F s1"
    using newVar_ok [OF Suc.prems(1) _ Suc.prems(2), of ml_Undef True] Suc.prems(3) by auto
  then show ?case using Suc.IH [OF s1(2,3)] Suc.prems(3) by simp
qed simp

lemma add_clauses_ok:
  assumes "sv_loaded n s" "represents G s" "\<forall>c\<in>set F. (\<forall>l\<in>set c. slit_ok n l) \<and> length c < 2 ^ 27"
  shows "add_clauses e F s = Some (Inl OutOfMemory) \<or> (\<exists>s'. add_clauses e F s = Some (Inr s') \<and> sv_loaded n s' \<and> represents (G @ F) s')"
  using assms
proof (induction F arbitrary: s G)
  case (Cons c F)
  have "addClause e c s = Some (Inl OutOfMemory)
    \<or> (\<exists>s'. addClause e c s = Some (Inr (sv_ok s', s')) \<and> sv_loaded n s' \<and> represents (G @ [c]) s')"
    using addClause_ok [OF Cons.prems(1,2), of c e] Cons.prems(3) by simp
  then show ?case
  proof
    assume "\<exists>s'. addClause e c s = Some (Inr (sv_ok s', s')) \<and> sv_loaded n s' \<and> represents (G @ [c]) s'"
    then obtain s1 where s1: "addClause e c s = Some (Inr (sv_ok s1, s1))" "sv_loaded n s1" "represents (G @ [c]) s1" by blast
    then show ?thesis using Cons.IH [OF s1(2,3)] Cons.prems(3) by simp
  qed simp
qed simp

lemma new_vars_order:
  "vars_ok m s \<Longrightarrow> represents F s \<Longrightarrow> m + k \<le> 2 ^ 30 \<Longrightarrow> order_ok m s \<Longrightarrow> new_vars k s = Some s' \<Longrightarrow> order_ok (m + k) s'"
proof (induction k arbitrary: m s)
  case (Suc k)
  obtain s1 where s1: "newVar ml_Undef True s = Some (m, s1)" "vars_ok (Suc m) s1" "represents F s1"
    using newVar_ok [OF Suc.prems(1) _ Suc.prems(2), of ml_Undef True] Suc.prems(3) by auto
  then show ?case using Suc.IH [OF s1(2,3)] Suc.prems newVar_order [OF _ _ s1(1)] by simp
qed simp

lemma add_clauses_order: "add_clauses e F s = Some (Inr s') \<Longrightarrow> order_ok n s \<Longrightarrow> order_ok n s'"
  by (induction e F s rule: add_clauses.induct) (auto split: option.splits sum.splits dest: addClause_order [where n = n])

lemma Solver_new_order: "order_ok 0 (Solver_new ca)"
  by (simp add: order_ok_def Solver_new_def Heap_new_def var_order.heap_ok_def var_order.heap_ordered_def index_inv_def)

text \<open>
  C32. After creating \<open>n\<close> variables and adding clauses over them in any order, unless memory runs out, an
  assignment satisfies the clauses that were added exactly if the solver is still consistent (its
  \<^verbatim>\<open>ok\<close> flag) and the assignment satisfies the clauses it stores and the literals on its trail: sorting,
  dropping false, repeated and satisfied literals, and propagating units keep the formula. No
  assertion fails, while the solver is consistent every stored clause has a true literal or
  two that are not false, and every unassigned variable is in the heap of decisions.
\<close>

theorem minisat_holds_formula:
  assumes "n \<le> 2 ^ 30" "\<forall>c\<in>set F. (\<forall>l\<in>set c. slit_ok n l) \<and> length c < 2 ^ 27" "region_ok (ca_ra ca)"
  shows "\<exists>s0. new_vars n (Solver_new ca) = Some s0 \<and>
    (add_clauses e F s0 = Some (Inl OutOfMemory) \<or>
     (\<exists>s. add_clauses e F s0 = Some (Inr s)
        \<and> (\<forall>\<alpha>. sat_all \<alpha> F \<longleftrightarrow> sv_ok s \<and> models \<alpha> (set (sv_clauses s)) s \<and> trail_true \<alpha> s)
        \<and> (sv_ok s \<longrightarrow> (\<forall>cr\<in>set (sv_clauses s). settled s cr)) \<and> order_ok n s))"
proof -
  note new = Solver_new_ok [OF assms(3)]
  obtain s0 where s0: "new_vars n (Solver_new ca) = Some s0" "vars_ok n s0" "represents [] s0"
    using new_vars_ok [OF new, of n] assms(1) by auto
  then have "sv_loaded n s0" by (simp add: vars_ok_def)
  from add_clauses_ok [OF this s0(3) assms(2), of e] show ?thesis
  proof
    assume "\<exists>s'. add_clauses e F s0 = Some (Inr s') \<and> sv_loaded n s' \<and> represents ([] @ F) s'"
    then obtain s where s: "add_clauses e F s0 = Some (Inr s)" "sv_loaded n s" "represents F s" by auto
    have "settled s cr" if "sv_ok s" "cr \<in> set (sv_clauses s)" for cr
      using s(2) that propagated_settled unfolding sv_loaded_def sv_inv_def by blast
    moreover have "order_ok n s0" using new_vars_order [OF new _ Solver_new_order s0(1)] assms(1) by simp
    ultimately show ?thesis using s0(1) s(1,3) add_clauses_order unfolding represents_def by blast
  qed (use s0(1) in blast)
qed

section \<open>Backtracking\<close>

lemma trail_pop:
  assumes inv: "trail_inv n (s\<lparr>sv_trail := ts @ [p]\<rparr>)"
  shows "trail_inv n (s\<lparr>sv_trail := ts, sv_assigns := (sv_assigns s)[var_index p := ml_Undef]\<rparr>)" "var_index p < n"
proof -
  have p: "slit_ok n p" "n \<le> 2 ^ 30" "p \<notin> set ts" using inv by (auto simp: trail_inv_def)
  show v: "var_index p < n" using slit_ok_var [OF p(1,2)] .
  let ?as = "(sv_assigns s)[var_index p := ml_Undef]"
  have len: "length (sv_assigns s) = n" and c: "Lit_neg p \<notin> set (ts @ [p])"
    using inv trail_consistent [OF inv, of p] by (auto simp: trail_inv_def)
  have "m \<in> set ts \<longleftrightarrow> ?as ! var_index m = of_bool (Lit_sign m)" if m: "slit_ok n m" for m
  proof (cases "var_index m = var_index p")
    case True
    then have "m = p \<or> m = Lit_neg p" using var_index_eq [of p m] p m slit_ok_bound by metis
    then show ?thesis using p(3) c v len by (auto simp: ml_Undef_def of_bool_def)
  next
    case False
    moreover have "m \<in> set (ts @ [p]) \<longleftrightarrow> sv_assigns s ! var_index m = of_bool (Lit_sign m)"
      using inv m unfolding trail_inv_def by simp
    ultimately show ?thesis by auto
  qed
  moreover have "set ?as \<subseteq> {0, 1, 2}"
    using set_update_subset_insert [of "sv_assigns s" "var_index p" ml_Undef] inv unfolding trail_inv_def ml_Undef_def by auto
  ultimately show "trail_inv n (s\<lparr>sv_trail := ts, sv_assigns := ?as\<rparr>)" using inv unfolding trail_inv_def by simp
qed

lemma cancel_loop_ok:
  assumes "trail_inv n (s\<lparr>sv_trail := take c (sv_trail s)\<rparr>)" "order_ok n s" "b \<le> c" "c \<le> length (sv_trail s)"
  shows "\<exists>as pol h. cancel_loop b c s = Some (s\<lparr>sv_assigns := as, sv_polarity := pol, sv_order_heap := h\<rparr>)
    \<and> trail_inv n (s\<lparr>sv_assigns := as, sv_trail := take b (sv_trail s)\<rparr>)
    \<and> order_ok n (s\<lparr>sv_assigns := as, sv_polarity := pol, sv_order_heap := h\<rparr>)"
  using assms
proof (induction c arbitrary: s)
  case 0
  then show ?case by (intro exI [of _ "sv_assigns s"] exI [of _ "sv_polarity s"] exI [of _ "sv_order_heap s"]) simp
next
  case (Suc c)
  show ?case
  proof (cases "b \<le> c")
    case False
    then show ?thesis using Suc.prems(1-3)
      by (intro exI [of _ "sv_assigns s"] exI [of _ "sv_polarity s"] exI [of _ "sv_order_heap s"]) (simp add: le_Suc_eq)
  next
    case True
    let ?p = "sv_trail s ! c"
    let ?as = "(sv_assigns s)[var_index ?p := ml_Undef]"
    define pol where "pol = (if 1 < sv_phase_saving s \<or> sv_phase_saving s = 1 \<and> last (sv_trail_lim s) < c
      then (sv_polarity s)[var_index ?p := Lit_sign ?p] else sv_polarity s)"
    have c: "take (Suc c) (sv_trail s) = take c (sv_trail s) @ [?p]" using Suc.prems(4) by (simp add: take_Suc_conv_app_nth)
    note pop = trail_pop [OF Suc.prems(1) [unfolded c]]
    have len: "length (sv_assigns s) = n" "length (sv_decision s) = n" "length (sv_polarity s) = n"
      using Suc.prems(1,2) by (auto simp: trail_inv_def order_ok_def)
    let ?s1 = "s\<lparr>sv_assigns := ?as, sv_polarity := pol\<rparr>"
    obtain g where g: "insertVarOrder (var_index ?p) ?s1 = Some (?s1\<lparr>sv_order_heap := g\<rparr>)"
      "heap_order.heap_ok (VarOrderLt (sv_activity s)) g"
      "\<forall>y. inHeap y g \<longleftrightarrow> inHeap y (sv_order_heap s) \<or> y = var_index ?p \<and> sv_decision s ! var_index ?p"
      using insertVarOrder_ok [of ?s1 "var_index ?p"] Suc.prems(2) pop(2) len unfolding order_ok_def by auto
    let ?s2 = "?s1\<lparr>sv_order_heap := g\<rparr>"
    have "length pol = n" using len by (simp add: pol_def)
    moreover have "x < n" if "x \<in> set (hp g)" for x
      using that g(2,3) pop(2) Suc.prems(2) var_order.heap_inHeap unfolding order_ok_def by (metis lessThan_iff subsetD)
    moreover have "inHeap x g" if "x < n" "sv_decision s ! x" "?as ! x = ml_Undef" for x
      using that g(3) Suc.prems(2) unfolding order_ok_def by (cases "x = var_index ?p") auto
    ultimately have o: "order_ok n ?s2" using g(2) len Suc.prems(2) by (auto simp: order_ok_def)
    have t: "trail_inv n (?s2\<lparr>sv_trail := take c (sv_trail ?s2)\<rparr>)" using pop(1) by (simp add: trail_inv_def)
    have "cancel_loop b (Suc c) s = cancel_loop b c ?s2" using True len pop(2) g(1) by (auto simp: pol_def Let_def)
    then show ?thesis using Suc.IH [OF t o True] Suc.prems(4) by (auto simp: trail_inv_def)
  qed
qed

text \<open>
  C33. Backtracking returns for every state of the invariant. The trail is cut at the start of the
  level, exactly its literals stay assigned, and although the clauses are not touched, and were reordered since,
  nothing has to be propagated again: the invariant holds with the queue at the end of the
  trail. Every unassigned decision variable is in the heap again, so none is forgotten by later decisions.
\<close>

theorem cancelUntil_restores:
  assumes "sv_inv A n s" "order_ok n s" "sorted (sv_trail_lim s)" "level < decisionLevel s"
  shows "\<exists>s'. cancelUntil level s = Some s' \<and> decisionLevel s' = level \<and> sv_trail s' = take (sv_trail_lim s ! level) (sv_trail s)
    \<and> sv_inv A n s' \<and> order_ok n s' \<and> propagated A s' \<and> sv_qhead s' = length (sv_trail s') \<and> (reasons_ok A s \<longrightarrow> reasons_ok A s')"
proof -
  let ?b = "sv_trail_lim s ! level" and ?c = "length (sv_trail s)"
  have co: "core A n s" and wo: "watch_ok A n (cl s) (wl s)" using assms(1) by (auto simp: sv_inv_def)
  have lev: "level < length (sv_trail_lim s)" using assms(4) by (simp add: decisionLevel_def)
  then have b: "?b \<in> set (sv_trail_lim s)" "?b \<le> ?c" using co nth_mem [OF lev] unfolding core_def by fastforce+
  obtain as pol h where r: "cancel_loop ?b ?c s = Some (s\<lparr>sv_assigns := as, sv_polarity := pol, sv_order_heap := h\<rparr>)"
    "trail_inv n (s\<lparr>sv_assigns := as, sv_trail := take ?b (sv_trail s)\<rparr>)"
    "order_ok n (s\<lparr>sv_assigns := as, sv_polarity := pol, sv_order_heap := h\<rparr>)"
    using cancel_loop_ok [where n = n and s = s and c = ?c and b = ?b] co assms(2) b(2) unfolding core_def by auto
  define s' where "s' = s\<lparr>sv_assigns := as, sv_polarity := pol, sv_order_heap := h, sv_qhead := ?b,
    sv_trail := take ?b (sv_trail s), sv_trail_lim := take level (sv_trail_lim s)\<rparr>"
  have f: "cancelUntil level s = Some s'" using r(1) assms(4) by (simp add: cancelUntil_def s'_def)
  have cl: "cl s' = cl s" "wl s' = wl s" by (auto simp: cl_def wl_def s'_def)
  have low: "k \<le> ?b" if "k \<in> set (take level (sv_trail_lim s))" for k
    using that assms(3) lev by (auto simp: in_set_conv_nth sorted_iff_nth_mono)
  have lo: "levels_ok A (cl s) (sv_trail_lim s) (sv_trail s)" using co by (simp add: core_def)
  have "prop_ok A (cl s) {} (take k (take ?b (sv_trail s))) k" if "k \<in> set (take level (sv_trail_lim s))" for k
    using lo low [OF that] in_set_takeD [OF that] unfolding levels_ok_def by (simp add: min_absorb1)
  then have "levels_ok A (cl s') (sv_trail_lim s') (sv_trail s')" unfolding cl levels_ok_def by (simp add: s'_def)
  moreover have "store_ok A n s'" using co unfolding core_def store_ok_def by (simp add: s'_def)
  moreover have "lists_ok n s'" using co unfolding core_def lists_ok_def by (simp add: s'_def)
  moreover have "trail_inv n s'" using r(2) unfolding trail_inv_def by (simp add: s'_def)
  moreover have "\<forall>k\<in>set (sv_trail_lim s'). k \<le> sv_qhead s'" "sv_qhead s' \<le> length (sv_trail s')"
    using low b(2) by (simp_all add: s'_def)
  ultimately have "core A n s'" unfolding core_def by blast
  moreover have "propagated A s'" using lo b(1) unfolding propagated_def cl levels_ok_def by (simp add: s'_def)
  moreover have "order_ok n s'" using r(3) by (simp add: order_ok_def s'_def)
  moreover have "reason_pos A s' i = reason_pos A s i" if "i < ?b" for i
    using that lev unfolding reason_pos_def reason_at_def root_pos_def cl
    by (cases level; cases "sv_trail_lim s") (auto simp: s'_def)
  then have "reasons_ok A s \<longrightarrow> reasons_ok A s'" using b(2) by (simp add: reasons_ok_def s'_def)
  moreover have "watch_ok A n (cl s') (wl s')" using wo unfolding cl .
  moreover have "decisionLevel s' = level" "sv_trail s' = take ?b (sv_trail s)" "sv_qhead s' = length (sv_trail s')"
    using lev b(2) by (simp_all add: s'_def decisionLevel_def)
  ultimately show ?thesis using f unfolding sv_inv_def by blast
qed

lemma decide_ok:
  assumes "sv_inv A n s" "propagated A s" "sv_qhead s = length (sv_trail s)"
    and l: "slit_ok n l" "l \<notin> set (sv_trail s)" "Lit_neg l \<notin> set (sv_trail s)"
  shows "\<exists>s'. uncheckedEnqueue l CRef_Undef (newDecisionLevel s) = Some s' \<and> sv_inv A n s' \<and> propagated A s' \<and> (reasons_ok A s \<longrightarrow> reasons_ok A s')"
proof -
  let ?s = "newDecisionLevel s"
  have co: "core A n s" using assms(1) by (simp add: sv_inv_def)
  have t: "trail_inv n ?s" using co unfolding core_def trail_inv_def by (simp add: newDecisionLevel_def)
  then obtain as vd where r: "uncheckedEnqueue l CRef_Undef ?s = Some (?s\<lparr>sv_assigns := as, sv_vardata := vd, sv_trail := sv_trail ?s @ [l]\<rparr>)"
    "trail_inv n (?s\<lparr>sv_assigns := as, sv_vardata := vd, sv_trail := sv_trail ?s @ [l]\<rparr>)"
    using enqueue_ok [of n ?s l CRef_Undef] l by (auto simp: newDecisionLevel_def)
  define s' where "s' = ?s\<lparr>sv_assigns := as, sv_vardata := vd, sv_trail := sv_trail ?s @ [l]\<rparr>"
  have f: "sv_trail s' = sv_trail s @ [l]" "sv_trail_lim s' = sv_trail_lim s @ [length (sv_trail s)]" "sv_qhead s' = length (sv_trail s)"
    "sv_ca s' = sv_ca s" "sv_watches s' = sv_watches s" using assms(3) by (simp_all add: s'_def newDecisionLevel_def)
  have cl: "cl s' = cl s" "wl s' = wl s" using f by (auto simp: cl_def wl_def)
  have p: "prop_ok A (cl s) {} (sv_trail s) (length (sv_trail s))" using assms(2,3) by (simp add: propagated_def)
  have "levels_ok A (cl s) (sv_trail_lim s) (sv_trail s @ [l])" using co levels_ok_extend unfolding core_def by (metis order.trans)
  then have "levels_ok A (cl s') (sv_trail_lim s') (sv_trail s')" using p unfolding cl f levels_ok_def by simp
  moreover have "\<forall>k\<in>set (sv_trail_lim s'). k \<le> sv_qhead s'" "sv_qhead s' \<le> length (sv_trail s')"
    using co assms(3) unfolding f core_def by auto
  moreover have "store_ok A n s'" "lists_ok n s'" "trail_inv n s'"
    using co r(2) unfolding core_def store_ok_def lists_ok_def f s'_def [symmetric] by blast+
  ultimately have "core A n s'" unfolding core_def by blast
  moreover have "watch_ok A n (cl s') (wl s')" using assms(1) unfolding cl sv_inv_def by blast
  moreover have "propagated A s'" using prop_ok_extend [OF p] unfolding propagated_def cl f by simp
  moreover have "reasons_ok A s \<longrightarrow> reasons_ok A ?s"
    by (auto simp: reasons_ok_def reason_pos_def reason_at_def root_pos_def newDecisionLevel_def cl_def hd_append)
  then have "reasons_ok A s \<longrightarrow> reasons_ok A s'"
    using reasons_enqueue [OF r(1) r(2), of A] co assms(3) unfolding s'_def [symmetric] core_def by (auto simp: newDecisionLevel_def)
  ultimately show ?thesis using r(1) unfolding s'_def [symmetric] sv_inv_def by blast
qed

section \<open>A chain of implications\<close>

definition chain :: "Lit list list" where
  "chain = [[1, 2], [3, 4]]"

definition chain_solver :: "Solver option" where
  "chain_solver = do {
     s0 \<leftarrow> new_vars 3 (Solver_new empty_ca);
     r \<leftarrow> add_clauses plain_env chain s0;
     case r of Inl e \<Rightarrow> None | Inr s \<Rightarrow> Some s }"

definition chain_decided :: "Solver option" where
  "chain_decided = chain_solver \<bind> (\<lambda>s. uncheckedEnqueue 0 CRef_Undef (newDecisionLevel s))"

lemma chain_facts: "case chain_solver of None \<Rightarrow> False | Some s \<Rightarrow> sv_trail s = [] \<and> length (sv_clauses s) = 2 \<and> sv_ok s"
  by code_simp

lemma chain_ok: "\<forall>c\<in>set chain. (\<forall>l\<in>set c. slit_ok 3 l) \<and> length c < 2 ^ 27"
  by (simp add: chain_def slit_ok_def)

lemma chain_sv_loaded: "\<exists>s. chain_solver = Some s \<and> sv_loaded 3 s \<and> order_ok 3 s \<and> sv_ok s \<and> sv_trail s = [] \<and> length (sv_clauses s) = 2"
proof -
  note new = Solver_new_ok [OF empty_ca_ok]
  obtain s0 where s0: "new_vars 3 (Solver_new empty_ca) = Some s0" "vars_ok 3 s0" "represents [] s0"
    using new_vars_ok [OF new, of 3] by auto
  then have "sv_loaded 3 s0" by (simp add: vars_ok_def)
  moreover have "order_ok 3 s0" using new_vars_order [OF new _ Solver_new_order s0(1)] by simp
  ultimately show ?thesis using add_clauses_ok [OF _ s0(3) chain_ok, of plain_env] add_clauses_order [of plain_env chain s0] s0(1) chain_facts
    by (auto simp: chain_solver_def)
qed

lemma chain_decided_ok:
  "\<exists>s d. chain_solver = Some s \<and> chain_decided = Some d \<and> length (sv_clauses s) = 2
     \<and> sv_inv (set (sv_clauses s)) 3 d \<and> propagated (set (sv_clauses s)) d \<and> order_ok 3 d \<and> reasons_ok (set (sv_clauses s)) d"
proof -
  obtain s where s: "chain_solver = Some s" "sv_loaded 3 s" "order_ok 3 s" "sv_ok s" "sv_trail s = []" "length (sv_clauses s) = 2"
    using chain_sv_loaded by blast
  then obtain d where d: "uncheckedEnqueue 0 CRef_Undef (newDecisionLevel s) = Some d" "sv_inv (set (sv_clauses s)) 3 d"
    "propagated (set (sv_clauses s)) d" "reasons_ok (set (sv_clauses s)) d"
    using decide_ok [of "set (sv_clauses s)" 3 s 0] by (auto simp: sv_loaded_def slit_ok_def)
  moreover have "order_ok 3 d" using enqueue_order [OF d(1)] s(3) by (simp add: newDecisionLevel_def)
  moreover have "chain_decided = Some d" unfolding chain_decided_def s(1) using d(1) by simp
  ultimately show ?thesis using s(1,6) by blast
qed

lemma chain_propagates: "case chain_decided \<bind> propagate_core of None \<Rightarrow> False
  | Some (confl, s) \<Rightarrow> confl = CRef_Undef \<and> sv_trail s = [0, 2, 4] \<and> sv_trail_lim s = [0]"
  by code_simp

theorem propagate_complete_witness:
  "\<exists>s d s'. chain_solver = Some s \<and> chain_decided = Some d \<and> propagate_core d = Some (CRef_Undef, s') \<and> sv_trail s' = [0, 2, 4]
     \<and> length (sv_clauses s) = 2 \<and> (\<forall>cr\<in>set (sv_clauses s). settled s' cr)"
proof -
  obtain s d where d: "chain_solver = Some s" "chain_decided = Some d" "length (sv_clauses s) = 2"
    "sv_inv (set (sv_clauses s)) 3 d" "propagated (set (sv_clauses s)) d" using chain_decided_ok by blast
  obtain confl s' where r: "propagate_core d = Some (confl, s')"
    "if confl = CRef_Undef then propagated (set (sv_clauses s)) s' \<and> (\<forall>cr\<in>set (sv_clauses s). settled s' cr)
     else confl \<in> set (sv_clauses s) \<and> falsified s' confl \<and> (\<forall>\<alpha>. models \<alpha> (set (sv_clauses s)) d \<longrightarrow> \<not> trail_true \<alpha> d)"
    using propagate_complete [OF d(4,5)] by blast
  then have "confl = CRef_Undef" "sv_trail s' = [0, 2, 4]" using chain_propagates unfolding d(2) by simp_all
  then show ?thesis using d r by auto
qed

theorem minisat_holds_formula_witness:
  "\<exists>s. chain_solver = Some s \<and> (\<forall>\<alpha>. sat_all \<alpha> chain \<longleftrightarrow> sv_ok s \<and> models \<alpha> (set (sv_clauses s)) s \<and> trail_true \<alpha> s)"
proof -
  obtain s where s: "chain_solver = Some s" using chain_sv_loaded by blast
  have "(3 :: nat) \<le> 2 ^ 30" by simp
  from minisat_holds_formula [OF this chain_ok empty_ca_ok, of plain_env] s show ?thesis by (auto simp: chain_solver_def)
qed

theorem cancelUntil_restores_witness:
  "\<exists>d s s'. chain_decided = Some d \<and> propagate_core d = Some (CRef_Undef, s) \<and> sv_trail s = [0, 2, 4]
     \<and> cancelUntil 0 s = Some s' \<and> sv_trail s' = [] \<and> sv_qhead s' = 0"
proof -
  obtain t d where d: "chain_solver = Some t" "chain_decided = Some d" "sv_inv (set (sv_clauses t)) 3 d" "propagated (set (sv_clauses t)) d"
    "order_ok 3 d" using chain_decided_ok by blast
  obtain confl s where s: "propagate_core d = Some (confl, s)" "sv_inv (set (sv_clauses t)) 3 s"
    using propagate_core_ok [OF d(3,4)] by blast
  then have c: "confl = CRef_Undef" "sv_trail s = [0, 2, 4]" "sv_trail_lim s = [0]"
    using chain_propagates unfolding d(2) by simp_all
  have "order_ok 3 s" using propagate_order [OF s(1) d(5)] .
  moreover have "sorted (sv_trail_lim s)" "0 < decisionLevel s" using c(3) by (simp_all add: decisionLevel_def)
  ultimately obtain s' where "cancelUntil 0 s = Some s'" "sv_trail s' = take (sv_trail_lim s ! 0) (sv_trail s)" "sv_qhead s' = length (sv_trail s')"
    using cancelUntil_restores [OF s(2), of 0] by blast
  then show ?thesis using d(2) s(1) c(1-3) by auto
qed

end
