(* ===== verification/MiniFinal.thy ===== *)
theory MiniFinal
  imports MiniBuild
begin

text \<open>
  \<^verbatim>\<open>Solver::analyzeFinal\<close> of \<^verbatim>\<open>src/minisat/minisat/core/Solver.cc\<close>: the final conflict in terms of the assumptions,
  from which the wrappers read the failed assumptions. The set \<^verbatim>\<open>out_conflict\<close> is an \<open>IntSet\<close> of \<open>MiniOcc\<close>.
\<close>

section \<open>The code\<close>

text \<open>The loop over the literals of a reason from position 1 on.\<close>

fun mark_seen :: "Solver \<Rightarrow> Lit list \<Rightarrow> nat list \<Rightarrow> nat list option" where
  "mark_seen s [] sn = Some sn"
| "mark_seen s (l # ls) sn = do {
     vd \<leftarrow> im_get (sv_vardata s) (var_index l);
     sn' \<leftarrow> (if 0 < vd_level vd then im_put sn (var_index l) 1 else Some sn);
     mark_seen s ls sn' }"

text \<open>The loop over the trail, downwards to position \<open>bnd\<close>.\<close>

fun final_loop :: "nat \<Rightarrow> nat \<Rightarrow> IntSet \<Rightarrow> Solver \<Rightarrow> (IntSet \<times> Solver) option" where
  "final_loop bnd 0 out s = Some (out, s)"
| "final_loop bnd (Suc i) out s =
     (if bnd \<le> i then do {
        let x = var_index (sv_trail s ! i);
        sn \<leftarrow> im_get (sv_seen s) x;
        if sn \<noteq> 0 then do {
          vd \<leftarrow> im_get (sv_vardata s) x;
          (out', seen) \<leftarrow> (if vd_reason vd = CRef_Undef
             then if 0 < vd_level vd
                  then map_option (\<lambda>o'. (o', sv_seen s)) (IntSet_insert (lit_index (Lit_neg (sv_trail s ! i))) out)
                  else None
             else do {
               c \<leftarrow> ca_deref (sv_ca s) (vd_reason vd);
               map_option (Pair out) (mark_seen s (drop 1 (Clause_lits c)) (sv_seen s)) });
          seen' \<leftarrow> im_put seen x 0;
          final_loop bnd i out' (s\<lparr>sv_seen := seen'\<rparr>) }
        else final_loop bnd i out s }
      else Some (out, s))"

definition analyzeFinal :: "Lit \<Rightarrow> IntSet \<Rightarrow> Solver \<Rightarrow> (IntSet \<times> Solver) option" where
  "analyzeFinal p out s = do {
     out1 \<leftarrow> IntSet_clear False out;
     out2 \<leftarrow> IntSet_insert (lit_index p) out1;
     if decisionLevel s = 0 then Some (out2, s)
     else do {
       seen1 \<leftarrow> im_put (sv_seen s) (var_index p) 1;
       (out3, s1) \<leftarrow> final_loop (sv_trail_lim s ! 0) (length (sv_trail s)) out2 (s\<lparr>sv_seen := seen1\<rparr>);
       seen2 \<leftarrow> im_put (sv_seen s1) (var_index p) 0;
       Some (out3, s1\<lparr>sv_seen := seen2\<rparr>) } }"

section \<open>Correctness\<close>

lemma mark_seen_ok:
  assumes "\<forall>l\<in>set ls. var_index l < n" "length (sv_vardata s) = n" "length sn = n"
  shows "\<exists>sn'. mark_seen s ls sn = Some sn' \<and> length sn' = n
    \<and> (\<forall>y<n. sn' ! y \<noteq> 0 \<longleftrightarrow> sn ! y \<noteq> 0 \<or> (\<exists>m\<in>set ls. y = var_index m \<and> 0 < vd_level (sv_vardata s ! y)))"
  using assms
proof (induction ls arbitrary: sn)
  case (Cons l ls)
  define sn1 where "sn1 = (if 0 < vd_level (sv_vardata s ! var_index l) then sn[var_index l := 1] else sn)"
  have sn1: "length sn1 = n" "\<forall>y<n. sn1 ! y \<noteq> 0 \<longleftrightarrow> sn ! y \<noteq> 0 \<or> y = var_index l \<and> 0 < vd_level (sv_vardata s ! y)"
    using Cons.prems by (auto simp: sn1_def nth_list_update)
  have "mark_seen s (l # ls) sn = mark_seen s ls sn1" using Cons.prems by (simp add: sn1_def)
  then show ?case using Cons.IH [OF _ Cons.prems(2) sn1(1)] Cons.prems(1) sn1(2) by auto
qed simp

lemma mark_seen_seen: "mark_seen (s\<lparr>sv_seen := sn\<rparr>) ls = mark_seen s ls"
proof (induction ls)
  case (Cons l ls)
  show ?case by (rule ext) (simp add: Cons)
qed (rule ext, simp)

text \<open>The literals of the conflict are false, those below the first decision true, and the clauses hold.\<close>

definition refutes :: "32 word set \<Rightarrow> Solver \<Rightarrow> IntSet \<Rightarrow> (32 word \<Rightarrow> bool) \<Rightarrow> bool" where
  "refutes A s out \<alpha> = (models \<alpha> A s \<and> (\<forall>i<length (sv_trail s). root_pos s i \<longrightarrow> Lit_holds \<alpha> (sv_trail s ! i))
     \<and> (\<forall>l. lit_index l \<in> set (iset_xs out) \<longrightarrow> \<not> Lit_holds \<alpha> l))"

definition negated_decisions :: "Solver \<Rightarrow> nat set" where
  "negated_decisions s = {lit_index (Lit_neg (sv_trail s ! i)) | i. i < length (sv_trail s) \<and> \<not> root_pos s i \<and> reason_at s i = CRef_Undef}"

definition marked :: "Solver \<Rightarrow> nat list \<Rightarrow> nat \<Rightarrow> nat set" where
  "marked s sn i = {j. \<not> root_pos s j \<and> j < i \<and> sn ! var_index (sv_trail s ! j) \<noteq> 0}"

definition marks_ok :: "Solver \<Rightarrow> nat \<Rightarrow> Lit \<Rightarrow> nat list \<Rightarrow> nat \<Rightarrow> bool" where
  "marks_ok s n p sn i = (length sn = n \<and> (\<forall>y<n. sn ! y \<noteq> 0 \<longrightarrow> y = var_index p \<or> (\<exists>j\<in>marked s sn i. y = var_index (sv_trail s ! j))))"

lemma trail_var_eq:
  assumes "trail_inv n s" "i < length (sv_trail s)" "j < length (sv_trail s)" "var_index (sv_trail s ! i) = var_index (sv_trail s ! j)"
  shows "i = j"
proof -
  have "sv_trail s ! i = sv_trail s ! j" using inj_onD [OF trail_var_inj [OF assms(1)] assms(4)] assms(2,3) by simp
  then show ?thesis using assms(1-3) by (simp add: trail_inv_def nth_eq_iff_index_eq)
qed

lemma marks_clear:
  assumes t: "trail_inv n s" and k: "k < length (sv_trail s)" and m: "marks_ok s n p sn (Suc k)"
  defines "sn1 \<equiv> sn[var_index (sv_trail s ! k) := 0]"
  shows "marks_ok s n p sn1 k" "marked s sn1 k = marked s sn k"
proof -
  have ne: "var_index (sv_trail s ! k) \<noteq> var_index (sv_trail s ! j)" if "j < k" for j
    using trail_var_eq [OF t, of j k] that k by auto
  then show e: "marked s sn1 k = marked s sn k" unfolding marked_def sn1_def by (auto simp: ne)
  have "y = var_index p \<or> (\<exists>j\<in>marked s sn k. y = var_index (sv_trail s ! j))" if "y < n" "sn1 ! y \<noteq> 0" for y
  proof -
    have "y \<noteq> var_index (sv_trail s ! k)" using that m by (auto simp: sn1_def marks_ok_def)
    moreover from this have "sn ! y \<noteq> 0" using that(2) by (simp add: sn1_def)
    ultimately show ?thesis using m that(1) by (force simp: marks_ok_def marked_def less_Suc_eq)
  qed
  then show "marks_ok s n p sn1 k" using m unfolding marks_ok_def e by (simp add: sn1_def)
qed

definition final_ok :: "32 word set \<Rightarrow> nat \<Rightarrow> Lit \<Rightarrow> Solver \<Rightarrow> nat \<Rightarrow> IntSet \<Rightarrow> nat list \<Rightarrow> (IntSet \<times> Solver) option \<Rightarrow> bool" where
  "final_ok A n p s i out sn r \<longleftrightarrow> (\<exists>out' sn'. r = Some (out', s\<lparr>sv_seen := sn'\<rparr>) \<and> marks_ok s n p sn' 0 \<and> iset_inv out'
     \<and> set (iset_xs out) \<subseteq> set (iset_xs out') \<and> set (iset_xs out') \<subseteq> set (iset_xs out) \<union> negated_decisions s
     \<and> (\<forall>\<alpha>. refutes A s out' \<alpha> \<longrightarrow> (\<forall>j\<in>marked s sn i. Lit_holds \<alpha> (sv_trail s ! j))))"

lemma refutesD:
  assumes "refutes A s out \<alpha>"
  shows "cr \<in> A \<Longrightarrow> \<exists>l\<in>set (cl s cr). Lit_holds \<alpha> l" "i < length (sv_trail s) \<Longrightarrow> root_pos s i \<Longrightarrow> Lit_holds \<alpha> (sv_trail s ! i)"
    "lit_index l \<in> set (iset_xs out) \<Longrightarrow> \<not> Lit_holds \<alpha> l"
  using assms by (auto simp: refutes_def models_def)

text \<open>A decision: its negation enters the conflict.\<close>

lemma final_decision:
  assumes t: "trail_inv n s" "k < length (sv_trail s)" "\<not> root_pos s k" "reason_at s k = CRef_Undef"
    and m: "marks_ok s n p sn (Suc k)" and o: "IntSet_insert (lit_index (Lit_neg (sv_trail s ! k))) out = Some out1"
      "set (iset_xs out1) = insert (lit_index (Lit_neg (sv_trail s ! k))) (set (iset_xs out))"
    and ih: "final_ok A n p s k out1 (sn[var_index (sv_trail s ! k) := 0]) r"
  shows "final_ok A n p s (Suc k) out sn r"
proof -
  note cm = marks_clear [OF t(1,2) m]
  have d: "lit_index (Lit_neg (sv_trail s ! k)) \<in> negated_decisions s" using t by (auto simp: negated_decisions_def)
  obtain out' sn' where r: "r = Some (out', s\<lparr>sv_seen := sn'\<rparr>)" "marks_ok s n p sn' 0" "iset_inv out'" "set (iset_xs out1) \<subseteq> set (iset_xs out')"
    "set (iset_xs out') \<subseteq> set (iset_xs out1) \<union> negated_decisions s"
    "\<forall>\<alpha>. refutes A s out' \<alpha> \<longrightarrow> (\<forall>j\<in>marked s sn k. Lit_holds \<alpha> (sv_trail s ! j))" using ih unfolding final_ok_def cm(2) by blast
  have "Lit_holds \<alpha> (sv_trail s ! j)" if a: "refutes A s out' \<alpha>" and j: "j \<in> marked s sn (Suc k)" for \<alpha> j
  proof (cases "j = k")
    case True
    have "\<not> Lit_holds \<alpha> (Lit_neg (sv_trail s ! k))" using refutesD(3) [OF a] r(4) o(2) by blast
    then show ?thesis using True by simp
  next
    case False
    then have "j \<in> marked s sn k" using j by (auto simp: marked_def)
    then show ?thesis using r(6) a by blast
  qed
  moreover have "set (iset_xs out) \<subseteq> set (iset_xs out')" "set (iset_xs out') \<subseteq> set (iset_xs out) \<union> negated_decisions s"
    using r(4,5) o(2) d by auto
  ultimately show ?thesis using r(1-3) unfolding final_ok_def by (intro exI [of _ out'] exI [of _ sn'] conjI) simp_all
qed

text \<open>A propagated literal: the others of its reason are marked.\<close>

lemma reason_tail:
  assumes "core A n s" "reasons_ok A s" "k < length (sv_trail s)" "\<not> root_pos s k" "reason_at s k \<noteq> CRef_Undef"
  shows "reason_at s k \<in> A" "set (cl s (reason_at s k)) = insert (sv_trail s ! k) (set (drop 1 (cl s (reason_at s k))))"
    "m \<in> set (drop 1 (cl s (reason_at s k))) \<Longrightarrow> \<exists>j<k. sv_trail s ! j = Lit_neg m"
proof -
  have p: "reason_at s k \<in> A" "cl s (reason_at s k) ! 0 = sv_trail s ! k"
    "\<forall>m\<in>set (cl s (reason_at s k)). m = sv_trail s ! k \<or> Lit_neg m \<in> set (take k (sv_trail s))"
    using assms(2-5) unfolding reasons_ok_def reason_pos_def by blast+
  show "reason_at s k \<in> A" by (rule p(1))
  have "lits_ok n (cl s (reason_at s k))" using assms(1) p(1) by (fastforce simp: core_def store_ok_def clause_in_def)
  then obtain ls where ls: "cl s (reason_at s k) = sv_trail s ! k # ls" "distinct (sv_trail s ! k # ls)"
    using p(2) by (cases "cl s (reason_at s k)") (auto simp: lits_ok_def)
  then show "set (cl s (reason_at s k)) = insert (sv_trail s ! k) (set (drop 1 (cl s (reason_at s k))))" by simp
  show "\<exists>j<k. sv_trail s ! j = Lit_neg m" if "m \<in> set (drop 1 (cl s (reason_at s k)))"
  proof -
    have "Lit_neg m \<in> set (take k (sv_trail s))" using that ls p(3) by auto
    then show ?thesis using assms(3) by (auto simp: in_set_conv_nth)
  qed
qed

lemma level_root:
  assumes "reasons_ok A s" "j < length (sv_trail s)" "var_index (sv_trail s ! j) = x"
  shows "vd_level (sv_vardata s ! x) = 0 \<longleftrightarrow> root_pos s j"
proof -
  have "reason_pos A s j" using assms(1,2) by (simp add: reasons_ok_def)
  then show ?thesis unfolding reason_pos_def assms(3) by (rule conjunct1)
qed

lemma final_reason:
  assumes c: "core A n s" "reasons_ok A s" and k: "k < length (sv_trail s)" "\<not> root_pos s k" "reason_at s k \<noteq> CRef_Undef"
    and m: "marks_ok s n p sn (Suc k)" and sn0: "length sn0 = n" "\<forall>y<n. sn0 ! y \<noteq> 0 \<longleftrightarrow> sn ! y \<noteq> 0
      \<or> (\<exists>m\<in>set (drop 1 (cl s (reason_at s k))). y = var_index m \<and> 0 < vd_level (sv_vardata s ! y))"
  shows "marks_ok s n p sn0 (Suc k)"
    "final_ok A n p s k out (sn0[var_index (sv_trail s ! k) := 0]) r \<Longrightarrow> final_ok A n p s (Suc k) out sn r"
proof -
  have t: "trail_inv n s" using c(1) by (simp add: core_def)
  note rt = reason_tail [OF c k]
  have var: "var_index (sv_trail s ! j) < n" if "j \<le> k" for j
    using that t k(1) slit_ok_var [of n "sv_trail s ! j"] by (simp add: trail_inv_def)
  have sub: "marked s sn (Suc k) \<subseteq> marked s sn0 (Suc k)" using var sn0(2) by (auto simp: marked_def)
  have new: "\<exists>j<k. sv_trail s ! j = Lit_neg q \<and> (root_pos s j \<or> j \<in> marked s sn0 (Suc k))" if q: "q \<in> set (drop 1 (cl s (reason_at s k)))" for q
  proof -
    obtain j where j: "j < k" "sv_trail s ! j = Lit_neg q" using rt(3) [OF q] by blast
    have v: "var_index (sv_trail s ! j) = var_index q" using j(2) by simp
    have "vd_level (sv_vardata s ! var_index q) = 0 \<longleftrightarrow> root_pos s j"
      using level_root [OF c(2) _ v] j(1) k(1) by simp
    then have "root_pos s j \<or> sn0 ! var_index q \<noteq> 0" using sn0(2) var [of j] j(1) q unfolding v by auto
    then show ?thesis using j by (auto simp: marked_def)
  qed
  have "y = var_index p \<or> (\<exists>j\<in>marked s sn0 (Suc k). y = var_index (sv_trail s ! j))" if y: "y < n" "sn0 ! y \<noteq> 0" for y
  proof (cases "sn ! y = 0")
    case True
    then obtain q where q: "q \<in> set (drop 1 (cl s (reason_at s k)))" "y = var_index q" "0 < vd_level (sv_vardata s ! y)" using sn0(2) y by blast
    then obtain j where j: "j < k" "sv_trail s ! j = Lit_neg q" using rt(3) [OF q(1)] by blast
    have v: "var_index (sv_trail s ! j) = y" using j(2) q(2) by simp
    have "vd_level (sv_vardata s ! y) = 0 \<longleftrightarrow> root_pos s j"
      using level_root [OF c(2) _ v] j(1) k(1) by simp
    then have "j \<in> marked s sn0 (Suc k)" using q(3) j(1) y(2) v by (simp add: marked_def)
    then show ?thesis using v by blast
  next
    case False
    then show ?thesis using m y(1) sub unfolding marks_ok_def by (meson subsetD)
  qed
  then show m0: "marks_ok s n p sn0 (Suc k)" using sn0(1) by (simp add: marks_ok_def)
  note cm = marks_clear [OF t k(1) m0]
  assume ih: "final_ok A n p s k out (sn0[var_index (sv_trail s ! k) := 0]) r"
  obtain out' sn' where r: "r = Some (out', s\<lparr>sv_seen := sn'\<rparr>)" "marks_ok s n p sn' 0" "iset_inv out'" "set (iset_xs out) \<subseteq> set (iset_xs out')"
    "set (iset_xs out') \<subseteq> set (iset_xs out) \<union> negated_decisions s"
    "\<forall>\<alpha>. refutes A s out' \<alpha> \<longrightarrow> (\<forall>j\<in>marked s sn0 k. Lit_holds \<alpha> (sv_trail s ! j))" using ih unfolding final_ok_def cm(2) by blast
  have "Lit_holds \<alpha> (sv_trail s ! j)" if a: "refutes A s out' \<alpha>" and j: "j \<in> marked s sn (Suc k)" for \<alpha> j
  proof (cases "j = k")
    case False
    then have "j \<in> marked s sn0 k" using j sub by (auto simp: marked_def)
    then show ?thesis using r(6) a by blast
  next
    case True
    obtain q where q: "q \<in> set (cl s (reason_at s k))" "Lit_holds \<alpha> q" using refutesD(1) [OF a rt(1)] by blast
    have "q = sv_trail s ! k"
    proof (rule ccontr)
      assume "q \<noteq> sv_trail s ! k"
      then have "q \<in> set (drop 1 (cl s (reason_at s k)))" using q(1) rt(2) by blast
      then obtain i where i: "i < k" "sv_trail s ! i = Lit_neg q" "root_pos s i \<or> i \<in> marked s sn0 k"
        using new by (fastforce simp: marked_def)
      then have "Lit_holds \<alpha> (Lit_neg q)" using refutesD(2) [OF a, of i] r(6) a k(1) by force
      then show False using q(2) by simp
    qed
    then show ?thesis using q(2) True by simp
  qed
  then show "final_ok A n p s (Suc k) out sn r"
    using r(1-5) unfolding final_ok_def by (intro exI [of _ out'] exI [of _ sn'] conjI) simp_all
qed

lemma final_loop_ok:
  assumes c: "core A n s" "reasons_ok A s" and lim: "sv_trail_lim s \<noteq> []"
  shows "k \<le> length (sv_trail s) \<Longrightarrow> marks_ok s n p sn k \<Longrightarrow> iset_inv out \<Longrightarrow>
    final_ok A n p s k out sn (final_loop (hd (sv_trail_lim s)) k out (s\<lparr>sv_seen := sn\<rparr>))"
proof (induction k arbitrary: sn out)
  case 0
  then show ?case unfolding final_ok_def by (intro exI [of _ out] exI [of _ sn]) (simp add: marked_def)
next
  case (Suc k)
  have t: "trail_inv n s" using c(1) by (simp add: core_def)
  have root: "root_pos s i \<longleftrightarrow> i < hd (sv_trail_lim s)" for i using lim by (simp add: root_pos_def)
  let ?x = "var_index (sv_trail s ! k)" and ?L = "final_loop (hd (sv_trail_lim s))"
  have k: "k < length (sv_trail s)" using Suc.prems(1) by simp
  have x: "?x < n" "length sn = n" "length (sv_vardata s) = n"
    using t k slit_ok_var [of n "sv_trail s ! k"] Suc.prems(2) by (auto simp: trail_inv_def marks_ok_def)
  have vd: "vd_reason (sv_vardata s ! ?x) = reason_at s k" by (simp add: reason_at_def)
  show ?case
  proof (cases "hd (sv_trail_lim s) \<le> k")
    case False
    then have "marked s sn (Suc k) = {}" using root by (auto simp: marked_def)
    then have "marks_ok s n p sn 0" using Suc.prems(2) by (auto simp: marks_ok_def)
    then show ?thesis using False Suc.prems(3) \<open>marked s sn (Suc k) = {}\<close>
      unfolding final_ok_def by (intro exI [of _ out] exI [of _ sn]) simp
  next
    case True
    then have nr: "\<not> root_pos s k" using root by simp
    consider "sn ! ?x = 0" | "sn ! ?x \<noteq> 0" "reason_at s k = CRef_Undef" | "sn ! ?x \<noteq> 0" "reason_at s k \<noteq> CRef_Undef" by blast
    then show ?thesis
    proof cases
      case 1
      have e: "marked s sn (Suc k) = marked s sn k" using 1 by (auto simp: marked_def less_Suc_eq)
      have "final_ok A n p s k out sn (?L k out (s\<lparr>sv_seen := sn\<rparr>))"
        using Suc.IH [of sn out] Suc.prems e k by (simp add: marks_ok_def)
      moreover have "?L (Suc k) out (s\<lparr>sv_seen := sn\<rparr>) = ?L k out (s\<lparr>sv_seen := sn\<rparr>)" using True 1 x by simp
      ultimately show ?thesis unfolding final_ok_def e by simp
    next
      case 2
      obtain out1 where o: "IntSet_insert (lit_index (Lit_neg (sv_trail s ! k))) out = Some out1" "iset_inv out1"
        "set (iset_xs out1) = insert (lit_index (Lit_neg (sv_trail s ! k))) (set (iset_xs out))" using IntSet_insert_ok [OF Suc.prems(3)] by blast
      have "0 < vd_level (sv_vardata s ! ?x)" using level_root [OF c(2) k refl] nr by simp
      then have "?L (Suc k) out (s\<lparr>sv_seen := sn\<rparr>) = ?L k out1 (s\<lparr>sv_seen := sn[?x := 0]\<rparr>)" using True 2 x o(1) vd by simp
      moreover have "final_ok A n p s k out1 (sn[?x := 0]) (?L k out1 (s\<lparr>sv_seen := sn[?x := 0]\<rparr>))"
        using Suc.IH [OF _ marks_clear(1) [OF t k Suc.prems(2)] o(2)] k by simp
      ultimately show ?thesis using final_decision [OF t k nr 2(2) Suc.prems(2) o(1,3)] by simp
    next
      case 3
      note rt = reason_tail [OF c k nr 3(2)]
      obtain c0 where c0: "ca_deref (sv_ca s) (reason_at s k) = Some c0" "clause_in n c0" using c(1) rt(1) unfolding core_def store_ok_def by blast
      have "\<forall>l\<in>set (drop 1 (Clause_lits c0)). var_index l < n"
        using c0(2) t slit_ok_var unfolding clause_in_def lits_ok_def trail_inv_def by (meson in_set_dropD)
      then obtain sn0 where sn0: "mark_seen s (drop 1 (Clause_lits c0)) sn = Some sn0" "length sn0 = n"
        "\<forall>y<n. sn0 ! y \<noteq> 0 \<longleftrightarrow> sn ! y \<noteq> 0 \<or> (\<exists>m\<in>set (drop 1 (cl s (reason_at s k))). y = var_index m \<and> 0 < vd_level (sv_vardata s ! y))"
        using mark_seen_ok [OF _ x(3,2)] unfolding cl_deref [OF c0(1)] by blast
      note fr = final_reason [OF c k nr 3(2) Suc.prems(2) sn0(2,3)]
      have "?L (Suc k) out (s\<lparr>sv_seen := sn\<rparr>) = ?L k out (s\<lparr>sv_seen := sn0[?x := 0]\<rparr>)"
        using True 3 x c0(1) sn0(1,2) vd by (simp add: mark_seen_seen)
      moreover have "final_ok A n p s k out (sn0[?x := 0]) (?L k out (s\<lparr>sv_seen := sn0[?x := 0]\<rparr>))"
        using Suc.IH [OF _ marks_clear(1) [OF t k fr(1)] Suc.prems(3)] k by simp
      ultimately show ?thesis using fr(2) by simp
    qed
  qed
qed

lemma analyzeFinal_ok:
  assumes "sv_inv A n s" "reasons_ok A s" "sv_seen s = replicate n 0" "iset_inv out" "p \<in> set (sv_trail s)"
  shows "\<exists>out'. analyzeFinal p out s = Some (out', s) \<and> iset_inv out' \<and> lit_index p \<in> set (iset_xs out')
    \<and> set (iset_xs out') \<subseteq> insert (lit_index p) (negated_decisions s)
    \<and> (\<forall>\<alpha>. models \<alpha> A s \<and> (\<forall>i<length (sv_trail s). root_pos s i \<longrightarrow> Lit_holds \<alpha> (sv_trail s ! i))
         \<longrightarrow> (\<exists>l. lit_index l \<in> set (iset_xs out') \<and> Lit_holds \<alpha> l))"
proof -
  have c: "core A n s" and t: "trail_inv n s" using assms(1) by (simp_all add: sv_inv_def core_def)
  obtain i where i: "i < length (sv_trail s)" "sv_trail s ! i = p" using assms(5) by (auto simp: in_set_conv_nth)
  have x: "var_index p < n" using t assms(5) slit_ok_var by (simp add: trail_inv_def)
  obtain out1 out2 where o: "IntSet_clear False out = Some out1" "IntSet_insert (lit_index p) out1 = Some out2" "iset_inv out2"
    "set (iset_xs out2) = {lit_index p}" using IntSet_clear_ok [OF assms(4), of False] IntSet_insert_ok by (metis empty_set)
  have refute: "\<exists>l. lit_index l \<in> set (iset_xs out') \<and> Lit_holds \<alpha> l"
    if "models \<alpha> A s" "\<forall>i<length (sv_trail s). root_pos s i \<longrightarrow> Lit_holds \<alpha> (sv_trail s ! i)" "lit_index p \<in> set (iset_xs out')"
      "refutes A s out' \<alpha> \<Longrightarrow> \<not> root_pos s i \<Longrightarrow> Lit_holds \<alpha> p" for \<alpha> out'
    using that i unfolding refutes_def by blast
  show ?thesis
  proof (cases "sv_trail_lim s = []")
    case True
    then have "root_pos s i" by (simp add: root_pos_def)
    then show ?thesis using True o refute [of _ out2] by (auto simp: analyzeFinal_def decisionLevel_def)
  next
    case False
    define sn where "sn = (replicate n 0)[var_index p := 1 :: nat]"
    have sn: "length sn = n" "\<And>y. y < n \<Longrightarrow> sn ! y \<noteq> 0 \<longleftrightarrow> y = var_index p" using x by (simp_all add: sn_def nth_list_update)
    then have m: "marks_ok s n p sn (length (sv_trail s))" by (simp add: marks_ok_def)
    obtain out' sn' where r: "final_loop (hd (sv_trail_lim s)) (length (sv_trail s)) out2 (s\<lparr>sv_seen := sn\<rparr>) = Some (out', s\<lparr>sv_seen := sn'\<rparr>)"
      "marks_ok s n p sn' 0" "iset_inv out'" "set (iset_xs out2) \<subseteq> set (iset_xs out')" "set (iset_xs out') \<subseteq> set (iset_xs out2) \<union> negated_decisions s"
      "\<forall>\<alpha>. refutes A s out' \<alpha> \<longrightarrow> (\<forall>j\<in>marked s sn (length (sv_trail s)). Lit_holds \<alpha> (sv_trail s ! j))"
      using final_loop_ok [OF c assms(2) False _ m o(3)] unfolding final_ok_def by blast
    have sn': "length sn' = n" "\<And>y. y < n \<Longrightarrow> y \<noteq> var_index p \<Longrightarrow> sn' ! y = 0" using r(2) by (auto simp: marks_ok_def marked_def)
    have "sn'[var_index p := 0] ! y = 0" if "y < n" for y using that sn' by (cases "y = var_index p") simp_all
    then have "sn'[var_index p := 0] = sv_seen s" using assms(3) sn'(1) by (intro nth_equalityI) simp_all
    then have "s\<lparr>sv_seen := sn'[var_index p := 0]\<rparr> = s" by simp
    then have "analyzeFinal p out s = Some (out', s)"
      using o(1,2) r(1) x assms(3) False sn'(1) by (simp add: analyzeFinal_def decisionLevel_def sn_def hd_conv_nth)
    moreover have "\<not> root_pos s i \<Longrightarrow> i \<in> marked s sn (length (sv_trail s))" using i sn(2) [OF x] by (simp add: marked_def)
    then have "\<exists>l. lit_index l \<in> set (iset_xs out') \<and> Lit_holds \<alpha> l"
      if "models \<alpha> A s" "\<forall>i<length (sv_trail s). root_pos s i \<longrightarrow> Lit_holds \<alpha> (sv_trail s ! i)" for \<alpha>
      using refute [OF that, of out'] r(4,6) o(4) i(2) by blast
    ultimately show ?thesis using r(3-5) o(4) by blast
  qed
qed

text \<open>
  C34. The final analysis of a literal \<open>p\<close> on the trail finds the assumptions that led to its assignment: it
  returns, restores the marks of the variables, and leaves the rest of the solver as it was; apart
  from \<open>p\<close> itself, the set it returns consists of negated decisions, which the assumptions are, and whenever
  the clauses, the literals below the first decision and those decisions hold, so does \<open>p\<close>.
\<close>

theorem analyzeFinal_sound:
  assumes "sv_inv A n s" "reasons_ok A s" "sv_seen s = replicate n 0" "iset_inv out" "p \<in> set (sv_trail s)"
  shows "\<exists>out'. analyzeFinal p out s = Some (out', s) \<and> iset_inv out'
    \<and> set (iset_xs out') - {lit_index p} \<subseteq> negated_decisions s
    \<and> (\<forall>\<alpha>. models \<alpha> A s \<and> (\<forall>i<length (sv_trail s). root_pos s i \<longrightarrow> Lit_holds \<alpha> (sv_trail s ! i))
         \<and> (\<forall>d. lit_index (Lit_neg d) \<in> set (iset_xs out') - {lit_index p} \<longrightarrow> Lit_holds \<alpha> d) \<longrightarrow> Lit_holds \<alpha> p)"
proof -
  obtain out' where o: "analyzeFinal p out s = Some (out', s)" "iset_inv out'" "set (iset_xs out') \<subseteq> insert (lit_index p) (negated_decisions s)"
    "\<forall>\<alpha>. models \<alpha> A s \<and> (\<forall>i<length (sv_trail s). root_pos s i \<longrightarrow> Lit_holds \<alpha> (sv_trail s ! i))
       \<longrightarrow> (\<exists>l. lit_index l \<in> set (iset_xs out') \<and> Lit_holds \<alpha> l)"
    using analyzeFinal_ok [OF assms] by blast
  have "Lit_holds \<alpha> p" if h: "models \<alpha> A s" "\<forall>i<length (sv_trail s). root_pos s i \<longrightarrow> Lit_holds \<alpha> (sv_trail s ! i)"
      "\<forall>d. lit_index (Lit_neg d) \<in> set (iset_xs out') - {lit_index p} \<longrightarrow> Lit_holds \<alpha> d" for \<alpha>
  proof -
    obtain l where l: "lit_index l \<in> set (iset_xs out')" "Lit_holds \<alpha> l" using o(4) h(1,2) by blast
    have "lit_index l = lit_index p" using h(3) [rule_format, of "Lit_neg l"] l by auto
    then show ?thesis using l(2) by (auto simp: lit_index_def dest: unsigned_word_eqI)
  qed
  then show ?thesis using o(1-3) by blast
qed

lemma chain_final: "case chain_decided \<bind> propagate_core of None \<Rightarrow> False
  | Some (confl, s) \<Rightarrow> sv_seen s = replicate 3 0 \<and> map_option (iset_xs \<circ> fst) (analyzeFinal 4 IntSet_new s) = Some [4, 1]"
  by code_simp

theorem analyzeFinal_sound_witness:
  "\<exists>t d s out. chain_solver = Some t \<and> chain_decided = Some d \<and> propagate_core d = Some (CRef_Undef, s)
     \<and> analyzeFinal 4 IntSet_new s = Some (out, s) \<and> iset_xs out = [4, 1]
     \<and> (\<forall>\<alpha>. models \<alpha> (set (sv_clauses t)) s \<and> Lit_holds \<alpha> 0 \<longrightarrow> Lit_holds \<alpha> 4)"
proof -
  obtain t d where d: "chain_solver = Some t" "chain_decided = Some d" "sv_inv (set (sv_clauses t)) 3 d" "propagated (set (sv_clauses t)) d"
    "reasons_ok (set (sv_clauses t)) d" using chain_decided_ok by blast
  obtain confl s where s: "propagate_core d = Some (confl, s)" "sv_inv (set (sv_clauses t)) 3 s" "reasons_ok (set (sv_clauses t)) s"
    using propagate_core_ok [OF d(3,4)] d(5) by blast
  then have c: "confl = CRef_Undef" "sv_trail s = [0, 2, 4]" "sv_trail_lim s = [0]" "sv_seen s = replicate 3 0"
    "map_option (iset_xs \<circ> fst) (analyzeFinal 4 IntSet_new s) = Some [4, 1]"
    using chain_propagates chain_final unfolding d(2) by simp_all
  have "iset_inv IntSet_new" "4 \<in> set (sv_trail s)" using c(2) by (simp_all add: iset_inv_def IntSet_new_def)
  then obtain out where o: "analyzeFinal 4 IntSet_new s = Some (out, s)"
    "\<forall>\<alpha>. models \<alpha> (set (sv_clauses t)) s \<and> (\<forall>i<length (sv_trail s). root_pos s i \<longrightarrow> Lit_holds \<alpha> (sv_trail s ! i))
       \<and> (\<forall>d. lit_index (Lit_neg d) \<in> set (iset_xs out) - {lit_index 4} \<longrightarrow> Lit_holds \<alpha> d) \<longrightarrow> Lit_holds \<alpha> 4"
    using analyzeFinal_sound [OF s(2,3) c(4)] by blast
  have xs: "iset_xs out = [4, 1]" using c(5) o(1) by simp
  have "d = 0" if "lit_index (Lit_neg d) \<in> {4, 1} - {lit_index 4}" for d :: Lit
  proof -
    have "Lit_neg d = 1" using that unsigned_word_eqI [of "Lit_neg d" 1, where ?'a = nat] by (auto simp: lit_index_def)
    moreover have "Lit_neg 1 = 0" by (simp add: Lit_neg_def)
    ultimately show ?thesis by (metis Lit_neg_neg)
  qed
  moreover have "\<not> root_pos s i" for i using c(3) by (simp add: root_pos_def)
  ultimately have "\<forall>\<alpha>. models \<alpha> (set (sv_clauses t)) s \<and> Lit_holds \<alpha> 0 \<longrightarrow> Lit_holds \<alpha> 4" using o(2) xs by (metis empty_set list.simps(15))
  then show ?thesis using d(1,2) s(1) c(1) o(1) xs by blast
qed

end
