(* ===== verification/MiniLuby.thy ===== *)
theory MiniLuby
  imports Basic
begin

text \<open>
  \<^verbatim>\<open>luby\<close> of \<^verbatim>\<open>src/minisat/minisat/core/Solver.cc\<close>, the restart sequence of MiniSat: the code finds the
  finite subsequence that contains the index and descends into it. It computes the sequence
  of the comment above it. The sizes stay within \<^verbatim>\<open>int\<close>.
\<close>

section \<open>The code\<close>

text \<open>The first loop; the values of \<^verbatim>\<open>size\<close> are checked against \<^verbatim>\<open>INT_MAX\<close>, \<open>None\<close> is an overflow.\<close>

function luby_up :: "nat \<Rightarrow> nat \<Rightarrow> nat \<Rightarrow> (nat \<times> nat) option" where
  "luby_up x sz seq =
     (if INT_MAX < int sz then None
      else if sz < x + 1 then luby_up x (2 * sz + 1) (seq + 1) else Some (sz, seq))"
  by pat_completeness auto
termination by (relation "measure (\<lambda>(x, sz, seq). x + 1 - sz)") auto

text \<open>The second loop; \<open>None\<close> is a division by zero.\<close>

function luby_down :: "nat \<Rightarrow> nat \<Rightarrow> nat \<Rightarrow> nat option" where
  "luby_down sz seq x =
     (if sz - 1 \<noteq> x
      then let sz' = (sz - 1) div 2 in
           if sz' = 0 then None else luby_down sz' (seq - 1) (x mod sz')
      else Some seq)"
  by pat_completeness auto
termination by (relation "measure (\<lambda>(sz, seq, x). sz)") auto

declare luby_up.simps [simp del] luby_down.simps [simp del]

definition luby :: "'a::monoid_mult \<Rightarrow> nat \<Rightarrow> 'a option" where
  "luby y x = Option.bind (luby_up x 1 0) (\<lambda>(sz, seq). map_option (power y) (luby_down sz seq x))"

section \<open>The sequence of the comment\<close>

fun luby_finite :: "nat \<Rightarrow> nat list" where
  "luby_finite 0 = [1]"
| "luby_finite (Suc k) = luby_finite k @ luby_finite k @ [2 ^ Suc k]"

fun luby_exps :: "nat \<Rightarrow> nat list" where
  "luby_exps 0 = [0]"
| "luby_exps (Suc k) = luby_exps k @ luby_exps k @ [Suc k]"

lemma luby_finite_exps: "luby_finite k = map (power 2) (luby_exps k)"
  by (induction k) simp_all

lemma luby_exps_length: "length (luby_exps k) = 2 ^ Suc k - 1"
proof (induction k)
  case (Suc k)
  have "(2::nat) \<le> 2 ^ Suc k" by simp
  then show ?case using Suc by simp
qed simp

lemma luby_exps_Suc: "x < length (luby_exps k) \<Longrightarrow> luby_exps (Suc k) ! x = luby_exps k ! x"
  by (simp add: nth_append)

lemma luby_exps_mono: "x < length (luby_exps k) \<Longrightarrow> k \<le> m \<Longrightarrow> luby_exps m ! x = luby_exps k ! x"
proof (induction m)
  case (Suc m)
  show ?case
  proof (cases "k \<le> m")
    case True
    have "length (luby_exps k) \<le> length (luby_exps m)"
      unfolding luby_exps_length using True by (simp add: diff_le_mono power_increasing)
    then show ?thesis using Suc True luby_exps_Suc [of x m] by simp
  next
    case False
    then show ?thesis using Suc.prems by (simp add: le_Suc_eq)
  qed
qed simp

lemma luby_size_step: "2 * (2 ^ Suc s - 1) + 1 = (2 ^ Suc (Suc s) - 1 :: nat)"
proof -
  have "(1::nat) \<le> 2 ^ s" by simp
  then show ?thesis unfolding power_Suc by linarith
qed

lemma luby_size_int: "k \<le> 30 \<Longrightarrow> \<not> INT_MAX < int (2 ^ Suc k - 1)"
proof -
  assume "k \<le> 30"
  then have "(2::nat) ^ Suc k \<le> 2 ^ 31" by (intro power_increasing) auto
  then have "2 ^ Suc k \<le> (2147483648::nat)" by simp
  then show ?thesis unfolding INT_MAX_def by linarith
qed

lemma luby_up_finds:
  assumes "x < 2 ^ Suc k - 1" "k \<le> 30" "s \<le> k"
  shows "\<exists>j. luby_up x (2 ^ Suc s - 1) s = Some (2 ^ Suc j - 1, j) \<and> x < 2 ^ Suc j - 1"
  using assms
proof (induction "k - s" arbitrary: s)
  case 0
  then have s: "s = k" by simp
  show ?case using assms(1) luby_size_int [OF assms(2)] unfolding s by (subst luby_up.simps) auto
next
  case (Suc d)
  have i: "\<not> INT_MAX < int (2 ^ Suc s - 1)" using Suc.prems by (intro luby_size_int) simp
  show ?case
  proof (cases "2 ^ Suc s - 1 < x + 1")
    case True
    have n: "2 * (2 ^ Suc s - 1) + 1 = (2 ^ Suc (Suc s) - 1 :: nat)" by (rule luby_size_step)
    have "luby_up x (2 ^ Suc s - 1) s = luby_up x (2 ^ Suc (Suc s) - 1) (Suc s)"
      using True i n by (subst luby_up.simps) simp
    then show ?thesis using Suc.hyps(1) [of "Suc s"] Suc.hyps(2) Suc.prems by auto
  next
    case False
    then have "luby_up x (2 ^ Suc s - 1) s = Some (2 ^ Suc s - 1, s)" using i by (subst luby_up.simps) simp
    then show ?thesis using False by auto
  qed
qed

lemma luby_down_exps:
  "x < 2 ^ Suc k - 1 \<Longrightarrow> luby_down (2 ^ Suc k - 1) k x = Some (luby_exps k ! x)"
proof (induction k arbitrary: x)
  case 0
  then show ?case by (subst luby_down.simps) simp
next
  case (Suc k)
  define n where "n = (2 ^ Suc k - 1 :: nat)"
  have n: "0 < n" using one_less_power [of "2::nat" "Suc k"] by (simp add: n_def)
  have len: "length (luby_exps k) = n" unfolding n_def by (rule luby_exps_length)
  have two: "2 ^ Suc (Suc k) - 1 = 2 * n + 1" using luby_size_step [of k] unfolding n_def by simp
  show ?case
  proof (cases "x = 2 * n")
    case True
    then show ?thesis unfolding two using len by (subst luby_down.simps) (simp add: nth_append)
  next
    case False
    then have x: "x < 2 * n" using Suc.prems two by linarith
    have "luby_down (2 * n + 1) (Suc k) x = luby_down n k (x mod n)"
      using False n by (subst luby_down.simps) (simp add: Let_def)
    also have "\<dots> = Some (luby_exps k ! (x mod n))" using n Suc.IH [of "x mod n"] unfolding n_def by simp
    also have "luby_exps k ! (x mod n) = luby_exps (Suc k) ! x"
    proof (cases "x < n")
      case True
      then show ?thesis using len by (simp add: nth_append)
    next
      case ge: False
      then have "x mod n = x - n" using x n by (simp add: le_mod_geq)
      moreover have "x - n < n" using ge x by linarith
      ultimately show ?thesis using ge len by (simp add: nth_append)
    qed
    finally show ?thesis unfolding two .
  qed
qed

lemma luby_power:
  assumes len: "x < 2 ^ Suc k - 1" and k: "k \<le> 30"
  shows "luby y x = Some (y ^ (luby_exps k ! x))"
proof -
  obtain j where j: "luby_up x 1 0 = Some (2 ^ Suc j - 1, j)" "x < 2 ^ Suc j - 1"
    using luby_up_finds [OF len k, of 0] by auto
  have "luby_exps j ! x = luby_exps k ! x"
    using luby_exps_mono [of x j k] luby_exps_mono [of x k j] len j(2) luby_exps_length [of j] luby_exps_length [of k]
    by (cases "j \<le> k") (simp_all del: power_Suc)
  then show ?thesis using j luby_down_exps [OF j(2)] by (simp add: luby_def del: power_Suc)
qed

text \<open>
  C35. The function returns for every index below \<open>2 ^ 31 - 1\<close>, without overflow and without a division
  by zero, and gives the sequence of the comment: with factor 2, entry \<open>x\<close> of every finite
  subsequence that has one; with factor \<open>y\<close>, the power of \<open>y\<close> with the same exponent.
\<close>

theorem luby_sequence:
  assumes "x < length (luby_finite k)" "k \<le> 30"
  shows "luby 2 x = Some (luby_finite k ! x) \<and> luby y x = Some (y ^ (luby_exps k ! x))"
proof -
  have len: "x < 2 ^ Suc k - 1" using assms(1) by (simp add: luby_finite_exps luby_exps_length del: power_Suc)
  then have "luby_finite k ! x = 2 ^ (luby_exps k ! x)"
    by (simp add: luby_finite_exps luby_exps_length del: power_Suc)
  then show ?thesis using luby_power [OF len assms(2), of "2::nat"] luby_power [OF len assms(2), of y] by simp
qed

theorem luby_sequence_witness: "luby (2::nat) 6 = Some 4 \<and> luby (3::nat) 6 = Some 9"
proof -
  have "luby_finite 3 = [1, 1, 2, 1, 1, 2, 4, 1, 1, 2, 1, 1, 2, 4, 8]" "luby_exps 3 = [0, 0, 1, 0, 0, 1, 2, 0, 0, 1, 0, 0, 1, 2, 3]"
    by (simp_all add: numeral_3_eq_3)
  then show ?thesis using luby_sequence [of 6 3 "3::nat"] by simp
qed

end
