(* ===== verification/Spec2Isabelle.thy ===== *)
theory Spec2Isabelle
  imports PDR_Fuel AigerFile BMC_Runs SatWrappers Printers MainSetup MiniQueue MiniFinal MiniLuby
begin

text \<open>
  A model checker for AIGER circuits, under \<^verbatim>\<open>src/\<close>: it reads a sequential circuit and decides, by
  property directed reachability (PDR/IC3), bounded model checking (BMC), or a portfolio of
  threads of both, whether a bad literal can become true.

  \<^bold>\<open>Parts of the program and the theories that model them.\<close>

  \<^item> \<open>Prelude\<close>: literals, clauses, assignments and their lemmas; bounds-checked access to
    vectors (\<open>vec_at\<close>), loops over a list that may fail (\<open>fold_opt\<close>), \<^verbatim>\<open>std::set\<close> as an ordered list.
  \<^item> \<open>Basic\<close>: \<^verbatim>\<open>src/basic.hpp\<close>: \<^verbatim>\<open>Literal\<close> and \<^verbatim>\<open>lbool\<close> on 32-bit and 8-bit words, the two numberings
    of literals, \<^verbatim>\<open>validateInput\<close>.
  \<^item> \<open>Aig\<close>: \<^verbatim>\<open>src/aig.hpp\<close>, the class \<^verbatim>\<open>Aiger\<close> and \<^verbatim>\<open>translate_to_dimacs\<close> of \<^verbatim>\<open>src/aig.cpp\<close>, and the meaning
    of a circuit: assignments, transitions, \<open>reach\<close>, \<open>unsafe\<close>.
  \<^item> \<open>AigerFile\<close>: the readers of \<^verbatim>\<open>src/aig.cpp\<close> for the ASCII and the binary format, byte by byte.
    \<open>AigerSem\<close> gives a file its meaning in AIGER's own numbering.
  \<^item> \<open>SatSolver\<close> and \<open>SatWrappers\<close>: \<^verbatim>\<open>src/sat_solver.hpp\<close>: the wrappers \<^verbatim>\<open>CaDiCaL\<close>, \<^verbatim>\<open>minisatSimp\<close> and
    \<^verbatim>\<open>minisatCore\<close>. \<open>RefSolver\<close> is a reference solver with which runs are evaluated.
  \<^item> \<open>PDR_Data\<close>, \<open>PDR_Encode\<close>, \<open>Floats\<close>, \<open>PDR_Core\<close>: the classes of \<^verbatim>\<open>src/PDR.hpp\<close> and the functions of
    \<^verbatim>\<open>src/PDR.cpp\<close>, one definition each: encoding with cones of influence, the heuristic's
    floating point scores, queries, lifting, generalisation with counterexamples to
    generalisation, blocking, propagation, restarts, witness and certificate. The object
    is the record \<open>PDR\<close>; states are allocated in an explicit heap.
  \<^item> \<open>BMC\<close>: \<^verbatim>\<open>src/BMC.hpp\<close> and \<^verbatim>\<open>src/BMC.cpp\<close>: unfolding with local simplification and structural hashing,
    the incremental queries, the witness. The object is the record \<open>BMC\<close>.
  \<^item> \<open>Printers\<close>: the log functions of both and \<^verbatim>\<open>PDR::show_uaiger\<close>.
  \<^item> \<open>MainProg\<close>: \<^verbatim>\<open>src/main.cpp\<close>: arguments, threads, report. Threads are an inductive relation: they
    end in any order, with any view of the global \<^verbatim>\<open>RESULT\<close> that the lock allows.

  \<^item> \<open>MiniQueue\<close>, \<open>MiniSort\<close>, \<open>MiniHeap\<close>: the containers of \<^verbatim>\<open>src/minisat/minisat/mtl\<close> on which MiniSat's
    preprocessing rests: ring buffer, sorting, indexed heap.
  \<^item> \<open>MiniClause\<close>, \<open>MiniAlloc\<close>, \<open>MiniOcc\<close>: \<^verbatim>\<open>core/SolverTypes.h\<close>, \<^verbatim>\<open>mtl/Alloc.h\<close>, \<^verbatim>\<open>mtl/IntMap.h\<close>: clauses with
    signatures and subsumption, the region allocator on 32-bit words with clause allocation
    and relocation, integer maps and sets, occurrence lists.
  \<^item> \<open>MiniCore\<close>, \<open>MiniFinal\<close>, \<open>MiniLuby\<close>: of \<^verbatim>\<open>core/Solver.h\<close> and \<^verbatim>\<open>core/Solver.cc\<close>, the record \<open>Solver\<close> with \<^verbatim>\<open>newVar\<close>, \<^verbatim>\<open>addClause_\<close>,
    \<^verbatim>\<open>attachClause\<close>, \<^verbatim>\<open>uncheckedEnqueue\<close>, \<^verbatim>\<open>propagate\<close> (named \<open>propagate_core\<close>), \<^verbatim>\<open>cancelUntil\<close>, \<^verbatim>\<open>analyzeFinal\<close>, and the
    restart sequence \<^verbatim>\<open>luby\<close>.

  \<^bold>\<open>What is not under\<close> \<^verbatim>\<open>src/*.cpp\<close> \<^bold>\<open>is a parameter\<close> in the record \<open>env\<close>: the answers of CaDiCaL behind
  IPASIR (\<open>ipasir_contract\<close>: models are models, cores are unsatisfiable subsets of the
  assumptions; \<open>ipasir_complete\<close>: it always answers), MiniSat's preprocessing
  (\<open>eliminate_contract\<close>), \<^verbatim>\<open>random_shuffle\<close> (\<open>shuffle_contract\<close>: it permutes), and what other threads
  write to \<^verbatim>\<open>RESULT\<close>. The reference solver meets these contracts.

  \<^bold>\<open>Errors and bounds.\<close> \<open>None\<close> is a failed \<^verbatim>\<open>assert\<close>, an access out of bounds, a signed overflow or
  another undefined step. The main loop of PDR is a \<open>partial_function\<close>, as it need not end; its
  blocking loop is one too, and the theorems on it concern runs that return. The mutual recursion of
  \<^verbatim>\<open>mic\<close> and \<^verbatim>\<open>CTG_down\<close> has fuel that bounds its depth and rounds (\<open>mic_fuel\<close>); more fuel does not change its result (\<open>PDR_Fuel\<close>). The loops of BMC
  are total functions: the number of frames is bounded by \<^verbatim>\<open>nframes\<close>, the recursion of \<^verbatim>\<open>Aig_And\<close> by
  the number of variables.

  \<^bold>\<open>What is shown.\<close>

  \<^item> \<open>PDR_Query\<close>, \<open>PDR_Inv\<close>, \<open>PDR_Lift\<close>, \<open>PDR_Sem\<close>, \<open>PDR_Gen\<close>, \<open>PDR_Block\<close>, \<open>PDR_Prop\<close>, \<open>PDR_Sound\<close>, \<open>PDR_Runs\<close>, \<open>PDR_Frames\<close>, \<open>PDR_Fuel\<close>:
    the frames over-approximate the states reachable in that many steps, cubes are
    inductive relative to their frame, lifted states reach their successors; so 20 means
    safe and 10 means unsafe, for circuits whose constraints hold wherever the bad literal
    does (\<open>bad_valid\<close>), as in every circuit without constraints. For others both answers can be wrong, because
    lifting a predecessor of a bad state leaves the constraints out. Generalisation ends within its fuel.
  \<^item> \<open>BMC_Unfold\<close>, \<open>BMC_Frames\<close>, \<open>BMC_Sound\<close>, \<open>BMC_Runs\<close>: the unfolded circuit has exactly the runs of the
    circuit, the solver holds a cone-closed part of it; a bug that is reported is real, the
    threads together miss none within the bound, a single thread finds it, and no access is out of
    bounds when the circuit fits the fixed tables (\<open>fits\<close>). The number of nodes is an unbounded
    integer in the model; \<open>bmc_check_returns\<close> gives the condition under which it stays an \<^verbatim>\<open>int\<close>.
  \<^item> \<open>MainSound\<close>, \<open>MainSetup\<close>: the verdict of a portfolio is right for every schedule; options, circuit
    and threads are set up as the threads rely on, so that the verdict is right for the file
    that was read; the report.
  \<^item> \<open>AigerFile\<close>, \<open>AigerSem\<close>, \<open>Basic\<close>, \<open>SatWrappers\<close>, \<open>Printers\<close>: round trips of the encodings, the translated
    circuit means what the file means, agreement of the wrappers (through the locale \<open>clause_sink\<close>), the numbering of
    printed circuits. What the code does not check about a file (literals in range, gates read smaller
    literals) is the hypothesis \<open>file_ok\<close>.
  \<^item> \<open>MiniQueue\<close>, \<open>MiniSort\<close>, \<open>MiniHeap\<close>: the queue refines a list, sorting sorts for every strict weak
    order (locale \<open>weak_order\<close>), the heap (locale \<open>heap_order\<close>) orders variable elimination.
  \<^item> \<open>MiniClause\<close>, \<open>MiniAlloc\<close>, \<open>MiniOcc\<close>: subsumption with signatures decides subsumption, strengthening is
    sound; clauses lie in an array of 32-bit words, and allocation returns blocks that do not
    overlap, or runs out of memory; relocation keeps clauses and sharing, also of clauses that an earlier
    pass has moved; integer sets refine sets.
  \<^item> \<open>MiniProp\<close>, \<open>MiniAdd\<close>, \<open>MiniOrder\<close>, \<open>MiniBuild\<close>, \<open>MiniFinal\<close>, \<open>MiniLuby\<close>: the watch lists hold exactly the watched clauses, propagation
    ends (its loop is a \<open>partial_function\<close>, the measure is the number of literals not yet propagated), is sound
    and complete, adding clauses keeps the formula, backtracking needs no new propagation, the
    final conflict over assumptions follows from the clauses; the restart sequence is that of Luby.

  \<^bold>\<open>Not modelled.\<close> Measured run times, counters that only feed disabled statistics, the
  lock-free queues between threads (the macro \<^verbatim>\<open>share_memory\<close> is 0), destructors; the vendored
  solver under \<^verbatim>\<open>src/cadical\<close>, and of \<^verbatim>\<open>src/minisat\<close> the search loop, the learning of clauses, the reduction of
  learnt clauses, simplification and variable elimination, for which the contracts above stand.
\<close>

end
